(* ===== verification/Telink_Prelude.thy ===== *)
theory Telink_Prelude
  imports Main "HOL-Library.Word" "HOL-Library.Monad_Syntax"
begin

unbundle bit_operations_syntax

text \<open>
  Shared vocabulary of the development.

  \<^item> The fixed-width integers of \<^verbatim>\<open>common/types.h\<close> as words.
  \<^item> Byte buffers as lists.  A C object is a list of bytes of its allocated length; every
    access is checked, and \<open>None\<close> stands for an access outside the object (undefined
    behaviour in C).  A theorem that an operation returns \<open>Some\<close> is therefore a memory
    safety theorem.
  \<^item> The little-endian stream macros of \<^verbatim>\<open>hci_tr_def.h\<close>.
  \<^item> The free-running 32-bit system timer: the current tick is an argument \<open>now\<close> of the
    operations that read \<^verbatim>\<open>clock_time()\<close>, constant while one operation runs.
  \<^item> The generic lemmas on words, lists and options that the components share.
\<close>

type_synonym u8 = "8 word"
type_synonym u16 = "16 word"
type_synonym u32 = "32 word"
type_synonym bytes = "u8 list"

named_theorems mem_simps \<open>unfolding checked buffer accesses\<close>

section \<open>Checked access to byte buffers\<close>

definition rd8 :: "bytes \<Rightarrow> nat \<Rightarrow> u8 option" where
  "rd8 b i = (if i < length b then Some (b ! i) else None)"

definition rd_range :: "bytes \<Rightarrow> nat \<Rightarrow> nat \<Rightarrow> bytes option" where
  "rd_range b i n = (if i + n \<le> length b then Some (take n (drop i b)) else None)"

definition wr8 :: "bytes \<Rightarrow> nat \<Rightarrow> u8 \<Rightarrow> bytes option" where
  "wr8 b i v = (if i < length b then Some (b[i := v]) else None)"

definition wr_range :: "bytes \<Rightarrow> nat \<Rightarrow> bytes \<Rightarrow> bytes option" where
  "wr_range b i d =
     (if i + length d \<le> length b then Some (take i b @ d @ drop (i + length d) b) else None)"

text \<open>
  The macros \<^verbatim>\<open>BYTES_TO_UINT16\<close>, \<^verbatim>\<open>BYTES_TO_UINT32\<close> read at an offset,
  \<^verbatim>\<open>UINT16_TO_BSTREAM\<close>, \<^verbatim>\<open>UINT32_TO_BSTREAM\<close> produce the bytes they store.
\<close>

definition BYTES_TO_UINT16 :: "bytes \<Rightarrow> nat \<Rightarrow> u16 option" where
  "BYTES_TO_UINT16 p i =
     do { b0 \<leftarrow> rd8 p i; b1 \<leftarrow> rd8 p (i + 1);
          Some (ucast b0 + push_bit 8 (ucast b1)) }"

definition BYTES_TO_UINT32 :: "bytes \<Rightarrow> nat \<Rightarrow> u32 option" where
  "BYTES_TO_UINT32 p i =
     do { b0 \<leftarrow> rd8 p i; b1 \<leftarrow> rd8 p (i + 1); b2 \<leftarrow> rd8 p (i + 2); b3 \<leftarrow> rd8 p (i + 3);
          Some (ucast b0 + push_bit 8 (ucast b1) + push_bit 16 (ucast b2)
                + push_bit 24 (ucast b3)) }"

definition UINT16_TO_BSTREAM :: "u16 \<Rightarrow> bytes" where
  "UINT16_TO_BSTREAM n = [ucast n, ucast (drop_bit 8 n)]"

definition UINT32_TO_BSTREAM :: "u32 \<Rightarrow> bytes" where
  "UINT32_TO_BSTREAM n =
     [ucast n, ucast (drop_bit 8 n), ucast (drop_bit 16 n), ucast (drop_bit 24 n)]"

section \<open>The system timer\<close>

text \<open>Timer ticks per microsecond on the B91 (\<^verbatim>\<open>SYSTEM_TIMER_TICK_1US\<close> and multiples).\<close>

definition SYSTEM_TIMER_TICK_1US :: u32 where "SYSTEM_TIMER_TICK_1US = 16"
definition SYSTEM_TIMER_TICK_1MS :: u32 where "SYSTEM_TIMER_TICK_1MS = 16000"
definition SYSTEM_TIMER_TICK_1S :: u32 where "SYSTEM_TIMER_TICK_1S = 16000000"

definition clock_time_exceed :: "u32 \<Rightarrow> u32 \<Rightarrow> u32 \<Rightarrow> bool" where
  "clock_time_exceed now ref us = (now - ref > us * SYSTEM_TIMER_TICK_1US)"

section \<open>Lemmas on checked accesses\<close>

lemma rd8_Some_iff [simp]: "rd8 b i = Some v \<longleftrightarrow> i < length b \<and> v = b ! i"
  by (auto simp: rd8_def)

lemma rd8_None_iff [simp]: "rd8 b i = None \<longleftrightarrow> length b \<le> i"
  by (auto simp: rd8_def)

lemma rd_range_Some_iff: "rd_range b i n = Some d \<longleftrightarrow> i + n \<le> length b \<and> d = take n (drop i b)"
  by (auto simp: rd_range_def)

lemma rd_range_length: "rd_range b i n = Some d \<Longrightarrow> length d = n"
  by (auto simp: rd_range_def split: if_splits)

lemma wr_range_Some_iff:
  "wr_range b i d = Some b' \<longleftrightarrow>
     i + length d \<le> length b \<and> b' = take i b @ d @ drop (i + length d) b"
  by (auto simp: wr_range_def)

lemma wr_range_length: "wr_range b i d = Some b' \<Longrightarrow> length b' = length b"
  by (auto simp: wr_range_def split: if_splits)

lemma wr8_length: "wr8 b i v = Some b' \<Longrightarrow> length b' = length b"
  by (auto simp: wr8_def split: if_splits)

lemma wr8_Some_iff: "wr8 b i v = Some b' \<longleftrightarrow> i < length b \<and> b' = b[i := v]"
  by (auto simp: wr8_def)

text \<open>What was stored is read back, and a store elsewhere is not seen.\<close>

lemma rd_wr_range_same: "wr_range b i d = Some b' \<Longrightarrow> rd_range b' i (length d) = Some d"
  by (auto simp: wr_range_def rd_range_def split: if_splits)

lemma nth_wr_range:
  "wr_range b i d = Some b' \<Longrightarrow> k < length b \<Longrightarrow>
     b' ! k = (if i \<le> k \<and> k < i + length d then d ! (k - i) else b ! k)"
  by (auto simp: wr_range_def nth_append split: if_splits)

lemma rd_wr_range_disjoint:
  assumes w: "wr_range b i d = Some b'" and disj: "j + n \<le> i \<or> i + length d \<le> j"
  shows "rd_range b' j n = rd_range b j n"
proof (cases "j + n \<le> length b")
  case True
  have "take n (drop j b') = take n (drop j b)"
  proof (rule nth_equalityI)
    show "length (take n (drop j b')) = length (take n (drop j b))"
      using wr_range_length [OF w] by simp
    fix k assume "k < length (take n (drop j b'))"
    then have "k < n" and "j + k < length b" using True by auto
    then show "take n (drop j b') ! k = take n (drop j b) ! k"
      using disj wr_range_length [OF w] by (auto simp: nth_wr_range [OF w])
  qed
  then show ?thesis using wr_range_length [OF w] by (simp add: rd_range_def)
next
  case False
  then show ?thesis using wr_range_length [OF w] by (simp add: rd_range_def)
qed

lemma wr8_as_range: "wr8 b i v = wr_range b i [v]"
  by (simp add: wr8_def wr_range_def upd_conv_take_nth_drop Suc_le_eq)

lemma wr_range_append:
  "wr_range b p xs = Some b1 \<Longrightarrow> wr_range b1 (p + length xs) ys = wr_range b p (xs @ ys)"
  by (auto simp: wr_range_def ac_simps split: if_splits)

lemma option_eq_by_Some: "(\<And>x. a = Some x \<longleftrightarrow> b = Some x) \<Longrightarrow> a = b"
  by (metis option.exhaust)

section \<open>Lemmas on words\<close>

lemma bit_less_of_bound:
  fixes v :: "'a::len word"
  assumes "unat v < 2 ^ m" "bit v n"
  shows "n < m"
proof -
  have "take_bit m (unat v) = unat v" using assms(1) by (rule take_bit_nat_eq_self)
  moreover have "bit (unat v) n" using assms(2) by (simp add: bit_unsigned_iff)
  ultimately show ?thesis by (metis bit_take_bit_iff)
qed

lemma unat_u8_less: "unat (x::u8) < 256"
  by (rule less_le_trans [OF unsigned_less]) simp

lemma u8_index_measure: "i < unat (n::u8) \<Longrightarrow> 255 - i < 256 - i"
  using unat_u8_less [of n] by linarith

lemma bit_u8_less: "bit (a::u8) n \<Longrightarrow> n < 8"
  using bit_imp_le_length [of a n] by simp

lemma word_xor_right_cancel [simp]: "(a XOR q = b XOR q) = (a = (b::'a::len word))"
proof
  assume "a XOR q = b XOR q"
  then have "(a XOR q) XOR q = (b XOR q) XOR q" by simp
  then show "a = b" by (simp add: xor.assoc)
qed simp

lemma word_xor_left_cancel [simp]: "(q XOR a = q XOR b) = (a = (b::'a::len word))"
  using word_xor_right_cancel [of a q b] by (simp add: xor.commute)

lemma u16_bytes_plus_or:
  "ucast (a::u8) + push_bit 8 (ucast (b::u8)) = (ucast a OR push_bit 8 (ucast b) :: u16)"
  by (rule disjunctive_add_eq_or) (auto intro!: bit_eqI simp: bit_simps dest!: bit_u8_less)

lemma u16_bytes_inv:
  "ucast (ucast n :: u8) + push_bit 8 (ucast (ucast (drop_bit 8 n) :: u8)) = (n::u16)"
  unfolding u16_bytes_plus_or
  by (rule bit_word_eqI) (auto simp: bit_simps)

lemma u32_bytes_plus_or:
  "ucast (a::u8) + push_bit 8 (ucast (b::u8)) + push_bit 16 (ucast (c::u8)) + push_bit 24 (ucast (d::u8))
   = (ucast a OR push_bit 8 (ucast b) OR push_bit 16 (ucast c) OR push_bit 24 (ucast d) :: u32)"
proof -
  have 1: "ucast a + push_bit 8 (ucast b) = (ucast a OR push_bit 8 (ucast b) :: u32)"
    by (rule disjunctive_add_eq_or) (auto intro!: bit_eqI simp: bit_simps dest!: bit_u8_less)
  have 2: "(ucast a OR push_bit 8 (ucast b)) + push_bit 16 (ucast c)
      = ((ucast a OR push_bit 8 (ucast b)) OR push_bit 16 (ucast c) :: u32)"
    by (rule disjunctive_add_eq_or) (auto intro!: bit_eqI simp: bit_simps dest!: bit_u8_less)
  have 3: "((ucast a OR push_bit 8 (ucast b)) OR push_bit 16 (ucast c)) + push_bit 24 (ucast d)
      = (((ucast a OR push_bit 8 (ucast b)) OR push_bit 16 (ucast c)) OR push_bit 24 (ucast d) :: u32)"
    by (rule disjunctive_add_eq_or) (auto intro!: bit_eqI simp: bit_simps dest!: bit_u8_less)
  show ?thesis unfolding 1 2 3 by (simp only: or.assoc)
qed

lemma u32_bytes_inv:
  "ucast (ucast n :: u8) + push_bit 8 (ucast (ucast (drop_bit 8 n) :: u8))
     + push_bit 16 (ucast (ucast (drop_bit 16 n) :: u8))
     + push_bit 24 (ucast (ucast (drop_bit 24 n) :: u8)) = (n::u32)"
  unfolding u32_bytes_plus_or
proof (rule bit_word_eqI)
  fix k assume "k < LENGTH(32)"
  then consider "k < 8" | "8 \<le> k" "k < 16" | "16 \<le> k" "k < 24" | "24 \<le> k" "k < 32"
    by fastforce
  then show "bit (ucast (ucast n :: u8) OR push_bit 8 (ucast (ucast (drop_bit 8 n) :: u8))
      OR push_bit 16 (ucast (ucast (drop_bit 16 n) :: u8))
      OR push_bit 24 (ucast (ucast (drop_bit 24 n) :: u8)) :: u32) k = bit n k"
    by cases (auto simp: bit_simps)
qed

text \<open>A value stored by the stream macros is read back by the matching reader.\<close>

lemma length_UINT16_TO_BSTREAM [simp]: "length (UINT16_TO_BSTREAM n) = 2"
  by (simp add: UINT16_TO_BSTREAM_def)

lemma length_UINT32_TO_BSTREAM [simp]: "length (UINT32_TO_BSTREAM n) = 4"
  by (simp add: UINT32_TO_BSTREAM_def)

lemma UINT16_TO_BSTREAM_of_nat: "UINT16_TO_BSTREAM (of_nat n) = [of_nat n, of_nat (n div 256)]"
proof -
  have "n div 256 = drop_bit 8 n" by (simp add: drop_bit_eq_div)
  then have "(of_nat (n div 256) :: u8) = ucast (drop_bit 8 (of_nat n :: u16))"
    by (auto intro!: bit_word_eqI simp: bit_simps)
  moreover have "(of_nat n :: u8) = ucast (of_nat n :: u16)"
    by (rule bit_word_eqI) (simp add: bit_simps)
  ultimately show ?thesis by (simp add: UINT16_TO_BSTREAM_def)
qed

lemma uint16_roundtrip:
  "BYTES_TO_UINT16 (pre @ UINT16_TO_BSTREAM n @ post) (length pre) = Some n"
  by (simp add: BYTES_TO_UINT16_def UINT16_TO_BSTREAM_def rd8_def nth_append u16_bytes_inv)

lemma uint32_roundtrip:
  "BYTES_TO_UINT32 (pre @ UINT32_TO_BSTREAM n @ post) (length pre) = Some n"
  by (simp add: BYTES_TO_UINT32_def UINT32_TO_BSTREAM_def rd8_def nth_append u32_bytes_inv)

text \<open>Masks of the form \<open>2 ^ k - 1\<close> are reduction modulo \<open>2 ^ k\<close>.\<close>

lemma unat_and_mask_pow2:
  fixes w m :: "'a::len word"
  assumes "unat m + 1 = 2 ^ k"
  shows "unat (w AND m) = unat w mod 2 ^ k"
proof -
  have "unat m = mask k" using assms by (simp add: mask_eq_exp_minus_1)
  then have "unat (w AND m) = unat w AND mask k" by (simp add: unsigned_and_eq)
  then show ?thesis by (simp flip: take_bit_eq_mask add: take_bit_eq_mod)
qed

lemma word_or_1_neq_0 [simp]: "(w OR 1 :: 'a::len word) \<noteq> 0" "(1 OR w :: 'a::len word) \<noteq> 0"
proof -
  have "bit (w OR 1) 0" "bit (1 OR w) 0" by (simp_all add: bit_simps)
  then show "w OR 1 \<noteq> 0" "1 OR w \<noteq> 0" by (metis bit_0_eq bot_apply bot_bool_def)+
qed

lemma unat_of_nat_small: "n < 2 ^ LENGTH('a) \<Longrightarrow> unat (of_nat n :: 'a::len word) = n"
  by (simp add: unat_of_nat)

lemma unat_word_add_no_wrap:
  "unat (a::'a::len word) + unat b < 2 ^ LENGTH('a) \<Longrightarrow> unat (a + b) = unat a + unat b"
  by (simp add: unat_word_ariths)

lemma unat_word_diff:
  "unat (a - b :: 'a::len word) = (unat a + (2 ^ LENGTH('a) - unat b)) mod 2 ^ LENGTH('a)"
proof -
  have la: "unat a < 2 ^ LENGTH('a)" and lb: "unat b < 2 ^ LENGTH('a)" by simp_all
  show ?thesis
  proof (cases "unat b \<le> unat a")
    case True
    then have "unat a + (2 ^ LENGTH('a) - unat b) = (unat a - unat b) + 2 ^ LENGTH('a)"
      using lb by linarith
    moreover have "unat (a - b) = unat a - unat b" using True by (simp add: unat_sub_if')
    moreover have "((unat a - unat b) + 2 ^ LENGTH('a)) mod 2 ^ LENGTH('a) = unat a - unat b"
      using la by (simp only: mod_add_self2 mod_less less_imp_diff_less)
    ultimately show ?thesis by metis
  next
    case False
    then have "unat (a - b) = unat a + 2 ^ LENGTH('a) - unat b" by (simp add: unat_sub_if')
    also have "\<dots> = unat a + (2 ^ LENGTH('a) - unat b)" using lb by linarith
    finally show ?thesis using False lb by (metis mod_less unsigned_less)
  qed
qed

text \<open>
  Distances between free-running or wrapped ring indices: the C idiom
  \<^verbatim>\<open>(wptr - rptr) & mask\<close> computes the difference modulo \<open>2 ^ k\<close>.
\<close>

lemma uint_and_mask_pow2:
  fixes w m :: "'a::len word"
  assumes "unat m + 1 = 2 ^ k"
  shows "uint (w AND m) = uint w mod 2 ^ k"
proof -
  have "uint (w AND m) = int (unat (w AND m))" by simp
  also have "\<dots> = int (unat w mod 2 ^ k)" by (simp only: unat_and_mask_pow2 [OF assms])
  also have "\<dots> = uint w mod 2 ^ k" by (simp add: of_nat_mod)
  finally show ?thesis .
qed

lemma pow2_mask_le:
  fixes m :: "'a::len word"
  assumes "unat m + 1 = 2 ^ k"
  shows "k \<le> LENGTH('a)"
proof -
  have "unat m + 1 \<le> 2 ^ LENGTH('a)" using unsigned_less [of m] by (simp add: Suc_le_eq)
  then have "(2::nat) ^ k \<le> 2 ^ LENGTH('a)" using assms by simp
  then show ?thesis by simp
qed

lemma uint_ring_distance:
  fixes a b m :: "'a::len word"
  assumes "unat m + 1 = 2 ^ k"
  shows "uint ((a - b) AND m) = (uint a - uint b) mod 2 ^ k"
proof -
  have "uint ((a - b) AND m) = (uint a - uint b) mod 2 ^ LENGTH('a) mod 2 ^ k"
    by (simp add: uint_and_mask_pow2 [OF assms] uint_word_ariths)
  also have "\<dots> = (uint a - uint b) mod 2 ^ k"
    by (rule mod_mod_cancel) (simp add: le_imp_power_dvd pow2_mask_le [OF assms])
  finally show ?thesis .
qed

lemma uint_ring_advance:
  fixes a b m :: "'a::len word"
  assumes "unat m + 1 = 2 ^ k"
  shows "uint ((a + b) AND m) = (uint a + uint b) mod 2 ^ k"
proof -
  have "uint ((a + b) AND m) = (uint a + uint b) mod 2 ^ LENGTH('a) mod 2 ^ k"
    by (simp add: uint_and_mask_pow2 [OF assms] uint_word_ariths)
  also have "\<dots> = (uint a + uint b) mod 2 ^ k"
    by (rule mod_mod_cancel) (simp add: le_imp_power_dvd pow2_mask_le [OF assms])
  finally show ?thesis .
qed

lemma unat_eqI_uint: "uint w = int n \<Longrightarrow> unat w = n"
  by (metis nat_int unat_eq_nat_uint)

lemma uint_less_pow2_iff: "uint w < 2 ^ k \<longleftrightarrow> unat w < 2 ^ k"
proof -
  have "uint w < 2 ^ k \<longleftrightarrow> int (unat w) < int (2 ^ k)" by simp
  then show ?thesis by (simp only: of_nat_less_iff)
qed

lemma int_mod_pow2: "n < 2 ^ k \<Longrightarrow> int n mod 2 ^ k = int n"
  by (metis mod_less of_nat_mod of_nat_numeral of_nat_power)

lemma sint_eq_int_unat:
  fixes w :: "'a::len word"
  assumes "unat w < 2 ^ (LENGTH('a) - 1)"
  shows "sint w = int (unat w)"
proof -
  have "uint w < 2 ^ (LENGTH('a) - 1)" using assms by (simp only: uint_less_pow2_iff)
  then have "signed_take_bit (LENGTH('a) - 1) (uint w) = uint w"
    by (intro signed_take_bit_int_eq_self) (simp_all add: order_trans [of _ 0])
  then show ?thesis by (simp add: sint_uint)
qed

lemma unat_ucast_up:
  fixes w :: "'a::len word"
  assumes "LENGTH('a) \<le> LENGTH('b)"
  shows "unat (ucast w :: 'b::len word) = unat w"
proof -
  have "unat w < 2 ^ LENGTH('b)"
    by (rule less_le_trans [OF unsigned_less]) (simp add: assms)
  then show ?thesis by (simp add: unsigned_ucast_eq take_bit_nat_eq_self)
qed

section \<open>Ring views\<close>

text \<open>The \<open>len\<close> elements of a cyclic array that start at index \<open>r\<close>.\<close>

definition ring_list :: "'a list \<Rightarrow> nat \<Rightarrow> nat \<Rightarrow> 'a list" where
  "ring_list p r len = map (\<lambda>i. p ! ((r + i) mod length p)) [0..<len]"

lemma length_ring_list [simp]: "length (ring_list p r len) = len"
  by (simp add: ring_list_def)

lemma ring_list_0 [simp]: "ring_list p r 0 = []"
  by (simp add: ring_list_def)

lemma ring_list_nth: "i < len \<Longrightarrow> ring_list p r len ! i = p ! ((r + i) mod length p)"
  by (simp add: ring_list_def)

lemma ring_mod_inj:
  assumes "i < n" "j < n" "(r + i) mod n = (r + j) mod (n::nat)"
  shows "i = j"
proof -
  have "a = b" if "a \<le> b" "b < n" "(r + a) mod n = (r + b) mod n" for a b
  proof -
    have "n dvd (r + b) - (r + a)"
      using that by (intro mod_eq_dvd_iff_nat [THEN iffD1]) simp_all
    then show ?thesis using that by (auto dest: dvd_imp_le)
  qed
  from this [of i j] this [of j i] show ?thesis using assms by (cases "i \<le> j") simp_all
qed

lemma ring_list_snoc:
  assumes "len < length p"
  shows "ring_list (p[(r + len) mod length p := b]) r (Suc len) = ring_list p r len @ [b]"
proof (rule nth_equalityI)
  show "length (ring_list (p[(r + len) mod length p := b]) r (Suc len)) = length (ring_list p r len @ [b])"
    by simp
  fix i assume i: "i < length (ring_list (p[(r + len) mod length p := b]) r (Suc len))"
  have bound: "(r + j) mod length p < length p" for j
    using assms by (intro mod_less_divisor) linarith
  show "ring_list (p[(r + len) mod length p := b]) r (Suc len) ! i = (ring_list p r len @ [b]) ! i"
  proof (cases "i = len")
    case True
    then show ?thesis using bound by (simp add: ring_list_nth nth_append)
  next
    case False
    then have "(r + len) mod length p \<noteq> (r + i) mod length p"
      using i assms ring_mod_inj [of i "length p" len r] by auto
    then show ?thesis using False i by (simp add: ring_list_nth nth_append)
  qed
qed

lemma ring_list_Cons:
  "ring_list p r (Suc len) = p ! (r mod length p) # ring_list p (Suc r mod length p) len"
  by (simp add: ring_list_def upt_conv_Cons map_Suc_upt [symmetric] mod_simps del: upt_Suc)

end
