(* ===== verification/Byte_Utils.thy ===== *)
theory Byte_Utils
  imports Telink_Prelude
begin

unbundle bit_operations_syntax

text \<open>
  Byte order and string helpers of \<^verbatim>\<open>common/utility.c\<close> and \<^verbatim>\<open>common/utility.h\<close>: the in-place and
  copying byte reversals, the address flip, the little-endian stores and loads of 16 to 64 bit
  values, and the hexadecimal renderings.  Source and destination of the copying routines are
  distinct objects.
\<close>

type_synonym u64 = "64 word"

section \<open>Byte reversal\<close>

function swapN_loop :: "nat \<Rightarrow> nat \<Rightarrow> bytes \<Rightarrow> bytes option" where
  "swapN_loop i n p =
     (if i < n div 2
      then do { c \<leftarrow> rd8 p i;
                d \<leftarrow> rd8 p (n - 1 - i);
                p1 \<leftarrow> wr8 p i d;
                p2 \<leftarrow> wr8 p1 (n - 1 - i) c;
                swapN_loop (i + 1) n p2 }
      else Some p)"
  by pat_completeness auto
termination
  by (relation "measure (\<lambda>(i, n, p). n div 2 - i)") auto

declare swapN_loop.simps [simp del]

definition swapN :: "bytes \<Rightarrow> nat \<Rightarrow> bytes option" where
  "swapN p n = swapN_loop 0 n p"

function swapX_loop :: "nat \<Rightarrow> bytes \<Rightarrow> bytes \<Rightarrow> nat \<Rightarrow> bytes option" where
  "swapX_loop i src dst len =
     (if i < len
      then do { s \<leftarrow> rd8 src i; dst' \<leftarrow> wr8 dst (len - 1 - i) s; swapX_loop (i + 1) src dst' len }
      else Some dst)"
  by pat_completeness auto
termination
  by (relation "measure (\<lambda>(i, src, dst, len). len - i)") auto

declare swapX_loop.simps [simp del]

definition swapX :: "bytes \<Rightarrow> bytes \<Rightarrow> nat \<Rightarrow> bytes option" where
  "swapX src dst len = swapX_loop 0 src dst len"

definition swap24 :: "bytes \<Rightarrow> bytes \<Rightarrow> bytes option" where "swap24 dst src = swapX src dst 3"
definition swap32 :: "bytes \<Rightarrow> bytes \<Rightarrow> bytes option" where "swap32 dst src = swapX src dst 4"
definition swap48 :: "bytes \<Rightarrow> bytes \<Rightarrow> bytes option" where "swap48 dst src = swapX src dst 6"
definition swap56 :: "bytes \<Rightarrow> bytes \<Rightarrow> bytes option" where "swap56 dst src = swapX src dst 7"
definition swap64 :: "bytes \<Rightarrow> bytes \<Rightarrow> bytes option" where "swap64 dst src = swapX src dst 8"
definition swap128 :: "bytes \<Rightarrow> bytes \<Rightarrow> bytes option" where "swap128 dst src = swapX src dst 16"

definition flip_addr :: "bytes \<Rightarrow> bytes \<Rightarrow> bytes option" where
  "flip_addr dest src =
     do { s5 \<leftarrow> rd8 src 5; dest \<leftarrow> wr8 dest 0 s5;
          s4 \<leftarrow> rd8 src 4; dest \<leftarrow> wr8 dest 1 s4;
          s3 \<leftarrow> rd8 src 3; dest \<leftarrow> wr8 dest 2 s3;
          s2 \<leftarrow> rd8 src 2; dest \<leftarrow> wr8 dest 3 s2;
          s1 \<leftarrow> rd8 src 1; dest \<leftarrow> wr8 dest 4 s1;
          s0 \<leftarrow> rd8 src 0; wr8 dest 5 s0 }"

section \<open>Little-endian streams\<close>

definition u16_to_bstream_le :: "u16 \<Rightarrow> bytes" where
  "u16_to_bstream_le val = [ucast val, ucast (drop_bit 8 val)]"

definition u24_to_bstream_le :: "u32 \<Rightarrow> bytes" where
  "u24_to_bstream_le val = u16_to_bstream_le (ucast val) @ [ucast (drop_bit 16 val)]"

definition u32_to_bstream_le :: "u32 \<Rightarrow> bytes" where
  "u32_to_bstream_le val = u16_to_bstream_le (ucast val) @ u16_to_bstream_le (ucast (drop_bit 16 val))"

definition u48_to_bstream_le :: "u64 \<Rightarrow> bytes" where
  "u48_to_bstream_le val = u32_to_bstream_le (ucast val) @ u16_to_bstream_le (ucast (drop_bit 32 val))"

definition u64_to_bstream_le :: "u64 \<Rightarrow> bytes" where
  "u64_to_bstream_le val = u32_to_bstream_le (ucast val) @ u32_to_bstream_le (ucast (drop_bit 32 val))"

definition bstream_to_u16_le :: "bytes \<Rightarrow> u16 option" where
  "bstream_to_u16_le src =
     do { s0 \<leftarrow> rd8 src 0; s1 \<leftarrow> rd8 src 1; Some (push_bit 8 (ucast s1) OR ucast s0) }"

definition bstream_to_u24_le :: "bytes \<Rightarrow> u32 option" where
  "bstream_to_u24_le src =
     do { s2 \<leftarrow> rd8 src 2; lo \<leftarrow> bstream_to_u16_le src; Some (push_bit 16 (ucast s2) OR ucast lo) }"

definition bstream_to_u32_le :: "bytes \<Rightarrow> u32 option" where
  "bstream_to_u32_le src =
     do { hi \<leftarrow> bstream_to_u16_le (drop 2 src); lo \<leftarrow> bstream_to_u16_le src;
          Some (push_bit 16 (ucast hi) OR ucast lo) }"

definition bstream_to_u48_le :: "bytes \<Rightarrow> u64 option" where
  "bstream_to_u48_le src =
     do { hi \<leftarrow> bstream_to_u32_le (drop 2 src); lo \<leftarrow> bstream_to_u16_le src;
          Some (push_bit 16 (ucast hi) OR ucast lo) }"

definition bstream_to_u64_le :: "bytes \<Rightarrow> u64 option" where
  "bstream_to_u64_le src =
     do { hi \<leftarrow> bstream_to_u32_le (drop 4 src); lo \<leftarrow> bstream_to_u32_le src;
          Some (push_bit 32 (ucast hi) OR ucast lo) }"

section \<open>Hexadecimal strings\<close>

definition hex_digits :: string where "hex_digits = ''0123456789abcdef''"
definition HEX_digits :: string where "HEX_digits = ''0123456789ABCDEF''"

definition hex_pair :: "string \<Rightarrow> u8 \<Rightarrow> string" where
  "hex_pair digits b = [digits ! unat (drop_bit 4 b), digits ! unat (b AND 0xf)]"

text \<open>
  The characters \<^verbatim>\<open>hex_to_str\<close> stores in its static buffer of 301 bytes before the terminating
  zero.  The length is clamped to \<open>(301 - 1) / 3 = 100\<close> bytes.
\<close>

definition hex_to_str :: "bytes \<Rightarrow> u8 \<Rightarrow> string option" where
  "hex_to_str buf len =
     do { b \<leftarrow> rd_range buf 0 (min (unat len) ((301 - 1) div 3));
          Some (concat (map (\<lambda>x. hex_pair hex_digits x @ '' '') b)) }"

definition addr_to_str :: "bytes \<Rightarrow> string option" where
  "addr_to_str addr =
     do { b \<leftarrow> rd_range addr 0 6;
          Some (hex_pair HEX_digits (b ! 5) @ '':'' @ hex_pair HEX_digits (b ! 4) @ '':'' @
                hex_pair HEX_digits (b ! 3) @ '':'' @ hex_pair HEX_digits (b ! 2) @ '':'' @
                hex_pair HEX_digits (b ! 1) @ '':'' @ hex_pair HEX_digits (b ! 0)) }"

section \<open>Reversal\<close>

text \<open>The state of the in-place loop after \<open>i\<close> iterations: the outer \<open>i\<close> bytes on both sides are exchanged.\<close>

definition swapped :: "nat \<Rightarrow> nat \<Rightarrow> bytes \<Rightarrow> bytes" where
  "swapped i n p = map (\<lambda>k. if k < n \<and> (k < i \<or> n - 1 - k < i) then p ! (n - 1 - k) else p ! k) [0..<length p]"

lemma length_swapped [simp]: "length (swapped i n p) = length p"
  by (simp add: swapped_def)

lemma swapped_nth:
  "k < length p \<Longrightarrow> swapped i n p ! k = (if k < n \<and> (k < i \<or> n - 1 - k < i) then p ! (n - 1 - k) else p ! k)"
  by (auto simp: swapped_def)

lemma swapped_step:
  assumes "i < n div 2" "n \<le> length p"
  shows "(swapped i n p)[i := swapped i n p ! (n - 1 - i), n - 1 - i := swapped i n p ! i] = swapped (Suc i) n p"
  by (rule nth_equalityI) (use assms in \<open>auto simp: swapped_nth nth_list_update\<close>)

lemma swapN_loop_correct:
  "i \<le> n div 2 \<Longrightarrow> n \<le> length p \<Longrightarrow> swapN_loop i n (swapped i n p) = Some (swapped (n div 2) n p)"
proof (induction "n div 2 - i" arbitrary: i)
  case 0
  then show ?case by (subst swapN_loop.simps) simp
next
  case (Suc m)
  then have i: "i < n div 2" by simp
  then have "n - 1 - i < length p" "i < length p" using Suc.prems by auto
  then have "swapN_loop i n (swapped i n p) = swapN_loop (Suc i) n (swapped (Suc i) n p)"
    using i Suc.prems by (subst swapN_loop.simps) (simp add: rd8_def wr8_def swapped_step [symmetric])
  then show ?case using Suc.hyps(1) [of "Suc i"] Suc.hyps(2) Suc.prems i by simp
qed

lemma swapped_half:
  assumes "n \<le> length p"
  shows "swapped (n div 2) n p = rev (take n p) @ drop n p"
proof (rule nth_equalityI)
  fix k assume "k < length (swapped (n div 2) n p)"
  then have k: "k < length p" by simp
  have mid: "n - 1 - k = k" if "k < n" "\<not> k < n div 2" "\<not> n - 1 - k < n div 2" using that by linarith
  show "swapped (n div 2) n p ! k = (rev (take n p) @ drop n p) ! k"
    using k assms mid by (auto simp: swapped_nth nth_append rev_nth min_absorb2)
qed (use assms in simp)

lemma swapX_loop_correct:
  "i \<le> len \<Longrightarrow> len \<le> length src \<Longrightarrow> len \<le> length dst \<Longrightarrow>
     swapX_loop i src dst len = Some (take (len - i) (rev (take len src)) @ drop (len - i) dst)"
proof (induction "len - i" arbitrary: i dst)
  case 0
  then show ?case by (subst swapX_loop.simps) simp
next
  case (Suc m)
  let ?j = "len - Suc i"
  have i: "i < len" and j: "len - i = Suc ?j" "?j < length dst" using Suc by auto
  have "swapX_loop i src dst len = swapX_loop (Suc i) src (dst[?j := src ! i]) len"
    using i j Suc.prems by (subst swapX_loop.simps) (simp add: rd8_def wr8_def)
  also have "\<dots> = Some (take ?j (rev (take len src)) @ drop ?j (dst[?j := src ! i]))"
    using Suc.hyps(1) [of "Suc i" "dst[?j := src ! i]"] Suc.hyps(2) Suc.prems i by simp
  also have "drop ?j (dst[?j := src ! i]) = src ! i # drop (Suc ?j) dst"
    using j(2) by (metis Cons_nth_drop_Suc drop_update_cancel length_list_update nth_list_update_eq lessI)
  also have "src ! i = rev (take len src) ! ?j" using i Suc.prems by (simp add: rev_nth min_absorb2)
  finally show ?case unfolding j(1) using i Suc.prems by (simp add: take_Suc_conv_app_nth)
qed

lemma swapX_correct:
  "len \<le> length src \<Longrightarrow> len \<le> length dst \<Longrightarrow> swapX src dst len = Some (rev (take len src) @ drop len dst)"
  using swapX_loop_correct [of 0 len src dst] by (simp add: swapX_def)

lemma flip_addr_correct: "length src = 6 \<Longrightarrow> length dest = 6 \<Longrightarrow> flip_addr dest src = Some (rev src)"
  by (auto simp: flip_addr_def rd8_def wr8_def length_Suc_conv numeral_eq_Suc)

section \<open>Stream round trips\<close>

lemma u16_le_roundtrip: "bstream_to_u16_le (u16_to_bstream_le v @ r) = Some v"
proof -
  have "push_bit 8 (ucast (ucast (drop_bit 8 v) :: u8)) OR ucast (ucast v :: u8) = v"
    by (rule bit_word_eqI) (auto simp: bit_simps)
  then show ?thesis by (simp add: bstream_to_u16_le_def u16_to_bstream_le_def rd8_def)
qed

lemma u32_le_roundtrip: "bstream_to_u32_le (u32_to_bstream_le v @ r) = Some v"
proof -
  have "push_bit 16 (ucast (ucast (drop_bit 16 v) :: u16)) OR ucast (ucast v :: u16) = v"
    by (rule bit_word_eqI) (auto simp: bit_simps)
  moreover have "drop 2 (u32_to_bstream_le v @ r) = u16_to_bstream_le (ucast (drop_bit 16 v)) @ r"
    by (simp add: u32_to_bstream_le_def u16_to_bstream_le_def)
  ultimately show ?thesis
    by (simp add: bstream_to_u32_le_def u32_to_bstream_le_def u16_le_roundtrip)
qed

lemma u64_le_roundtrip: "bstream_to_u64_le (u64_to_bstream_le v @ r) = Some v"
proof -
  have "push_bit 32 (ucast (ucast (drop_bit 32 v) :: u32)) OR ucast (ucast v :: u32) = v"
    by (rule bit_word_eqI) (auto simp: bit_simps)
  moreover have "drop 4 (u64_to_bstream_le v @ r) = u32_to_bstream_le (ucast (drop_bit 32 v)) @ r"
    by (simp add: u64_to_bstream_le_def u32_to_bstream_le_def u16_to_bstream_le_def)
  ultimately show ?thesis
    by (simp add: bstream_to_u64_le_def u64_to_bstream_le_def u32_le_roundtrip)
qed

lemma u24_le_roundtrip: "v < 2 ^ 24 \<Longrightarrow> bstream_to_u24_le (u24_to_bstream_le v @ r) = Some v"
proof -
  assume "v < 2 ^ 24"
  then have "unat v < 2 ^ 24" by (simp add: word_less_nat_alt)
  then have hi: "bit v n \<Longrightarrow> n < 24" for n by (rule bit_less_of_bound)
  have "push_bit 16 (ucast (ucast (drop_bit 16 v) :: u8)) OR ucast (ucast v :: u16) = v"
    by (rule bit_word_eqI) (auto simp: bit_simps dest: hi)
  then show ?thesis
    by (simp add: bstream_to_u24_le_def u24_to_bstream_le_def u16_le_roundtrip)
      (simp add: u16_to_bstream_le_def rd8_def)
qed

lemma u48_le_roundtrip: "v < 2 ^ 48 \<Longrightarrow> bstream_to_u48_le (u48_to_bstream_le v @ r) = Some v"
proof -
  assume "v < 2 ^ 48"
  then have "unat v < 2 ^ 48" by (simp add: word_less_nat_alt)
  then have hi: "bit v n \<Longrightarrow> n < 48" for n by (rule bit_less_of_bound)
  have "push_bit 16 (ucast (ucast (drop_bit 16 v) :: u32)) OR ucast (ucast v :: u16) = v"
    by (rule bit_word_eqI) (auto simp: bit_simps dest: hi)
  moreover have "drop 2 (u48_to_bstream_le v @ r) = u32_to_bstream_le (ucast (drop_bit 16 v)) @ r"
    by (simp add: u48_to_bstream_le_def u32_to_bstream_le_def u16_to_bstream_le_def)
      (auto intro!: bit_word_eqI simp: bit_simps)
  moreover have "bstream_to_u16_le (u48_to_bstream_le v @ r) = Some (ucast v)"
  proof -
    have "(ucast (ucast v :: u32) :: u16) = ucast v" by (rule bit_word_eqI) (simp add: bit_simps)
    then show ?thesis by (simp add: u48_to_bstream_le_def u32_to_bstream_le_def u16_le_roundtrip)
  qed
  ultimately show ?thesis by (simp add: bstream_to_u48_le_def u32_le_roundtrip)
qed

section \<open>Hexadecimal rendering\<close>

lemma hex_pair_inj: "hex_pair hex_digits a = hex_pair hex_digits b \<Longrightarrow> a = b"
proof -
  assume h: "hex_pair hex_digits a = hex_pair hex_digits b"
  have d: "distinct hex_digits" "length hex_digits = 16" by (simp_all add: hex_digits_def)
  have lo: "unat (x AND 0xf) = unat x mod 16" for x :: u8
    using unat_and_mask_pow2 [of "0xf :: u8" 4 x] by simp
  have hi: "unat (drop_bit 4 x) = unat x div 16" for x :: u8
    by (subst unat_drop_bit_eq) (simp add: drop_bit_eq_div)
  have "unat x div 16 < 16" for x :: u8 using unat_u8_less [of x] by simp
  then have "unat a div 16 = unat b div 16" "unat a mod 16 = unat b mod 16"
    using h d by (auto simp: hex_pair_def lo hi nth_eq_iff_index_eq)
  then have "unat a = unat b" by (metis div_mult_mod_eq)
  then show "a = b" by (rule unsigned_word_eqI)
qed

lemma hex_concat_inj:
  "concat (map (\<lambda>x. hex_pair hex_digits x @ '' '') xs) = concat (map (\<lambda>x. hex_pair hex_digits x @ '' '') ys) \<Longrightarrow> xs = ys"
proof (induction xs arbitrary: ys)
  case Nil
  then show ?case by (cases ys) (simp_all add: hex_pair_def)
next
  case (Cons x xs)
  then obtain y ys' where "ys = y # ys'" by (cases ys) (simp_all add: hex_pair_def)
  with Cons hex_pair_inj [of x y] show ?case by (simp add: hex_pair_def)
qed

section \<open>Properties\<close>

text \<open>Reversing \<open>n\<close> bytes in place stays inside a buffer of at least \<open>n\<close> bytes, exchanges the
  bytes end for end, leaves the rest of the buffer alone, and applied twice restores the buffer;
  the copying reversal and the address flip compute the same permutation.\<close>

theorem byte_reversal:
  assumes "n \<le> length p"
  shows "swapN p n = Some (rev (take n p) @ drop n p)
    \<and> Option.bind (swapN p n) (\<lambda>q. swapN q n) = Some p
    \<and> (length dst = n \<longrightarrow> swapX p dst n = Some (rev (take n p)))
    \<and> (n = 6 \<and> length dst = 6 \<longrightarrow> flip_addr dst (take 6 p) = swapX p dst 6)"
proof -
  have s: "swapN q n = Some (rev (take n q) @ drop n q)" if "n \<le> length q" for q
  proof -
    have "swapped 0 n q = q" by (rule nth_equalityI) (simp_all add: swapped_nth)
    then show ?thesis using swapN_loop_correct [of 0 n q] that by (simp add: swapN_def swapped_half)
  qed
  then show ?thesis using assms swapX_correct [of n p dst] flip_addr_correct [of "take 6 p" dst]
    by auto
qed

theorem byte_reversal_witness:
  "swapN [1, 2, 3, 4, 5, 6, 7] 6 = Some [6, 5, 4, 3, 2, 1, 7]
   \<and> flip_addr [0, 0, 0, 0, 0, 0] [1, 2, 3, 4, 5, 6] = swapX [1, 2, 3, 4, 5, 6, 7] [0, 0, 0, 0, 0, 0] 6"
  using byte_reversal [of 6 "[1, 2, 3, 4, 5, 6, 7]" "[0, 0, 0, 0, 0, 0]"] by simp

text \<open>Every value that fits its width survives a little-endian store followed by the matching
  load, whatever bytes follow it in the buffer.\<close>

theorem bstream_le_roundtrip:
  "bstream_to_u16_le (u16_to_bstream_le a @ r) = Some a
   \<and> (b < 2 ^ 24 \<longrightarrow> bstream_to_u24_le (u24_to_bstream_le b @ r) = Some b)
   \<and> bstream_to_u32_le (u32_to_bstream_le b @ r) = Some b
   \<and> (c < 2 ^ 48 \<longrightarrow> bstream_to_u48_le (u48_to_bstream_le c @ r) = Some c)
   \<and> bstream_to_u64_le (u64_to_bstream_le c @ r) = Some c"
  by (intro conjI impI u16_le_roundtrip u24_le_roundtrip u32_le_roundtrip u48_le_roundtrip u64_le_roundtrip)

theorem bstream_le_roundtrip_witness:
  "bstream_to_u24_le (u24_to_bstream_le 0x123456 @ [0]) = Some 0x123456
   \<and> bstream_to_u48_le (u48_to_bstream_le 0x123456789ABC @ [0]) = Some 0x123456789ABC"
  using bstream_le_roundtrip [of 0 "[0]" "0x123456" "0x123456789ABC"] by simp

text \<open>\<^verbatim>\<open>hex_to_str\<close> renders at most the first 100 bytes, three characters each, so that with the
  terminating zero it never writes past its 301-byte buffer, and distinct byte strings of the same
  rendered length give distinct strings.\<close>

theorem hex_to_str_bounded_injective:
  assumes "hex_to_str a la = Some s" and "hex_to_str b lb = Some t"
  shows "length s = 3 * min (unat la) 100 \<and> length s + 1 \<le> 301
     \<and> (s = t \<longrightarrow> take (min (unat la) 100) a = take (min (unat lb) 100) b)"
proof -
  have l: "length (concat (map (\<lambda>x. hex_pair hex_digits x @ '' '') xs)) = 3 * length xs" for xs
    by (induction xs) (simp_all add: hex_pair_def)
  then show ?thesis using assms
    by (auto simp: hex_to_str_def rd_range_def min_absorb2 dest!: hex_concat_inj split: if_splits)
qed

theorem hex_to_str_bounded_injective_witness:
  "hex_to_str [0xAB, 0x0C] 2 = Some ''ab 0c '' \<and> length ''ab 0c '' = 3 * min (unat (2::u8)) 100"
proof -
  have h: "hex_to_str [0xAB, 0x0C] 2 = Some ''ab 0c ''"
    by (simp add: hex_to_str_def rd_range_def hex_pair_def hex_digits_def)
  from hex_to_str_bounded_injective [OF h h] h show ?thesis by blast
qed

end
