(* ===== verification/Ring_Buffer.thy ===== *)
theory Ring_Buffer
  imports Telink_Prelude
begin

unbundle bit_operations_syntax

text \<open>
  The byte ring buffer of \<^verbatim>\<open>common/utility.c\<close> (\<^verbatim>\<open>my_ring_buf_t\<close>).  The record holds the
  C fields; the object behind the pointer \<^verbatim>\<open>p\<close> is the list \<open>rb_p\<close>.  A pointer and length
  pair from which a callee reads exactly the given range is passed as the list of those bytes.
  The locale \<open>byte_queue\<close> is the contract of a bounded byte FIFO; the ring buffer is
  interpreted as one of capacity \<open>mask\<close>, and the interpretation carries the bulk operations.
\<close>

record my_ring_buf_t =
  rb_size :: u16
  rb_mask :: u16
  rb_wptr :: u16
  rb_rptr :: u16
  rb_p :: bytes

section \<open>Operations\<close>

definition my_ring_buffer_init :: "bytes \<Rightarrow> int \<Rightarrow> my_ring_buf_t" where
  "my_ring_buffer_init p s =
     \<lparr>rb_size = word_of_int s, rb_mask = word_of_int (s - 1), rb_wptr = 0, rb_rptr = 0, rb_p = p\<rparr>"

definition my_ring_buffer_is_empty :: "my_ring_buf_t \<Rightarrow> bool" where
  "my_ring_buffer_is_empty f = (rb_wptr f = rb_rptr f)"

definition my_ring_buffer_is_full :: "my_ring_buf_t \<Rightarrow> bool" where
  "my_ring_buffer_is_full f = ((rb_wptr f - rb_rptr f) AND rb_mask f = rb_mask f)"

definition my_ring_buffer_flush :: "my_ring_buf_t \<Rightarrow> my_ring_buf_t" where
  "my_ring_buffer_flush f = f\<lparr>rb_rptr := rb_wptr f\<rparr>"

definition my_ring_buffer_free_len :: "my_ring_buf_t \<Rightarrow> u16" where
  "my_ring_buffer_free_len f =
     (let used = (rb_wptr f - rb_rptr f) AND rb_mask f in rb_size f - used)"

definition my_ring_buffer_data_len :: "my_ring_buf_t \<Rightarrow> u16" where
  "my_ring_buffer_data_len f = (rb_wptr f - rb_rptr f) AND rb_mask f"

definition my_ring_buffer_push_byte :: "my_ring_buf_t \<Rightarrow> u8 \<Rightarrow> my_ring_buf_t option" where
  "my_ring_buffer_push_byte f data =
     do { p' \<leftarrow> wr8 (rb_p f) (unat (rb_wptr f)) data;
          Some (f\<lparr>rb_p := p', rb_wptr := (rb_wptr f + 1) AND rb_mask f\<rparr>) }"

fun my_ring_buffer_push_bytes :: "my_ring_buf_t \<Rightarrow> bytes \<Rightarrow> my_ring_buf_t option" where
  "my_ring_buffer_push_bytes f [] = Some f"
| "my_ring_buffer_push_bytes f (d # ds) =
     do { f' \<leftarrow> my_ring_buffer_push_byte f d; my_ring_buffer_push_bytes f' ds }"

definition my_ring_buffer_pull_byte :: "my_ring_buf_t \<Rightarrow> (u8 \<times> my_ring_buf_t) option" where
  "my_ring_buffer_pull_byte f =
     do { data \<leftarrow> rd8 (rb_p f) (unat (rb_rptr f));
          Some (data, f\<lparr>rb_rptr := (rb_rptr f + 1) AND rb_mask f\<rparr>) }"

fun my_ring_buffer_pull_bytes :: "my_ring_buf_t \<Rightarrow> nat \<Rightarrow> (bytes \<times> my_ring_buf_t) option" where
  "my_ring_buffer_pull_bytes f 0 = Some ([], f)"
| "my_ring_buffer_pull_bytes f (Suc n) =
     do { d \<leftarrow> rd8 (rb_p f) (unat (rb_rptr f));
          (ds, f') \<leftarrow> my_ring_buffer_pull_bytes (f\<lparr>rb_rptr := (rb_rptr f + 1) AND rb_mask f\<rparr>) n;
          Some (d # ds, f') }"

definition my_ring_buffer_delete :: "my_ring_buf_t \<Rightarrow> u16 \<Rightarrow> my_ring_buf_t" where
  "my_ring_buffer_delete f n = f\<lparr>rb_rptr := (rb_rptr f + n) AND rb_mask f\<rparr>"

definition my_ring_buffer_get :: "my_ring_buf_t \<Rightarrow> u16 \<Rightarrow> u8 option" where
  "my_ring_buffer_get f offset = (let rptr = (rb_rptr f + offset) AND rb_mask f in rd8 (rb_p f) (unat rptr))"

section \<open>The contract of a bounded byte queue\<close>

locale byte_queue =
  fixes invar :: "'q \<Rightarrow> bool"
    and alpha :: "'q \<Rightarrow> bytes"
    and capacity :: "'q \<Rightarrow> nat"
    and push :: "'q \<Rightarrow> u8 \<Rightarrow> 'q option"
    and pull :: "'q \<Rightarrow> (u8 \<times> 'q) option"
    and push_all :: "'q \<Rightarrow> bytes \<Rightarrow> 'q option"
    and pull_all :: "'q \<Rightarrow> nat \<Rightarrow> (bytes \<times> 'q) option"
  assumes push_ok: "invar q \<Longrightarrow> length (alpha q) < capacity q \<Longrightarrow>
      \<exists>q'. push q b = Some q' \<and> invar q' \<and> capacity q' = capacity q \<and> alpha q' = alpha q @ [b]"
    and pull_ok: "invar q \<Longrightarrow> alpha q = b # bs \<Longrightarrow>
      \<exists>q'. pull q = Some (b, q') \<and> invar q' \<and> capacity q' = capacity q \<and> alpha q' = bs"
    and push_all_Nil: "push_all q [] = Some q"
    and push_all_Cons: "push_all q (d # ds) = Option.bind (push q d) (\<lambda>q'. push_all q' ds)"
    and pull_all_0: "pull_all q 0 = Some ([], q)"
    and pull_all_Suc: "pull_all q (Suc n) =
      Option.bind (pull q) (\<lambda>(d, q'). Option.bind (pull_all q' n) (\<lambda>(ds, q''). Some (d # ds, q'')))"
begin

lemma push_all_ok:
  "invar q \<Longrightarrow> length (alpha q) + length ds \<le> capacity q \<Longrightarrow>
     \<exists>q'. push_all q ds = Some q' \<and> invar q' \<and> capacity q' = capacity q \<and> alpha q' = alpha q @ ds"
proof (induction ds arbitrary: q)
  case Nil
  then show ?case by (simp add: push_all_Nil)
next
  case (Cons d ds)
  then obtain q' where q': "push q d = Some q'" "invar q'" "capacity q' = capacity q" "alpha q' = alpha q @ [d]"
    using push_ok [of q d] by auto
  with Cons.prems have "length (alpha q') + length ds \<le> capacity q'" by simp
  from Cons.IH [OF q'(2) this] q' show ?case by (auto simp: push_all_Cons)
qed

lemma pull_all_ok:
  "invar q \<Longrightarrow> n \<le> length (alpha q) \<Longrightarrow>
     \<exists>q'. pull_all q n = Some (take n (alpha q), q') \<and> invar q' \<and> capacity q' = capacity q
        \<and> alpha q' = drop n (alpha q)"
proof (induction n arbitrary: q)
  case 0
  then show ?case by (simp add: pull_all_0)
next
  case (Suc n)
  then obtain b bs where a: "alpha q = b # bs" by (cases "alpha q") auto
  with Suc.prems obtain q' where q': "pull q = Some (b, q')" "invar q'" "capacity q' = capacity q" "alpha q' = bs"
    using pull_ok by blast
  with Suc.prems a have "n \<le> length (alpha q')" by simp
  from Suc.IH [OF q'(2) this] q' a show ?case by (auto simp: pull_all_Suc)
qed

text \<open>Data pushed in bulk behind the queue's contents comes out unchanged and in order.\<close>

lemma push_pull_all:
  assumes "invar q" and "length (alpha q) + length ds \<le> capacity q"
  shows "\<exists>q' q''. push_all q ds = Some q' \<and>
           pull_all q' (length (alpha q) + length ds) = Some (alpha q @ ds, q'') \<and> alpha q'' = []"
proof -
  obtain q' where q': "push_all q ds = Some q'" "invar q'" "alpha q' = alpha q @ ds"
    using push_all_ok [OF assms] by auto
  with pull_all_ok [OF q'(2), of "length (alpha q) + length ds"] show ?thesis by auto
qed

end

section \<open>Invariant and abstraction of the ring buffer\<close>

text \<open>
  A well-formed ring buffer has a power-of-two size up to \<open>2 ^ 15\<close>, the matching mask, indices
  inside the buffer and a backing object of exactly that size.
\<close>

definition rb_wf :: "my_ring_buf_t \<Rightarrow> bool" where
  "rb_wf f \<longleftrightarrow> (\<exists>k<16. unat (rb_size f) = 2 ^ k) \<and> rb_mask f = rb_size f - 1
     \<and> rb_wptr f < rb_size f \<and> rb_rptr f < rb_size f \<and> length (rb_p f) = unat (rb_size f)"

definition rb_list :: "my_ring_buf_t \<Rightarrow> bytes" where
  "rb_list f = ring_list (rb_p f) (unat (rb_rptr f)) (unat (my_ring_buffer_data_len f))"

abbreviation rb_capacity :: "my_ring_buf_t \<Rightarrow> nat" where
  "rb_capacity f \<equiv> unat (rb_mask f)"

lemma rb_wfE:
  assumes "rb_wf f"
  obtains k where "k < 16" "unat (rb_size f) = 2 ^ k" "unat (rb_mask f) + 1 = 2 ^ k"
    "length (rb_p f) = 2 ^ k" "unat (rb_wptr f) < 2 ^ k" "unat (rb_rptr f) < 2 ^ k"
proof -
  from assms obtain k where k: "k < 16" "unat (rb_size f) = 2 ^ k" by (auto simp: rb_wf_def)
  then have "rb_size f \<noteq> 0" by (metis unat_0 power_eq_0_iff zero_neq_numeral)
  then have "unat (rb_size f - 1) + 1 = 2 ^ k" using k(2) by (simp add: unat_minus_one)
  with assms k show thesis by (intro that) (auto simp: rb_wf_def word_less_nat_alt)
qed

lemma uint_data_len:
  assumes "unat (rb_mask f) + 1 = 2 ^ k"
  shows "uint (my_ring_buffer_data_len f) = (uint (rb_wptr f) - uint (rb_rptr f)) mod 2 ^ k"
  by (simp add: my_ring_buffer_data_len_def uint_ring_distance [OF assms])

lemma wptr_eq:
  assumes "rb_wf f"
  shows "unat (rb_wptr f) = (unat (rb_rptr f) + unat (my_ring_buffer_data_len f)) mod length (rb_p f)"
proof -
  obtain k where k: "unat (rb_mask f) + 1 = 2 ^ k" "length (rb_p f) = 2 ^ k" "unat (rb_wptr f) < 2 ^ k"
    using assms by (rule rb_wfE)
  have "int ((unat (rb_rptr f) + unat (my_ring_buffer_data_len f)) mod length (rb_p f))
      = (uint (rb_rptr f) + (uint (rb_wptr f) - uint (rb_rptr f)) mod 2 ^ k) mod 2 ^ k"
    by (simp add: k(2) of_nat_mod uint_data_len [OF k(1)])
  also have "\<dots> = uint (rb_wptr f)"
    using k(3) by (simp add: mod_simps uint_less_pow2_iff [symmetric])
  finally show ?thesis by (intro unat_eqI_uint) simp
qed

lemma rb_capacity_less: "rb_wf f \<Longrightarrow> unat (my_ring_buffer_data_len f) \<le> rb_capacity f"
  by (simp add: my_ring_buffer_data_len_def word_and_le1 flip: word_le_nat_alt)

lemma length_rb_list [simp]: "length (rb_list f) = unat (my_ring_buffer_data_len f)"
  by (simp add: rb_list_def)

lemma index_in_bounds:
  assumes "rb_wf f"
  shows "(x AND rb_mask f) < rb_size f"
proof -
  obtain k where "unat (rb_mask f) + 1 = 2 ^ k" "unat (rb_size f) = 2 ^ k" using assms by (rule rb_wfE)
  then show ?thesis by (simp add: word_less_nat_alt unat_and_mask_pow2)
qed

text \<open>Moving the write index by one adds one to the fill level, modulo the size.\<close>

lemma data_len_push:
  assumes "rb_wf f"
  shows "unat (my_ring_buffer_data_len (f\<lparr>rb_p := p', rb_wptr := (rb_wptr f + 1) AND rb_mask f\<rparr>))
     = (unat (my_ring_buffer_data_len f) + 1) mod length (rb_p f)"
proof -
  obtain k where k: "unat (rb_mask f) + 1 = 2 ^ k" "length (rb_p f) = 2 ^ k" using assms by (rule rb_wfE)
  have "(uint ((rb_wptr f + 1) AND rb_mask f) - uint (rb_rptr f)) mod 2 ^ k
      = ((uint (rb_wptr f) - uint (rb_rptr f)) mod 2 ^ k + 1) mod 2 ^ k"
    by (simp add: uint_ring_advance [OF k(1)] mod_simps algebra_simps)
  then have "uint (((rb_wptr f + 1) AND rb_mask f) - rb_rptr f AND rb_mask f)
      = (uint ((rb_wptr f - rb_rptr f) AND rb_mask f) + 1) mod 2 ^ k"
    by (simp only: uint_ring_distance [OF k(1)])
  then have "uint (((rb_wptr f + 1) AND rb_mask f) - rb_rptr f AND rb_mask f)
      = int ((unat ((rb_wptr f - rb_rptr f) AND rb_mask f) + 1) mod 2 ^ k)"
    by (simp add: of_nat_mod add.commute)
  from unat_eqI_uint [OF this] show ?thesis by (simp add: my_ring_buffer_data_len_def k(2))
qed

lemma rb_push_byte:
  assumes wf: "rb_wf f"
  shows "\<exists>f'. my_ring_buffer_push_byte f b = Some f' \<and> rb_wf f' \<and> rb_mask f' = rb_mask f
     \<and> rb_size f' = rb_size f
     \<and> unat (my_ring_buffer_data_len f') = (unat (my_ring_buffer_data_len f) + 1) mod length (rb_p f)
     \<and> (unat (my_ring_buffer_data_len f) < rb_capacity f \<longrightarrow> rb_list f' = rb_list f @ [b])"
proof -
  let ?n = "unat (my_ring_buffer_data_len f)"
  let ?f' = "f\<lparr>rb_p := (rb_p f)[unat (rb_wptr f) := b], rb_wptr := (rb_wptr f + 1) AND rb_mask f\<rparr>"
  obtain k where k: "unat (rb_mask f) + 1 = 2 ^ k" "length (rb_p f) = 2 ^ k" "unat (rb_wptr f) < 2 ^ k"
    using wf by (rule rb_wfE)
  have "my_ring_buffer_push_byte f b = Some ?f'" using k by (simp add: my_ring_buffer_push_byte_def wr8_def)
  moreover have "rb_wf ?f'" using wf index_in_bounds [OF wf] by (simp add: rb_wf_def)
  moreover have "rb_list ?f' = rb_list f @ [b]" if "?n < rb_capacity f"
  proof -
    have "(?n + 1) mod length (rb_p f) = Suc ?n" using that k by simp
    moreover have "ring_list ((rb_p f)[unat (rb_wptr f) := b]) (unat (rb_rptr f)) (Suc ?n) = rb_list f @ [b]"
      unfolding wptr_eq [OF wf] rb_list_def using that k by (intro ring_list_snoc) simp
    ultimately show ?thesis unfolding rb_list_def data_len_push [OF wf] by simp
  qed
  ultimately show ?thesis using data_len_push [OF wf] by auto
qed

lemma rb_pull_byte:
  assumes wf: "rb_wf f" and ne: "rb_list f = b # bs"
  shows "\<exists>f'. my_ring_buffer_pull_byte f = Some (b, f') \<and> rb_wf f' \<and> rb_mask f' = rb_mask f \<and> rb_list f' = bs"
proof -
  let ?f' = "f\<lparr>rb_rptr := (rb_rptr f + 1) AND rb_mask f\<rparr>"
  obtain k where k: "unat (rb_mask f) + 1 = 2 ^ k" "length (rb_p f) = 2 ^ k" "unat (rb_rptr f) < 2 ^ k"
    using wf by (rule rb_wfE)
  obtain n where n: "unat (my_ring_buffer_data_len f) = Suc n"
    using ne by (metis length_rb_list length_Cons)
  have n': "Suc n < 2 ^ k" using rb_capacity_less [OF wf] n k by simp
  have d: "uint (my_ring_buffer_data_len f) = int n + 1"
    using n by (metis of_nat_Suc of_nat_unat add.commute)
  have "uint (my_ring_buffer_data_len ?f') = ((uint (rb_wptr f) - uint (rb_rptr f)) mod 2 ^ k - 1) mod 2 ^ k"
    using k(1) by (simp add: uint_data_len [of _ k] uint_ring_advance [of _ k] mod_simps algebra_simps)
  also have "\<dots> = int n mod 2 ^ k" using d by (simp add: uint_data_len [OF k(1)])
  also have "\<dots> = int n" using n' by (intro int_mod_pow2) simp
  finally have len: "unat (my_ring_buffer_data_len ?f') = n" by (rule unat_eqI_uint)
  have r: "unat ((rb_rptr f + 1) AND rb_mask f) = Suc (unat (rb_rptr f)) mod length (rb_p f)"
    using uint_ring_advance [OF k(1), of "rb_rptr f" 1] k(2)
    by (intro unat_eqI_uint) (simp add: of_nat_mod add.commute)
  have "rb_list f = rb_p f ! unat (rb_rptr f) # rb_list ?f'"
    using k by (simp add: rb_list_def n len r ring_list_Cons)
  moreover have "my_ring_buffer_pull_byte f = Some (rb_p f ! unat (rb_rptr f), ?f')"
    using k by (simp add: my_ring_buffer_pull_byte_def rd8_def)
  moreover have "rb_wf ?f'" using wf index_in_bounds [OF wf] by (simp add: rb_wf_def)
  ultimately show ?thesis using ne by auto
qed

interpretation rb: byte_queue rb_wf rb_list rb_capacity my_ring_buffer_push_byte
  my_ring_buffer_pull_byte my_ring_buffer_push_bytes my_ring_buffer_pull_bytes
proof unfold_locales
  fix q b assume "rb_wf q" "length (rb_list q) < rb_capacity q"
  then show "\<exists>q'. my_ring_buffer_push_byte q b = Some q' \<and> rb_wf q' \<and> rb_capacity q' = rb_capacity q
      \<and> rb_list q' = rb_list q @ [b]"
    using rb_push_byte [of q b] by auto
next
  fix q b bs assume "rb_wf q" "rb_list q = b # bs"
  then show "\<exists>q'. my_ring_buffer_pull_byte q = Some (b, q') \<and> rb_wf q' \<and> rb_capacity q' = rb_capacity q
      \<and> rb_list q' = bs"
    using rb_pull_byte [of q b bs] by auto
next
  fix q n
  show "my_ring_buffer_pull_bytes q (Suc n) = my_ring_buffer_pull_byte q \<bind>
      (\<lambda>(d, q'). my_ring_buffer_pull_bytes q' n \<bind> (\<lambda>(ds, q''). Some (d # ds, q'')))"
    by (simp add: my_ring_buffer_pull_byte_def Option.bind_assoc)
qed simp_all

section \<open>The remaining operations on the abstract contents\<close>

lemma rb_init_wf:
  assumes "k < 16" "length p = 2 ^ k"
  shows "rb_wf (my_ring_buffer_init p (2 ^ k)) \<and> rb_list (my_ring_buffer_init p (2 ^ k)) = []"
proof -
  have u: "unat (word_of_int (2 ^ k) :: u16) = 2 ^ k"
    using assms(1) power_strict_increasing [of k 16 "2::int"]
    by (intro unat_eqI_uint) (simp add: uint_word_of_int del: of_int_power)
  have "(0::u16) < word_of_int (2 ^ k)" by (simp add: word_less_nat_alt u del: of_int_power)
  then show ?thesis using assms u
    by (auto simp: rb_wf_def my_ring_buffer_init_def rb_list_def my_ring_buffer_data_len_def
        simp del: of_int_power)
qed

lemma rb_flush:
  "rb_wf f \<Longrightarrow> rb_wf (my_ring_buffer_flush f) \<and> rb_list (my_ring_buffer_flush f) = []"
  by (simp add: rb_wf_def my_ring_buffer_flush_def rb_list_def my_ring_buffer_data_len_def)

lemma rb_empty_iff: "rb_wf f \<Longrightarrow> my_ring_buffer_is_empty f = (rb_list f = [])"
proof -
  assume wf: "rb_wf f"
  obtain k where k: "length (rb_p f) = 2 ^ k" "unat (rb_rptr f) < 2 ^ k" using wf by (rule rb_wfE)
  have "rb_list f = [] \<Longrightarrow> rb_wptr f = rb_rptr f"
    using wptr_eq [OF wf] k by (simp add: word_unat_eq_iff flip: length_0_conv)
  then show ?thesis
    by (auto simp: my_ring_buffer_is_empty_def rb_list_def my_ring_buffer_data_len_def)
qed

lemma rb_full_iff: "my_ring_buffer_is_full f = (length (rb_list f) = rb_capacity f)"
  by (simp add: my_ring_buffer_is_full_def my_ring_buffer_data_len_def word_unat_eq_iff)

lemma rb_free_len:
  assumes "rb_wf f"
  shows "unat (my_ring_buffer_free_len f) = Suc (rb_capacity f) - length (rb_list f)"
proof -
  obtain k where k: "unat (rb_mask f) + 1 = 2 ^ k" "unat (rb_size f) = 2 ^ k" using assms by (rule rb_wfE)
  moreover have "unat (my_ring_buffer_data_len f) \<le> unat (rb_size f)"
    using rb_capacity_less [OF assms] k by simp
  ultimately show ?thesis
    by (simp add: my_ring_buffer_free_len_def my_ring_buffer_data_len_def [symmetric] unat_sub_if')
qed

lemma rb_get:
  assumes wf: "rb_wf f" and "unat off < length (rb_list f)"
  shows "my_ring_buffer_get f off = Some (rb_list f ! unat off)"
proof -
  obtain k where k: "unat (rb_mask f) + 1 = 2 ^ k" "length (rb_p f) = 2 ^ k" using wf by (rule rb_wfE)
  have "unat ((rb_rptr f + off) AND rb_mask f) = (unat (rb_rptr f) + unat off) mod 2 ^ k"
    using uint_ring_advance [OF k(1)] by (intro unat_eqI_uint) (simp add: of_nat_mod)
  then show ?thesis using assms(2) k(2)
    by (simp add: my_ring_buffer_get_def rb_list_def ring_list_nth)
qed

lemma rb_push_all_len:
  "rb_wf f \<Longrightarrow> \<exists>f'. my_ring_buffer_push_bytes f ds = Some f' \<and> rb_wf f' \<and> rb_mask f' = rb_mask f
     \<and> length (rb_list f') = (length (rb_list f) + length ds) mod Suc (rb_capacity f)"
proof (induction ds arbitrary: f)
  case Nil
  then show ?case using rb_capacity_less [OF Nil] by simp
next
  case (Cons d ds)
  obtain k where k: "unat (rb_mask f) + 1 = 2 ^ k" "length (rb_p f) = 2 ^ k" using Cons.prems by (rule rb_wfE)
  obtain f1 where f1: "my_ring_buffer_push_byte f d = Some f1" "rb_wf f1" "rb_mask f1 = rb_mask f"
    "length (rb_list f1) = (length (rb_list f) + 1) mod length (rb_p f)"
    using rb_push_byte [OF Cons.prems, of d] by auto
  with Cons.IH [OF f1(2)] show ?case using k by (auto simp: mod_simps)
qed

lemma rb_delete:
  assumes wf: "rb_wf f" and n: "unat n \<le> length (rb_list f)"
  shows "rb_wf (my_ring_buffer_delete f n) \<and> rb_list (my_ring_buffer_delete f n) = drop (unat n) (rb_list f)"
proof -
  let ?f' = "my_ring_buffer_delete f n"
  obtain k where k: "unat (rb_mask f) + 1 = 2 ^ k" "length (rb_p f) = 2 ^ k" using wf by (rule rb_wfE)
  have small: "unat (my_ring_buffer_data_len f) < 2 ^ k" using rb_capacity_less [OF wf] k by simp
  have r: "unat (rb_rptr ?f') = (unat (rb_rptr f) + unat n) mod 2 ^ k"
    using uint_ring_advance [OF k(1)]
    by (intro unat_eqI_uint) (simp add: my_ring_buffer_delete_def of_nat_mod)
  have "uint (my_ring_buffer_data_len ?f') = ((uint (rb_wptr f) - uint (rb_rptr f)) mod 2 ^ k - uint n) mod 2 ^ k"
    using k(1) by (simp add: my_ring_buffer_delete_def uint_data_len [of _ k] uint_ring_advance [of _ k]
        mod_simps algebra_simps)
  also have "\<dots> = int (length (rb_list f) - unat n) mod 2 ^ k"
    using n by (simp add: uint_data_len [OF k(1)] of_nat_diff)
  also have "\<dots> = int (length (rb_list f) - unat n)" using small by (intro int_mod_pow2) simp
  finally have len: "unat (my_ring_buffer_data_len ?f') = length (rb_list f) - unat n" by (rule unat_eqI_uint)
  have p: "rb_p ?f' = rb_p f" by (simp add: my_ring_buffer_delete_def)
  have "rb_list ?f' = drop (unat n) (rb_list f)"
    unfolding rb_list_def len r p
    by (rule nth_equalityI) (simp_all add: k ring_list_nth mod_simps ac_simps)
  moreover have "rb_wf ?f'" using wf index_in_bounds [OF wf] by (simp add: rb_wf_def my_ring_buffer_delete_def)
  ultimately show ?thesis by simp
qed

section \<open>Properties\<close>

text \<open>C32.  The ring buffer is a byte FIFO of capacity \<open>mask\<close>: when the pending data and the new
  bytes fit, a bulk push succeeds without touching memory outside the buffer, and pulling the same
  number of bytes returns the old contents followed by the new bytes and leaves the buffer empty.\<close>

theorem ring_buffer_fifo:
  assumes "rb_wf f" and "length (rb_list f) + length ds \<le> unat (rb_mask f)"
  shows "\<exists>f' f''. my_ring_buffer_push_bytes f ds = Some f' \<and> rb_wf f' \<and> rb_list f' = rb_list f @ ds \<and>
     my_ring_buffer_pull_bytes f' (length (rb_list f) + length ds) = Some (rb_list f @ ds, f'') \<and>
     my_ring_buffer_is_empty f''"
proof -
  obtain f' where f': "my_ring_buffer_push_bytes f ds = Some f'" "rb_wf f'" "rb_list f' = rb_list f @ ds"
    using rb.push_all_ok [OF assms] by auto
  moreover obtain f'' where "my_ring_buffer_pull_bytes f' (length (rb_list f) + length ds) = Some (rb_list f @ ds, f'')"
      "rb_wf f''" "rb_list f'' = []"
    using rb.pull_all_ok [OF f'(2), of "length (rb_list f) + length ds"] f'(3) by auto
  ultimately show ?thesis by (auto simp: rb_empty_iff)
qed

definition rb_example :: my_ring_buf_t where
  "rb_example = my_ring_buffer_init [0, 0, 0, 0] 4"

lemma rb_example_wf: "rb_wf rb_example" "rb_list rb_example = []" "rb_mask rb_example = 3"
  using rb_init_wf [of 2 "[0, 0, 0, 0]"] by (simp_all add: rb_example_def my_ring_buffer_init_def)

theorem ring_buffer_fifo_witness:
  "\<exists>f' f''. my_ring_buffer_push_bytes rb_example [7, 8, 9] = Some f' \<and> rb_wf f' \<and> rb_list f' = [7, 8, 9]
     \<and> my_ring_buffer_pull_bytes f' 3 = Some ([7, 8, 9], f'') \<and> my_ring_buffer_is_empty f''"
  using ring_buffer_fifo [of rb_example "[7, 8, 9]"]
  by (simp add: rb_example_wf(1,2) rb_example_wf(3) [simplified] flip: numeral_3_eq_3 del: my_ring_buffer_push_bytes.simps my_ring_buffer_pull_bytes.simps length_rb_list)

text \<open>The free length that the ring buffer reports is one byte more than it can hold: pushing
  exactly that many bytes, though every write stays inside the buffer, makes the buffer look empty
  and discards everything in it.\<close>

theorem ring_buffer_free_len_overcommits:
  assumes "rb_wf f" and "length ds = unat (my_ring_buffer_free_len f)"
  shows "\<exists>f'. my_ring_buffer_push_bytes f ds = Some f' \<and> my_ring_buffer_is_empty f' \<and> rb_list f' = []"
proof -
  obtain f' where f': "my_ring_buffer_push_bytes f ds = Some f'" "rb_wf f'"
      "length (rb_list f') = (length (rb_list f) + length ds) mod Suc (rb_capacity f)"
    using rb_push_all_len [OF assms(1), of ds] by auto
  have "length (rb_list f) + length ds = Suc (rb_capacity f)"
    using rb_free_len [OF assms(1)] rb_capacity_less [OF assms(1)] assms(2) by simp
  then have "length (rb_list f') = 0" using f'(3) by (simp only: mod_self)
  then have "rb_list f' = []" by (simp only: length_0_conv)
  then show ?thesis using f' rb_empty_iff by blast
qed

theorem ring_buffer_free_len_overcommits_witness:
  "\<exists>f'. my_ring_buffer_push_bytes rb_example [1, 2, 3, 4] = Some f' \<and> my_ring_buffer_is_empty f' \<and> rb_list f' = []"
  using ring_buffer_free_len_overcommits [of rb_example "[1, 2, 3, 4]"] rb_example_wf(1)
  by (simp add: rb_example_def my_ring_buffer_free_len_def my_ring_buffer_init_def
      del: my_ring_buffer_push_bytes.simps)

end
