(* ===== verification/Packet_Fifo.thy ===== *)
theory Packet_Fifo
  imports Telink_Prelude
begin

unbundle bit_operations_syntax

text \<open>
  The slot FIFOs of the SDK share one layout: an array of \<open>num\<close> slots of \<open>size\<close> bytes and
  two free-running 8-bit indices, of which \<^verbatim>\<open>& (num - 1)\<close> (or \<^verbatim>\<open>& mask\<close>) selects the slot.
  This theory holds the reasoning about that layout and the contract \<open>packet_fifo\<close> that the
  clients (HCI transport, H5, DFU) rely on.
\<close>

section \<open>The slot array and its contents\<close>

definition slots_of :: "nat \<Rightarrow> nat \<Rightarrow> bytes \<Rightarrow> bytes list" where
  "slots_of sz n p = map (\<lambda>i. take sz (drop (i * sz) p)) [0..<n]"

definition pf_view :: "nat \<Rightarrow> nat \<Rightarrow> bytes \<Rightarrow> u8 \<Rightarrow> u8 \<Rightarrow> bytes list" where
  "pf_view sz n p r w = ring_list (slots_of sz n p) (unat r) (unat (w - r))"

definition pf_ok :: "nat \<Rightarrow> nat \<Rightarrow> bytes \<Rightarrow> u8 \<Rightarrow> u8 \<Rightarrow> bool" where
  "pf_ok sz n p r w \<longleftrightarrow> (\<exists>k<8. n = 2 ^ k) \<and> length p = n * sz \<and> unat (w - r) \<le> n"

lemma length_slots_of [simp]: "length (slots_of sz n p) = n"
  by (simp add: slots_of_def)

lemma length_pf_view [simp]: "length (pf_view sz n p r w) = unat (w - r)"
  by (simp add: pf_view_def)

lemma pf_num_dvd: "pf_ok sz n p r w \<Longrightarrow> n dvd 256 \<and> 0 < n \<and> n \<le> 128"
proof -
  assume "pf_ok sz n p r w"
  then obtain k where k: "k < 8" "n = 2 ^ k" by (auto simp: pf_ok_def)
  then have "n dvd 2 ^ 8" unfolding k(2) by (intro le_imp_power_dvd) simp
  moreover have "n \<le> 2 ^ 7" unfolding k(2) using k(1) by (intro power_increasing) simp_all
  ultimately show ?thesis using k(2) by simp
qed

lemma slot_fits:
  assumes "i < n" "length p = n * sz" "length d \<le> sz"
  shows "i * sz + length d \<le> length p"
proof -
  have "Suc i * sz \<le> n * sz" using assms(1) by (intro mult_le_mono1) simp
  then show ?thesis using assms(2,3) by simp
qed

lemma slots_of_write:
  assumes i: "i < n" and len: "length p = n * sz" and d: "length d \<le> sz"
    and w: "wr_range p (i * sz) d = Some p'"
  shows "slots_of sz n p' = (slots_of sz n p)[i := d @ drop (length d) (slots_of sz n p ! i)]"
proof (rule nth_equalityI)
  fix j assume "j < length (slots_of sz n p')"
  then have j: "j < n" by simp
  have rj: "take sz (drop (j * sz) q) = the (rd_range q (j * sz) sz)" if "length q = n * sz" for q
    using slot_fits [OF j that, of "replicate sz 0"] by (simp add: rd_range_def that)
  have len': "length p' = n * sz" using wr_range_length [OF w] len by simp
  show "slots_of sz n p' ! j = (slots_of sz n p)[i := d @ drop (length d) (slots_of sz n p ! i)] ! j"
  proof (cases "j = i")
    case False
    then have "j * sz + sz \<le> i * sz \<or> i * sz + length d \<le> j * sz"
    proof (cases "j < i")
      case True
      then have "Suc j * sz \<le> i * sz" by (intro mult_le_mono1) simp
      then show ?thesis by simp
    next
      case False
      with \<open>j \<noteq> i\<close> have "Suc i * sz \<le> j * sz" by (intro mult_le_mono1) simp
      then show ?thesis using d by simp
    qed
    then have "rd_range p' (j * sz) sz = rd_range p (j * sz) sz" by (rule rd_wr_range_disjoint [OF w])
    then show ?thesis using j False rj [OF len] rj [OF len'] by (simp add: slots_of_def)
  next
    case True
    have "take sz (drop (i * sz) p') = d @ drop (length d) (take sz (drop (i * sz) p))"
      using w slot_fits [OF i len d] d
      by (auto simp: wr_range_def drop_take add.commute)
    then show ?thesis using True i by (simp add: slots_of_def)
  qed
qed simp

lemma ring_list_mod: "ring_list p (r mod length p) len = ring_list p r len"
  by (simp add: ring_list_def mod_simps)

lemma pf_put:
  assumes ok: "pf_ok sz n p r w" and room: "unat (w - r) < n" and d: "length d \<le> sz"
  shows "\<exists>p' rest. wr_range p ((unat w mod n) * sz) d = Some p' \<and> pf_ok sz n p' r (w + 1)
     \<and> pf_view sz n p' r (w + 1) = pf_view sz n p r w @ [d @ rest] \<and> length (d @ rest) = sz"
proof -
  let ?i = "unat w mod n"
  have n: "n dvd 256" "0 < n" "n \<le> 128" using pf_num_dvd [OF ok] by auto
  have len: "length p = n * sz" using ok by (simp add: pf_ok_def)
  have i: "?i < n" using n by simp
  have cnt: "unat (w + 1 - r) = Suc (unat (w - r))"
  proof -
    have "w + 1 - r = (w - r) + 1" by simp
    moreover have "unat ((w - r) + 1) = Suc (unat (w - r))"
      using room n unat_word_add_no_wrap [of "w - r" 1] by simp
    ultimately show ?thesis by metis
  qed
  have "unat (r + (w - r)) = (unat r + unat (w - r)) mod 256"
    by (simp only: unat_word_ariths(1) len_of_numeral_defs) simp
  then have "unat w = (unat r + unat (w - r)) mod 256" by simp
  then have idx: "(unat r + unat (w - r)) mod n = ?i" using n(1) by (metis mod_mod_cancel)
  define p' where "p' = take (?i * sz) p @ d @ drop (?i * sz + length d) p"
  have w': "wr_range p (?i * sz) d = Some p'"
    using slot_fits [OF i len d] by (simp add: wr_range_def p'_def)
  have "pf_view sz n p' r (w + 1)
      = ring_list ((slots_of sz n p)[?i := d @ drop (length d) (slots_of sz n p ! ?i)]) (unat r) (Suc (unat (w - r)))"
    by (simp add: pf_view_def cnt slots_of_write [OF i len d w'])
  also have "\<dots> = pf_view sz n p r w @ [d @ drop (length d) (slots_of sz n p ! ?i)]"
    using ring_list_snoc [of "unat (w - r)" "slots_of sz n p" "unat r"] room
    by (simp add: idx pf_view_def)
  finally have view: "pf_view sz n p' r (w + 1) = pf_view sz n p r w @ [d @ drop (length d) (slots_of sz n p ! ?i)]" .
  have "length (slots_of sz n p ! ?i) = sz"
    using i slot_fits [OF i len, of "replicate sz 0"] by (simp add: slots_of_def)
  moreover have "pf_ok sz n p' r (w + 1)"
    using ok room wr_range_length [OF w'] by (simp add: pf_ok_def cnt)
  ultimately show ?thesis using w' view d by (intro exI conjI) auto
qed

lemma pf_pop:
  assumes ok: "pf_ok sz n p r w" and ne: "pf_view sz n p r w = s # ss"
  shows "rd_range p ((unat r mod n) * sz) sz = Some s \<and> pf_ok sz n p (r + 1) w
     \<and> pf_view sz n p (r + 1) w = ss \<and> r \<noteq> w"
proof -
  have n: "n dvd 256" "0 < n" using pf_num_dvd [OF ok] by auto
  have len: "length p = n * sz" using ok by (simp add: pf_ok_def)
  have pos: "unat (w - r) = Suc (length ss)" using ne by (metis length_pf_view length_Cons)
  have cnt: "unat (w - (r + 1)) = length ss"
  proof -
    have "w - r \<noteq> 0" using pos by auto
    then have "unat ((w - r) - 1) = unat (w - r) - 1" by (rule unat_minus_one)
    moreover have "w - (r + 1) = (w - r) - 1" by simp
    ultimately show ?thesis using pos by (metis diff_Suc_1)
  qed
  have r1: "unat (r + 1) mod n = Suc (unat r) mod n"
    using n(1) by (simp add: unat_word_ariths mod_mod_cancel)
  have "ring_list (slots_of sz n p) (unat r) (Suc (length ss))
      = slots_of sz n p ! (unat r mod n) # ring_list (slots_of sz n p) (unat (r + 1) mod n) (length ss)"
    by (simp add: ring_list_Cons r1)
  then have "s # ss = slots_of sz n p ! (unat r mod n) # pf_view sz n p (r + 1) w"
    using ne by (simp add: pf_view_def pos cnt ring_list_mod [of "slots_of sz n p", simplified])
  moreover have "rd_range p ((unat r mod n) * sz) sz = Some (slots_of sz n p ! (unat r mod n))"
    using n slot_fits [of "unat r mod n" n p sz "replicate sz 0"] len by (simp add: slots_of_def rd_range_def)
  moreover have "pf_ok sz n p (r + 1) w" using ok pos unfolding pf_ok_def cnt by simp
  moreover have "r \<noteq> w" using pos by auto
  ultimately show ?thesis by simp
qed

lemma pf_view_empty_iff: "pf_view sz n p r w = [] \<longleftrightarrow> r = w"
  by (metis length_0_conv length_pf_view right_minus_eq unat_eq_0)

section \<open>The contract of a packet FIFO\<close>

locale packet_fifo =
  fixes invar :: "'f \<Rightarrow> bool"
    and alpha :: "'f \<Rightarrow> bytes list"
    and slot_count :: "'f \<Rightarrow> nat"
    and slot_size :: "'f \<Rightarrow> nat"
    and enc :: "bytes \<Rightarrow> bytes"
    and put :: "'f \<Rightarrow> bytes \<Rightarrow> 'f option"
    and front :: "'f \<Rightarrow> bytes option"
    and pop :: "'f \<Rightarrow> 'f"
  assumes put_ok: "invar f \<Longrightarrow> length (alpha f) < slot_count f \<Longrightarrow> length (enc d) \<le> slot_size f \<Longrightarrow>
      \<exists>f' rest. put f d = Some f' \<and> invar f' \<and> slot_count f' = slot_count f \<and> slot_size f' = slot_size f
        \<and> alpha f' = alpha f @ [enc d @ rest]"
    and pop_ok: "invar f \<Longrightarrow> alpha f = s # ss \<Longrightarrow>
      front f = Some s \<and> invar (pop f) \<and> slot_count (pop f) = slot_count f
        \<and> slot_size (pop f) = slot_size f \<and> alpha (pop f) = ss"
begin

primrec put_seq :: "'f \<Rightarrow> bytes list \<Rightarrow> 'f option" where
  "put_seq f [] = Some f"
| "put_seq f (d # ds) = Option.bind (put f d) (\<lambda>f'. put_seq f' ds)"

primrec drain :: "nat \<Rightarrow> 'f \<Rightarrow> bytes list option" where
  "drain 0 f = Some []"
| "drain (Suc n) f = Option.bind (front f) (\<lambda>s. map_option ((#) s) (drain n (pop f)))"

text \<open>Packets leave in the order in which they were written, each at the start of its slot.\<close>

lemma put_seq_ok:
  "invar f \<Longrightarrow> length (alpha f) + length ds \<le> slot_count f \<Longrightarrow> \<forall>d\<in>set ds. length (enc d) \<le> slot_size f \<Longrightarrow>
     \<exists>f' ss. put_seq f ds = Some f' \<and> invar f' \<and> alpha f' = alpha f @ ss
        \<and> list_all2 (\<lambda>d s. take (length (enc d)) s = enc d) ds ss"
proof (induction ds arbitrary: f)
  case Nil
  then show ?case by simp
next
  case (Cons d ds)
  then obtain f1 rest where f1: "put f d = Some f1" "invar f1" "slot_count f1 = slot_count f"
      "slot_size f1 = slot_size f" "alpha f1 = alpha f @ [enc d @ rest]"
    using put_ok [of f d] by auto
  with Cons.prems Cons.IH [of f1] obtain f' ss where "put_seq f1 ds = Some f'" "invar f'"
      "alpha f' = alpha f1 @ ss" "list_all2 (\<lambda>d s. take (length (enc d)) s = enc d) ds ss"
    by auto
  with f1 show ?case by (intro exI [of _ f'] exI [of _ "(enc d @ rest) # ss"]) simp
qed

lemma drain_ok: "invar f \<Longrightarrow> drain (length (alpha f)) f = Some (alpha f)"
proof (induction "alpha f" arbitrary: f)
  case Nil
  then show ?case by simp
next
  case (Cons s ss)
  from pop_ok [OF Cons.prems Cons.hyps(2) [symmetric]] Cons.hyps(1) [of "pop f"]
  show ?case by (simp flip: Cons.hyps(2))
qed

lemma fifo_order:
  assumes "invar f" "alpha f = []" "length ds \<le> slot_count f" "\<forall>d\<in>set ds. length (enc d) \<le> slot_size f"
  shows "\<exists>f' ss. put_seq f ds = Some f' \<and> drain (length ds) f' = Some ss
     \<and> list_all2 (\<lambda>d s. take (length (enc d)) s = enc d) ds ss"
proof -
  obtain f' ss where f': "put_seq f ds = Some f'" "invar f'" "alpha f' = ss"
      "list_all2 (\<lambda>d s. take (length (enc d)) s = enc d) ds ss"
    using put_seq_ok [of f ds] assms by auto
  moreover have "length ds = length ss" using f'(4) by (rule list_all2_lengthD)
  ultimately show ?thesis using drain_ok [OF f'(2)] by auto
qed

end

end
