(* ===== verification/My_Fifo.thy ===== *)
theory My_Fifo
  imports Packet_Fifo
begin

unbundle bit_operations_syntax

text \<open>
  The packet FIFO of \<^verbatim>\<open>common/utility.c\<close> (\<^verbatim>\<open>my_fifo_t\<close>): a packet is stored in its slot
  behind a two-byte little-endian length.  Pointers into the backing object are offsets; the null
  pointer that \<^verbatim>\<open>my_fifo_wptr\<close> and \<^verbatim>\<open>my_fifo_get\<close> return is \<open>None\<close>.
\<close>

record my_fifo_t =
  mf_size :: u32
  mf_num :: u16
  mf_wptr :: u8
  mf_rptr :: u8
  mf_p :: bytes

section \<open>Operations\<close>

definition my_fifo_init :: "int \<Rightarrow> u8 \<Rightarrow> bytes \<Rightarrow> my_fifo_t" where
  "my_fifo_init s n p = \<lparr>mf_size = word_of_int s, mf_num = ucast n, mf_wptr = 0, mf_rptr = 0, mf_p = p\<rparr>"

text \<open>\<^verbatim>\<open>f->p + (i & (f->num - 1)) * f->size\<close>, computed in 32-bit unsigned arithmetic.\<close>

definition my_fifo_slot :: "my_fifo_t \<Rightarrow> u8 \<Rightarrow> nat" where
  "my_fifo_slot f i = unat ((ucast i AND (ucast (mf_num f) - 1)) * mf_size f)"

definition my_fifo_wptr :: "my_fifo_t \<Rightarrow> nat option" where
  "my_fifo_wptr f =
     (if unat (mf_wptr f - mf_rptr f) < unat (mf_num f) then Some (my_fifo_slot f (mf_wptr f)) else None)"

definition my_fifo_wptr_v2 :: "my_fifo_t \<Rightarrow> nat option" where
  "my_fifo_wptr_v2 f =
     (if int (unat (mf_wptr f - mf_rptr f)) < int (unat (mf_num f)) - 3
      then Some (my_fifo_slot f (mf_wptr f)) else None)"

definition my_fifo_next :: "my_fifo_t \<Rightarrow> my_fifo_t" where
  "my_fifo_next f = f\<lparr>mf_wptr := mf_wptr f + 1\<rparr>"

text \<open>The two length bytes that \<^verbatim>\<open>my_fifo_push\<close> stores in front of the packet.\<close>

definition my_fifo_enc :: "bytes \<Rightarrow> bytes" where
  "my_fifo_enc d = [of_nat (length d), of_nat (length d div 256)] @ d"

definition my_fifo_push :: "my_fifo_t \<Rightarrow> bytes \<Rightarrow> (int \<times> my_fifo_t) option" where
  "my_fifo_push f d =
     (if unat (mf_wptr f - mf_rptr f) \<ge> unat (mf_num f) then Some (-1, f)
      else if int (length d) \<ge> sint (mf_size f) then Some (-1, f)
      else do { p' \<leftarrow> wr_range (mf_p f) (my_fifo_slot f (mf_wptr f)) (my_fifo_enc d);
                Some (0, f\<lparr>mf_wptr := mf_wptr f + 1, mf_p := p'\<rparr>) })"

definition my_fifo_pop :: "my_fifo_t \<Rightarrow> my_fifo_t" where
  "my_fifo_pop f = f\<lparr>mf_rptr := mf_rptr f + 1\<rparr>"

definition my_fifo_get :: "my_fifo_t \<Rightarrow> nat option" where
  "my_fifo_get f = (if mf_rptr f \<noteq> mf_wptr f then Some (my_fifo_slot f (mf_rptr f)) else None)"

section \<open>Invariant and abstraction\<close>

definition my_fifo_ok :: "my_fifo_t \<Rightarrow> bool" where
  "my_fifo_ok f \<longleftrightarrow> pf_ok (unat (mf_size f)) (unat (mf_num f)) (mf_p f) (mf_rptr f) (mf_wptr f)
     \<and> length (mf_p f) < 2 ^ 31"

definition my_fifo_view :: "my_fifo_t \<Rightarrow> bytes list" where
  "my_fifo_view f = pf_view (unat (mf_size f)) (unat (mf_num f)) (mf_p f) (mf_rptr f) (mf_wptr f)"

text \<open>The slot \<^verbatim>\<open>my_fifo_get\<close> points at, as its reader sees it.\<close>

definition my_fifo_front :: "my_fifo_t \<Rightarrow> bytes option" where
  "my_fifo_front f = do { off \<leftarrow> my_fifo_get f; rd_range (mf_p f) off (unat (mf_size f)) }"

definition my_fifo_put :: "my_fifo_t \<Rightarrow> bytes \<Rightarrow> my_fifo_t option" where
  "my_fifo_put f d = do { (r, f') \<leftarrow> my_fifo_push f d; if r = 0 then Some f' else None }"

lemma length_my_fifo_enc [simp]: "length (my_fifo_enc d) = length d + 2"
  by (simp add: my_fifo_enc_def)

lemma my_fifo_slot_eq:
  assumes "my_fifo_ok f"
  shows "my_fifo_slot f i = (unat i mod unat (mf_num f)) * unat (mf_size f)"
proof -
  obtain k where k: "k < 8" "unat (mf_num f) = 2 ^ k" "length (mf_p f) = 2 ^ k * unat (mf_size f)"
    using assms by (auto simp: my_fifo_ok_def pf_ok_def)
  have num: "unat (ucast (mf_num f) :: u32) = 2 ^ k" using k(2) by (simp add: unat_ucast_up)
  then have "ucast (mf_num f) \<noteq> (0::u32)" by (metis unat_0 power_not_zero zero_neq_numeral)
  then have m: "unat (ucast (mf_num f) - 1 :: u32) + 1 = 2 ^ k" using num by (simp add: unat_minus_one)
  have idx: "unat (ucast i AND (ucast (mf_num f) - 1) :: u32) = unat i mod 2 ^ k"
    by (simp add: unat_and_mask_pow2 [OF m] unat_ucast_up)
  have "(unat i mod 2 ^ k) * unat (mf_size f) \<le> 2 ^ k * unat (mf_size f)"
    by (intro mult_le_mono1) (simp add: less_imp_le)
  also have "\<dots> < 2 ^ 32" using assms k(3) by (simp add: my_fifo_ok_def)
  finally show ?thesis unfolding my_fifo_slot_def k(2)
    by (subst unat_word_ariths(2)) (simp add: idx)
qed

lemma my_fifo_push_ok:
  assumes ok: "my_fifo_ok f" and room: "length (my_fifo_view f) < unat (mf_num f)"
    and fits: "length d + 2 \<le> unat (mf_size f)"
  shows "\<exists>f' rest. my_fifo_push f d = Some (0, f') \<and> my_fifo_ok f' \<and> mf_num f' = mf_num f
     \<and> mf_size f' = mf_size f \<and> my_fifo_view f' = my_fifo_view f @ [my_fifo_enc d @ rest]"
proof -
  have pf: "pf_ok (unat (mf_size f)) (unat (mf_num f)) (mf_p f) (mf_rptr f) (mf_wptr f)"
    using ok by (simp add: my_fifo_ok_def)
  obtain p' rest where p': "wr_range (mf_p f) ((unat (mf_wptr f) mod unat (mf_num f)) * unat (mf_size f)) (my_fifo_enc d) = Some p'"
      "pf_ok (unat (mf_size f)) (unat (mf_num f)) p' (mf_rptr f) (mf_wptr f + 1)"
      "pf_view (unat (mf_size f)) (unat (mf_num f)) p' (mf_rptr f) (mf_wptr f + 1)
         = my_fifo_view f @ [my_fifo_enc d @ rest]"
    using pf_put [OF pf, of "my_fifo_enc d"] room fits by (auto simp: my_fifo_view_def)
  have "unat (mf_size f) \<le> length (mf_p f)"
    using ok pf_num_dvd [OF pf] by (simp add: my_fifo_ok_def pf_ok_def)
  then have "unat (mf_size f) < 2 ^ 31" using ok by (simp add: my_fifo_ok_def)
  then have "sint (mf_size f) = int (unat (mf_size f))"
    by (intro sint_eq_int_unat) simp
  then have "int (length d) < sint (mf_size f)" using fits by (simp del: of_nat_unat)
  then show ?thesis using p' room fits ok wr_range_length [OF p'(1)]
    by (auto simp: my_fifo_push_def my_fifo_slot_eq [OF ok] my_fifo_view_def my_fifo_ok_def)
qed

interpretation mf: packet_fifo my_fifo_ok my_fifo_view "\<lambda>f. unat (mf_num f)" "\<lambda>f. unat (mf_size f)"
  my_fifo_enc my_fifo_put my_fifo_front my_fifo_pop
proof unfold_locales
  fix f d assume "my_fifo_ok f" "length (my_fifo_view f) < unat (mf_num f)"
    "length (my_fifo_enc d) \<le> unat (mf_size f)"
  then show "\<exists>f' rest. my_fifo_put f d = Some f' \<and> my_fifo_ok f' \<and> unat (mf_num f') = unat (mf_num f)
      \<and> unat (mf_size f') = unat (mf_size f) \<and> my_fifo_view f' = my_fifo_view f @ [my_fifo_enc d @ rest]"
    using my_fifo_push_ok [of f d] by (auto simp: my_fifo_put_def)
next
  fix f s ss assume ok: "my_fifo_ok f" and v: "my_fifo_view f = s # ss"
  then show "my_fifo_front f = Some s \<and> my_fifo_ok (my_fifo_pop f)
      \<and> unat (mf_num (my_fifo_pop f)) = unat (mf_num f) \<and> unat (mf_size (my_fifo_pop f)) = unat (mf_size f)
      \<and> my_fifo_view (my_fifo_pop f) = ss"
    using pf_pop [of "unat (mf_size f)" "unat (mf_num f)" "mf_p f" "mf_rptr f" "mf_wptr f" s ss]
    by (simp add: my_fifo_front_def my_fifo_get_def my_fifo_slot_eq my_fifo_ok_def my_fifo_view_def my_fifo_pop_def)
qed

section \<open>Properties\<close>

text \<open>With a free slot and a packet that fits its slot together with the two length bytes,
  \<^verbatim>\<open>my_fifo_push\<close> succeeds inside the buffer and appends one slot that starts with the packet's
  16-bit length and the packet; \<^verbatim>\<open>my_fifo_get\<close> then points at the oldest slot and
  \<^verbatim>\<open>my_fifo_pop\<close> removes exactly that one.\<close>

theorem my_fifo_push_get_pop:
  assumes "my_fifo_ok f" and "length (my_fifo_view f) < unat (mf_num f)"
    and "length d + 2 \<le> unat (mf_size f)" and "length d < 65536"
  shows "\<exists>f' slot. my_fifo_push f d = Some (0, f') \<and> my_fifo_ok f' \<and> my_fifo_view f' = my_fifo_view f @ [slot]
     \<and> BYTES_TO_UINT16 slot 0 = Some (of_nat (length d)) \<and> take (length d) (drop 2 slot) = d
     \<and> my_fifo_front f' = Some (hd (my_fifo_view f')) \<and> my_fifo_view (my_fifo_pop f') = tl (my_fifo_view f')"
proof -
  obtain f' rest where f': "my_fifo_push f d = Some (0, f')" "my_fifo_ok f'"
      "my_fifo_view f' = my_fifo_view f @ [my_fifo_enc d @ rest]"
    using my_fifo_push_ok [OF assms(1-3)] by auto
  have "my_fifo_view f' \<noteq> []" using f'(3) by simp
  then obtain s ss where v: "my_fifo_view f' = s # ss" by (meson neq_Nil_conv)
  have "my_fifo_enc d = UINT16_TO_BSTREAM (of_nat (length d)) @ d"
    by (simp add: my_fifo_enc_def UINT16_TO_BSTREAM_of_nat)
  then have "BYTES_TO_UINT16 (my_fifo_enc d @ rest) 0 = Some (of_nat (length d))"
    using uint16_roundtrip [of "[]"] by simp
  moreover have "take (length d) (drop 2 (my_fifo_enc d @ rest)) = d" by (simp add: my_fifo_enc_def)
  moreover have "my_fifo_front f' = Some (hd (my_fifo_view f'))"
      "my_fifo_view (my_fifo_pop f') = tl (my_fifo_view f')"
    unfolding v using mf.pop_ok [OF f'(2) v] by simp_all
  ultimately show ?thesis using f'
    by (intro exI [of _ f'] exI [of _ "my_fifo_enc d @ rest"]) simp
qed

definition my_fifo_example :: my_fifo_t where
  "my_fifo_example = my_fifo_init 8 2 (replicate 16 0)"

lemma my_fifo_example_ok: "my_fifo_ok my_fifo_example" "my_fifo_view my_fifo_example = []"
  by (auto simp: my_fifo_example_def my_fifo_init_def my_fifo_ok_def pf_ok_def my_fifo_view_def
      pf_view_empty_iff intro: exI [of _ 1])

theorem my_fifo_push_get_pop_witness:
  "\<exists>f' slot. my_fifo_push my_fifo_example [1, 2, 3] = Some (0, f') \<and> my_fifo_ok f' \<and> my_fifo_view f' = [slot]
     \<and> BYTES_TO_UINT16 slot 0 = Some 3 \<and> take 3 (drop 2 slot) = [1, 2, 3]"
proof -
  have "length (my_fifo_view my_fifo_example) < unat (mf_num my_fifo_example)"
    "length [1::u8, 2, 3] + 2 \<le> unat (mf_size my_fifo_example)"
    unfolding my_fifo_example_ok(2) by (simp_all add: my_fifo_example_def my_fifo_init_def)
  from my_fifo_push_get_pop [OF my_fifo_example_ok(1) this] obtain f' slot where
      "my_fifo_push my_fifo_example [1, 2, 3] = Some (0, f')" "my_fifo_ok f'"
      "my_fifo_view f' = my_fifo_view my_fifo_example @ [slot]"
      "BYTES_TO_UINT16 slot 0 = Some (of_nat (length [1::u8, 2, 3]))"
      "take (length [1::u8, 2, 3]) (drop 2 slot) = [1, 2, 3]"
    by auto
  then show ?thesis by (intro exI [of _ f'] exI [of _ slot]) (simp add: my_fifo_example_ok(2) numeral_3_eq_3)
qed

text \<open>The length check of \<^verbatim>\<open>my_fifo_push\<close> forgets the two length bytes: a packet of
  \<open>size - 1\<close> bytes is accepted, and in the last slot its store leaves the FIFO's buffer.\<close>

theorem my_fifo_push_overrun:
  assumes "my_fifo_ok f" and "length (my_fifo_view f) < unat (mf_num f)"
    and "length d < unat (mf_size f)" and "unat (mf_size f) < length d + 2"
    and "unat (mf_wptr f) mod unat (mf_num f) = unat (mf_num f) - 1"
  shows "my_fifo_push f d = None"
proof -
  have pf: "pf_ok (unat (mf_size f)) (unat (mf_num f)) (mf_p f) (mf_rptr f) (mf_wptr f)"
    using assms(1) by (simp add: my_fifo_ok_def)
  have len: "length (mf_p f) = unat (mf_num f) * unat (mf_size f)" using pf by (simp add: pf_ok_def)
  have n: "0 < unat (mf_num f)" using pf_num_dvd [OF pf] by simp
  then have "unat (mf_size f) \<le> length (mf_p f)" using len by simp
  then have "sint (mf_size f) = int (unat (mf_size f))"
    using assms(1) by (intro sint_eq_int_unat) (simp add: my_fifo_ok_def)
  then have "int (length d) < sint (mf_size f)" using assms(3) by (simp del: of_nat_unat)
  moreover have "length (mf_p f) = (unat (mf_num f) - 1) * unat (mf_size f) + unat (mf_size f)"
    using len n by (simp add: algebra_simps diff_mult_distrib)
  ultimately show ?thesis using assms(2,4,5)
    by (simp add: my_fifo_push_def my_fifo_slot_eq [OF assms(1)] my_fifo_view_def wr_range_def)
qed

definition my_fifo_small :: my_fifo_t where
  "my_fifo_small = my_fifo_init 4 1 (replicate 4 0)"

theorem my_fifo_push_overrun_witness: "my_fifo_push my_fifo_small [1, 2, 3] = None"
  by (rule my_fifo_push_overrun)
    (auto simp: my_fifo_small_def my_fifo_init_def my_fifo_ok_def pf_ok_def my_fifo_view_def
      intro: exI [of _ 0])

end
