(* ===== verification/Item_Queue.thy ===== *)
theory Item_Queue
  imports Telink_Prelude "HOL-Library.Multiset"
begin

text \<open>
  The intrusive linked queue of \<^verbatim>\<open>common/tl_queue.c\<close>.  Items live in a heap that maps an item's
  address to its \<^verbatim>\<open>next\<close> pointer; a pointer is an \<open>option\<close> with \<open>None\<close> for \<^verbatim>\<open>NULL\<close>.  An
  operation returns its status or result, the queue header and the heap; the outer \<open>None\<close> stands
  for a null dereference or a walk that never reaches the end of a cyclic chain.  Interrupt
  masking has no counterpart: each operation is one atomic step.

  \<open>queue_rep\<close> relates header and heap to the list of queued items.  The locale \<open>item_queue\<close> is
  the queue contract with the insertion position left open; it is interpreted for the FIFO mode
  (no priority callback) and for the priority mode.
\<close>

section \<open>Data\<close>

type_synonym item = nat
type_synonym heap = "item \<Rightarrow> item option"

record queue_t =
  q_head :: "item option"
  q_tail :: "item option"
  q_priCmpCb :: "(item \<Rightarrow> u32) option"
  q_curNum :: u32

datatype queue_sts_t = QUEUE_SUCCESS | QUEUE_PARAM_INVALID | QUEUE_EMPTY | QUEUE_NOT_FOUND | QUEUE_OVERFLOWED

section \<open>Operations\<close>

definition queue_init :: "queue_t option \<Rightarrow> (item \<Rightarrow> u32) option \<Rightarrow> queue_sts_t \<times> queue_t option" where
  "queue_init pQueue priFunc =
     (case pQueue of
        None \<Rightarrow> (QUEUE_PARAM_INVALID, None)
      | Some q \<Rightarrow> (QUEUE_SUCCESS, Some \<lparr>q_head = None, q_tail = None, q_priCmpCb = priFunc, q_curNum = 0\<rparr>))"

text \<open>The search loop of the priority branch of \<^verbatim>\<open>queue_enq\<close>.\<close>

partial_function (option) queue_enq_walk ::
    "(item \<Rightarrow> u32) \<Rightarrow> heap \<Rightarrow> item \<Rightarrow> item option \<Rightarrow> item option \<Rightarrow> (item option \<times> item option) option" where
  "queue_enq_walk pri h x previous current =
     (if current = None then Some (previous, current)
      else if pri x < pri (the current) then Some (previous, current)
      else queue_enq_walk pri h x current (h (the current)))"

definition queue_enq ::
    "queue_t option \<Rightarrow> item option \<Rightarrow> heap \<Rightarrow> (queue_sts_t \<times> queue_t option \<times> heap) option" where
  "queue_enq pQueue pItem h =
     (case (pQueue, pItem) of
        (Some q, Some x) \<Rightarrow>
          (if q_head q = None
           then Some (QUEUE_SUCCESS, Some (q\<lparr>q_head := Some x, q_tail := Some x, q_curNum := q_curNum q + 1\<rparr>),
                      h(x := None))
           else
             (case q_priCmpCb q of
                None \<Rightarrow>
                  (case q_tail q of
                     None \<Rightarrow> None
                   | Some t \<Rightarrow> Some (QUEUE_SUCCESS, Some (q\<lparr>q_tail := Some x, q_curNum := q_curNum q + 1\<rparr>),
                                   (h(t := Some x))(x := None)))
              | Some pri \<Rightarrow>
                  do { (previous, current) \<leftarrow> queue_enq_walk pri h x None (q_head q);
                       let q1 = (case previous of None \<Rightarrow> q\<lparr>q_head := Some x\<rparr> | Some _ \<Rightarrow> q);
                           h1 = (case previous of None \<Rightarrow> h | Some p \<Rightarrow> h(p := Some x));
                           h2 = h1(x := current);
                           q2 = (if current = None then q1\<lparr>q_tail := Some x\<rparr> else q1)
                       in Some (QUEUE_SUCCESS, Some (q2\<lparr>q_curNum := q_curNum q + 1\<rparr>), h2) }))
      | _ \<Rightarrow> Some (QUEUE_PARAM_INVALID, pQueue, h))"

definition queue_deq :: "queue_t \<Rightarrow> heap \<Rightarrow> item option \<times> queue_t" where
  "queue_deq q h =
     (case q_head q of
        None \<Rightarrow> (None, q)
      | Some x \<Rightarrow>
          (let q1 = q\<lparr>q_head := h x\<rparr>;
               q2 = (if q_head q1 = None then q1\<lparr>q_tail := None\<rparr> else q1)
           in (Some x, q2\<lparr>q_curNum := q_curNum q - 1\<rparr>)))"

definition queue_insert ::
    "queue_t option \<Rightarrow> item option \<Rightarrow> item option \<Rightarrow> heap \<Rightarrow> (queue_sts_t \<times> queue_t option \<times> heap) option" where
  "queue_insert pQueue pItem pPrev h =
     (case (pQueue, pItem) of
        (Some q, Some x) \<Rightarrow>
          (if q_head q = None \<or> pPrev = q_tail q
           then do { (_, pq', h') \<leftarrow> queue_enq pQueue pItem h; Some (QUEUE_SUCCESS, pq', h') }
           else
             (case pPrev of
                None \<Rightarrow>
                  (let h1 = h(x := q_head q);
                       q1 = (if q_head q = None then q\<lparr>q_tail := Some x\<rparr> else q)
                   in Some (QUEUE_SUCCESS, Some (q1\<lparr>q_head := Some x, q_curNum := q_curNum q + 1\<rparr>), h1))
              | Some p \<Rightarrow>
                  Some (QUEUE_SUCCESS, Some (q\<lparr>q_curNum := q_curNum q + 1\<rparr>), (h(x := h p))(p := Some x))))
      | _ \<Rightarrow> Some (QUEUE_PARAM_INVALID, pQueue, h))"

definition queue_remove ::
    "queue_t option \<Rightarrow> item option \<Rightarrow> item option \<Rightarrow> heap \<Rightarrow> queue_sts_t \<times> queue_t option \<times> heap" where
  "queue_remove pQueue pItem pPrev h =
     (case (pQueue, pItem) of
        (Some q, Some x) \<Rightarrow>
          (if q_head q = None then (QUEUE_PARAM_INVALID, pQueue, h)
           else
             (let (q1, h1) =
                    (if q_head q = Some x then (q\<lparr>q_head := h x\<rparr>, h)
                     else case pPrev of None \<Rightarrow> (q, h) | Some p \<Rightarrow> (q, h(p := h x)));
                  q2 = (if q_tail q1 = Some x then q1\<lparr>q_tail := pPrev\<rparr> else q1)
              in (QUEUE_SUCCESS, Some (q2\<lparr>q_curNum := q_curNum q - 1\<rparr>), h1)))
      | _ \<Rightarrow> (QUEUE_PARAM_INVALID, pQueue, h))"

text \<open>The search loop of \<^verbatim>\<open>queue_delete\<close>.\<close>

partial_function (option) queue_delete_walk ::
    "heap \<Rightarrow> item \<Rightarrow> item option \<Rightarrow> item option \<Rightarrow> (item option \<times> item option) option" where
  "queue_delete_walk h x previous current =
     (if current = None \<or> current = Some x then Some (previous, current)
      else queue_delete_walk h x current (h (the current)))"

definition queue_delete ::
    "queue_t option \<Rightarrow> item option \<Rightarrow> heap \<Rightarrow> (queue_sts_t \<times> queue_t option \<times> heap) option" where
  "queue_delete pQueue pItem h =
     (case (pQueue, pItem) of
        (Some q, Some x) \<Rightarrow>
          (if q_head q = None then Some (QUEUE_EMPTY, pQueue, h)
           else if q_head q = Some x
           then (let q1 = q\<lparr>q_head := h x\<rparr>;
                     q2 = (if q_tail q1 = Some x then q1\<lparr>q_tail := None\<rparr> else q1)
                 in Some (QUEUE_SUCCESS, Some (q2\<lparr>q_curNum := q_curNum q - 1\<rparr>), h))
           else
             do { (previous, current) \<leftarrow> queue_delete_walk h x None (q_head q);
                  if current = Some x
                  then (case previous of
                          None \<Rightarrow> None
                        | Some p \<Rightarrow>
                            (let h1 = h(p := h x);
                                 q1 = (if q_tail q = current then q\<lparr>q_tail := Some p\<rparr> else q)
                             in Some (QUEUE_SUCCESS, Some (q1\<lparr>q_curNum := q_curNum q - 1\<rparr>), h1)))
                  else Some (QUEUE_NOT_FOUND, pQueue, h) })
      | _ \<Rightarrow> Some (QUEUE_PARAM_INVALID, pQueue, h))"

definition queue_isempty :: "queue_t \<Rightarrow> bool" where
  "queue_isempty q = (q_head q = None)"

definition queue_count :: "queue_t \<Rightarrow> u32" where
  "queue_count q = q_curNum q"

section \<open>Chains in the heap\<close>

fun chain :: "heap \<Rightarrow> item option \<Rightarrow> item list \<Rightarrow> bool" where
  "chain h p [] = (p = None)"
| "chain h p (x # xs) = (p = Some x \<and> chain h (h x) xs)"

definition queue_rep :: "queue_t \<Rightarrow> heap \<Rightarrow> item list \<Rightarrow> bool" where
  "queue_rep q h xs \<longleftrightarrow> chain h (q_head q) xs \<and> distinct xs
     \<and> q_tail q = (if xs = [] then None else Some (last xs)) \<and> q_curNum q = of_nat (length xs)"

lemma chain_upd_other [simp]: "x \<notin> set xs \<Longrightarrow> chain (h(x := v)) p xs = chain h p xs"
  by (induction xs arbitrary: p) auto

lemma chain_head: "chain h p xs \<Longrightarrow> p = (if xs = [] then None else Some (hd xs))"
  by (cases xs) auto

text \<open>Linking \<open>zs\<close> behind a prefix whose last node is redirected to it.\<close>

lemma chain_relink:
  "chain h p (xs @ [y] @ ys) \<Longrightarrow> distinct (xs @ [y]) \<Longrightarrow> set (xs @ [y]) \<inter> set zs = {} \<Longrightarrow>
     chain h v zs \<Longrightarrow> chain (h(y := v)) p (xs @ [y] @ zs)"
  by (induction xs arbitrary: p) auto

lemma chain_nth_next: "chain h p (xs @ [y] @ ys) \<Longrightarrow> chain h (h y) ys"
  by (induction xs arbitrary: p) auto

text \<open>Both search loops end on a finite chain, at the expected place.\<close>

lemma last_option_Cons: "(if x # xs = [] then d else Some (last (x # xs))) = (if xs = [] then Some x else Some (last xs))"
  by simp

lemma queue_enq_walk_chain:
  "chain h p xs \<Longrightarrow> queue_enq_walk pri h x prev p =
     Some (let ys = takeWhile (\<lambda>y. \<not> pri x < pri y) xs in (if ys = [] then prev else Some (last ys)),
           let zs = dropWhile (\<lambda>y. \<not> pri x < pri y) xs in (if zs = [] then None else Some (hd zs)))"
proof (induction xs arbitrary: p prev)
  case Nil
  then show ?case by (simp add: queue_enq_walk.simps)
next
  case (Cons c cs)
  then show ?case by (subst queue_enq_walk.simps) (auto simp: Let_def)
qed

lemma queue_delete_walk_chain:
  "chain h p xs \<Longrightarrow> queue_delete_walk h x prev p =
     Some (let ys = takeWhile (\<lambda>y. y \<noteq> x) xs in (if ys = [] then prev else Some (last ys)),
           if x \<in> set xs then Some x else None)"
proof (induction xs arbitrary: p prev)
  case Nil
  then show ?case by (simp add: queue_delete_walk.simps)
next
  case (Cons c cs)
  then show ?case by (subst queue_delete_walk.simps) (auto simp: Let_def)
qed

section \<open>Every operation on the represented list\<close>

definition insert_pri :: "(item \<Rightarrow> u32) \<Rightarrow> item \<Rightarrow> item list \<Rightarrow> item list" where
  "insert_pri pri x xs = takeWhile (\<lambda>y. \<not> pri x < pri y) xs @ x # dropWhile (\<lambda>y. \<not> pri x < pri y) xs"

lemma queue_enq_empty:
  "queue_rep q h [] \<Longrightarrow> \<exists>q' h'. queue_enq (Some q) (Some x) h = Some (QUEUE_SUCCESS, Some q', h')
     \<and> queue_rep q' h' [x] \<and> q_priCmpCb q' = q_priCmpCb q"
  by (auto simp: queue_rep_def queue_enq_def)

lemma queue_enq_fifo:
  assumes rep: "queue_rep q h xs" and fresh: "x \<notin> set xs" and pri: "q_priCmpCb q = None"
  shows "\<exists>q' h'. queue_enq (Some q) (Some x) h = Some (QUEUE_SUCCESS, Some q', h')
     \<and> queue_rep q' h' (xs @ [x]) \<and> q_priCmpCb q' = None"
proof (cases xs rule: rev_cases)
  case Nil
  with queue_enq_empty [of q h x] rep pri show ?thesis by auto
next
  case (snoc ys y)
  have c: "chain h (q_head q) (ys @ [y] @ [])" using rep snoc by (simp add: queue_rep_def)
  have "chain (h(x := None)) (q_head q) (ys @ [y] @ [])" using c fresh snoc by (simp add: chain_upd_other)
  then have "chain ((h(x := None))(y := Some x)) (q_head q) (ys @ [y] @ [x])"
    using rep fresh snoc by (intro chain_relink [where ys = "[]"]) (auto simp: queue_rep_def)
  moreover have "(h(x := None))(y := Some x) = (h(y := Some x))(x := None)"
    using fresh snoc by (auto simp: fun_eq_iff)
  ultimately show ?thesis using rep snoc fresh pri chain_head [OF c]
    by (auto simp: queue_rep_def queue_enq_def)
qed

lemma queue_enq_pri:
  assumes rep: "queue_rep q h xs" and fresh: "x \<notin> set xs" and pri: "q_priCmpCb q = Some f"
  shows "\<exists>q' h'. queue_enq (Some q) (Some x) h = Some (QUEUE_SUCCESS, Some q', h')
     \<and> queue_rep q' h' (insert_pri f x xs) \<and> q_priCmpCb q' = Some f"
proof (cases "xs = []")
  case True
  with queue_enq_empty [of q h x] rep pri show ?thesis by (auto simp: insert_pri_def)
next
  case False
  define ys where "ys = takeWhile (\<lambda>y. \<not> f x < f y) xs"
  define zs where "zs = dropWhile (\<lambda>y. \<not> f x < f y) xs"
  define cur where "cur = (if zs = [] then None else Some (hd zs))"
  have xs: "xs = ys @ zs" by (simp add: ys_def zs_def)
  have c: "chain h (q_head q) (ys @ zs)" and d: "distinct (ys @ zs)" using rep by (simp_all add: queue_rep_def xs)
  have walk: "queue_enq_walk f h x None (q_head q) = Some (if ys = [] then None else Some (last ys), cur)"
    using queue_enq_walk_chain [OF c, of f x None] unfolding xs [symmetric] by (simp add: ys_def zs_def cur_def)
  have hd: "q_head q \<noteq> None" using chain_head [OF c] False xs by auto
  have ins: "insert_pri f x xs = ys @ x # zs" by (simp add: insert_pri_def ys_def zs_def)
  show ?thesis
  proof (cases ys rule: rev_cases)
    case Nil
    have c0: "chain h (q_head q) zs" using c Nil by simp
    have "chain (h(x := cur)) (Some x) (x # zs)" using c0 fresh xs Nil chain_head [OF c0] by (simp add: cur_def)
    then show ?thesis using rep walk hd pri fresh xs Nil ins
      by (auto simp: queue_rep_def queue_enq_def cur_def split: if_splits)
  next
    case (snoc us u)
    have z: "chain h cur zs" using c snoc chain_nth_next [of h "q_head q" us u zs] chain_head [of h "h u" zs]
      by (auto simp: cur_def)
    have "chain (h(x := cur)) (q_head q) (us @ [u] @ zs)" using c fresh xs snoc by simp
    then have "chain ((h(x := cur))(u := Some x)) (q_head q) (us @ [u] @ (x # zs))"
      using z d fresh xs snoc by (intro chain_relink [where ys = zs]) auto
    moreover have "(h(x := cur))(u := Some x) = (h(u := Some x))(x := cur)"
      using fresh xs snoc by (auto simp: fun_eq_iff)
    ultimately show ?thesis using rep walk hd pri fresh xs snoc ins
      by (auto simp: queue_rep_def queue_enq_def cur_def split: if_splits)
  qed
qed

lemma queue_deq_nonempty:
  "queue_rep q h (x # xs) \<Longrightarrow> \<exists>q'. queue_deq q h = (Some x, q') \<and> queue_rep q' h xs \<and> q_priCmpCb q' = q_priCmpCb q"
  using chain_head [of h "h x" xs]
  by (auto simp: queue_rep_def queue_deq_def split: if_splits)

lemma queue_deq_empty: "queue_rep q h [] \<Longrightarrow> queue_deq q h = (None, q)"
  by (simp add: queue_rep_def queue_deq_def)

text \<open>Taking a node out of the middle of a chain.\<close>

lemma chain_unlink:
  assumes "chain h p (us @ [u] @ x # vs)" "distinct (us @ [u] @ x # vs)"
  shows "chain (h(u := h x)) p (us @ [u] @ vs)"
proof -
  have "chain h (h x) vs" using assms(1) chain_nth_next [of h p "us @ [u]" x vs] by simp
  then show ?thesis using assms by (intro chain_relink [where ys = "x # vs"]) auto
qed

lemma queue_rep_remove:
  assumes rep: "queue_rep q h (us @ x # vs)" and us: "us \<noteq> []"
  shows "queue_rep (q\<lparr>q_tail := (if vs = [] then Some (last us) else q_tail q), q_curNum := q_curNum q - 1\<rparr>)
           (h(last us := h x)) (us @ vs)"
proof -
  obtain ws u where u: "us = ws @ [u]" using us by (cases us rule: rev_cases) auto
  have "chain (h(u := h x)) (q_head q) (ws @ [u] @ vs)"
    using rep u by (intro chain_unlink) (auto simp: queue_rep_def)
  then show ?thesis using rep u by (auto simp: queue_rep_def)
qed

lemma queue_rep_remove_head:
  "queue_rep q h (x # vs) \<Longrightarrow>
     queue_rep (q\<lparr>q_head := h x, q_tail := (if vs = [] then None else q_tail q), q_curNum := q_curNum q - 1\<rparr>) h vs"
  by (auto simp: queue_rep_def)

lemma queue_rep_head: "queue_rep q h xs \<Longrightarrow> q_head q = (if xs = [] then None else Some (hd xs))"
  unfolding queue_rep_def by (blast dest: chain_head)

lemma queue_rep_tail_iff:
  "queue_rep q h (us @ x # vs) \<Longrightarrow> q_tail q = Some x \<longleftrightarrow> vs = []"
  by (auto simp: queue_rep_def)

lemma queue_remove_rep:
  assumes rep: "queue_rep q h (us @ x # vs)"
  shows "\<exists>q' h'. queue_remove (Some q) (Some x) (if us = [] then None else Some (last us)) h
            = (QUEUE_SUCCESS, Some q', h') \<and> queue_rep q' h' (us @ vs)"
proof (cases "us = []")
  case True
  with rep have r: "queue_rep q h (x # vs)" by simp
  show ?thesis using queue_rep_remove_head [OF r] queue_rep_head [OF r] queue_rep_tail_iff [OF rep] True
    by (cases "vs = []") (auto simp: queue_remove_def)
next
  case False
  have "hd us \<noteq> x" using rep False by (cases us) (auto simp: queue_rep_def)
  then show ?thesis
    using queue_rep_remove [OF rep False] queue_rep_head [OF rep] queue_rep_tail_iff [OF rep] False
    by (cases "vs = []") (auto simp: queue_remove_def)
qed

text \<open>\<^verbatim>\<open>queue_delete\<close> finds the predecessor itself and then does what \<^verbatim>\<open>queue_remove\<close> does.\<close>

lemma queue_delete_eq_remove:
  assumes rep: "queue_rep q h (us @ x # vs)"
  shows "queue_delete (Some q) (Some x) h =
           Some (queue_remove (Some q) (Some x) (if us = [] then None else Some (last us)) h)"
proof -
  have c: "chain h (q_head q) (us @ x # vs)" and d: "distinct (us @ x # vs)" using rep by (auto simp: queue_rep_def)
  have "takeWhile (\<lambda>y. y \<noteq> x) (us @ x # vs) = us" using d by (auto simp: takeWhile_append)
  then have w: "queue_delete_walk h x None (q_head q) = Some (if us = [] then None else Some (last us), Some x)"
    using queue_delete_walk_chain [OF c, of x None] by (simp add: Let_def)
  show ?thesis
  proof (cases us)
    case Nil
    then show ?thesis using queue_rep_head [OF rep] by (simp add: queue_delete_def queue_remove_def Let_def)
  next
    case (Cons a as)
    then have "a \<noteq> x" using d by auto
    then show ?thesis using queue_rep_head [OF rep] w Cons
      by (auto simp: queue_delete_def queue_remove_def Let_def)
  qed
qed

lemma queue_delete_absent:
  "queue_rep q h xs \<Longrightarrow> x \<notin> set xs \<Longrightarrow> queue_delete (Some q) (Some x) h =
     Some (if xs = [] then QUEUE_EMPTY else QUEUE_NOT_FOUND, Some q, h)"
  using queue_rep_head [of q h xs] queue_delete_walk_chain [of h "q_head q" xs x None]
  by (auto simp: queue_delete_def queue_rep_def hd_in_set)

lemma queue_insert_head:
  "queue_rep q h xs \<Longrightarrow> xs \<noteq> [] \<Longrightarrow> x \<notin> set xs \<Longrightarrow>
     \<exists>q' h'. queue_insert (Some q) (Some x) None h = Some (QUEUE_SUCCESS, Some q', h') \<and> queue_rep q' h' (x # xs)"
  by (auto simp: queue_insert_def queue_rep_def dest: chain_head)

lemma queue_insert_middle:
  assumes rep: "queue_rep q h (us @ p # vs)" and vs: "vs \<noteq> []" and fresh: "x \<notin> set (us @ p # vs)"
  shows "\<exists>q' h'. queue_insert (Some q) (Some x) (Some p) h = Some (QUEUE_SUCCESS, Some q', h')
           \<and> queue_rep q' h' (us @ p # x # vs)"
proof -
  have c: "chain h (q_head q) (us @ [p] @ vs)" using rep by (simp add: queue_rep_def)
  have "chain h (h p) vs" using chain_nth_next [OF c] .
  then have z: "chain (h(x := h p)) (Some x) (x # vs)" using fresh by simp
  have "chain (h(x := h p)) (q_head q) (us @ [p] @ vs)" using c fresh by simp
  then have "chain ((h(x := h p))(p := Some x)) (q_head q) (us @ [p] @ (x # vs))"
    using z rep fresh by (intro chain_relink [where ys = vs]) (auto simp: queue_rep_def)
  moreover have "q_tail q \<noteq> Some p" using queue_rep_tail_iff [OF rep] vs by simp
  ultimately show ?thesis using rep fresh vs queue_rep_head [OF rep]
    by (auto simp: queue_insert_def queue_rep_def)
qed

section \<open>The queue contract\<close>

text \<open>One enqueue or dequeue on the pair of header and heap; an enqueue that does not succeed is \<open>None\<close>.\<close>

definition enq_step :: "queue_t \<times> heap \<Rightarrow> item \<Rightarrow> (queue_t \<times> heap) option" where
  "enq_step s x = (case queue_enq (Some (fst s)) (Some x) (snd s) of
     Some (QUEUE_SUCCESS, Some q', h') \<Rightarrow> Some (q', h') | _ \<Rightarrow> None)"

definition deq_step :: "queue_t \<times> heap \<Rightarrow> item option \<times> (queue_t \<times> heap)" where
  "deq_step s = (let (r, q') = queue_deq (fst s) (snd s) in (r, (q', snd s)))"

fun enq_all :: "('s \<Rightarrow> item \<Rightarrow> 's option) \<Rightarrow> 's \<Rightarrow> item list \<Rightarrow> 's option" where
  "enq_all enq s [] = Some s"
| "enq_all enq s (x # xs) = Option.bind (enq s x) (\<lambda>s'. enq_all enq s' xs)"

fun deq_many :: "('s \<Rightarrow> item option \<times> 's) \<Rightarrow> nat \<Rightarrow> 's \<Rightarrow> item option list" where
  "deq_many deq 0 s = []"
| "deq_many deq (Suc n) s = (let (r, s') = deq s in r # deq_many deq n s')"

locale item_queue =
  fixes rep :: "'s \<Rightarrow> item list \<Rightarrow> bool"
    and enq :: "'s \<Rightarrow> item \<Rightarrow> 's option"
    and deq :: "'s \<Rightarrow> item option \<times> 's"
    and ins :: "item \<Rightarrow> item list \<Rightarrow> item list"
  assumes enq_rep: "rep s xs \<Longrightarrow> x \<notin> set xs \<Longrightarrow> \<exists>s'. enq s x = Some s' \<and> rep s' (ins x xs)"
    and deq_Cons: "rep s (x # xs) \<Longrightarrow> \<exists>s'. deq s = (Some x, s') \<and> rep s' xs"
    and deq_Nil: "rep s [] \<Longrightarrow> deq s = (None, s)"
    and ins_set: "set (ins x xs) = insert x (set xs)"
    and ins_length: "length (ins x xs) = Suc (length xs)"
begin

lemma enq_all_rep:
  "rep s xs \<Longrightarrow> distinct ys \<Longrightarrow> set xs \<inter> set ys = {} \<Longrightarrow>
     \<exists>s'. enq_all enq s ys = Some s' \<and> rep s' (fold ins ys xs)"
proof (induction ys arbitrary: s xs)
  case Nil
  then show ?case by simp
next
  case (Cons y ys)
  then obtain s1 where s1: "enq s y = Some s1" "rep s1 (ins y xs)" using enq_rep [of s xs y] by auto
  show ?case using Cons.IH [OF s1(2)] Cons.prems s1(1) by (auto simp: ins_set)
qed

lemma deq_many_empty: "rep s [] \<Longrightarrow> deq_many deq n s = replicate n None"
  by (induction n) (simp_all add: deq_Nil)

lemma deq_many_rep: "rep s xs \<Longrightarrow> deq_many deq (length xs + n) s = map Some xs @ replicate n None"
proof (induction xs arbitrary: s)
  case Nil
  then show ?case by (simp add: deq_many_empty)
next
  case (Cons x xs)
  then obtain s' where "deq s = (Some x, s')" "rep s' xs" using deq_Cons by blast
  then show ?case using Cons.IH by simp
qed

lemma fold_ins_length: "length (fold ins ys xs) = length xs + length ys"
  by (induction ys arbitrary: xs) (simp_all add: ins_length)

theorem enq_then_deq:
  assumes "rep s []" "distinct ys"
  shows "\<exists>s'. enq_all enq s ys = Some s' \<and> rep s' (fold ins ys [])
           \<and> deq_many deq (length ys + n) s' = map Some (fold ins ys []) @ replicate n None"
proof -
  obtain s' where s': "enq_all enq s ys = Some s'" "rep s' (fold ins ys [])"
    using enq_all_rep [OF assms(1) assms(2)] by auto
  then show ?thesis using deq_many_rep [OF s'(2), of n] by (simp add: fold_ins_length)
qed

end

definition fifo_rep :: "queue_t \<times> heap \<Rightarrow> item list \<Rightarrow> bool" where
  "fifo_rep s xs \<longleftrightarrow> queue_rep (fst s) (snd s) xs \<and> q_priCmpCb (fst s) = None"

definition prio_rep :: "(item \<Rightarrow> u32) \<Rightarrow> queue_t \<times> heap \<Rightarrow> item list \<Rightarrow> bool" where
  "prio_rep pri s xs \<longleftrightarrow> queue_rep (fst s) (snd s) xs \<and> q_priCmpCb (fst s) = Some pri"

lemma insert_pri_mset [simp]: "mset (insert_pri pri x xs) = add_mset x (mset xs)"
proof -
  have "mset (takeWhile (\<lambda>y. \<not> pri x < pri y) xs) + mset (dropWhile (\<lambda>y. \<not> pri x < pri y) xs) = mset xs"
    by (simp flip: mset_append)
  then show ?thesis by (simp add: insert_pri_def)
qed

lemma insert_pri_set: "set (insert_pri pri x xs) = insert x (set xs)"
  by (metis insert_pri_mset set_mset_add_mset_insert set_mset_mset)

lemma insert_pri_length: "length (insert_pri pri x xs) = Suc (length xs)"
  by (metis insert_pri_mset size_add_mset size_mset)

interpretation fq: item_queue fifo_rep enq_step deq_step "\<lambda>x xs. xs @ [x]"
proof unfold_locales
  fix s xs x
  assume "fifo_rep s xs" "x \<notin> set xs"
  then show "\<exists>s'. enq_step s x = Some s' \<and> fifo_rep s' (xs @ [x])"
    using queue_enq_fifo [of "fst s" "snd s" xs x] by (auto simp: fifo_rep_def enq_step_def)
next
  fix s x xs
  assume "fifo_rep s (x # xs)"
  then show "\<exists>s'. deq_step s = (Some x, s') \<and> fifo_rep s' xs"
    using queue_deq_nonempty [of "fst s" "snd s" x xs] by (auto simp: fifo_rep_def deq_step_def)
next
  fix s
  assume "fifo_rep s []"
  then show "deq_step s = (None, s)"
    using queue_deq_empty [of "fst s" "snd s"] by (auto simp: fifo_rep_def deq_step_def)
qed auto

interpretation pq: item_queue "prio_rep pri" enq_step deq_step "insert_pri pri" for pri
proof unfold_locales
  fix s xs x
  assume "prio_rep pri s xs" "x \<notin> set xs"
  then show "\<exists>s'. enq_step s x = Some s' \<and> prio_rep pri s' (insert_pri pri x xs)"
    using queue_enq_pri [of "fst s" "snd s" xs x pri] by (auto simp: prio_rep_def enq_step_def)
next
  fix s x xs
  assume "prio_rep pri s (x # xs)"
  then show "\<exists>s'. deq_step s = (Some x, s') \<and> prio_rep pri s' xs"
    using queue_deq_nonempty [of "fst s" "snd s" x xs] by (auto simp: prio_rep_def deq_step_def)
next
  fix s
  assume "prio_rep pri s []"
  then show "deq_step s = (None, s)"
    using queue_deq_empty [of "fst s" "snd s"] by (auto simp: prio_rep_def deq_step_def)
qed (auto simp: insert_pri_set insert_pri_length)

text \<open>Folding the priority insertion sorts stably.\<close>

lemma insert_pri_sorted: "sorted (map pri xs) \<Longrightarrow> sorted (map pri (insert_pri pri x xs))"
proof (induction xs)
  case Nil
  then show ?case by (simp add: insert_pri_def)
next
  case (Cons y ys)
  then show ?case by (auto simp: insert_pri_def dest: set_takeWhileD set_dropWhileD)
qed

lemma insert_pri_stable:
  "sorted (map pri xs) \<Longrightarrow> filter (\<lambda>y. k = pri y) (insert_pri pri x xs) =
     filter (\<lambda>y. k = pri y) xs @ (if k = pri x then [x] else [])"
proof (induction xs)
  case Nil
  then show ?case by (simp add: insert_pri_def)
next
  case (Cons y ys)
  show ?case
  proof (cases "pri x < pri y")
    case True
    then have "\<forall>z \<in> set (y # ys). pri x < pri z" using Cons.prems by auto
    then have "k = pri x \<Longrightarrow> filter (\<lambda>z. k = pri z) (y # ys) = []" by (auto simp: filter_empty_conv)
    then show ?thesis using True by (auto simp: insert_pri_def)
  next
    case False
    then have "insert_pri pri x (y # ys) = y # insert_pri pri x ys" by (simp add: insert_pri_def)
    then show ?thesis using Cons by auto
  qed
qed

lemma fold_insert_pri:
  "sorted (map pri xs) \<Longrightarrow> sorted (map pri (fold (insert_pri pri) ys xs))
     \<and> mset (fold (insert_pri pri) ys xs) = mset xs + mset ys
     \<and> filter (\<lambda>y. k = pri y) (fold (insert_pri pri) ys xs) = filter (\<lambda>y. k = pri y) xs @ filter (\<lambda>y. k = pri y) ys"
  by (induction ys arbitrary: xs) (simp_all add: insert_pri_sorted insert_pri_stable)

lemma fold_insert_pri_sort_key: "fold (insert_pri pri) ys [] = sort_key pri ys"
  by (rule sym, rule properties_for_sort_key) (use fold_insert_pri [of pri "[]" ys] in simp_all)

lemma fold_append_id: "fold (\<lambda>x xs. xs @ [x]) ys zs = zs @ ys"
  by (induction ys arbitrary: zs) simp_all

lemma queue_init_rep:
  "queue_init (Some q0) f = (QUEUE_SUCCESS, Some q) \<Longrightarrow> queue_rep q h [] \<and> q_priCmpCb q = f"
  by (auto simp: queue_init_def queue_rep_def)

section \<open>Properties\<close>

text \<open>
  In FIFO mode (\<^verbatim>\<open>queue_init\<close> with no priority callback) enqueueing any distinct items into a
  fresh queue succeeds, the count is their number, and dequeuing returns them in the order in which
  they were put and then \<^verbatim>\<open>NULL\<close> for ever.
\<close>

theorem queue_fifo_order:
  assumes "queue_init (Some q0) None = (QUEUE_SUCCESS, Some q)" and "distinct ys"
  shows "\<exists>q' h'. enq_all enq_step (q, h) ys = Some (q', h') \<and> queue_count q' = of_nat (length ys)
           \<and> deq_many deq_step (length ys + n) (q', h') = map Some ys @ replicate n None"
proof -
  have "fifo_rep (q, h) []" using queue_init_rep [OF assms(1)] by (simp add: fifo_rep_def)
  from fq.enq_then_deq [OF this assms(2), of n] show ?thesis
    by (auto simp: fold_append_id fifo_rep_def queue_rep_def queue_count_def)
qed

theorem queue_fifo_order_witness:
  "\<exists>q q' h'. queue_init (Some \<lparr>q_head = Some 3, q_tail = None, q_priCmpCb = None, q_curNum = 9\<rparr>) None = (QUEUE_SUCCESS, Some q)
     \<and> enq_all enq_step (q, \<lambda>_. None) [5, 2, 8] = Some (q', h') \<and> queue_count q' = 3
     \<and> deq_many deq_step 5 (q', h') = [Some 5, Some 2, Some 8, None, None]"
  using queue_fifo_order [of "\<lparr>q_head = Some 3, q_tail = None, q_priCmpCb = None, q_curNum = 9\<rparr>"
      "\<lparr>q_head = None, q_tail = None, q_priCmpCb = None, q_curNum = 0\<rparr>" "[5, 2, 8]" "\<lambda>_. None" 2]
  by (simp add: queue_init_def eval_nat_numeral)

text \<open>
  C26.  In priority mode the items come out sorted by the callback's value, smallest first, and items
  of equal value in the order in which they were put: the queue is a stable priority queue.
\<close>

theorem queue_priority_order:
  assumes "queue_init (Some q0) (Some pri) = (QUEUE_SUCCESS, Some q)" and "distinct ys"
  shows "\<exists>q' h'. enq_all enq_step (q, h) ys = Some (q', h') \<and> queue_count q' = of_nat (length ys)
           \<and> deq_many deq_step (length ys + n) (q', h') = map Some (sort_key pri ys) @ replicate n None"
proof -
  have "prio_rep pri (q, h) []" using queue_init_rep [OF assms(1)] by (simp add: prio_rep_def)
  from pq.enq_then_deq [OF this assms(2), of n] show ?thesis
    by (auto simp: fold_insert_pri_sort_key prio_rep_def queue_rep_def queue_count_def)
qed

theorem queue_priority_order_witness:
  "\<exists>q q' h'. queue_init (Some \<lparr>q_head = Some 3, q_tail = None, q_priCmpCb = None, q_curNum = 9\<rparr>) (Some (\<lambda>x. of_nat (x mod 2)))
         = (QUEUE_SUCCESS, Some q)
     \<and> enq_all enq_step (q, \<lambda>_. None) [5, 2, 7, 8] = Some (q', h')
     \<and> deq_many deq_step 5 (q', h') = [Some 2, Some 8, Some 5, Some 7, None]"
proof -
  have "sort_key (\<lambda>x. of_nat (x mod 2) :: u32) [5, 2, 7, 8 :: item] = [2, 8, 5, 7]" by code_simp
  then show ?thesis
    using queue_priority_order [of "\<lparr>q_head = Some 3, q_tail = None, q_priCmpCb = None, q_curNum = 9\<rparr>" "\<lambda>x. of_nat (x mod 2)"
        "\<lparr>q_head = None, q_tail = None, q_priCmpCb = Some (\<lambda>x. of_nat (x mod 2)), q_curNum = 0\<rparr>" "[5, 2, 7, 8]" "\<lambda>_. None" 1]
    by (auto simp: queue_init_def numeral_nat)
qed

text \<open>
  C27.  \<^verbatim>\<open>queue_delete\<close> terminates on every well-formed queue and takes exactly the named item out: it
  reports success and leaves the other items in order, or reports that the queue is empty or the
  item absent and changes nothing.
\<close>

theorem queue_delete_correct:
  assumes "queue_rep q h xs"
  shows "\<exists>q' h'. queue_delete (Some q) (Some x) h =
             Some (if x \<in> set xs then QUEUE_SUCCESS else if xs = [] then QUEUE_EMPTY else QUEUE_NOT_FOUND, Some q', h')
           \<and> queue_rep q' h' (remove1 x xs) \<and> (x \<notin> set xs \<longrightarrow> q' = q \<and> h' = h)"
proof (cases "x \<in> set xs")
  case True
  then obtain us vs where xs: "xs = us @ x # vs" "x \<notin> set us" by (meson split_list_first)
  then show ?thesis using queue_delete_eq_remove [of q h us x vs] queue_remove_rep [of q h us x vs] assms
    by (auto simp: remove1_append)
next
  case False
  then show ?thesis using queue_delete_absent [OF assms False] assms by (auto simp: remove1_idem)
qed

theorem queue_delete_correct_witness:
  "\<exists>q' h'. queue_delete (Some \<lparr>q_head = Some 1, q_tail = Some 3, q_priCmpCb = None, q_curNum = 3\<rparr>) (Some 3)
             ((\<lambda>_. None)(1 := Some 2, 2 := Some 3)) = Some (QUEUE_SUCCESS, Some q', h')
           \<and> queue_rep q' h' [1, 2]"
  using queue_delete_correct [of "\<lparr>q_head = Some 1, q_tail = Some 3, q_priCmpCb = None, q_curNum = 3\<rparr>"
      "(\<lambda>_. None)(1 := Some 2, 2 := Some 3)" "[1, 2, 3]" 3]
  by (simp add: queue_rep_def)

text \<open>
  Inserting behind an item that is not the last (or at the head of a non-empty queue) places the
  new item there, and \<^verbatim>\<open>queue_remove\<close> with the same predecessor takes it out again: the queue
  represents the same list as before.
\<close>

theorem queue_insert_remove:
  assumes "queue_rep q h (us @ vs)" and "vs \<noteq> []" and "x \<notin> set (us @ vs)"
  shows "\<exists>q1 h1 q2 h2.
     queue_insert (Some q) (Some x) (if us = [] then None else Some (last us)) h = Some (QUEUE_SUCCESS, Some q1, h1)
     \<and> queue_rep q1 h1 (us @ x # vs)
     \<and> queue_remove (Some q1) (Some x) (if us = [] then None else Some (last us)) h1 = (QUEUE_SUCCESS, Some q2, h2)
     \<and> queue_rep q2 h2 (us @ vs)"
proof -
  have "\<exists>q1 h1. queue_insert (Some q) (Some x) (if us = [] then None else Some (last us)) h
           = Some (QUEUE_SUCCESS, Some q1, h1) \<and> queue_rep q1 h1 (us @ x # vs)"
    using queue_insert_head [of q h vs x] queue_insert_middle [of q h "butlast us" "last us" vs x] assms
    by (cases us rule: rev_cases) auto
  then obtain q1 h1 where i: "queue_insert (Some q) (Some x) (if us = [] then None else Some (last us)) h
       = Some (QUEUE_SUCCESS, Some q1, h1)" and r: "queue_rep q1 h1 (us @ x # vs)" by blast
  then show ?thesis using queue_remove_rep [OF r] by blast
qed

theorem queue_insert_remove_witness:
  "\<exists>q1 h1 q2 h2.
     queue_insert (Some \<lparr>q_head = Some 1, q_tail = Some 2, q_priCmpCb = None, q_curNum = 2\<rparr>) (Some 7) (Some 1)
        ((\<lambda>_. None)(1 := Some 2)) = Some (QUEUE_SUCCESS, Some q1, h1)
     \<and> queue_rep q1 h1 [1, 7, 2]
     \<and> queue_remove (Some q1) (Some 7) (Some 1) h1 = (QUEUE_SUCCESS, Some q2, h2)
     \<and> queue_rep q2 h2 [1, 2]"
  using queue_insert_remove [of "\<lparr>q_head = Some 1, q_tail = Some 2, q_priCmpCb = None, q_curNum = 2\<rparr>"
      "(\<lambda>_. None)(1 := Some 2)" "[1]" "[2]" 7]
  by (simp add: queue_rep_def)

end
