(* ===== verification/Soft_Timer.thy ===== *)
theory Soft_Timer
  imports Telink_Prelude "HOL-Library.Multiset"
begin

text \<open>
  The software timer table of \<^verbatim>\<open>vendor/common/blt_soft_timer.c\<close> and \<^verbatim>\<open>.h\<close>: at most four
  timers kept sorted by expiry tick on the 32-bit timer ring.

  A callback is a name; what the application does when it is called is the argument \<open>app\<close>, which
  returns the callback's \<^verbatim>\<open>int\<close> result and the timer state it leaves (a callback may call the timer
  API).  The two power-management entry points of the BLE library the code calls are recorded in
  the state: the last \<^verbatim>\<open>blc_pm_setAppWakeupLowPower\<close> setting and whether the wake-up callback is
  registered.  Operations that walk the table up to \<^verbatim>\<open>currentNum\<close> are \<open>None\<close> when they would leave the
  array.
\<close>

section \<open>Data\<close>

definition MAX_TIMER_NUM :: nat where "MAX_TIMER_NUM = 4"

type_synonym blt_timer_callback_t = nat

record blt_time_event_t =
  cb :: "blt_timer_callback_t option"
  ev_t :: u32
  ev_interval :: u32

record blt_soft_timer_t =
  timer :: "blt_time_event_t list"
  currentNum :: u8
  appWakeup :: "u32 \<times> u8"
  wakeupCb :: bool

type_synonym timer_app = "blt_timer_callback_t \<Rightarrow> blt_soft_timer_t \<Rightarrow> 32 word \<times> blt_soft_timer_t"

definition TIME_COMPARE_BIG :: "u32 \<Rightarrow> u32 \<Rightarrow> bool" where
  "TIME_COMPARE_BIG t1 t2 = (t1 - t2 < 2 ^ 30)"

definition BLT_TIMER_SAFE_MARGIN_PRE :: u32 where
  "BLT_TIMER_SAFE_MARGIN_PRE = push_bit 7 SYSTEM_TIMER_TICK_1US"

definition BLT_TIMER_SAFE_MARGIN_POST :: u32 where
  "BLT_TIMER_SAFE_MARGIN_POST = push_bit 2 SYSTEM_TIMER_TICK_1S"

definition blt_is_timer_expired :: "u32 \<Rightarrow> u32 \<Rightarrow> bool" where
  "blt_is_timer_expired t now = (now + BLT_TIMER_SAFE_MARGIN_PRE - t < BLT_TIMER_SAFE_MARGIN_POST)"

section \<open>Operations\<close>

text \<open>The two nested loops of the bubble sort.\<close>

function sort_inner :: "nat \<Rightarrow> nat \<Rightarrow> blt_time_event_t list \<Rightarrow> blt_time_event_t list" where
  "sort_inner j m ts =
     (if j < m
      then sort_inner (j + 1) m
             (if TIME_COMPARE_BIG (ev_t (ts ! j)) (ev_t (ts ! (j + 1)))
              then ts[j := ts ! (j + 1), j + 1 := ts ! j] else ts)
      else ts)"
  by auto
termination by (relation "measure (\<lambda>(j, m, ts). m - j)") auto

function sort_outer :: "nat \<Rightarrow> nat \<Rightarrow> blt_time_event_t list \<Rightarrow> blt_time_event_t list" where
  "sort_outer i n ts = (if i < n - 1 then sort_outer (i + 1) n (sort_inner 0 (n - i - 1) ts) else ts)"
  by auto
termination by (relation "measure (\<lambda>(i, n, ts). n - i)") auto

declare sort_inner.simps [simp del] sort_outer.simps [simp del]

definition blt_soft_timer_sort :: "blt_soft_timer_t \<Rightarrow> int \<times> blt_soft_timer_t" where
  "blt_soft_timer_sort s =
     (if unat (currentNum s) < 1 \<or> unat (currentNum s) > MAX_TIMER_NUM then (0, s)
      else (1, s\<lparr>timer := sort_outer 0 (unat (currentNum s)) (timer s)\<rparr>))"

definition blt_soft_timer_add ::
    "blt_timer_callback_t option \<Rightarrow> u32 \<Rightarrow> u32 \<Rightarrow> blt_soft_timer_t \<Rightarrow> int \<times> blt_soft_timer_t" where
  "blt_soft_timer_add func interval_us now s =
     (if unat (currentNum s) \<ge> MAX_TIMER_NUM then (0, s)
      else
        (let interval = interval_us * SYSTEM_TIMER_TICK_1US;
             e = \<lparr>cb = func, ev_t = now + interval, ev_interval = interval\<rparr>;
             s1 = s\<lparr>timer := (timer s)[unat (currentNum s) := e], currentNum := currentNum s + 1\<rparr>;
             s2 = snd (blt_soft_timer_sort s1)
         in (1, s2\<lparr>appWakeup := (ev_t (timer s2 ! 0), 1)\<rparr>)))"

text \<open>Checked access to the table; the array has \<^verbatim>\<open>MAX_TIMER_NUM\<close> entries.\<close>

definition timer_get :: "blt_soft_timer_t \<Rightarrow> nat \<Rightarrow> blt_time_event_t option" where
  "timer_get s i = (if i < length (timer s) then Some (timer s ! i) else None)"

definition timer_set :: "nat \<Rightarrow> blt_time_event_t \<Rightarrow> blt_soft_timer_t \<Rightarrow> blt_soft_timer_t option" where
  "timer_set i e s = (if i < length (timer s) then Some (s\<lparr>timer := (timer s)[i := e]\<rparr>) else None)"

function delete_shift :: "nat \<Rightarrow> nat \<Rightarrow> blt_soft_timer_t \<Rightarrow> blt_soft_timer_t option" where
  "delete_shift i lim s =
     (if i < lim
      then do { e \<leftarrow> timer_get s (i + 1); s1 \<leftarrow> timer_set i e s; delete_shift (i + 1) lim s1 }
      else Some s)"
  by auto
termination by (relation "measure (\<lambda>(i, lim, s). lim - i)") auto

declare delete_shift.simps [simp del]

definition blt_soft_timer_delete_by_index :: "nat \<Rightarrow> blt_soft_timer_t \<Rightarrow> (int \<times> blt_soft_timer_t) option" where
  "blt_soft_timer_delete_by_index index s =
     (if index \<ge> unat (currentNum s) then Some (0, s)
      else do { s1 \<leftarrow> delete_shift index (unat (currentNum s) - 1) s;
                Some (0, s1\<lparr>currentNum := currentNum s1 - 1\<rparr>) })"

function delete_search ::
    "nat \<Rightarrow> blt_timer_callback_t option \<Rightarrow> u32 \<Rightarrow> blt_soft_timer_t \<Rightarrow> (int \<times> blt_soft_timer_t) option" where
  "delete_search i func now s =
     (if i < unat (currentNum s)
      then do { e \<leftarrow> timer_get s i;
                if cb e = func
                then do { (_, s1) \<leftarrow> blt_soft_timer_delete_by_index i s;
                          if currentNum s1 \<noteq> 0
                          then (if i = 0
                                then do { e0 \<leftarrow> timer_get s1 0;
                                          if ev_t e0 - now < 5000 * SYSTEM_TIMER_TICK_1MS
                                          then Some (1, s1\<lparr>appWakeup := (ev_t e0, 1)\<rparr>)
                                          else Some (1, s1\<lparr>appWakeup := (0, 0)\<rparr>) }
                                else Some (1, s1))
                          else Some (1, s1\<lparr>appWakeup := (0, 0)\<rparr>) }
                else delete_search (i + 1) func now s }
      else Some (0, s))"
  by auto
termination by (relation "measure (\<lambda>(i, func, now, s). unat (currentNum s) - i)") auto

declare delete_search.simps [simp del]

definition blt_soft_timer_delete ::
    "blt_timer_callback_t option \<Rightarrow> u32 \<Rightarrow> blt_soft_timer_t \<Rightarrow> (int \<times> blt_soft_timer_t) option" where
  "blt_soft_timer_delete func now s = delete_search 0 func now s"

definition blt_soft_timer_get_first_tick :: "blt_soft_timer_t \<Rightarrow> u32" where
  "blt_soft_timer_get_first_tick s = (if currentNum s = 0 then 0 else ev_t (timer s ! 0))"

text \<open>
  The loop of \<^verbatim>\<open>blt_soft_timer_process\<close>.  Its result also lists the callbacks called, in order.  The
  loop ends because \<open>i\<close> grows while \<^verbatim>\<open>currentNum\<close> is a byte, whatever the callbacks do.
\<close>

function process_loop ::
    "timer_app \<Rightarrow> u32 \<Rightarrow> nat \<Rightarrow> bool \<Rightarrow> blt_timer_callback_t list \<Rightarrow> blt_soft_timer_t
       \<Rightarrow> (bool \<times> blt_timer_callback_t list \<times> blt_soft_timer_t) option" where
  "process_loop app now i change_flg fired s =
     (if i < unat (currentNum s)
      then do { e \<leftarrow> timer_get s i;
                if blt_is_timer_expired (ev_t e) now
                then (case cb e of
                        None \<Rightarrow> process_loop app now (i + 1) change_flg fired s
                      | Some c \<Rightarrow>
                          (let (result, s1) = app c s in
                           if sint result < 0
                           then do { (_, s2) \<leftarrow> blt_soft_timer_delete_by_index i s1;
                                     process_loop app now (i + 1) change_flg (fired @ [c]) s2 }
                           else if result = 0
                           then do { e1 \<leftarrow> timer_get s1 i;
                                     s2 \<leftarrow> timer_set i (e1\<lparr>ev_t := now + ev_interval e1\<rparr>) s1;
                                     process_loop app now (i + 1) True (fired @ [c]) s2 }
                           else do { e1 \<leftarrow> timer_get s1 i;
                                     s2 \<leftarrow> timer_set i (e1\<lparr>ev_interval := result * SYSTEM_TIMER_TICK_1US,
                                                         ev_t := now + result * SYSTEM_TIMER_TICK_1US\<rparr>) s1;
                                     process_loop app now (i + 1) True (fired @ [c]) s2 }))
                else process_loop app now (i + 1) change_flg fired s }
      else Some (change_flg, fired, s))"
  by auto
termination
  by (relation "measure (\<lambda>(app, now, i, chg, fired, s). 256 - i)")
    (auto intro: u8_index_measure)

declare process_loop.simps [simp del]

definition blt_soft_timer_process ::
    "timer_app \<Rightarrow> u32 \<Rightarrow> blt_soft_timer_t \<Rightarrow> (blt_timer_callback_t list \<times> blt_soft_timer_t) option" where
  "blt_soft_timer_process app now s =
     (if currentNum s = 0 then Some ([], s\<lparr>appWakeup := (0, 0)\<rparr>)
      else do { e0 \<leftarrow> timer_get s 0;
                if \<not> blt_is_timer_expired (ev_t e0) now then Some ([], s)
                else do { (change_flg, fired, s1) \<leftarrow> process_loop app now 0 False [] s;
                          if currentNum s1 \<noteq> 0
                          then (let s2 = (if change_flg then snd (blt_soft_timer_sort s1) else s1) in
                                do { f \<leftarrow> timer_get s2 0;
                                     if ev_t f - now < 5000 * SYSTEM_TIMER_TICK_1MS
                                     then Some (fired, s2\<lparr>appWakeup := (ev_t f, 1)\<rparr>)
                                     else Some (fired, s2\<lparr>appWakeup := (0, 0)\<rparr>) })
                          else Some (fired, s1\<lparr>appWakeup := (0, 0)\<rparr>) } })"

definition blt_soft_timer_init :: "blt_soft_timer_t \<Rightarrow> blt_soft_timer_t" where
  "blt_soft_timer_init s = s\<lparr>wakeupCb := True\<rparr>"

section \<open>Invariant and ring order\<close>

definition timer_wf :: "blt_soft_timer_t \<Rightarrow> bool" where
  "timer_wf s \<longleftrightarrow> length (timer s) = MAX_TIMER_NUM \<and> unat (currentNum s) \<le> MAX_TIMER_NUM"

definition active :: "blt_soft_timer_t \<Rightarrow> blt_time_event_t list" where
  "active s = take (unat (currentNum s)) (timer s)"

text \<open>Ticks are compared as distances from a base tick; \<open>in_window\<close> is where that comparison is sound.\<close>

definition tick_off :: "u32 \<Rightarrow> blt_time_event_t \<Rightarrow> nat" where
  "tick_off base e = unat (ev_t e - base)"

definition in_window :: "u32 \<Rightarrow> blt_time_event_t list \<Rightarrow> bool" where
  "in_window base es \<longleftrightarrow> (\<forall>e \<in> set es. tick_off base e < 2 ^ 30)"

definition tick_ordered :: "u32 \<Rightarrow> blt_time_event_t list \<Rightarrow> bool" where
  "tick_ordered base es \<longleftrightarrow> sorted (map (tick_off base) es)"

lemma TIME_COMPARE_BIG_window:
  assumes "tick_off base a < 2 ^ 30" "tick_off base b < 2 ^ 30"
  shows "TIME_COMPARE_BIG (ev_t a) (ev_t b) \<longleftrightarrow> tick_off base b \<le> tick_off base a"
proof -
  have d: "ev_t a - ev_t b = (ev_t a - base) - (ev_t b - base)" by simp
  have w: "uint x < 2 ^ 30 \<Longrightarrow> uint y < 2 ^ 30 \<Longrightarrow> (uint (x - y) < 2 ^ 30 \<longleftrightarrow> uint y \<le> uint x)" for x y :: u32
  proof -
    assume x: "uint x < 2 ^ 30" and y: "uint y < 2 ^ 30"
    have "uint (x - y) = (uint x - uint y) mod 2 ^ 32" by (simp add: uint_word_ariths)
    also have "\<dots> = (if uint y \<le> uint x then uint x - uint y else uint x - uint y + 2 ^ 32)"
    proof (cases "uint y \<le> uint x")
      case True
      have "uint x - uint y \<le> uint x" by simp
      also have "\<dots> < 2 ^ 32" using x by simp
      finally have "(uint x - uint y) mod 2 ^ 32 = uint x - uint y" using True by (intro mod_pos_pos_trivial) auto
      then show ?thesis using True by simp
    next
      case False
      have "uint y < 4294967296" using y by simp
      then have "0 \<le> uint x - uint y + 4294967296" using uint_ge_0 [of x] by linarith
      then have "(uint x - uint y + 2 ^ 32) mod 2 ^ 32 = uint x - uint y + 2 ^ 32"
        using False by (intro mod_pos_pos_trivial) simp_all
      then show ?thesis using False by simp
    qed
    finally have e: "uint (x - y) = (if uint y \<le> uint x then uint x - uint y else uint x - uint y + 2 ^ 32)" .
    have "c = (if b \<le> a then a - b else a - b + 2 ^ 32) \<Longrightarrow> 0 \<le> a \<Longrightarrow> 0 \<le> b \<Longrightarrow> a < 2 ^ 30 \<Longrightarrow> b < 2 ^ 30
            \<Longrightarrow> (c < 2 ^ 30 \<longleftrightarrow> b \<le> a)" for a b c :: int by auto
    from this [OF e uint_ge_0 uint_ge_0 x y] show ?thesis .
  qed
  have u: "uint x < 2 ^ 30 \<longleftrightarrow> unat x < 2 ^ 30" for x :: u32
    using word_less_alt [of x "2 ^ 30"] word_less_nat_alt [of x "2 ^ 30"] by simp
  have "TIME_COMPARE_BIG (ev_t a) (ev_t b) \<longleftrightarrow> uint ((ev_t a - base) - (ev_t b - base)) < 2 ^ 30"
    unfolding TIME_COMPARE_BIG_def d [symmetric] by (simp add: word_less_alt)
  then show ?thesis using assms w [of "ev_t a - base" "ev_t b - base"] unfolding u tick_off_def
    by (metis word_le_def word_le_nat_alt)
qed

section \<open>The bubble sort\<close>

lemma mset_take_swap:
  assumes "i < m" "j < m" "m \<le> length ts"
  shows "mset (take m (ts[i := ts ! j, j := ts ! i])) = mset (take m ts)"
proof -
  have "take m (ts[i := ts ! j, j := ts ! i]) = (take m ts)[i := take m ts ! j, j := take m ts ! i]"
    using assms by (simp add: take_update_swap)
  then show ?thesis using assms mset_swap [of j "take m ts" i] by simp
qed

text \<open>One pass carries the largest of the first \<open>m + 1\<close> ticks to position \<open>m\<close> and touches nothing behind it.\<close>

lemma sort_inner_perm:
  "m < length ts \<Longrightarrow> length (sort_inner j m ts) = length ts
     \<and> drop (Suc m) (sort_inner j m ts) = drop (Suc m) ts
     \<and> mset (take (Suc m) (sort_inner j m ts)) = mset (take (Suc m) ts)"
proof (induction j m ts rule: sort_inner.induct)
  case (1 j m ts)
  then show ?case
    by (subst (1 2 3) sort_inner.simps) (auto simp: mset_take_swap)
qed

lemma sort_inner_max:
  assumes "j \<le> m" "m < length ts" "in_window base (take (Suc m) ts)"
    "\<forall>k \<le> j. tick_off base (ts ! k) \<le> tick_off base (ts ! j)"
  shows "\<forall>k \<le> m. tick_off base (sort_inner j m ts ! k) \<le> tick_off base (sort_inner j m ts ! m)"
  using assms
proof (induction j m ts rule: sort_inner.induct)
  case (1 j m ts)
  show ?case
  proof (cases "j < m")
    case False
    then show ?thesis using 1 by (simp add: sort_inner.simps)
  next
    case True
    define us where "us = (if TIME_COMPARE_BIG (ev_t (ts ! j)) (ev_t (ts ! (j + 1)))
              then ts[j := ts ! (j + 1), j + 1 := ts ! j] else ts)"
    have in_w: "tick_off base (ts ! k) < 2 ^ 30" if "k \<le> m" for k
    proof -
      have "take (Suc m) ts ! k \<in> set (take (Suc m) ts)" using 1(3) that by (intro nth_mem) auto
      then show ?thesis using 1(4) that by (simp add: in_window_def)
    qed
    have big: "TIME_COMPARE_BIG (ev_t (ts ! j)) (ev_t (ts ! (j + 1))) \<longleftrightarrow>
                 tick_off base (ts ! (j + 1)) \<le> tick_off base (ts ! j)"
      using in_w True by (intro TIME_COMPARE_BIG_window) auto
    have "set (take (Suc m) us) = set (take (Suc m) ts)"
      using mset_take_swap [of j "Suc m" "j + 1" ts, THEN mset_eq_setD] True 1(3) unfolding us_def by simp
    then have "in_window base (take (Suc m) us)" using 1(4) by (simp add: in_window_def)
    moreover have "\<forall>k \<le> j + 1. tick_off base (us ! k) \<le> tick_off base (us ! (j + 1))"
      using 1(3,5) True big unfolding us_def by (auto simp: nth_list_update le_Suc_eq)
    moreover have "m < length us" using 1(3) by (simp add: us_def)
    moreover have "sort_inner j m ts = sort_inner (j + 1) m us"
      using True by (subst sort_inner.simps) (simp add: us_def)
    ultimately show ?thesis using 1(1) [OF True] True by (simp add: us_def)
  qed
qed

lemma sort_outer_perm:
  "n \<le> length ts \<Longrightarrow> length (sort_outer i n ts) = length ts \<and> drop n (sort_outer i n ts) = drop n ts
     \<and> mset (take n (sort_outer i n ts)) = mset (take n ts)"
proof (induction i n ts rule: sort_outer.induct)
  case (1 i n ts)
  show ?case
  proof (cases "i < n - 1")
    case False
    then show ?thesis by (simp add: sort_outer.simps)
  next
    case True
    define us where "us = sort_inner 0 (n - i - 1) ts"
    have us: "length us = length ts" "drop (n - i) us = drop (n - i) ts"
      "mset (take (n - i) us) = mset (take (n - i) ts)"
      using sort_inner_perm [of "n - i - 1" ts 0] 1(2) True by (auto simp: us_def Suc_diff_Suc)
    have split: "take n xs = take (n - i) xs @ take i (drop (n - i) xs)" for xs :: "blt_time_event_t list"
      using True by (simp flip: take_add)
    have "drop n us = drop i (drop (n - i) us)" using True by simp
    also have "\<dots> = drop n ts" using us(2) True by simp
    finally have "drop n us = drop n ts" .
    moreover have "mset (take n us) = mset (take n ts)"
      unfolding split [of us] split [of ts] us(2) by (simp add: us(3))
    moreover have "sort_outer i n ts = sort_outer (i + 1) n us"
      using True by (subst sort_outer.simps) (simp add: us_def)
    ultimately show ?thesis using 1(1) [OF True] 1(2) us(1) by (simp add: us_def)
  qed
qed

definition tail_sorted :: "u32 \<Rightarrow> nat \<Rightarrow> blt_time_event_t list \<Rightarrow> bool" where
  "tail_sorted base k ts \<longleftrightarrow> tick_ordered base (drop k ts)
     \<and> (\<forall>x \<in> set (take k ts). \<forall>y \<in> set (drop k ts). tick_off base x \<le> tick_off base y)"

lemma tail_sorted_step:
  assumes ts: "tail_sorted base (Suc m) ts" and m: "m < length ts" and w: "in_window base ts"
  shows "tail_sorted base m (sort_inner 0 m ts)"
proof -
  define us where "us = sort_inner 0 m ts"
  have us: "length us = length ts" "drop (Suc m) us = drop (Suc m) ts" "mset (take (Suc m) us) = mset (take (Suc m) ts)"
    using sort_inner_perm [OF m, of 0] by (auto simp: us_def)
  have set: "set (take (Suc m) us) = set (take (Suc m) ts)" using us(3) by (rule mset_eq_setD)
  have "in_window base (take (Suc m) ts)" using w by (auto simp: in_window_def dest: in_set_takeD)
  then have max: "\<forall>k \<le> m. tick_off base (us ! k) \<le> tick_off base (us ! m)"
    unfolding us_def using m by (intro sort_inner_max) auto
  have d: "drop m us = us ! m # drop (Suc m) ts" using m us by (metis Cons_nth_drop_Suc)
  have le: "\<forall>y \<in> set (drop (Suc m) ts). tick_off base x \<le> tick_off base y" if "x \<in> set (take (Suc m) us)" for x
    using ts that set by (auto simp: tail_sorted_def)
  have mem: "us ! m \<in> set (take (Suc m) us)" using m us(1) by (simp add: take_Suc_conv_app_nth)
  have sub: "set (take m us) \<subseteq> set (take (Suc m) us)" by (simp add: set_take_subset_set_take)
  have "tick_ordered base (drop m us)"
    using ts le [OF mem] unfolding d by (simp add: tick_ordered_def tail_sorted_def)
  moreover have "\<forall>x \<in> set (take m us). \<forall>y \<in> set (drop m us). tick_off base x \<le> tick_off base y"
  proof (intro ballI)
    fix x y assume x: "x \<in> set (take m us)" and y: "y \<in> set (drop m us)"
    have "tick_off base x \<le> tick_off base (us ! m)" using x max by (auto simp: in_set_conv_nth)
    then show "tick_off base x \<le> tick_off base y" using le [of x] x sub y unfolding d by auto
  qed
  ultimately show ?thesis by (simp add: tail_sorted_def us_def)
qed

lemma sort_outer_sorted:
  assumes "length ts = n" "in_window base ts" "tail_sorted base (n - i) ts"
  shows "tick_ordered base (sort_outer i n ts)"
  using assms
proof (induction i n ts rule: sort_outer.induct)
  case (1 i n ts)
  show ?case
  proof (cases "i < n - 1")
    case False
    then have "n - i \<le> 1" by simp
    then have "tick_ordered base ts"
    proof (cases ts)
      case (Cons a as)
      then show ?thesis using 1(4) \<open>n - i \<le> 1\<close> by (cases "n - i") (auto simp: tail_sorted_def tick_ordered_def)
    qed (simp add: tick_ordered_def)
    then show ?thesis using False by (simp add: sort_outer.simps)
  next
    case True
    define us where "us = sort_inner 0 (n - i - 1) ts"
    have "Suc (n - i - 1) = n - i" using True by simp
    then have t: "tail_sorted base (n - i - 1) us"
      unfolding us_def using 1(2-4) True by (intro tail_sorted_step) auto
    have p: "length us = length ts" "mset us = mset ts"
    proof -
      have *: "n - i - 1 < length ts" using 1(2) True by simp
      show "length us = length ts" unfolding us_def using sort_inner_perm [OF *] by simp
      show "mset us = mset ts"
        using sort_inner_perm [OF *, of 0] append_take_drop_id [of "Suc (n - i - 1)"] unfolding us_def
        by (metis mset_append)
    qed
    then have "in_window base us" using 1(3) mset_eq_setD [OF p(2)] by (simp add: in_window_def)
    moreover have "sort_outer i n ts = sort_outer (i + 1) n us"
      using True by (subst sort_outer.simps) (simp add: us_def)
    ultimately show ?thesis using 1(1) [OF True] 1(2) p(1) t by (simp add: us_def)
  qed
qed

text \<open>The sort works on the first \<open>n\<close> entries only.\<close>

lemma sort_inner_append: "m < length xs \<Longrightarrow> sort_inner j m (xs @ ys) = sort_inner j m xs @ ys"
proof (induction j m xs rule: sort_inner.induct)
  case (1 j m xs)
  show ?case
  proof (cases "j < m")
    case True
    then show ?thesis using 1(1) [OF True] 1(2)
      by (cases "TIME_COMPARE_BIG (ev_t (xs ! j)) (ev_t (xs ! Suc j))"; subst (1 2) sort_inner.simps)
        (simp_all add: nth_append list_update_append)
  qed (simp add: sort_inner.simps)
qed

lemma sort_outer_append: "n \<le> length xs \<Longrightarrow> sort_outer i n (xs @ ys) = sort_outer i n xs @ ys"
proof (induction i n xs rule: sort_outer.induct)
  case (1 i n xs)
  show ?case
  proof (cases "i < n - 1")
    case True
    then have m: "n - i - 1 < length xs" using 1(2) by simp
    then show ?thesis using 1(1) [OF True] 1(2) True sort_inner_perm [OF m, of 0]
      by (subst (1 2) sort_outer.simps) (simp add: sort_inner_append)
  qed (simp add: sort_outer.simps)
qed

lemma sort_active:
  assumes wf: "timer_wf s"
  shows "timer_wf (snd (blt_soft_timer_sort s))" "currentNum (snd (blt_soft_timer_sort s)) = currentNum s"
    "mset (active (snd (blt_soft_timer_sort s))) = mset (active s)"
    "in_window base (active s) \<Longrightarrow> tick_ordered base (active (snd (blt_soft_timer_sort s)))"
proof -
  define n where "n = unat (currentNum s)"
  have n: "n \<le> length (timer s)" using wf by (simp add: timer_wf_def n_def)
  note perm = sort_outer_perm [OF n, of 0]
  show "timer_wf (snd (blt_soft_timer_sort s))" "currentNum (snd (blt_soft_timer_sort s)) = currentNum s"
    "mset (active (snd (blt_soft_timer_sort s))) = mset (active s)"
    using wf perm by (auto simp: blt_soft_timer_sort_def timer_wf_def active_def n_def)
  assume w: "in_window base (active s)"
  have len: "length (take n (timer s)) = n" using n by simp
  have "sort_outer 0 n (timer s) = sort_outer 0 n (take n (timer s)) @ drop n (timer s)"
    using sort_outer_append [of n "take n (timer s)" 0 "drop n (timer s)"] n by simp
  moreover have "length (sort_outer 0 n (take n (timer s))) = n"
    using sort_outer_perm [of n "take n (timer s)" 0] n by simp
  moreover have "tick_ordered base (sort_outer 0 n (take n (timer s)))"
    using w len by (intro sort_outer_sorted) (auto simp: active_def n_def tail_sorted_def tick_ordered_def)
  ultimately show "tick_ordered base (active (snd (blt_soft_timer_sort s)))"
    using wf by (auto simp: blt_soft_timer_sort_def active_def n_def [symmetric] timer_wf_def tick_ordered_def)
qed

section \<open>Add, delete\<close>

lemma u8_Suc: "unat (n::u8) < 255 \<Longrightarrow> unat (n + 1) = Suc (unat n)"
  using unat_word_add_no_wrap [of n 1] by simp

lemma u8_pred: "n \<noteq> (0::u8) \<Longrightarrow> unat (n - 1) = unat n - 1"
  using unat_minus_one [of n] by simp

lemma add_full: "unat (currentNum s) \<ge> MAX_TIMER_NUM \<Longrightarrow> blt_soft_timer_add f us now s = (0, s)"
  by (simp add: blt_soft_timer_add_def)

lemma add_appends:
  assumes "timer_wf s" "unat (currentNum s) < MAX_TIMER_NUM"
  shows "timer_wf (s\<lparr>timer := (timer s)[unat (currentNum s) := e], currentNum := currentNum s + 1\<rparr>)"
    "active (s\<lparr>timer := (timer s)[unat (currentNum s) := e], currentNum := currentNum s + 1\<rparr>) = active s @ [e]"
proof -
  have n: "unat (currentNum s + 1) = Suc (unat (currentNum s))" using assms(2) by (intro u8_Suc) (simp add: MAX_TIMER_NUM_def)
  show "timer_wf (s\<lparr>timer := (timer s)[unat (currentNum s) := e], currentNum := currentNum s + 1\<rparr>)"
    using assms n by (simp add: timer_wf_def)
  show "active (s\<lparr>timer := (timer s)[unat (currentNum s) := e], currentNum := currentNum s + 1\<rparr>) = active s @ [e]"
    using assms n by (simp add: active_def timer_wf_def take_Suc_conv_app_nth)
qed

lemma add_wf:
  assumes "timer_wf s"
  shows "timer_wf (snd (blt_soft_timer_add f us now s))"
proof (cases "unat (currentNum s) \<ge> MAX_TIMER_NUM")
  case True
  then show ?thesis using assms by (simp add: add_full)
next
  case False
  have "timer_wf (u\<lparr>appWakeup := w\<rparr>) = timer_wf u" for u w by (simp add: timer_wf_def)
  then show ?thesis using sort_active(1) [OF add_appends(1) [OF assms]] False
    by (simp add: blt_soft_timer_add_def Let_def)
qed

lemma delete_shift_spec:
  assumes "i \<le> lim" "lim < length (timer s)"
  shows "delete_shift i lim s =
           Some (s\<lparr>timer := take i (timer s) @ take (lim - i) (drop (Suc i) (timer s)) @ drop lim (timer s)\<rparr>)"
  using assms
proof (induction i lim s rule: delete_shift.induct)
  case (1 i lim s)
  show ?case
  proof (cases "i < lim")
    case False
    then show ?thesis using 1(2,3) by (subst delete_shift.simps) simp
  next
    case True
    define ts where "ts = timer s"
    define us where "us = ts[i := ts ! Suc i]"
    have len: "Suc i < length ts" "lim < length us" using True 1(3) by (simp_all add: ts_def us_def)
    have "take (Suc i) us = take i ts @ [ts ! Suc i]" using len by (simp add: us_def take_Suc_conv_app_nth)
    moreover have "take (lim - i) (drop (Suc i) ts) = ts ! Suc i # take (lim - Suc i) (drop (Suc (Suc i)) ts)"
      using True len(1) by (simp add: Cons_nth_drop_Suc [symmetric] Suc_diff_Suc [symmetric] del: Cons_nth_drop_Suc)
    moreover have "drop (Suc (Suc i)) us = drop (Suc (Suc i)) ts" "drop lim us = drop lim ts"
      using True by (simp_all add: us_def)
    moreover have "delete_shift i lim s = delete_shift (Suc i) lim (s\<lparr>timer := us\<rparr>)"
      using True len by (subst delete_shift.simps) (simp add: timer_get_def timer_set_def us_def ts_def)
    moreover have "delete_shift (Suc i) lim (s\<lparr>timer := us\<rparr>) =
        Some (s\<lparr>timer := take (Suc i) us @ take (lim - Suc i) (drop (Suc (Suc i)) us) @ drop lim us\<rparr>)"
      using 1(1) [OF True, of "ts ! Suc i" "s\<lparr>timer := us\<rparr>"] True len
      by (simp add: timer_get_def timer_set_def us_def ts_def)
    ultimately show ?thesis by (simp add: ts_def)
  qed
qed

text \<open>Deleting by index takes the entry out of the table and keeps the order of the others.\<close>

lemma delete_by_index_spec:
  assumes wf: "timer_wf s" and i: "i < unat (currentNum s)"
  shows "\<exists>s'. blt_soft_timer_delete_by_index i s = Some (0, s') \<and> timer_wf s'
           \<and> unat (currentNum s') = unat (currentNum s) - 1
           \<and> active s' = take i (active s) @ drop (Suc i) (active s)
           \<and> appWakeup s' = appWakeup s \<and> wakeupCb s' = wakeupCb s"
proof -
  define n where "n = unat (currentNum s)"
  have n: "i \<le> n - 1" "n - 1 < length (timer s)" "currentNum s \<noteq> 0" "i < n" "n \<le> length (timer s)"
    using wf i by (auto simp: timer_wf_def n_def)
  have u: "unat (currentNum s - 1) = n - 1" using u8_pred [OF n(3)] by (simp add: n_def)
  have "take (n - 1) (take i (timer s) @ take (n - 1 - i) (drop (Suc i) (timer s)) @ drop (n - 1) (timer s))
          = take i (take n (timer s)) @ drop (Suc i) (take n (timer s))"
    using n by (auto simp: min_def drop_take)
  then show ?thesis using n(4) wf u delete_shift_spec [OF n(1,2)]
    by (auto simp: blt_soft_timer_delete_by_index_def n_def [symmetric] active_def timer_wf_def)
qed

lemma timer_get_active:
  assumes "timer_wf s" "active s = ps @ e # es"
  shows "timer_get s (length ps) = Some e" "length ps < unat (currentNum s)"
proof -
  have "length (active s) = unat (currentNum s)" using assms(1) by (simp add: active_def timer_wf_def)
  then show l: "length ps < unat (currentNum s)" using assms(2) by simp
  have "active s ! length ps = timer s ! length ps" using l by (simp add: active_def)
  then show "timer_get s (length ps) = Some e" using assms l by (simp add: timer_get_def timer_wf_def)
qed

lemma active_length: "timer_wf s \<Longrightarrow> length (active s) = unat (currentNum s)"
  by (simp add: active_def timer_wf_def)

lemma timer_set_active:
  assumes "timer_wf s" "active s = ps @ e # es"
  shows "\<exists>s'. timer_set (length ps) e' s = Some s' \<and> timer_wf s' \<and> active s' = ps @ e' # es
           \<and> appWakeup s' = appWakeup s \<and> wakeupCb s' = wakeupCb s"
proof -
  have "length ps < length (timer s)" using timer_get_active [OF assms] assms(1) by (simp add: timer_wf_def)
  moreover have "take (unat (currentNum s)) ((timer s)[length ps := e']) = ps @ e' # es"
    using assms(2) by (simp add: active_def take_update_swap list_update_append)
  ultimately show ?thesis using assms(1) by (auto simp: timer_set_def active_def timer_wf_def)
qed

lemma delete_active:
  assumes "timer_wf s" "active s = ps @ e # es"
  shows "\<exists>s'. blt_soft_timer_delete_by_index (length ps) s = Some (0, s') \<and> timer_wf s' \<and> active s' = ps @ es
           \<and> appWakeup s' = appWakeup s \<and> wakeupCb s' = wakeupCb s"
  using delete_by_index_spec [OF assms(1) timer_get_active(2) [OF assms]] assms(2) by auto

definition wake_setting :: "u32 \<Rightarrow> blt_time_event_t list \<Rightarrow> u32 \<times> u8" where
  "wake_setting now es = (case es of [] \<Rightarrow> (0, 0)
     | e # _ \<Rightarrow> if ev_t e - now < 5000 * SYSTEM_TIMER_TICK_1MS then (ev_t e, 1) else (0, 0))"

lemma active_Nil_iff: "timer_wf s \<Longrightarrow> active s = [] \<longleftrightarrow> currentNum s = 0"
  using active_length [of s] by (metis length_0_conv unat_eq_zero)

lemma delete_search_spec:
  assumes "timer_wf s" "active s = ps @ es"
  shows "case dropWhile (\<lambda>e. cb e \<noteq> func) es of
           [] \<Rightarrow> delete_search (length ps) func now s = Some (0, s)
         | _ # vs \<Rightarrow> (let us = ps @ takeWhile (\<lambda>e. cb e \<noteq> func) es in
             \<exists>s'. delete_search (length ps) func now s = Some (1, s') \<and> timer_wf s' \<and> active s' = us @ vs
               \<and> appWakeup s' = (if us = [] then wake_setting now vs else appWakeup s))"
  using assms
proof (induction es arbitrary: ps)
  case Nil
  then have "\<not> length ps < unat (currentNum s)" using active_length [of s] by simp
  then show ?case by (subst delete_search.simps) simp
next
  case (Cons e es)
  note get = timer_get_active [OF Cons.prems]
  show ?case
  proof (cases "cb e = func")
    case False
    then have "delete_search (length ps) func now s = delete_search (length (ps @ [e])) func now s"
      using get by (subst delete_search.simps) simp
    then show ?thesis using Cons.IH [of "ps @ [e]"] Cons.prems False
      by (cases "dropWhile (\<lambda>e. cb e \<noteq> func) es") (auto simp: Let_def simp del: dropWhile_eq_Nil_conv)
  next
    case True
    obtain s1 where s1: "blt_soft_timer_delete_by_index (length ps) s = Some (0, s1)" "timer_wf s1"
        "active s1 = ps @ es" "appWakeup s1 = appWakeup s" using delete_active [OF Cons.prems] by auto
    have nil: "currentNum s1 = 0 \<longleftrightarrow> ps @ es = []" using active_Nil_iff [OF s1(2)] s1(3) by simp
    have hd: "ps = [] \<Longrightarrow> es = f # fs \<Longrightarrow> timer_get s1 0 = Some f" for f fs
      using timer_get_active(1) [OF s1(2), of "[]"] s1(3) by simp
    have upd: "timer_wf (s1\<lparr>appWakeup := w\<rparr>)" "active (s1\<lparr>appWakeup := w\<rparr>) = ps @ es" for w
      using s1 by (simp_all add: timer_wf_def active_def)
    have eq: "delete_search (length ps) func now s =
        (if currentNum s1 \<noteq> 0
         then (if length ps = 0
               then do { e0 \<leftarrow> timer_get s1 0;
                         if ev_t e0 - now < 5000 * SYSTEM_TIMER_TICK_1MS
                         then Some (1, s1\<lparr>appWakeup := (ev_t e0, 1)\<rparr>)
                         else Some (1, s1\<lparr>appWakeup := (0, 0)\<rparr>) }
               else Some (1, s1))
         else Some (1, s1\<lparr>appWakeup := (0, 0)\<rparr>))"
      using get True s1(1) by (subst delete_search.simps) simp
    show ?thesis unfolding eq using True nil hd upd s1
      by (cases ps; cases es) (auto simp: wake_setting_def Let_def)
  qed
qed

section \<open>Processing\<close>

text \<open>
  What one run of the loop does to the list of timers when no callback touches the table (\<open>res\<close> gives
  their results): a fired timer is rescheduled or removed, and the timer that follows a removed one
  is passed over.
\<close>

definition resched :: "u32 \<Rightarrow> u32 \<Rightarrow> blt_time_event_t \<Rightarrow> blt_time_event_t" where
  "resched now r e =
     (let d = (if r = 0 then ev_interval e else r * SYSTEM_TIMER_TICK_1US) in e\<lparr>ev_interval := d, ev_t := now + d\<rparr>)"

fun table_walk ::
    "(blt_timer_callback_t \<Rightarrow> u32) \<Rightarrow> u32 \<Rightarrow> blt_time_event_t list \<Rightarrow> bool \<times> blt_timer_callback_t list \<times> blt_time_event_t list" where
  "table_walk res now [] = (False, [], [])"
| "table_walk res now (e # es) =
     (if blt_is_timer_expired (ev_t e) now \<and> cb e \<noteq> None
      then (let c = the (cb e) in
            if sint (res c) < 0
            then (case es of [] \<Rightarrow> (False, [c], [])
                  | e' # es' \<Rightarrow> (let (g, f, l) = table_walk res now es' in (g, c # f, e' # l)))
            else (let (g, f, l) = table_walk res now es in (True, c # f, resched now (res c) e # l)))
      else (let (g, f, l) = table_walk res now es in (g, f, e # l)))"

lemma process_loop_end:
  "timer_wf s \<Longrightarrow> active s = ps \<Longrightarrow> length ps \<le> i \<Longrightarrow> process_loop app now i chg fired s = Some (chg, fired, s)"
  using active_length [of s] by (subst process_loop.simps) simp

lemma process_loop_walk:
  assumes app: "\<And>c s. app c s = (res c, s)"
    and "timer_wf s" "active s = ps @ es" "table_walk res now es = (g, f, l)"
  shows "\<exists>s'. process_loop app now (length ps) chg fired s = Some (chg \<or> g, fired @ f, s')
           \<and> timer_wf s' \<and> active s' = ps @ l"
  using assms(2-)
proof (induction es arbitrary: ps s chg fired g f l rule: length_induct)
  case (1 es)
  note IH = 1(1) [rule_format, OF _ 1(2)] and IH' = 1(1) [rule_format]
  show ?case
  proof (cases es)
    case Nil
    then show ?thesis using 1 by (auto simp: process_loop_end)
  next
    case (Cons e es')
    have act: "active s = ps @ e # es'" using 1(3) Cons by simp
    note get = timer_get_active [OF 1(2) act]
    obtain g1 f1 l1 where w1: "table_walk res now es' = (g1, f1, l1)" using prod_cases3 by blast
    show ?thesis
    proof (cases "blt_is_timer_expired (ev_t e) now \<and> cb e \<noteq> None")
      case False
      have "process_loop app now (length ps) chg fired s = process_loop app now (length (ps @ [e])) chg fired s"
        using get False by (subst process_loop.simps) (auto split: option.splits)
      then show ?thesis using IH' [of es' s "ps @ [e]" g1 f1 l1 chg fired] 1(2,4) act Cons w1 False by auto
    next
      case True
      then obtain c where c: "cb e = Some c" by auto
      show ?thesis
      proof (cases "sint (res c) < 0")
        case neg: True
        obtain s1 where s1: "blt_soft_timer_delete_by_index (length ps) s = Some (0, s1)" "timer_wf s1"
          "active s1 = ps @ es'" using delete_active [OF 1(2) act] by auto
        have eq: "process_loop app now (length ps) chg fired s
               = process_loop app now (Suc (length ps)) chg (fired @ [c]) s1"
          using get True c neg s1(1) by (subst process_loop.simps) (simp add: app)
        show ?thesis
        proof (cases es')
          case Nil
          then show ?thesis using eq s1 1(4) Cons True c neg by (auto simp: process_loop_end)
        next
          case (Cons e' es'')
          obtain g2 f2 l2 where w2: "table_walk res now es'' = (g2, f2, l2)" using prod_cases3 by blast
          then show ?thesis using eq IH' [of es'' s1 "ps @ [e']" g2 f2 l2 chg "fired @ [c]"] s1 1(4) \<open>es = e # es'\<close> Cons True c neg
            by auto
        qed
      next
        case pos: False
        obtain s1 where s1: "timer_set (length ps) (resched now (res c) e) s = Some s1" "timer_wf s1"
          "active s1 = ps @ resched now (res c) e # es'" using timer_set_active [OF 1(2) act] by blast
        have "process_loop app now (length ps) chg fired s
               = process_loop app now (length (ps @ [resched now (res c) e])) True (fired @ [c]) s1"
          using get True c pos s1(1) by (subst process_loop.simps) (auto simp: app resched_def Let_def)
        then show ?thesis using IH' [of es' s1 "ps @ [resched now (res c) e]" g1 f1 l1 True "fired @ [c]"]
            s1 1(4) Cons True c pos w1 by auto
      qed
    qed
  qed
qed

definition due :: "u32 \<Rightarrow> blt_time_event_t \<Rightarrow> bool" where
  "due now e \<longleftrightarrow> blt_is_timer_expired (ev_t e) now \<and> cb e \<noteq> None"

lemma table_walk_nonneg:
  assumes "\<And>c. 0 \<le> sint (res c)"
  shows "table_walk res now es =
     (\<exists>e \<in> set es. due now e, map (\<lambda>e. the (cb e)) (filter (due now) es),
      map (\<lambda>e. if due now e then resched now (res (the (cb e))) e else e) es)"
proof -
  have "\<not> sint (res c) < 0" for c using assms [of c] by simp
  then show ?thesis by (induction es) (auto simp: due_def)
qed

lemma process_walk:
  assumes app: "\<And>c s. app c s = (res c, s)" and wf: "timer_wf s"
    and act: "active s = e0 # es" "blt_is_timer_expired (ev_t e0) now" and walk: "table_walk res now (active s) = (g, f, l)"
  shows "\<exists>s'. blt_soft_timer_process app now s = Some (f, s') \<and> timer_wf s' \<and> mset (active s') = mset l
           \<and> (\<not> g \<longrightarrow> active s' = l) \<and> (\<forall>base. in_window base l \<longrightarrow> g \<longrightarrow> tick_ordered base (active s'))
           \<and> appWakeup s' = wake_setting now (active s')"
proof -
  obtain s1 where s1: "process_loop app now 0 False [] s = Some (g, f, s1)" "timer_wf s1" "active s1 = l"
    using process_loop_walk [of app res, OF app wf _ walk, where ps = "[]" and chg = False and fired = "[]"] by auto
  define s2 where "s2 = (if g then snd (blt_soft_timer_sort s1) else s1)"
  have s2: "timer_wf s2" "mset (active s2) = mset l" "currentNum s2 = currentNum s1" "\<not> g \<Longrightarrow> active s2 = l"
      "in_window base l \<Longrightarrow> g \<Longrightarrow> tick_ordered base (active s2)" for base
    using sort_active [OF s1(2)] s1(2,3) by (auto simp: s2_def)
  have get0: "timer_get s 0 = Some e0" "currentNum s \<noteq> 0"
    using timer_get_active [OF wf, of "[]" e0 es] act active_Nil_iff [OF wf] by auto
  have upd: "timer_wf (u\<lparr>appWakeup := w\<rparr>) = timer_wf u" "active (u\<lparr>appWakeup := w\<rparr>) = active u" for u w
    by (simp_all add: timer_wf_def active_def)
  show ?thesis
  proof (cases "active s2")
    case Nil
    then have "currentNum s1 = 0" using active_Nil_iff [OF s2(1)] s2(3) by simp
    moreover have "l = []" using s2(2) Nil by simp
    ultimately show ?thesis using get0 act(2) s1
      by (auto simp: blt_soft_timer_process_def upd wake_setting_def tick_ordered_def)
  next
    case (Cons h hs)
    then have "currentNum s1 \<noteq> 0" "timer_get s2 0 = Some h"
      using active_Nil_iff [OF s2(1)] s2(3) timer_get_active(1) [OF s2(1), of "[]"] by auto
    then have "blt_soft_timer_process app now s = Some (f, s2\<lparr>appWakeup := wake_setting now (active s2)\<rparr>)"
      using get0 act(2) s1(1) Cons by (simp add: blt_soft_timer_process_def s2_def [symmetric] Let_def wake_setting_def)
    then show ?thesis using s2 by (auto simp: upd)
  qed
qed

lemma delete_by_index_wf:
  "timer_wf s \<Longrightarrow> \<exists>r s'. blt_soft_timer_delete_by_index i s = Some (r, s') \<and> timer_wf s'"
  using delete_by_index_spec [of s i]
  by (cases "i < unat (currentNum s)") (auto simp: blt_soft_timer_delete_by_index_def)

lemma process_loop_safe:
  assumes "\<And>c s. timer_wf s \<Longrightarrow> timer_wf (snd (app c s))" "timer_wf s"
  shows "\<exists>g f s'. process_loop app now i chg fired s = Some (g, f, s') \<and> timer_wf s'"
  using assms(2)
proof (induction i arbitrary: chg fired s rule: measure_induct_rule [of "\<lambda>i. 256 - i"])
  case (less i)
  note wf = less.prems
  show ?case
  proof (cases "i < unat (currentNum s)")
    case False
    then show ?thesis using wf by (subst process_loop.simps) simp
  next
    case True
    then have get: "timer_wf u \<Longrightarrow> timer_get u i = Some (timer u ! i)"
      and set: "timer_wf u \<Longrightarrow> \<exists>u'. timer_set i e u = Some u' \<and> timer_wf u'" for u e
      using wf by (auto simp: timer_get_def timer_set_def timer_wf_def)
    have IH: "timer_wf u \<Longrightarrow> \<exists>g f s'. process_loop app now (Suc i) b fs u = Some (g, f, s') \<and> timer_wf s'" for u b fs
      using less.IH [of "Suc i" u b fs] True unat_u8_less [of "currentNum s"] by simp
    show ?thesis
    proof (cases "due now (timer s ! i)")
      case False
      then show ?thesis using True get [OF wf] IH [OF wf]
        by (subst process_loop.simps) (auto simp: due_def split: option.splits)
    next
      case d: True
      then obtain c where c: "cb (timer s ! i) = Some c" by (auto simp: due_def)
      obtain r s1 where r: "app c s = (r, s1)" by force
      have wf1: "timer_wf s1" using assms(1) [OF wf, of c] r by simp
      obtain v s2 where s2: "blt_soft_timer_delete_by_index i s1 = Some (v, s2)" "timer_wf s2"
        using delete_by_index_wf [OF wf1] by blast
      obtain s3 where s3: "timer_set i ((timer s1 ! i)\<lparr>ev_t := now + ev_interval (timer s1 ! i)\<rparr>) s1 = Some s3" "timer_wf s3"
        using set [OF wf1] by blast
      obtain s4 where s4: "timer_set i ((timer s1 ! i)\<lparr>ev_interval := r * SYSTEM_TIMER_TICK_1US,
          ev_t := now + r * SYSTEM_TIMER_TICK_1US\<rparr>) s1 = Some s4" "timer_wf s4" using set [OF wf1] by blast
      show ?thesis
        using True get [OF wf] d c r s2 s3 s4 get [OF wf1] IH [OF s2(2)] IH [OF s3(2)] IH [OF s4(2)]
        by (subst process_loop.simps) (simp add: due_def)
    qed
  qed
qed

section \<open>Properties\<close>

text \<open>
  The bubble sort permutes the timers in use and orders them by expiry whenever their ticks lie
  within \<open>2 ^ 30\<close> of a common base tick; that comparison stays right when the 32-bit timer wraps.
\<close>

theorem timer_sort_correct:
  assumes "timer_wf s" "in_window base (active s)"
  shows "timer_wf (snd (blt_soft_timer_sort s)) \<and> mset (active (snd (blt_soft_timer_sort s))) = mset (active s)
           \<and> tick_ordered base (active (snd (blt_soft_timer_sort s)))"
  using sort_active [OF assms(1)] assms(2) by blast

theorem timer_sort_correct_witness:
  "let ev = (\<lambda>t. \<lparr>cb = Some 1, ev_t = t, ev_interval = 0\<rparr>);
       s = \<lparr>timer = [ev 5, ev 0xFFFFFFF0, ev 3, ev 0], currentNum = 3, appWakeup = (0, 0), wakeupCb = True\<rparr>
   in in_window 0xFFFFFFF0 (active s) \<and> tick_ordered 0xFFFFFFF0 (active (snd (blt_soft_timer_sort s)))"
  using timer_sort_correct [of "\<lparr>timer = [\<lparr>cb = Some 1, ev_t = 5, ev_interval = 0\<rparr>,
      \<lparr>cb = Some 1, ev_t = 0xFFFFFFF0, ev_interval = 0\<rparr>, \<lparr>cb = Some 1, ev_t = 3, ev_interval = 0\<rparr>,
      \<lparr>cb = Some 1, ev_t = 0, ev_interval = 0\<rparr>], currentNum = 3, appWakeup = (0, 0), wakeupCb = True\<rparr>" "0xFFFFFFF0"]
  by (simp add: Let_def timer_wf_def active_def in_window_def tick_off_def MAX_TIMER_NUM_def)

text \<open>
  \<^verbatim>\<open>blt_soft_timer_add\<close> refuses a fifth timer without a change; otherwise the table holds the old
  timers and the new one, ordered by expiry (within the window), and the wake-up is armed for the
  first of them.
\<close>

theorem timer_add_correct:
  assumes "timer_wf s"
  shows "if unat (currentNum s) \<ge> MAX_TIMER_NUM then blt_soft_timer_add func us now s = (0, s)
         else (let e = \<lparr>cb = func, ev_t = now + us * SYSTEM_TIMER_TICK_1US, ev_interval = us * SYSTEM_TIMER_TICK_1US\<rparr>;
                   s' = snd (blt_soft_timer_add func us now s)
               in fst (blt_soft_timer_add func us now s) = 1 \<and> timer_wf s'
                  \<and> mset (active s') = add_mset e (mset (active s))
                  \<and> appWakeup s' = (blt_soft_timer_get_first_tick s', 1)
                  \<and> (\<forall>base. in_window base (e # active s) \<longrightarrow> tick_ordered base (active s')))"
proof (cases "unat (currentNum s) \<ge> MAX_TIMER_NUM")
  case True
  then show ?thesis by (simp add: add_full)
next
  case False
  define e where "e = \<lparr>cb = func, ev_t = now + us * SYSTEM_TIMER_TICK_1US, ev_interval = us * SYSTEM_TIMER_TICK_1US\<rparr>"
  define s1 where "s1 = s\<lparr>timer := (timer s)[unat (currentNum s) := e], currentNum := currentNum s + 1\<rparr>"
  have s1: "timer_wf s1" "active s1 = active s @ [e]" using add_appends [OF assms, of e] False by (simp_all add: s1_def)
  have nz: "currentNum s1 \<noteq> 0" using active_Nil_iff [OF s1(1)] s1(2) by simp
  define s2 where "s2 = snd (blt_soft_timer_sort s1)"
  have s2: "timer_wf s2" "mset (active s2) = mset (active s1)" "currentNum s2 = currentNum s1"
    using sort_active [OF s1(1)] by (simp_all add: s2_def)
  have o: "\<forall>base. in_window base (e # active s) \<longrightarrow> tick_ordered base (active s2)"
    using sort_active(4) [OF s1(1)] s1(2) by (auto simp: s2_def in_window_def)
  have "blt_soft_timer_add func us now s = (1, s2\<lparr>appWakeup := (ev_t (timer s2 ! 0), 1)\<rparr>)"
    using False by (simp add: blt_soft_timer_add_def Let_def e_def s1_def s2_def)
  then show ?thesis using False s1 s2 nz o unfolding e_def
    by (simp add: Let_def timer_wf_def active_def blt_soft_timer_get_first_tick_def)
qed

theorem timer_add_correct_witness:
  "let s = \<lparr>timer = replicate 4 \<lparr>cb = None, ev_t = 0, ev_interval = 0\<rparr>, currentNum = 0, appWakeup = (0, 0), wakeupCb = True\<rparr>;
       s' = snd (blt_soft_timer_add (Some 7) 1000 100 s)
   in timer_wf s' \<and> appWakeup s' = (blt_soft_timer_get_first_tick s', 1) \<and> active s' = [\<lparr>cb = Some 7, ev_t = 16100, ev_interval = 16000\<rparr>]"
  using timer_add_correct [of "\<lparr>timer = replicate 4 \<lparr>cb = None, ev_t = 0, ev_interval = 0\<rparr>, currentNum = 0,
      appWakeup = (0, 0), wakeupCb = True\<rparr>" "Some 7" 1000 100]
  by (auto simp: Let_def timer_wf_def active_def MAX_TIMER_NUM_def SYSTEM_TIMER_TICK_1US_def)

text \<open>
  \<^verbatim>\<open>blt_soft_timer_delete\<close> stays inside the table, removes the first timer with the given callback
  and keeps the order of the others; when the head goes, the wake-up moves to the new first timer or
  is disabled, and when no timer matches it returns 0 and changes nothing.
\<close>

theorem timer_delete_correct:
  assumes "timer_wf s"
  shows "case dropWhile (\<lambda>e. cb e \<noteq> func) (active s) of
           [] \<Rightarrow> blt_soft_timer_delete func now s = Some (0, s)
         | _ # vs \<Rightarrow> (let us = takeWhile (\<lambda>e. cb e \<noteq> func) (active s) in
             \<exists>s'. blt_soft_timer_delete func now s = Some (1, s') \<and> timer_wf s' \<and> active s' = us @ vs
               \<and> appWakeup s' = (if us = [] then wake_setting now vs else appWakeup s))"
  using delete_search_spec [OF assms, of "[]" "active s" func now]
  by (auto simp: blt_soft_timer_delete_def Let_def simp del: dropWhile_eq_Nil_conv split: list.splits if_splits)

theorem timer_delete_correct_witness:
  "\<exists>s'. blt_soft_timer_delete (Some 7) 0
           \<lparr>timer = [\<lparr>cb = Some 7, ev_t = 5, ev_interval = 0\<rparr>, \<lparr>cb = Some 8, ev_t = 9, ev_interval = 0\<rparr>,
                    \<lparr>cb = None, ev_t = 0, ev_interval = 0\<rparr>, \<lparr>cb = None, ev_t = 0, ev_interval = 0\<rparr>],
            currentNum = 2, appWakeup = (5, 1), wakeupCb = True\<rparr> = Some (1, s')
       \<and> active s' = [\<lparr>cb = Some 8, ev_t = 9, ev_interval = 0\<rparr>] \<and> appWakeup s' = (9, 1)"
  using timer_delete_correct [of "\<lparr>timer = [\<lparr>cb = Some 7, ev_t = 5, ev_interval = 0\<rparr>, \<lparr>cb = Some 8, ev_t = 9, ev_interval = 0\<rparr>,
                    \<lparr>cb = None, ev_t = 0, ev_interval = 0\<rparr>, \<lparr>cb = None, ev_t = 0, ev_interval = 0\<rparr>],
            currentNum = 2, appWakeup = (5, 1), wakeupCb = True\<rparr>" "Some 7" 0]
  by (auto simp: timer_wf_def active_def MAX_TIMER_NUM_def Let_def wake_setting_def SYSTEM_TIMER_TICK_1MS_def)

text \<open>
  Processing never leaves the table and keeps it well formed, whatever the callbacks do through
  the timer API (any callback that itself keeps the table well formed).
\<close>

theorem timer_process_safe:
  assumes "\<And>c s. timer_wf s \<Longrightarrow> timer_wf (snd (app c s))" "timer_wf s"
  shows "\<exists>fired s'. blt_soft_timer_process app now s = Some (fired, s') \<and> timer_wf s'"
proof -
  obtain g f s1 where s1: "process_loop app now 0 False [] s = Some (g, f, s1)" "timer_wf s1"
    using process_loop_safe [of app s, OF assms] by blast
  have get: "timer_wf u \<Longrightarrow> timer_get u 0 = Some (timer u ! 0)" "timer_wf (u\<lparr>appWakeup := w\<rparr>) = timer_wf u" for u w
    by (simp_all add: timer_get_def timer_wf_def MAX_TIMER_NUM_def)
  have "timer_wf (snd (blt_soft_timer_sort s1))" using sort_active(1) [OF s1(2)] .
  then show ?thesis using assms(2) s1 by (auto simp: blt_soft_timer_process_def get Let_def)
qed

theorem timer_process_safe_witness:
  "\<exists>fired s'. blt_soft_timer_process (\<lambda>c s. (0, snd (blt_soft_timer_add (Some c) 10 0 s))) 100
     \<lparr>timer = replicate 4 \<lparr>cb = Some 1, ev_t = 0, ev_interval = 16\<rparr>, currentNum = 1, appWakeup = (0, 0), wakeupCb = True\<rparr>
     = Some (fired, s') \<and> timer_wf s'"
  by (rule timer_process_safe) (simp_all add: add_wf, simp add: timer_wf_def MAX_TIMER_NUM_def)

text \<open>
  C25.  When the first timer has expired, no callback asks for its removal and none touches the timer table, one call of the process
  function calls exactly the callbacks of all expired timers, in table order and once each; each of
  them is rescheduled from the current tick with its old or its newly returned interval, the others
  keep their expiry, the table is ordered again, and the wake-up is set from its first entry.
\<close>

theorem timer_process_fires_all:
  assumes "\<And>c s. app c s = (res c, s)" "\<And>c. 0 \<le> sint (res c)"
    and "timer_wf s" "active s = e0 # es" "due now e0"
  shows "\<exists>s'. blt_soft_timer_process app now s = Some (map (\<lambda>e. the (cb e)) (filter (due now) (active s)), s')
           \<and> mset (active s') =
               mset (map (\<lambda>e. if due now e then resched now (res (the (cb e))) e else e) (active s))
           \<and> (\<forall>base. in_window base (active s') \<longrightarrow> tick_ordered base (active s'))
           \<and> appWakeup s' = wake_setting now (active s')"
proof -
  have "blt_is_timer_expired (ev_t e0) now" using assms(5) by (simp add: due_def)
  from process_walk [of app res, OF assms(1,3,4) this table_walk_nonneg [OF assms(2)]]
  obtain s' where s': "blt_soft_timer_process app now s = Some (map (\<lambda>e. the (cb e)) (filter (due now) (active s)), s')"
    and m: "mset (active s') = mset (map (\<lambda>e. if due now e then resched now (res (the (cb e))) e else e) (active s))"
    and o: "in_window base (map (\<lambda>e. if due now e then resched now (res (the (cb e))) e else e) (active s)) \<Longrightarrow>
              \<exists>e \<in> set (active s). due now e \<Longrightarrow> tick_ordered base (active s')"
    and w: "appWakeup s' = wake_setting now (active s')" for base by blast
  have "\<exists>e \<in> set (active s). due now e" using assms(4,5) by auto
  moreover have "in_window base (active s') \<Longrightarrow>
      in_window base (map (\<lambda>e. if due now e then resched now (res (the (cb e))) e else e) (active s))" for base
    using mset_eq_setD [OF m] by (simp add: in_window_def)
  ultimately show ?thesis using s' m o w by blast
qed

theorem timer_process_fires_all_witness:
  "\<exists>s'. blt_soft_timer_process (\<lambda>c s. (0, s)) 100
     \<lparr>timer = replicate 4 \<lparr>cb = Some 0, ev_t = 50, ev_interval = 16\<rparr>, currentNum = 1, appWakeup = (0, 0), wakeupCb = True\<rparr>
     = Some ([0], s')"
  using timer_process_fires_all [of "\<lambda>c s. (0, s)" "\<lambda>_. 0"
    "\<lparr>timer = replicate 4 \<lparr>cb = Some 0, ev_t = 50, ev_interval = 16\<rparr>, currentNum = 1, appWakeup = (0, 0), wakeupCb = True\<rparr>"
    "\<lparr>cb = Some 0, ev_t = 50, ev_interval = 16\<rparr>" "[]" 100]
  by (auto simp: timer_wf_def active_def MAX_TIMER_NUM_def due_def blt_is_timer_expired_def
      BLT_TIMER_SAFE_MARGIN_PRE_def BLT_TIMER_SAFE_MARGIN_POST_def SYSTEM_TIMER_TICK_1US_def SYSTEM_TIMER_TICK_1S_def)

text \<open>
  A removal hides the next timer for one round: of two expired timers whose first callback asks
  for removal, one call of the process function fires only the first; the second stays in the table
  with its expiry unchanged although it is due.
\<close>

theorem timer_process_skips_after_removal:
  assumes "\<And>c s. app c s = (res c, s)" "timer_wf s" "active s = [e1, e2]" "due now e1" "due now e2"
    and "cb e1 = Some c1" "sint (res c1) < 0"
  shows "\<exists>s'. blt_soft_timer_process app now s = Some ([c1], s') \<and> active s' = [e2]"
proof -
  have x: "blt_is_timer_expired (ev_t e1) now" using assms(4) by (simp add: due_def)
  have "table_walk res now (active s) = (False, [c1], [e2])" using assms(3,6,7) x by simp
  from process_walk [of app res, OF assms(1-3) x this] show ?thesis by auto
qed

theorem timer_process_skips_after_removal_witness:
  "\<exists>s'. blt_soft_timer_process (\<lambda>c s. (- 1, s)) 100
     \<lparr>timer = replicate 4 \<lparr>cb = Some 3, ev_t = 50, ev_interval = 16\<rparr>, currentNum = 2, appWakeup = (0, 0), wakeupCb = True\<rparr>
     = Some ([3], s') \<and> active s' = [\<lparr>cb = Some 3, ev_t = 50, ev_interval = 16\<rparr>]"
proof -
  have r: "replicate 2 x = [x, x]" for x :: blt_time_event_t by (simp add: numeral_2_eq_2)
  show ?thesis using timer_process_skips_after_removal [of "\<lambda>c s. (- 1, s)" "\<lambda>_. - 1"
    "\<lparr>timer = replicate 4 \<lparr>cb = Some 3, ev_t = 50, ev_interval = 16\<rparr>, currentNum = 2, appWakeup = (0, 0), wakeupCb = True\<rparr>"
    "\<lparr>cb = Some 3, ev_t = 50, ev_interval = 16\<rparr>" "\<lparr>cb = Some 3, ev_t = 50, ev_interval = 16\<rparr>" 100 3]
  by (simp add: r timer_wf_def active_def MAX_TIMER_NUM_def due_def blt_is_timer_expired_def
      BLT_TIMER_SAFE_MARGIN_PRE_def BLT_TIMER_SAFE_MARGIN_POST_def SYSTEM_TIMER_TICK_1US_def SYSTEM_TIMER_TICK_1S_def)
qed

end
