(* ===== verification/Device_Manage.thy ===== *)
theory Device_Manage
  imports Telink_Prelude
begin

text \<open>
  The table of connected devices of \<^verbatim>\<open>vendor/common/device_manage.c\<close>: slots \<open>0..3\<close> belong to the ACL
  central role and slots \<open>4..7\<close> to the peripheral role, with one counter per role.

  \<open>dm_wf\<close> is the table invariant.  The locale \<open>conn_table\<close> states what a client of the table relies on
  (what a lookup returns after an insertion or a deletion) and is interpreted once for each of the
  three insertion functions of the source.
\<close>

section \<open>Data\<close>

definition ACL_CENTRAL_MAX_NUM :: nat where "ACL_CENTRAL_MAX_NUM = 4"
definition ACL_PERIPHR_MAX_NUM :: nat where "ACL_PERIPHR_MAX_NUM = 4"
definition DEVICE_CHAR_INFO_MAX_NUM :: nat where
  "DEVICE_CHAR_INFO_MAX_NUM = ACL_CENTRAL_MAX_NUM + ACL_PERIPHR_MAX_NUM"
definition INVALID_CONN_IDX :: nat where "INVALID_CONN_IDX = 255"
definition ACL_ROLE_CENTRAL :: u8 where "ACL_ROLE_CENTRAL = 0"
definition ACL_ROLE_PERIPHERAL :: u8 where "ACL_ROLE_PERIPHERAL = 1"
definition BLE_ADDR_RANDOM :: u8 where "BLE_ADDR_RANDOM = 1"

record dev_char_info_t =
  conn_handle :: u16
  conn_role :: u8
  conn_state :: u8
  char_handle_valid :: u8
  rsvd :: bytes
  peer_adrType :: u8
  peer_addr :: bytes
  peer_RPA :: u8
  char_handle :: "u16 list"

record hci_le_connectionCompleteEvt_t =
  cc_status :: u8
  cc_connHandle :: u16
  cc_role :: u8
  cc_peerAddrType :: u8
  cc_peerAddr :: bytes

record hci_le_enhancedConnCompleteEvt_t =
  ec_status :: u8
  ec_connHandle :: u16
  ec_role :: u8
  ec_PeerAddrType :: u8
  ec_PeerAddr :: bytes
  ec_localRslvPrivAddr :: bytes
  ec_Peer_RslvPrivAddr :: bytes

record dev_table =
  conn_dev_list :: "dev_char_info_t list"
  acl_conn_central_num :: u8
  acl_conn_periphr_num :: u8

text \<open>The value \<^verbatim>\<open>memset\<close> to zero leaves in a slot; the arrays keep their declared lengths.\<close>

definition dev_zero :: dev_char_info_t where
  "dev_zero = \<lparr>conn_handle = 0, conn_role = 0, conn_state = 0, char_handle_valid = 0, rsvd = replicate 3 0,
     peer_adrType = 0, peer_addr = replicate 6 0, peer_RPA = 0, char_handle = replicate 8 0\<rparr>"

definition IS_RESOLVABLE_PRIVATE_ADDR :: "u8 \<Rightarrow> bytes \<Rightarrow> bool" where
  "IS_RESOLVABLE_PRIVATE_ADDR ty addr \<longleftrightarrow> ty = BLE_ADDR_RANDOM \<and> and (addr ! 5) 0xC0 = 0x40"

section \<open>Operations\<close>

text \<open>
  The slot search that opens each of the three insertion functions: the first free slot of the role's
  range, and the counter of that role incremented when there is one.
\<close>

definition claim_slot :: "u8 \<Rightarrow> dev_table \<Rightarrow> nat \<times> dev_table" where
  "claim_slot role s =
     (if role = ACL_ROLE_CENTRAL
      then (case find (\<lambda>i. conn_state (conn_dev_list s ! i) = 0) [0 ..< ACL_CENTRAL_MAX_NUM] of
              Some i \<Rightarrow> (i, s\<lparr>acl_conn_central_num := acl_conn_central_num s + 1\<rparr>)
            | None \<Rightarrow> (INVALID_CONN_IDX, s))
      else if role = ACL_ROLE_PERIPHERAL
      then (case find (\<lambda>i. conn_state (conn_dev_list s ! i) = 0)
                   [ACL_CENTRAL_MAX_NUM ..< ACL_CENTRAL_MAX_NUM + ACL_PERIPHR_MAX_NUM] of
              Some i \<Rightarrow> (i, s\<lparr>acl_conn_periphr_num := acl_conn_periphr_num s + 1\<rparr>)
            | None \<Rightarrow> (INVALID_CONN_IDX, s))
      else (INVALID_CONN_IDX, s))"

definition dev_char_info_insert :: "dev_char_info_t \<Rightarrow> dev_table \<Rightarrow> nat \<times> dev_table" where
  "dev_char_info_insert d s =
     (let (index, s1) = claim_slot (conn_role d) s in
      if index \<noteq> INVALID_CONN_IDX
      then (index, s1\<lparr>conn_dev_list := (conn_dev_list s1)[index := d\<lparr>conn_state := 1\<rparr>]\<rparr>)
      else (index, s1))"

definition dev_char_info_insert_by_conn_event ::
    "hci_le_connectionCompleteEvt_t \<Rightarrow> dev_table \<Rightarrow> nat \<times> dev_table" where
  "dev_char_info_insert_by_conn_event e s =
     (let (index, s1) = claim_slot (cc_role e) s in
      if index \<noteq> INVALID_CONN_IDX
      then (index, s1\<lparr>conn_dev_list := (conn_dev_list s1)[index :=
              dev_zero\<lparr>conn_handle := cc_connHandle e, conn_role := cc_role e, conn_state := 1,
                       peer_adrType := cc_peerAddrType e, peer_addr := cc_peerAddr e\<rparr>]\<rparr>)
      else (index, s1))"

definition dev_char_info_insert_by_enhanced_conn_event ::
    "hci_le_enhancedConnCompleteEvt_t \<Rightarrow> dev_table \<Rightarrow> nat \<times> dev_table" where
  "dev_char_info_insert_by_enhanced_conn_event e s =
     (let (index, s1) = claim_slot (ec_role e) s in
      if index \<noteq> INVALID_CONN_IDX
      then (index, s1\<lparr>conn_dev_list := (conn_dev_list s1)[index :=
              dev_zero\<lparr>conn_handle := ec_connHandle e, conn_role := ec_role e, conn_state := 1,
                       peer_adrType := ec_PeerAddrType e, peer_addr := ec_PeerAddr e\<rparr>]\<rparr>)
      else (index, s1))"

text \<open>The loop body the two deletions share once an entry matches.\<close>

definition drop_slot :: "nat \<Rightarrow> dev_table \<Rightarrow> dev_table" where
  "drop_slot i s =
     (let s1 = (if conn_role (conn_dev_list s ! i) = ACL_ROLE_CENTRAL
                then s\<lparr>acl_conn_central_num := acl_conn_central_num s - 1\<rparr>
                else s\<lparr>acl_conn_periphr_num := acl_conn_periphr_num s - 1\<rparr>)
      in s1\<lparr>conn_dev_list := (conn_dev_list s1)[i := dev_zero]\<rparr>)"

definition handle_match :: "u16 \<Rightarrow> dev_table \<Rightarrow> nat \<Rightarrow> bool" where
  "handle_match h s i \<longleftrightarrow> conn_handle (conn_dev_list s ! i) = h \<and> conn_state (conn_dev_list s ! i) \<noteq> 0"

definition mac_match :: "u8 \<Rightarrow> bytes \<Rightarrow> dev_char_info_t \<Rightarrow> bool" where
  "mac_match ty addr d \<longleftrightarrow>
     (if IS_RESOLVABLE_PRIVATE_ADDR ty addr then False else ty = peer_adrType d \<and> addr = peer_addr d)"

definition dev_char_info_delete_by_connhandle :: "u16 \<Rightarrow> dev_table \<Rightarrow> int \<times> dev_table" where
  "dev_char_info_delete_by_connhandle h s =
     (case find (handle_match h s) [0 ..< DEVICE_CHAR_INFO_MAX_NUM] of
        Some i \<Rightarrow> (0, drop_slot i s)
      | None \<Rightarrow> (1, s))"

definition dev_char_info_delete_by_peer_mac_address :: "u8 \<Rightarrow> bytes \<Rightarrow> dev_table \<Rightarrow> int \<times> dev_table" where
  "dev_char_info_delete_by_peer_mac_address ty addr s =
     (case find (\<lambda>i. conn_state (conn_dev_list s ! i) \<noteq> 0 \<and> mac_match ty addr (conn_dev_list s ! i))
             [0 ..< DEVICE_CHAR_INFO_MAX_NUM] of
        Some i \<Rightarrow> (0, drop_slot i s)
      | None \<Rightarrow> (1, s))"

text \<open>The searches return a pointer into the table: here the slot index, \<open>None\<close> for the null pointer.\<close>

definition dev_char_info_search_by_connhandle :: "u16 \<Rightarrow> dev_table \<Rightarrow> nat option" where
  "dev_char_info_search_by_connhandle h s = find (handle_match h s) [0 ..< DEVICE_CHAR_INFO_MAX_NUM]"

definition dev_char_info_search_by_peer_mac_address :: "u8 \<Rightarrow> bytes \<Rightarrow> dev_table \<Rightarrow> nat option" where
  "dev_char_info_search_by_peer_mac_address ty addr s =
     find (\<lambda>i. mac_match ty addr (conn_dev_list s ! i)) [0 ..< DEVICE_CHAR_INFO_MAX_NUM]"

definition dev_char_info_is_connection_state_by_conn_handle :: "u16 \<Rightarrow> dev_table \<Rightarrow> bool" where
  "dev_char_info_is_connection_state_by_conn_handle h s =
     (case find (handle_match h s) [0 ..< DEVICE_CHAR_INFO_MAX_NUM] of Some i \<Rightarrow> True | None \<Rightarrow> False)"

definition dev_char_get_conn_role_by_connhandle :: "u16 \<Rightarrow> dev_table \<Rightarrow> u8" where
  "dev_char_get_conn_role_by_connhandle h s =
     (case find (handle_match h s) [0 ..< DEVICE_CHAR_INFO_MAX_NUM] of
        Some i \<Rightarrow> conn_role (conn_dev_list s ! i) | None \<Rightarrow> 2)"

definition dev_char_get_conn_index_by_connhandle :: "u16 \<Rightarrow> dev_table \<Rightarrow> nat" where
  "dev_char_get_conn_index_by_connhandle h s =
     (case find (handle_match h s) [0 ..< DEVICE_CHAR_INFO_MAX_NUM] of Some i \<Rightarrow> i | None \<Rightarrow> INVALID_CONN_IDX)"

lemmas dm_consts = ACL_CENTRAL_MAX_NUM_def ACL_PERIPHR_MAX_NUM_def DEVICE_CHAR_INFO_MAX_NUM_def
  INVALID_CONN_IDX_def ACL_ROLE_CENTRAL_def ACL_ROLE_PERIPHERAL_def

section \<open>The invariant\<close>

definition live :: "dev_char_info_t \<Rightarrow> bool" where
  "live d \<longleftrightarrow> conn_state d \<noteq> 0"

definition live_num :: "dev_char_info_t list \<Rightarrow> nat" where
  "live_num ds = length (filter live ds)"

definition slot_role :: "nat \<Rightarrow> u8" where
  "slot_role i = (if i < ACL_CENTRAL_MAX_NUM then ACL_ROLE_CENTRAL else ACL_ROLE_PERIPHERAL)"

definition dm_wf :: "dev_table \<Rightarrow> bool" where
  "dm_wf s \<longleftrightarrow>
     length (conn_dev_list s) = DEVICE_CHAR_INFO_MAX_NUM
     \<and> (\<forall>i < DEVICE_CHAR_INFO_MAX_NUM. live (conn_dev_list s ! i) \<longrightarrow> conn_role (conn_dev_list s ! i) = slot_role i)
     \<and> acl_conn_central_num s = of_nat (live_num (take ACL_CENTRAL_MAX_NUM (conn_dev_list s)))
     \<and> acl_conn_periphr_num s = of_nat (live_num (drop ACL_CENTRAL_MAX_NUM (conn_dev_list s)))
     \<and> (\<forall>i < DEVICE_CHAR_INFO_MAX_NUM. \<forall>j < DEVICE_CHAR_INFO_MAX_NUM.
          live (conn_dev_list s ! i) \<and> live (conn_dev_list s ! j)
          \<and> conn_handle (conn_dev_list s ! i) = conn_handle (conn_dev_list s ! j) \<longrightarrow> i = j)"

text \<open>The connection a handle names.\<close>

definition dev_lookup :: "dev_table \<Rightarrow> u16 \<Rightarrow> dev_char_info_t option" where
  "dev_lookup s h = map_option (\<lambda>i. conn_dev_list s ! i) (dev_char_info_search_by_connhandle h s)"

lemma find_upt_Some: "find P [a ..< b] = Some i \<Longrightarrow> a \<le> i \<and> i < b \<and> P i"
  by (auto simp: find_Some_iff)

lemma find_upt_None: "find P [a ..< b] = None \<longleftrightarrow> (\<forall>i. a \<le> i \<and> i < b \<longrightarrow> \<not> P i)"
  by (auto simp: find_None_iff)

lemma live_num_update:
  "i < length xs \<Longrightarrow>
     live_num (xs[i := d]) + (if live (xs ! i) then 1 else 0) = live_num xs + (if live d then 1 else 0)"
proof (induction xs arbitrary: i)
  case (Cons x xs)
  then show ?case using Cons.IH [of "i - 1"] by (cases i) (auto simp: live_num_def)
qed simp

lemma live_num_le: "live_num xs \<le> length xs"
  by (simp add: live_num_def)

lemma dev_lookup_Some_iff:
  assumes "dm_wf s"
  shows "dev_lookup s h = Some d \<longleftrightarrow>
     (\<exists>i < DEVICE_CHAR_INFO_MAX_NUM. conn_dev_list s ! i = d \<and> live d \<and> conn_handle d = h)"
proof
  assume "dev_lookup s h = Some d"
  then show "\<exists>i < DEVICE_CHAR_INFO_MAX_NUM. conn_dev_list s ! i = d \<and> live d \<and> conn_handle d = h"
    by (auto simp: dev_lookup_def dev_char_info_search_by_connhandle_def handle_match_def live_def dest!: find_upt_Some)
next
  assume "\<exists>i < DEVICE_CHAR_INFO_MAX_NUM. conn_dev_list s ! i = d \<and> live d \<and> conn_handle d = h"
  then obtain i where i: "i < DEVICE_CHAR_INFO_MAX_NUM" "conn_dev_list s ! i = d" "live d" "conn_handle d = h" by blast
  show "dev_lookup s h = Some d"
  proof (cases "find (handle_match h s) [0 ..< DEVICE_CHAR_INFO_MAX_NUM]")
    case None
    then show ?thesis using i by (auto simp: find_upt_None handle_match_def live_def)
  next
    case (Some j)
    then have "j = i" using assms i find_upt_Some [OF Some] unfolding dm_wf_def by (auto simp: handle_match_def live_def)
    then show ?thesis using Some i by (simp add: dev_lookup_def dev_char_info_search_by_connhandle_def)
  qed
qed

lemma dev_lookup_None_iff:
  assumes "dm_wf s"
  shows "dev_lookup s h = None \<longleftrightarrow>
     (\<forall>i < DEVICE_CHAR_INFO_MAX_NUM. live (conn_dev_list s ! i) \<longrightarrow> conn_handle (conn_dev_list s ! i) \<noteq> h)"
  using dev_lookup_Some_iff [OF assms, of h] by (metis not_None_eq)

definition bump :: "u8 \<Rightarrow> u8 \<Rightarrow> dev_table \<Rightarrow> dev_table" where
  "bump role n s = (if role = ACL_ROLE_CENTRAL then s\<lparr>acl_conn_central_num := acl_conn_central_num s + n\<rparr>
                    else s\<lparr>acl_conn_periphr_num := acl_conn_periphr_num s + n\<rparr>)"

text \<open>Writing one slot: the counters follow when the role's counter moves with the slot.\<close>

lemma dm_wf_write:
  assumes wf: "dm_wf s" and i: "i < DEVICE_CHAR_INFO_MAX_NUM"
    and n: "of_bool (live (conn_dev_list s ! i)) + n = (of_bool (live d) :: u8)"
    and role: "live d \<Longrightarrow> conn_role d = slot_role i"
    and fresh: "live d \<Longrightarrow> \<forall>j < DEVICE_CHAR_INFO_MAX_NUM. live (conn_dev_list s ! j) \<longrightarrow> conn_handle (conn_dev_list s ! j) \<noteq> conn_handle d"
  shows "dm_wf ((bump (slot_role i) n s)\<lparr>conn_dev_list := (conn_dev_list s)[i := d]\<rparr>)"
proof -
  define xs where "xs = conn_dev_list s"
  have len: "length xs = 8" "i < 8" using wf i by (simp_all add: dm_wf_def dm_consts xs_def)
  have num: "of_nat (live_num (ys[k := d])) = (of_nat (live_num ys) + n :: u8)"
    if "k < length ys" "ys ! k = xs ! i" for ys k
  proof -
    have "of_nat (live_num (ys[k := d])) + (of_bool (live (xs ! i)) :: u8) = of_nat (live_num ys) + of_bool (live d)"
      using arg_cong [OF live_num_update [OF that(1), of d], of "of_nat :: nat \<Rightarrow> u8"] that(2) by (auto split: if_splits)
    then have "of_bool (live (xs ! i)) + of_nat (live_num (ys[k := d])) = of_bool (live (xs ! i)) + (of_nat (live_num ys) + n)"
      unfolding n [symmetric] xs_def by (simp only: ac_simps)
    then show ?thesis by (simp only: add_left_cancel)
  qed
  have lo: "i < 4 \<Longrightarrow> take 4 (xs[i := d]) = (take 4 xs)[i := d] \<and> drop 4 (xs[i := d]) = drop 4 xs"
    and hi: "\<not> i < 4 \<Longrightarrow> take 4 (xs[i := d]) = take 4 xs \<and> drop 4 (xs[i := d]) = (drop 4 xs)[i - 4 := d]"
    by (simp_all add: take_update_swap drop_update_swap list_update_beyond)
  have w: "acl_conn_central_num s = of_nat (live_num (take 4 xs))" "acl_conn_periphr_num s = of_nat (live_num (drop 4 xs))"
    using wf by (simp_all add: dm_wf_def dm_consts xs_def)
  have counts: "acl_conn_central_num (bump (slot_role i) n s) = of_nat (live_num (take 4 (xs[i := d])))
     \<and> acl_conn_periphr_num (bump (slot_role i) n s) = of_nat (live_num (drop 4 (xs[i := d])))"
  proof (cases "i < 4")
    case True
    then show ?thesis using lo num [of i "take 4 xs"] len w by (simp add: bump_def slot_role_def dm_consts)
  next
    case False
    then show ?thesis using hi num [of "i - 4" "drop 4 xs"] len w by (simp add: bump_def slot_role_def dm_consts)
  qed
  have roles: "live (xs[i := d] ! j) \<longrightarrow> conn_role (xs[i := d] ! j) = slot_role j" if "j < 8" for j
    using wf role len that by (cases "j = i") (simp_all add: dm_wf_def dm_consts xs_def)
  have uniq: "live (xs[i := d] ! j) \<and> live (xs[i := d] ! k) \<and> conn_handle (xs[i := d] ! j) = conn_handle (xs[i := d] ! k)
      \<longrightarrow> j = k" if "j < 8" "k < 8" for j k
  proof (cases "j = i"; cases "k = i")
    assume "j \<noteq> i" "k \<noteq> i"
    then show ?thesis using wf that len unfolding dm_wf_def xs_def dm_consts by simp
  qed (use fresh that len in \<open>auto simp: xs_def dm_consts\<close>)
  have upd: "conn_dev_list (u\<lparr>conn_dev_list := ys\<rparr>) = ys" "acl_conn_central_num (u\<lparr>conn_dev_list := ys\<rparr>) = acl_conn_central_num u"
    "acl_conn_periphr_num (u\<lparr>conn_dev_list := ys\<rparr>) = acl_conn_periphr_num u" for u :: dev_table and ys by simp_all
  have n8: "DEVICE_CHAR_INFO_MAX_NUM = 8" "ACL_CENTRAL_MAX_NUM = 4" by (simp_all add: dm_consts)
  have "length (xs[i := d]) = 8" using len by simp
  then show ?thesis unfolding dm_wf_def upd n8 xs_def [symmetric] using counts roles uniq by blast
qed

lemma dev_lookup_insert:
  assumes wf: "dm_wf s" "dm_wf s'" and i: "i < DEVICE_CHAR_INFO_MAX_NUM" "\<not> live (conn_dev_list s ! i)"
    and s': "conn_dev_list s' = (conn_dev_list s)[i := d]" and d: "live d" "dev_lookup s (conn_handle d) = None"
  shows "dev_lookup s' h = (if h = conn_handle d then Some d else dev_lookup s h)"
proof (rule option_eq_by_Some)
  fix e
  have nth: "conn_dev_list s' ! j = (if j = i then d else conn_dev_list s ! j)" if "j < DEVICE_CHAR_INFO_MAX_NUM" for j
    using s' i wf(1) that by (simp add: nth_list_update dm_wf_def)
  show "dev_lookup s' h = Some e \<longleftrightarrow> (if h = conn_handle d then Some d else dev_lookup s h) = Some e"
    unfolding if_distrib [where f = "\<lambda>x. x = Some e"] dev_lookup_Some_iff [OF wf(1)] dev_lookup_Some_iff [OF wf(2)]
    using nth i d dev_lookup_None_iff [OF wf(1), of "conn_handle d"] by (auto split: if_splits)
qed

lemma dev_lookup_delete:
  assumes wf: "dm_wf s" "dm_wf s'" and i: "i < DEVICE_CHAR_INFO_MAX_NUM" "live (conn_dev_list s ! i)"
    and s': "conn_dev_list s' = (conn_dev_list s)[i := dev_zero]"
  shows "dev_lookup s' h = (if h = conn_handle (conn_dev_list s ! i) then None else dev_lookup s h)"
proof (rule option_eq_by_Some)
  fix e
  have z: "\<not> live dev_zero" by (simp add: live_def dev_zero_def)
  have nth: "conn_dev_list s' ! j = (if j = i then dev_zero else conn_dev_list s ! j)" if "j < DEVICE_CHAR_INFO_MAX_NUM" for j
    using s' i wf(1) that by (simp add: nth_list_update dm_wf_def)
  have uniq: "j = i" if "j < DEVICE_CHAR_INFO_MAX_NUM" "live (conn_dev_list s ! j)"
      "conn_handle (conn_dev_list s ! j) = conn_handle (conn_dev_list s ! i)" for j
    using wf(1) i that unfolding dm_wf_def by blast
  show "dev_lookup s' h = Some e \<longleftrightarrow> (if h = conn_handle (conn_dev_list s ! i) then None else dev_lookup s h) = Some e"
    unfolding if_distrib [where f = "\<lambda>x. x = Some e"] dev_lookup_Some_iff [OF wf(1)] dev_lookup_Some_iff [OF wf(2)]
    using nth i z uniq by (auto split: if_splits)
qed

lemma slot_lt_invalid: "i < DEVICE_CHAR_INFO_MAX_NUM \<Longrightarrow> i \<noteq> INVALID_CONN_IDX"
  by (simp add: dm_consts)

lemma claim_slot_spec:
  "claim_slot r s = (i, s1) \<Longrightarrow>
     (if i = INVALID_CONN_IDX
      then s1 = s \<and> (\<forall>j < DEVICE_CHAR_INFO_MAX_NUM. slot_role j = r \<longrightarrow> live (conn_dev_list s ! j))
      else i < DEVICE_CHAR_INFO_MAX_NUM \<and> \<not> live (conn_dev_list s ! i) \<and> slot_role i = r \<and> s1 = bump r 1 s)"
  using slot_lt_invalid [of i]
  by (auto simp: claim_slot_def DEVICE_CHAR_INFO_MAX_NUM_def slot_role_def bump_def live_def find_upt_None
      ACL_ROLE_CENTRAL_def ACL_ROLE_PERIPHERAL_def
      split: if_splits option.splits dest!: find_upt_Some)

lemma bump_list [simp]: "conn_dev_list (bump r n s) = conn_dev_list s"
  by (simp add: bump_def)

text \<open>What the three insertion functions share: the entry \<open>d\<close> they store differs, the effect does not.\<close>

lemma insert_spec:
  assumes wf: "dm_wf s" and c: "claim_slot (conn_role d) s = (i, s1)" and i: "i \<noteq> INVALID_CONN_IDX"
    and d: "live d" "dev_lookup s (conn_handle d) = None"
  shows "dm_wf (s1\<lparr>conn_dev_list := (conn_dev_list s1)[i := d]\<rparr>) \<and> i < DEVICE_CHAR_INFO_MAX_NUM
     \<and> slot_role i = conn_role d
     \<and> dev_lookup (s1\<lparr>conn_dev_list := (conn_dev_list s1)[i := d]\<rparr>) = (dev_lookup s)(conn_handle d \<mapsto> d)"
proof -
  have sp: "i < DEVICE_CHAR_INFO_MAX_NUM" "\<not> live (conn_dev_list s ! i)" "slot_role i = conn_role d" "s1 = bump (conn_role d) 1 s"
    using claim_slot_spec [OF c] i by auto
  have wf': "dm_wf (s1\<lparr>conn_dev_list := (conn_dev_list s1)[i := d]\<rparr>)"
    using dm_wf_write [OF wf sp(1), of 1 d] sp d dev_lookup_None_iff [OF wf] by (simp add: live_def)
  have "dev_lookup (s1\<lparr>conn_dev_list := (conn_dev_list s1)[i := d]\<rparr>) h = ((dev_lookup s)(conn_handle d \<mapsto> d)) h" for h
    using dev_lookup_insert [OF wf wf' sp(1,2) _ d, of h] sp(4) by simp
  then show ?thesis using wf' sp by auto
qed

lemma drop_slot_spec:
  assumes wf: "dm_wf s" and i: "i < DEVICE_CHAR_INFO_MAX_NUM" "live (conn_dev_list s ! i)"
  shows "dm_wf (drop_slot i s) \<and> dev_lookup (drop_slot i s) = (dev_lookup s)(conn_handle (conn_dev_list s ! i) := None)"
proof -
  have r: "conn_role (conn_dev_list s ! i) = slot_role i" using wf i unfolding dm_wf_def by blast
  have e: "drop_slot i s = (bump (slot_role i) (- 1) s)\<lparr>conn_dev_list := (conn_dev_list s)[i := dev_zero]\<rparr>"
    by (simp add: drop_slot_def bump_def Let_def r)
  have wf': "dm_wf (drop_slot i s)"
    unfolding e using wf i by (intro dm_wf_write) (simp_all add: live_def dev_zero_def)
  have "dev_lookup (drop_slot i s) h = ((dev_lookup s)(conn_handle (conn_dev_list s ! i) := None)) h" for h
    using dev_lookup_delete [OF wf wf' i, of h] e by simp
  then show ?thesis using wf' by auto
qed

section \<open>The table as seen by its clients\<close>

datatype 'e conn_ev = Connect 'e | Disconnect u16

text \<open>A run of events with the indices the insertions return, and what it means for the map of live connections.\<close>

fun conn_run ::
    "('e \<Rightarrow> 's \<Rightarrow> nat \<times> 's) \<Rightarrow> (u16 \<Rightarrow> 's \<Rightarrow> int \<times> 's) \<Rightarrow> 'e conn_ev list \<Rightarrow> 's \<Rightarrow> nat list \<times> 's" where
  "conn_run ins del [] s = ([], s)"
| "conn_run ins del (Connect e # evs) s =
     (let (i, s1) = ins e s; (is, s2) = conn_run ins del evs s1 in (i # is, s2))"
| "conn_run ins del (Disconnect h # evs) s =
     (let (is, s2) = conn_run ins del evs (snd (del h s)) in (0 # is, s2))"

text \<open>The controller never reports a handle that is still connected: such a sequence has no meaning.\<close>

fun conn_spec ::
    "('e \<Rightarrow> dev_char_info_t) \<Rightarrow> 'e conn_ev list \<Rightarrow> nat list \<Rightarrow> (u16 \<rightharpoonup> dev_char_info_t) \<Rightarrow> (u16 \<rightharpoonup> dev_char_info_t) option" where
  "conn_spec entry [] is m = Some m"
| "conn_spec entry (Connect e # evs) (i # is) m =
     (if m (conn_handle (entry e)) \<noteq> None then None
      else conn_spec entry evs is (if i = INVALID_CONN_IDX then m else m(conn_handle (entry e) \<mapsto> entry e)))"
| "conn_spec entry (Disconnect h # evs) (i # is) m = conn_spec entry evs is (m(h := None))"
| "conn_spec entry (_ # evs) [] m = None"

locale conn_table =
  fixes wf :: "'s \<Rightarrow> bool"
    and ins :: "'e \<Rightarrow> 's \<Rightarrow> nat \<times> 's"
    and del :: "u16 \<Rightarrow> 's \<Rightarrow> int \<times> 's"
    and lookup :: "'s \<Rightarrow> u16 \<rightharpoonup> dev_char_info_t"
    and entry :: "'e \<Rightarrow> dev_char_info_t"
  assumes ins_ok: "wf s \<Longrightarrow> lookup s (conn_handle (entry e)) = None \<Longrightarrow> ins e s = (i, s') \<Longrightarrow>
      wf s' \<and> (if i = INVALID_CONN_IDX then s' = s else lookup s' = (lookup s)(conn_handle (entry e) \<mapsto> entry e))"
    and del_ok: "wf s \<Longrightarrow> del h s = (r, s') \<Longrightarrow> wf s' \<and> lookup s' = (lookup s)(h := None) \<and> (r = 0 \<longleftrightarrow> lookup s h \<noteq> None)"
begin

lemma run_refines:
  "wf s \<Longrightarrow> conn_run ins del evs s = (is, s') \<Longrightarrow> conn_spec entry evs is (lookup s) = Some m \<Longrightarrow>
     wf s' \<and> lookup s' = m"
proof (induction evs arbitrary: s "is")
  case Nil
  then show ?case by simp
next
  case (Cons ev evs)
  show ?case
  proof (cases ev)
    case (Connect e)
    obtain i s1 where i: "ins e s = (i, s1)" by force
    obtain js where js: "conn_run ins del evs s1 = (js, s')" "is = i # js"
      using Cons.prems(2) Connect i by (auto split: prod.splits)
    have fresh: "lookup s (conn_handle (entry e)) = None" using Cons.prems(3) Connect js by (auto split: if_splits)
    from ins_ok [OF Cons.prems(1) fresh i]
    have "wf s1" "conn_spec entry evs js (lookup s1) = Some m" using Cons.prems(3) Connect js fresh by (auto split: if_splits)
    then show ?thesis using Cons.IH js(1) by blast
  next
    case (Disconnect h)
    obtain r s1 where r: "del h s = (r, s1)" by force
    obtain js where js: "conn_run ins del evs s1 = (js, s')" "is = 0 # js"
      using Cons.prems(2) Disconnect r by (auto split: prod.splits)
    from del_ok [OF Cons.prems(1) r]
    have "wf s1" "conn_spec entry evs js (lookup s1) = Some m" using Cons.prems(3) Disconnect js by auto
    then show ?thesis using Cons.IH js(1) by blast
  qed
qed

end

text \<open>The three ways the application adds a connection, and the table entry each of them leads to.\<close>

datatype conn_req =
    Direct dev_char_info_t
  | ByConnEvent hci_le_connectionCompleteEvt_t
  | ByEnhancedEvent hci_le_enhancedConnCompleteEvt_t

fun conn_insert :: "conn_req \<Rightarrow> dev_table \<Rightarrow> nat \<times> dev_table" where
  "conn_insert (Direct d) s = dev_char_info_insert d s"
| "conn_insert (ByConnEvent e) s = dev_char_info_insert_by_conn_event e s"
| "conn_insert (ByEnhancedEvent e) s = dev_char_info_insert_by_enhanced_conn_event e s"

fun conn_entry :: "conn_req \<Rightarrow> dev_char_info_t" where
  "conn_entry (Direct d) = d\<lparr>conn_state := 1\<rparr>"
| "conn_entry (ByConnEvent e) =
     dev_zero\<lparr>conn_handle := cc_connHandle e, conn_role := cc_role e, conn_state := 1,
              peer_adrType := cc_peerAddrType e, peer_addr := cc_peerAddr e\<rparr>"
| "conn_entry (ByEnhancedEvent e) =
     dev_zero\<lparr>conn_handle := ec_connHandle e, conn_role := ec_role e, conn_state := 1,
              peer_adrType := ec_PeerAddrType e, peer_addr := ec_PeerAddr e\<rparr>"

lemma conn_entry_live: "live (conn_entry e)"
  by (cases e) (simp_all add: live_def)

lemma conn_insert_eq:
  "conn_insert e s =
     (let (i, s1) = claim_slot (conn_role (conn_entry e)) s in
      if i \<noteq> INVALID_CONN_IDX then (i, s1\<lparr>conn_dev_list := (conn_dev_list s1)[i := conn_entry e]\<rparr>) else (i, s1))"
  by (cases e) (auto simp: dev_char_info_insert_def dev_char_info_insert_by_conn_event_def
      dev_char_info_insert_by_enhanced_conn_event_def Let_def split: prod.splits)

lemma conn_insert_spec:
  assumes "dm_wf s" "dev_lookup s (conn_handle (conn_entry e)) = None" "conn_insert e s = (i, s')"
  shows "dm_wf s' \<and> (if i = INVALID_CONN_IDX then s' = s
     else slot_role i = conn_role (conn_entry e) \<and> i < DEVICE_CHAR_INFO_MAX_NUM
        \<and> dev_lookup s' = (dev_lookup s)(conn_handle (conn_entry e) \<mapsto> conn_entry e))"
proof -
  obtain s1 where c: "claim_slot (conn_role (conn_entry e)) s = (i, s1)"
    and s': "s' = (if i \<noteq> INVALID_CONN_IDX then s1\<lparr>conn_dev_list := (conn_dev_list s1)[i := conn_entry e]\<rparr> else s1)"
    using assms(3) by (auto simp: conn_insert_eq split: prod.splits if_splits)
  show ?thesis
  proof (cases "i = INVALID_CONN_IDX")
    case True
    then show ?thesis using claim_slot_spec [OF c] s' assms(1) by simp
  next
    case False
    then show ?thesis using insert_spec [OF assms(1) c False conn_entry_live assms(2)] s' by simp
  qed
qed

lemma delete_by_connhandle_spec:
  assumes wf: "dm_wf s" and r: "dev_char_info_delete_by_connhandle h s = (r, s')"
  shows "dm_wf s' \<and> dev_lookup s' = (dev_lookup s)(h := None) \<and> (r = 0 \<longleftrightarrow> dev_lookup s h \<noteq> None)"
proof (cases "find (handle_match h s) [0 ..< DEVICE_CHAR_INFO_MAX_NUM]")
  case None
  then have "dev_lookup s h = None" by (simp add: dev_lookup_def dev_char_info_search_by_connhandle_def)
  then show ?thesis using None r wf by (auto simp: dev_char_info_delete_by_connhandle_def)
next
  case (Some i)
  then have i: "i < DEVICE_CHAR_INFO_MAX_NUM" "live (conn_dev_list s ! i)" "conn_handle (conn_dev_list s ! i) = h"
    by (auto dest!: find_upt_Some simp: handle_match_def live_def)
  have "dev_lookup s h \<noteq> None" using Some by (simp add: dev_lookup_def dev_char_info_search_by_connhandle_def)
  then show ?thesis using Some r drop_slot_spec [OF wf i(1,2)] i(3) by (auto simp: dev_char_info_delete_by_connhandle_def)
qed

interpretation dm: conn_table dm_wf conn_insert dev_char_info_delete_by_connhandle dev_lookup conn_entry
proof unfold_locales
  fix s :: dev_table and e i s'
  assume "dm_wf s" "dev_lookup s (conn_handle (conn_entry e)) = None" "conn_insert e s = (i, s')"
  then show "dm_wf s' \<and> (if i = INVALID_CONN_IDX then s' = s
     else dev_lookup s' = (dev_lookup s)(conn_handle (conn_entry e) \<mapsto> conn_entry e))"
    using conn_insert_spec [of s e i s'] by (auto split: if_splits)
next
  fix s :: dev_table and h r s'
  assume "dm_wf s" "dev_char_info_delete_by_connhandle h s = (r, s')"
  then show "dm_wf s' \<and> dev_lookup s' = (dev_lookup s)(h := None) \<and> (r = 0 \<longleftrightarrow> dev_lookup s h \<noteq> None)"
    by (rule delete_by_connhandle_spec)
qed

definition dev_table_init :: dev_table where
  "dev_table_init = \<lparr>conn_dev_list = replicate DEVICE_CHAR_INFO_MAX_NUM dev_zero,
     acl_conn_central_num = 0, acl_conn_periphr_num = 0\<rparr>"

lemma dev_table_init_wf: "dm_wf dev_table_init" and dev_table_init_lookup: "dev_lookup dev_table_init = Map.empty"
proof -
  have z: "\<not> live dev_zero" by (simp add: live_def dev_zero_def)
  show wf: "dm_wf dev_table_init"
    using z by (auto simp: dm_wf_def dev_table_init_def dm_consts live_num_def)
  show "dev_lookup dev_table_init = Map.empty"
    using dev_lookup_None_iff [OF wf] z by (auto simp: dev_table_init_def fun_eq_iff)
qed

lemma of_nat_u8_less_iff: "n \<le> 4 \<Longrightarrow> unat (of_nat n :: u8) < 4 \<longleftrightarrow> n < 4"
  by (simp add: unat_of_nat)

lemma live_num_full: "live_num xs < length xs \<longleftrightarrow> (\<exists>d \<in> set xs. \<not> live d)"
  by (induction xs) (auto simp: live_num_def less_Suc_eq_le)

lemma live_num_slots:
  assumes "dm_wf s"
  shows "live_num (take 4 (conn_dev_list s)) < 4 \<longleftrightarrow> (\<exists>j < 4. \<not> live (conn_dev_list s ! j))"
    "live_num (drop 4 (conn_dev_list s)) < 4 \<longleftrightarrow> (\<exists>j < 4. \<not> live (conn_dev_list s ! (4 + j)))"
proof -
  have len: "length (conn_dev_list s) = 8" using assms by (simp add: dm_wf_def dm_consts)
  then show "live_num (take 4 (conn_dev_list s)) < 4 \<longleftrightarrow> (\<exists>j < 4. \<not> live (conn_dev_list s ! j))"
    using live_num_full [of "take 4 (conn_dev_list s)"] by (force simp: in_set_conv_nth)
  show "live_num (drop 4 (conn_dev_list s)) < 4 \<longleftrightarrow> (\<exists>j < 4. \<not> live (conn_dev_list s ! (4 + j)))"
    using live_num_full [of "drop 4 (conn_dev_list s)"] len by (force simp: in_set_conv_nth)
qed

lemma counter_free:
  assumes "dm_wf s"
  shows "unat (acl_conn_central_num s) < 4 \<longleftrightarrow> (\<exists>j < DEVICE_CHAR_INFO_MAX_NUM. slot_role j = ACL_ROLE_CENTRAL \<and> \<not> live (conn_dev_list s ! j))"
    "unat (acl_conn_periphr_num s) < 4 \<longleftrightarrow> (\<exists>j < DEVICE_CHAR_INFO_MAX_NUM. slot_role j = ACL_ROLE_PERIPHERAL \<and> \<not> live (conn_dev_list s ! j))"
proof -
  define xs where "xs = conn_dev_list s"
  have len: "length xs = 8" and c: "acl_conn_central_num s = of_nat (live_num (take 4 xs))"
      and p: "acl_conn_periphr_num s = of_nat (live_num (drop 4 xs))"
    using assms by (simp_all add: dm_wf_def dm_consts xs_def)
  have "live_num (take 4 xs) \<le> 4" "live_num (drop 4 xs) \<le> 4"
    using live_num_le [of "take 4 xs"] live_num_le [of "drop 4 xs"] len by simp_all
  then have cp: "unat (acl_conn_central_num s) < 4 \<longleftrightarrow> (\<exists>j < 4. \<not> live (xs ! j))"
      "unat (acl_conn_periphr_num s) < 4 \<longleftrightarrow> (\<exists>j < 4. \<not> live (xs ! (4 + j)))"
    unfolding c p using live_num_slots [OF assms] by (simp_all add: of_nat_u8_less_iff xs_def)
  show "unat (acl_conn_central_num s) < 4 \<longleftrightarrow> (\<exists>j < DEVICE_CHAR_INFO_MAX_NUM. slot_role j = ACL_ROLE_CENTRAL \<and> \<not> live (conn_dev_list s ! j))"
    unfolding cp(1) xs_def by (force simp: slot_role_def dm_consts)
  have "(\<exists>j < 4. \<not> live (xs ! (4 + j))) \<longleftrightarrow> (\<exists>j < 8. \<not> j < 4 \<and> \<not> live (xs ! j))"
    by (metis add_less_cancel_left le_add_diff_inverse linorder_not_le nat_le_linear not_add_less1 numeral_Bit0)
  then show "unat (acl_conn_periphr_num s) < 4 \<longleftrightarrow> (\<exists>j < DEVICE_CHAR_INFO_MAX_NUM. slot_role j = ACL_ROLE_PERIPHERAL \<and> \<not> live (conn_dev_list s ! j))"
    unfolding cp(2) xs_def by (auto simp: slot_role_def dm_consts)
qed

section \<open>Properties\<close>

text \<open>
  C24.  Starting from the empty table, after any sequence of connections (through any of the three
  insertion functions) and disconnections in which no connected handle is reported again, the table
  is well formed (roles in their slot ranges, both counters exact, handles unique) and a search by
  handle returns exactly what the sequence says is connected.
\<close>

theorem dev_table_refines_map:
  assumes "conn_run conn_insert dev_char_info_delete_by_connhandle evs dev_table_init = (is, s)"
    and "conn_spec conn_entry evs is Map.empty = Some m"
  shows "dm_wf s \<and> dev_lookup s = m"
  using dm.run_refines [OF dev_table_init_wf assms(1)] assms(2) by (simp add: dev_table_init_lookup)

theorem dev_table_refines_map_witness:
  "let e = (\<lambda>h r. ByConnEvent \<lparr>cc_status = 0, cc_connHandle = h, cc_role = r, cc_peerAddrType = 0, cc_peerAddr = [1,2,3,4,5,6]\<rparr>);
       (is, s) = conn_run conn_insert dev_char_info_delete_by_connhandle
                   [Connect (e 0x80 0), Connect (e 0x40 1), Disconnect 0x80] dev_table_init
   in is = [0, 4, 0] \<and> dm_wf s \<and> dev_lookup s 0x80 = None \<and> dev_lookup s 0x40 = Some (conn_entry (e 0x40 1))"
proof -
  define e where "e = (\<lambda>h r. ByConnEvent \<lparr>cc_status = 0, cc_connHandle = h, cc_role = r, cc_peerAddrType = 0, cc_peerAddr = [1,2,3,4,5,6]\<rparr>)"
  obtain "is" s where r: "conn_run conn_insert dev_char_info_delete_by_connhandle
                   [Connect (e 0x80 0), Connect (e 0x40 1), Disconnect 0x80] dev_table_init = (is, s)" by force
  have i: "is = [0, 4, 0]"
    using r by (auto simp: e_def conn_insert_eq claim_slot_def dm_consts dev_table_init_def dev_zero_def Let_def upt_rec split: prod.splits)
  have "conn_spec conn_entry [Connect (e 0x80 0), Connect (e 0x40 1), Disconnect 0x80] is Map.empty
          = Some (Map.empty(0x40 \<mapsto> conn_entry (e 0x40 1)))"
    by (simp add: i e_def INVALID_CONN_IDX_def fun_upd_twist)
  from dev_table_refines_map [OF r this] show ?thesis using r i by (simp add: e_def)
qed

text \<open>
  An insertion finds a slot exactly when the counter of its role is below the role's limit; it is
  refused, with the table unchanged, when the role is full or is neither central nor peripheral.
\<close>

theorem dev_insert_capacity:
  assumes "dm_wf s" "conn_insert e s = (i, s')"
  shows "(i \<noteq> INVALID_CONN_IDX \<longleftrightarrow>
            (conn_role (conn_entry e) = ACL_ROLE_CENTRAL \<and> unat (acl_conn_central_num s) < ACL_CENTRAL_MAX_NUM)
          \<or> (conn_role (conn_entry e) = ACL_ROLE_PERIPHERAL \<and> unat (acl_conn_periphr_num s) < ACL_PERIPHR_MAX_NUM))
         \<and> (i = INVALID_CONN_IDX \<longrightarrow> s' = s)"
proof -
  obtain s1 where c: "claim_slot (conn_role (conn_entry e)) s = (i, s1)"
    and s': "i = INVALID_CONN_IDX \<Longrightarrow> s' = s1"
    using assms(2) by (auto simp: conn_insert_eq split: prod.splits if_splits)
  have roles: "slot_role j = ACL_ROLE_CENTRAL \<or> slot_role j = ACL_ROLE_PERIPHERAL" for j by (simp add: slot_role_def)
  show ?thesis
  proof (cases "i = INVALID_CONN_IDX")
    case True
    then show ?thesis using claim_slot_spec [OF c] s' counter_free [OF assms(1)]
      by (auto simp: ACL_CENTRAL_MAX_NUM_def ACL_PERIPHR_MAX_NUM_def)
  next
    case False
    then show ?thesis using claim_slot_spec [OF c] counter_free [OF assms(1)] roles [of i]
      by (auto simp: ACL_CENTRAL_MAX_NUM_def ACL_PERIPHR_MAX_NUM_def)
  qed
qed

theorem dev_insert_capacity_witness:
  "fst (conn_insert (Direct dev_zero) dev_table_init) \<noteq> INVALID_CONN_IDX
   \<and> conn_insert (Direct (dev_zero\<lparr>conn_role := 2\<rparr>)) dev_table_init = (INVALID_CONN_IDX, dev_table_init)"
proof -
  have "fst (conn_insert (Direct dev_zero) dev_table_init) \<noteq> INVALID_CONN_IDX"
    using dev_insert_capacity [OF dev_table_init_wf prod.collapse [symmetric], of "Direct dev_zero"]
    by (simp add: dev_zero_def dev_table_init_def dm_consts)
  moreover have "conn_insert (Direct (dev_zero\<lparr>conn_role := 2\<rparr>)) dev_table_init = (INVALID_CONN_IDX, dev_table_init)"
    using dev_insert_capacity [OF dev_table_init_wf prod.collapse [symmetric], of "Direct (dev_zero\<lparr>conn_role := 2\<rparr>)"]
    by (auto simp: ACL_ROLE_CENTRAL_def ACL_ROLE_PERIPHERAL_def prod_eq_iff)
  ultimately show ?thesis ..
qed

text \<open>
  Deleting by peer address removes exactly one live connection with that address when there is
  one and the address is not a resolvable private address, and otherwise reports 1 and changes
  nothing; the table stays well formed.
\<close>

theorem dev_delete_by_mac:
  assumes "dm_wf s" "dev_char_info_delete_by_peer_mac_address ty addr s = (r, s')"
  shows "dm_wf s' \<and>
     (if r = 0
      then \<exists>h d. dev_lookup s h = Some d \<and> peer_adrType d = ty \<and> peer_addr d = addr \<and> dev_lookup s' = (dev_lookup s)(h := None)
      else r = 1 \<and> s' = s \<and> (IS_RESOLVABLE_PRIVATE_ADDR ty addr
             \<or> (\<forall>h d. dev_lookup s h = Some d \<longrightarrow> \<not> (peer_adrType d = ty \<and> peer_addr d = addr))))"
proof (cases "find (\<lambda>i. conn_state (conn_dev_list s ! i) \<noteq> 0 \<and> mac_match ty addr (conn_dev_list s ! i))
             [0 ..< DEVICE_CHAR_INFO_MAX_NUM]")
  case None
  then have "r = 1" "s' = s" using assms(2) by (simp_all add: dev_char_info_delete_by_peer_mac_address_def)
  moreover have "IS_RESOLVABLE_PRIVATE_ADDR ty addr
       \<or> (\<forall>h d. dev_lookup s h = Some d \<longrightarrow> \<not> (peer_adrType d = ty \<and> peer_addr d = addr))"
    using None dev_lookup_Some_iff [OF assms(1)] unfolding find_upt_None mac_match_def live_def by auto
  ultimately show ?thesis using assms(1) by simp
next
  case (Some i)
  then have i: "i < DEVICE_CHAR_INFO_MAX_NUM" "live (conn_dev_list s ! i)" "mac_match ty addr (conn_dev_list s ! i)"
    by (auto dest!: find_upt_Some simp: live_def)
  have r: "r = 0" "s' = drop_slot i s" using Some assms(2) by (simp_all add: dev_char_info_delete_by_peer_mac_address_def)
  have "dev_lookup s (conn_handle (conn_dev_list s ! i)) = Some (conn_dev_list s ! i)"
    using dev_lookup_Some_iff [OF assms(1)] i by auto
  then show ?thesis using drop_slot_spec [OF assms(1) i(1,2)] r i(3) by (auto simp: mac_match_def split: if_splits)
qed

theorem dev_delete_by_mac_witness:
  "fst (dev_char_info_delete_by_peer_mac_address 0 [0,0,0,0,0,0] dev_table_init) = 1"
proof -
  have "\<nexists>h d. dev_lookup dev_table_init h = Some d" by (simp add: dev_table_init_lookup)
  then show ?thesis using dev_delete_by_mac [OF dev_table_init_wf prod.collapse [symmetric], of 0 "[0,0,0,0,0,0]"]
    by (auto split: if_splits)
qed

text \<open>
  The search by peer address ignores the connection state: it returns a free slot for the
  all-zero public address even when no device is connected at all.
\<close>

theorem dev_search_mac_finds_free_slot:
  "dev_char_info_search_by_peer_mac_address 0 (replicate 6 0) dev_table_init = Some 0
   \<and> \<not> (\<exists>h. dev_char_info_is_connection_state_by_conn_handle h dev_table_init)"
proof -
  have "\<not> dev_char_info_is_connection_state_by_conn_handle h dev_table_init" for h
    using dev_table_init_lookup
    by (auto simp: dev_char_info_is_connection_state_by_conn_handle_def dev_lookup_def fun_eq_iff
        dev_char_info_search_by_connhandle_def split: option.splits)
  moreover have "dev_char_info_search_by_peer_mac_address 0 (replicate 6 0) dev_table_init = Some 0"
    by (simp add: dev_char_info_search_by_peer_mac_address_def mac_match_def IS_RESOLVABLE_PRIVATE_ADDR_def
        dev_table_init_def dev_zero_def dm_consts BLE_ADDR_RANDOM_def upt_rec)
  ultimately show ?thesis by blast
qed

end
