(* ===== verification/Hci_Slip.thy ===== *)
theory Hci_Slip
  imports Telink_Prelude
begin

text \<open>
  The SLIP layer of \<^verbatim>\<open>vendor/common/hci_transport/hci_slip.c\<close>: the escape table, the encoder, the
  decoder and the sender with their static buffers.

  The decoder hands a frame to the registered packet handler; the model returns the number of
  decoded bytes to hand over (in the decode buffer), \<open>None\<close> when the packet is discarded.  The outer
  \<open>None\<close> is an access outside a buffer.  The UART driver is the record \<open>uart_env\<close>: whether the last
  transfer is complete and what the send call answers.  The sender returns what it gave to the UART.

  The locale \<open>byte_stuffing\<close> is the contract of an escaping that keeps a delimiter out of the frame
  body; it is interpreted on the escape table with software flow control off and on.
\<close>

section \<open>Data\<close>

text \<open>Buffer sizes for \<^verbatim>\<open>HCI_TR_RX_BUF_SIZE\<close> and \<^verbatim>\<open>HCI_TR_TX_BUF_SIZE\<close> of 300 bytes.\<close>

definition HCI_H5_HEAD_LEN :: nat where "HCI_H5_HEAD_LEN = 4"
definition HCI_H5_CRC_LEN :: nat where "HCI_H5_CRC_LEN = 2"
definition HCI_TR_RX_BUF_SIZE :: nat where "HCI_TR_RX_BUF_SIZE = 300"
definition HCI_TR_TX_BUF_SIZE :: nat where "HCI_TR_TX_BUF_SIZE = 300"

definition MEM_SIZE_ALIGN4 :: "nat \<Rightarrow> nat" where
  "MEM_SIZE_ALIGN4 x = (x + 3) div 4 * 4"

definition HCI_SLIP_DECODE_BUF_SIZE :: nat where
  "HCI_SLIP_DECODE_BUF_SIZE = MEM_SIZE_ALIGN4 (HCI_H5_HEAD_LEN + HCI_TR_RX_BUF_SIZE + HCI_H5_CRC_LEN)"

definition HCI_SLIP_ENCODE_BUF_SIZE :: nat where
  "HCI_SLIP_ENCODE_BUF_SIZE = MEM_SIZE_ALIGN4 (2 + (HCI_H5_HEAD_LEN + HCI_TR_TX_BUF_SIZE + HCI_H5_CRC_LEN) * 2)"

definition SLIP_DELIMITER :: u8 where "SLIP_DELIMITER = 0xC0"
definition SLIP_INVALID_UNENCODED :: u8 where "SLIP_INVALID_UNENCODED = 0"
definition SLIP_INVALID_ESCAPE :: u16 where "SLIP_INVALID_ESCAPE = 0"

definition slipEscapeTbl :: "(u16 \<times> u16) list" where
  "slipEscapeTbl = [(0xDCDB, 0xC0), (0xDDDB, 0xDB), (0xDEDB, 0x11), (0xDFDB, 0x13)]"

text \<open>\<open>h5PktHandler\<close> is \<open>None\<close> while the default (empty) handler is installed.\<close>

record HciH5SlipCb_t =
  h5PktHandler :: "nat option"
  slipDecodeBuf :: bytes
  slipEncodeBuf :: bytes
  decodeLen :: u16
  encodeLen :: u16
  oofEnable :: bool

record uart_env =
  ue_txDone :: bool
  ue_sendRes :: u8

section \<open>Operations\<close>

definition HCI_Slip_RegisterPktHandler :: "nat option \<Rightarrow> HciH5SlipCb_t \<Rightarrow> HciH5SlipCb_t" where
  "HCI_Slip_RegisterPktHandler func cb = (case func of None \<Rightarrow> cb | Some f \<Rightarrow> cb\<lparr>h5PktHandler := Some f\<rparr>)"

definition HCI_Slip_GetUnencoded :: "u16 \<Rightarrow> u8" where
  "HCI_Slip_GetUnencoded escapeSeq =
     (case find (\<lambda>e. escapeSeq = fst e) slipEscapeTbl of
        Some e \<Rightarrow> ucast (snd e) | None \<Rightarrow> SLIP_INVALID_UNENCODED)"

definition HCI_SLip_GetEscapeCode :: "u8 \<Rightarrow> u16" where
  "HCI_SLip_GetEscapeCode unencoded =
     (case find (\<lambda>e. ucast unencoded = snd e) slipEscapeTbl of
        Some e \<Rightarrow> fst e | None \<Rightarrow> SLIP_INVALID_ESCAPE)"

text \<open>
  The loop of the decoder: \<open>p\<close> is the offset of \<^verbatim>\<open>pBuf\<close> in the packet, \<open>len\<close> the 32-bit count of bytes
  left.  The result tells whether the end was reached (or the packet is discarded).  It ends because
  every round stores one byte and the decode buffer is finite.
\<close>

function slip_decode_loop ::
    "bytes \<Rightarrow> nat \<Rightarrow> u32 \<Rightarrow> HciH5SlipCb_t \<Rightarrow> (bool \<times> HciH5SlipCb_t) option" where
  "slip_decode_loop pkt p len cb =
     (if len = 0 then Some (True, cb)
      else do { b \<leftarrow> rd8 pkt p;
                if b = 0xDB
                then do { slipEscape \<leftarrow> BYTES_TO_UINT16 pkt p;
                          if HCI_Slip_GetUnencoded slipEscape = SLIP_INVALID_UNENCODED then Some (False, cb)
                          else if unat (decodeLen cb) + 1 > HCI_SLIP_DECODE_BUF_SIZE then Some (False, cb)
                          else do { buf \<leftarrow> wr8 (slipDecodeBuf cb) (unat (decodeLen cb)) (HCI_Slip_GetUnencoded slipEscape);
                                    slip_decode_loop pkt (p + 2) (len - 2)
                                      (cb\<lparr>slipDecodeBuf := buf, decodeLen := decodeLen cb + 1\<rparr>) } }
                else if unat (decodeLen cb) + 1 > HCI_SLIP_DECODE_BUF_SIZE then Some (False, cb)
                else do { buf \<leftarrow> wr8 (slipDecodeBuf cb) (unat (decodeLen cb)) b;
                          slip_decode_loop pkt (p + 1) (len - 1)
                            (cb\<lparr>slipDecodeBuf := buf, decodeLen := decodeLen cb + 1\<rparr>) } })"
  by auto
termination
proof (relation "measure (\<lambda>(pkt, p, len, cb). 65535 - unat (decodeLen cb))", goal_cases)
  case (2 pkt p len cb b esc buf)
  then show ?case
    using unat_word_add_no_wrap [of "decodeLen cb" 1]
    by (simp add: HCI_SLIP_DECODE_BUF_SIZE_def MEM_SIZE_ALIGN4_def HCI_H5_HEAD_LEN_def HCI_TR_RX_BUF_SIZE_def HCI_H5_CRC_LEN_def)
next
  case (3 pkt p len cb b buf)
  then show ?case
    using unat_word_add_no_wrap [of "decodeLen cb" 1]
    by (simp add: HCI_SLIP_DECODE_BUF_SIZE_def MEM_SIZE_ALIGN4_def HCI_H5_HEAD_LEN_def HCI_TR_RX_BUF_SIZE_def HCI_H5_CRC_LEN_def)
qed simp

declare slip_decode_loop.simps [simp del]

definition HCI_Slip_DecodePacket :: "bytes \<Rightarrow> HciH5SlipCb_t \<Rightarrow> (u16 option \<times> HciH5SlipCb_t) option" where
  "HCI_Slip_DecodePacket pPacket cb =
     (let len = (of_nat (length pPacket) :: u32) in
      if len = 0 \<or> len < 6 then Some (None, cb)
      else do { (done, cb1) \<leftarrow> slip_decode_loop pPacket 1 (len - 2) (cb\<lparr>decodeLen := 0\<rparr>);
                Some (if done then Some (decodeLen cb1) else None, cb1) })"

text \<open>The encoder writes from offset 4 of its buffer (a DMA length word comes first); \<open>p\<close> is \<^verbatim>\<open>pEncodeBuf\<close>.\<close>

fun slip_encode_loop :: "bytes \<Rightarrow> nat \<Rightarrow> HciH5SlipCb_t \<Rightarrow> (nat \<times> HciH5SlipCb_t) option" where
  "slip_encode_loop [] p cb = Some (p, cb)"
| "slip_encode_loop (b # bs) p cb =
     (if b = 0xC0 \<or> b = 0xDB \<or> b = 0x11 \<or> b = 0x13
      then (if \<not> oofEnable cb \<and> (b = 0x11 \<or> b = 0x13)
            then do { buf \<leftarrow> wr8 (slipEncodeBuf cb) p b;
                      slip_encode_loop bs (p + 1) (cb\<lparr>slipEncodeBuf := buf, encodeLen := encodeLen cb + 1\<rparr>) }
            else do { buf \<leftarrow> wr_range (slipEncodeBuf cb) p (UINT16_TO_BSTREAM (HCI_SLip_GetEscapeCode b));
                      slip_encode_loop bs (p + 2) (cb\<lparr>slipEncodeBuf := buf, encodeLen := encodeLen cb + 2\<rparr>) })
      else do { buf \<leftarrow> wr8 (slipEncodeBuf cb) p b;
                slip_encode_loop bs (p + 1) (cb\<lparr>slipEncodeBuf := buf, encodeLen := encodeLen cb + 1\<rparr>) })"

definition HCI_Slip_EncodePacket :: "bytes \<Rightarrow> HciH5SlipCb_t \<Rightarrow> HciH5SlipCb_t option" where
  "HCI_Slip_EncodePacket pPacket cb =
     do { buf \<leftarrow> wr8 (slipEncodeBuf cb) 4 SLIP_DELIMITER;
          (p, cb1) \<leftarrow> slip_encode_loop pPacket 5 (cb\<lparr>slipEncodeBuf := buf, encodeLen := 1\<rparr>);
          buf1 \<leftarrow> wr8 (slipEncodeBuf cb1) p SLIP_DELIMITER;
          Some (cb1\<lparr>slipEncodeBuf := buf1, encodeLen := encodeLen cb1 + 1\<rparr>) }"

definition HCI_Slip_Send ::
    "uart_env \<Rightarrow> bytes \<Rightarrow> HciH5SlipCb_t \<Rightarrow> (bool \<times> bytes option \<times> HciH5SlipCb_t) option" where
  "HCI_Slip_Send env pPacket cb =
     (if \<not> ue_txDone env then Some (False, None, cb)
      else do { cb1 \<leftarrow> HCI_Slip_EncodePacket pPacket cb;
                buf \<leftarrow> wr_range (slipEncodeBuf cb1) 0 (UINT32_TO_BSTREAM (ucast (encodeLen cb1)));
                out \<leftarrow> rd_range buf 4 (unat (encodeLen cb1));
                Some (ue_sendRes env \<noteq> 0, Some out, cb1\<lparr>slipEncodeBuf := buf\<rparr>) })"

definition HCI_Slip_Init :: "HciH5SlipCb_t \<Rightarrow> HciH5SlipCb_t" where
  "HCI_Slip_Init cb = cb\<lparr>decodeLen := 0, encodeLen := 0, h5PktHandler := None, oofEnable := False\<rparr>"

definition HCI_SLip_SetFlowCtrlEnable :: "bool \<Rightarrow> HciH5SlipCb_t \<Rightarrow> HciH5SlipCb_t" where
  "HCI_SLip_SetFlowCtrlEnable enable cb = cb\<lparr>oofEnable := enable\<rparr>"

lemmas slip_sizes = HCI_SLIP_DECODE_BUF_SIZE_def HCI_SLIP_ENCODE_BUF_SIZE_def MEM_SIZE_ALIGN4_def HCI_H5_HEAD_LEN_def
  HCI_TR_RX_BUF_SIZE_def HCI_TR_TX_BUF_SIZE_def HCI_H5_CRC_LEN_def

definition slip_wf :: "HciH5SlipCb_t \<Rightarrow> bool" where
  "slip_wf cb \<longleftrightarrow> length (slipDecodeBuf cb) = HCI_SLIP_DECODE_BUF_SIZE
     \<and> length (slipEncodeBuf cb) = 4 + HCI_SLIP_ENCODE_BUF_SIZE"

section \<open>The escaping of one byte\<close>

definition slip_esc :: "bool \<Rightarrow> u8 \<Rightarrow> bytes" where
  "slip_esc oof b =
     (if b = 0xC0 then [0xDB, 0xDC] else if b = 0xDB then [0xDB, 0xDD]
      else if oof \<and> b = 0x11 then [0xDB, 0xDE] else if oof \<and> b = 0x13 then [0xDB, 0xDF] else [b])"

definition stuff :: "(u8 \<Rightarrow> bytes) \<Rightarrow> bytes \<Rightarrow> bytes" where
  "stuff esc bs = concat (map esc bs)"

lemma stuff_Nil: "stuff esc [] = []"
  by (simp add: stuff_def)

lemma stuff_Cons: "stuff esc (b # bs) = esc b @ stuff esc bs"
  by (simp add: stuff_def)

locale byte_stuffing =
  fixes esc :: "u8 \<Rightarrow> bytes" and delim :: u8
  assumes esc_nonempty: "esc b \<noteq> []"
    and esc_length: "length (esc b) \<le> 2"
    and esc_no_delim: "delim \<notin> set (esc b)"
    and esc_prefix: "esc a @ xs = esc b @ ys \<Longrightarrow> a = b"
begin

lemma stuff_no_delim: "delim \<notin> set (stuff esc bs)"
  by (auto simp: stuff_def esc_no_delim)

lemma stuff_length: "length bs \<le> length (stuff esc bs) \<and> length (stuff esc bs) \<le> 2 * length bs"
proof (induction bs)
  case (Cons b bs)
  have "0 < length (esc b)" using esc_nonempty by simp
  then show ?case using Cons esc_length [of b] unfolding stuff_Cons length_append length_Cons by arith
qed (simp add: stuff_def)

lemma stuff_inject: "stuff esc as = stuff esc bs \<Longrightarrow> as = bs"
proof (induction as arbitrary: bs)
  case Nil
  then show ?case using esc_nonempty by (cases bs) (auto simp: stuff_def)
next
  case (Cons a as)
  then obtain b bs' where bs: "bs = b # bs'"
    using stuff_length [of "a # as"] by (cases bs) (auto simp: stuff_def esc_nonempty)
  then have "a = b" using Cons.prems esc_prefix by (simp add: stuff_Cons)
  then show ?case using Cons bs by (simp add: stuff_Cons)
qed

text \<open>Two delimited frames in a row can be told apart: the first delimiter after the start closes the first.\<close>

lemma frame_split:
  "takeWhile (\<lambda>x. x \<noteq> delim) (stuff esc bs @ delim # rest) = stuff esc bs
   \<and> dropWhile (\<lambda>x. x \<noteq> delim) (stuff esc bs @ delim # rest) = delim # rest"
proof -
  have "x \<noteq> delim" if "x \<in> set (stuff esc bs)" for x using that stuff_no_delim by auto
  then show ?thesis by (simp add: takeWhile_append dropWhile_append)
qed

end

interpretation slip: byte_stuffing "slip_esc oof" SLIP_DELIMITER for oof
  by unfold_locales (auto simp: slip_esc_def SLIP_DELIMITER_def split: if_splits)

section \<open>The encoder\<close>

lemma slip_escape_code:
  "b = 0xC0 \<or> b = 0xDB \<or> b = 0x11 \<or> b = 0x13 \<Longrightarrow> oof \<or> b \<noteq> 0x11 \<and> b \<noteq> 0x13 \<Longrightarrow>
      UINT16_TO_BSTREAM (HCI_SLip_GetEscapeCode b) = slip_esc oof b \<and> length (slip_esc oof b) = 2"
  by (auto simp: UINT16_TO_BSTREAM_def HCI_SLip_GetEscapeCode_def slipEscapeTbl_def slip_esc_def)

lemma slip_plain: "b \<noteq> 0xC0 \<Longrightarrow> b \<noteq> 0xDB \<Longrightarrow> \<not> oof \<or> b \<noteq> 0x11 \<and> b \<noteq> 0x13 \<Longrightarrow> slip_esc oof b = [b]"
  by (auto simp: slip_esc_def)

lemma slip_encode_step:
  "slip_encode_loop (b # bs) p cb =
     do { buf \<leftarrow> wr_range (slipEncodeBuf cb) p (slip_esc (oofEnable cb) b);
          slip_encode_loop bs (p + length (slip_esc (oofEnable cb) b))
            (cb\<lparr>slipEncodeBuf := buf, encodeLen := encodeLen cb + of_nat (length (slip_esc (oofEnable cb) b))\<rparr>) }"
proof (cases "(b = 0xC0 \<or> b = 0xDB \<or> b = 0x11 \<or> b = 0x13) \<and> (oofEnable cb \<or> b \<noteq> 0x11 \<and> b \<noteq> 0x13)")
  case True
  then have "\<not> (\<not> oofEnable cb \<and> (b = 0x11 \<or> b = 0x13))" by blast
  then show ?thesis using True slip_escape_code [of b "oofEnable cb"] by (simp only: slip_encode_loop.simps if_True if_False) simp
next
  case False
  then have "slip_esc (oofEnable cb) b = [b]" by (intro slip_plain) auto
  then show ?thesis using False by (auto simp: wr8_as_range)
qed

declare slip_encode_loop.simps(2) [simp del]

lemma slip_encode_loop_spec:
  "p + length (stuff (slip_esc (oofEnable cb)) bs) \<le> length (slipEncodeBuf cb) \<Longrightarrow>
     \<exists>buf. slip_encode_loop bs p cb =
         Some (p + length (stuff (slip_esc (oofEnable cb)) bs),
               cb\<lparr>slipEncodeBuf := buf, encodeLen := encodeLen cb + of_nat (length (stuff (slip_esc (oofEnable cb)) bs))\<rparr>)
       \<and> wr_range (slipEncodeBuf cb) p (stuff (slip_esc (oofEnable cb)) bs) = Some buf"
proof (induction bs arbitrary: p cb)
  case Nil
  then show ?case by (simp add: stuff_Nil wr_range_def)
next
  case (Cons b bs)
  define e where "e = slip_esc (oofEnable cb) b"
  have fits: "p + length e + length (stuff (slip_esc (oofEnable cb)) bs) \<le> length (slipEncodeBuf cb)"
    using Cons.prems by (simp add: stuff_Cons e_def)
  then obtain buf1 where w: "wr_range (slipEncodeBuf cb) p e = Some buf1" by (auto simp: wr_range_def)
  have "p + length e + length (stuff (slip_esc (oofEnable cb)) bs) \<le> length buf1"
    using fits wr_range_length [OF w] by simp
  then show ?case
    using Cons.IH [of "p + length e" "cb\<lparr>slipEncodeBuf := buf1, encodeLen := encodeLen cb + of_nat (length e)\<rparr>"]
      w wr_range_append [OF w]
    by (auto simp: slip_encode_step e_def [symmetric] stuff_Cons add.assoc)
qed

definition slip_frame :: "bool \<Rightarrow> bytes \<Rightarrow> bytes" where
  "slip_frame oof bs = SLIP_DELIMITER # stuff (slip_esc oof) bs @ [SLIP_DELIMITER]"

lemma slip_frame_length: "length (slip_frame oof bs) \<le> 2 + 2 * length bs"
  using slip.stuff_length [of bs oof] by (simp add: slip_frame_def)

lemma HCI_Slip_EncodePacket_spec:
  assumes "length (slip_frame (oofEnable cb) bs) + 4 \<le> length (slipEncodeBuf cb)"
  shows "\<exists>buf. HCI_Slip_EncodePacket bs cb =
           Some (cb\<lparr>slipEncodeBuf := buf, encodeLen := of_nat (length (slip_frame (oofEnable cb) bs))\<rparr>)
         \<and> wr_range (slipEncodeBuf cb) 4 (slip_frame (oofEnable cb) bs) = Some buf"
proof -
  define body where "body = stuff (slip_esc (oofEnable cb)) bs"
  have len: "6 + length body \<le> length (slipEncodeBuf cb)" using assms by (simp add: slip_frame_def body_def)
  obtain b1 where b1: "wr_range (slipEncodeBuf cb) 4 [SLIP_DELIMITER] = Some b1" using len by (auto simp: wr_range_def)
  have l1: "length b1 = length (slipEncodeBuf cb)" using wr_range_length [OF b1] .
  obtain b2 where b2: "wr_range b1 5 body = Some b2" using len l1 by (auto simp: wr_range_def)
  have l2: "length b2 = length (slipEncodeBuf cb)" using wr_range_length [OF b2] l1 by simp
  obtain b3 where b3: "wr_range b2 (5 + length body) [SLIP_DELIMITER] = Some b3" using len l2 by (auto simp: wr_range_def)
  have "wr_range (slipEncodeBuf cb) 4 (slip_frame (oofEnable cb) bs) = Some b3"
    using wr_range_append [OF b1, of "body @ [SLIP_DELIMITER]"] wr_range_append [OF b2, of "[SLIP_DELIMITER]"] b3
    by (simp add: slip_frame_def body_def)
  moreover have "slip_encode_loop bs 5 (cb\<lparr>slipEncodeBuf := b1, encodeLen := 1\<rparr>) =
      Some (5 + length body, cb\<lparr>slipEncodeBuf := b2, encodeLen := 1 + of_nat (length body)\<rparr>)"
    using slip_encode_loop_spec [of 5 "cb\<lparr>slipEncodeBuf := b1, encodeLen := 1\<rparr>" bs] len l1 b2 by (auto simp: body_def)
  ultimately show ?thesis using b1 b3
    by (auto simp: HCI_Slip_EncodePacket_def wr8_as_range slip_frame_def body_def)
qed

lemma HCI_Slip_Send_spec:
  assumes "slip_wf cb" "ue_txDone env" "length bs \<le> HCI_H5_HEAD_LEN + HCI_TR_TX_BUF_SIZE + HCI_H5_CRC_LEN"
  shows "\<exists>buf. HCI_Slip_Send env bs cb = Some (ue_sendRes env \<noteq> 0, Some (slip_frame (oofEnable cb) bs),
             cb\<lparr>slipEncodeBuf := buf, encodeLen := of_nat (length (slip_frame (oofEnable cb) bs))\<rparr>)
           \<and> length buf = 4 + HCI_SLIP_ENCODE_BUF_SIZE"
proof -
  define fr where "fr = slip_frame (oofEnable cb) bs"
  have fl: "length fr \<le> HCI_SLIP_ENCODE_BUF_SIZE" "length fr < 2 ^ 16"
    using slip_frame_length [of "oofEnable cb" bs] assms(3) by (simp_all add: fr_def slip_sizes)
  then obtain buf where e: "HCI_Slip_EncodePacket bs cb = Some (cb\<lparr>slipEncodeBuf := buf, encodeLen := of_nat (length fr)\<rparr>)"
    and w: "wr_range (slipEncodeBuf cb) 4 fr = Some buf"
    using HCI_Slip_EncodePacket_spec [of cb bs] assms(1) by (auto simp: fr_def slip_wf_def)
  have u: "unat (of_nat (length fr) :: u16) = length fr" using fl(2) by (intro unat_of_nat_small) simp
  have lbuf: "length buf = 4 + HCI_SLIP_ENCODE_BUF_SIZE" using wr_range_length [OF w] assms(1) by (simp add: slip_wf_def)
  obtain buf2 where w2: "wr_range buf 0 (UINT32_TO_BSTREAM (ucast (of_nat (length fr) :: u16))) = Some buf2"
    using lbuf by (auto simp: wr_range_def UINT32_TO_BSTREAM_def)
  have "rd_range buf2 4 (length fr) = rd_range buf 4 (length fr)"
    by (rule rd_wr_range_disjoint [OF w2]) (simp add: UINT32_TO_BSTREAM_def)
  then have "rd_range buf2 4 (length fr) = Some fr" using rd_wr_range_same [OF w] by simp
  then show ?thesis using assms(2) e w2 u lbuf wr_range_length [OF w2]
    by (cases cb) (simp add: HCI_Slip_Send_def fr_def)
qed

section \<open>The decoder\<close>

lemma drop_ConsD: "drop p xs = y # ys \<Longrightarrow> p < length xs \<and> xs ! p = y \<and> drop (Suc p) xs = ys"
  by (metis Cons_nth_drop_Suc drop_eq_Nil linorder_not_le list.distinct(1) list.inject)

lemma slip_unescape:
  "length (slip_esc oof b) = 2 \<Longrightarrow> slip_esc oof b = [0xDB, slip_esc oof b ! 1]
     \<and> HCI_Slip_GetUnencoded (ucast (0xDB :: u8) + push_bit 8 (ucast (slip_esc oof b ! 1))) = b
     \<and> b \<noteq> SLIP_INVALID_UNENCODED"
  by (auto simp: slip_esc_def HCI_Slip_GetUnencoded_def slipEscapeTbl_def SLIP_INVALID_UNENCODED_def push_bit_eq_mult
      split: if_splits)

lemma slip_decode_step:
  assumes d: "drop p pkt = slip_esc oof b @ rest" and len: "len \<noteq> 0"
  shows "slip_decode_loop pkt p len cb =
     (if unat (decodeLen cb) + 1 > HCI_SLIP_DECODE_BUF_SIZE then Some (False, cb)
      else do { buf \<leftarrow> wr8 (slipDecodeBuf cb) (unat (decodeLen cb)) b;
                slip_decode_loop pkt (p + length (slip_esc oof b)) (len - of_nat (length (slip_esc oof b)))
                  (cb\<lparr>slipDecodeBuf := buf, decodeLen := decodeLen cb + 1\<rparr>) })"
proof (cases "length (slip_esc oof b) = 2")
  case True
  define x where "x = slip_esc oof b ! 1"
  note u = slip_unescape [OF True, folded x_def]
  have p0: "p < length pkt" "pkt ! p = 0xDB" and d1: "drop (Suc p) pkt = x # rest"
    using drop_ConsD [of p pkt "0xDB" "x # rest"] d u by auto
  have p1: "Suc p < length pkt" "pkt ! Suc p = x" using drop_ConsD [OF d1] by auto
  have "rd8 pkt p = Some 0xDB" "BYTES_TO_UINT16 pkt p = Some (ucast (0xDB :: u8) + push_bit 8 (ucast x))"
    using p0 p1 by (simp_all add: BYTES_TO_UINT16_def rd8_def)
  then show ?thesis using len u True by (subst slip_decode_loop.simps) (simp del: rd8_Some_iff)
next
  case False
  then have e: "slip_esc oof b = [b]" "b \<noteq> 0xDB" by (auto simp: slip_esc_def split: if_splits)
  have "p < length pkt" "pkt ! p = b" using drop_ConsD [of p pkt b rest] d e by auto
  then have "rd8 pkt p = Some b" by simp
  then show ?thesis using len e by (subst slip_decode_loop.simps) (simp del: rd8_Some_iff)
qed

lemma slip_decode_loop_spec:
  assumes "drop p pkt = stuff (slip_esc oof) bs @ post" "length (stuff (slip_esc oof) bs) < 2 ^ 32"
    and "unat (decodeLen cb) + length bs \<le> HCI_SLIP_DECODE_BUF_SIZE" "length (slipDecodeBuf cb) = HCI_SLIP_DECODE_BUF_SIZE"
  shows "\<exists>buf. slip_decode_loop pkt p (of_nat (length (stuff (slip_esc oof) bs))) cb =
             Some (True, cb\<lparr>slipDecodeBuf := buf, decodeLen := decodeLen cb + of_nat (length bs)\<rparr>)
           \<and> wr_range (slipDecodeBuf cb) (unat (decodeLen cb)) bs = Some buf"
  using assms
proof (induction bs arbitrary: p cb)
  case Nil
  then show ?case by (subst slip_decode_loop.simps) (simp add: stuff_Nil wr_range_def)
next
  case (Cons b bs)
  define e where "e = slip_esc oof b"
  define rest where "rest = stuff (slip_esc oof) bs"
  have d: "drop p pkt = slip_esc oof b @ rest @ post" using Cons.prems(1) by (simp add: stuff_Cons rest_def)
  have "drop (length e) (drop p pkt) = rest @ post" using d by (simp add: e_def)
  then have d': "drop (p + length e) pkt = rest @ post" by (simp add: add.commute)
  have ne: "e \<noteq> []" by (simp add: e_def slip.esc_nonempty)
  have lens: "length e + length rest < 2 ^ 32" using Cons.prems(2) by (simp add: stuff_Cons e_def rest_def)
  have "unat (of_nat (length e + length rest) :: u32) = length e + length rest" using lens by (intro unat_of_nat_small) simp
  then have nz: "(of_nat (length e + length rest) :: u32) \<noteq> 0" using ne by (metis add_is_0 length_0_conv unsigned_0)
  have s1: "unat (decodeLen cb + 1) = unat (decodeLen cb) + 1"
    using Cons.prems(3) unat_word_add_no_wrap [of "decodeLen cb" 1] by (simp add: slip_sizes)
  obtain buf1 where w: "wr_range (slipDecodeBuf cb) (unat (decodeLen cb)) [b] = Some buf1"
    using Cons.prems(3,4) by (auto simp: wr_range_def)
  have "slip_decode_loop pkt p (of_nat (length e + length rest)) cb =
      slip_decode_loop pkt (p + length e) (of_nat (length rest)) (cb\<lparr>slipDecodeBuf := buf1, decodeLen := decodeLen cb + 1\<rparr>)"
    using slip_decode_step [OF d nz, of cb] Cons.prems(3) w by (simp add: wr8_as_range e_def)
  moreover have "length rest < 2 ^ 32" using lens by simp
  ultimately show ?case
    using Cons.IH [of "p + length e" "cb\<lparr>slipDecodeBuf := buf1, decodeLen := decodeLen cb + 1\<rparr>"] d' s1
      Cons.prems(3,4) wr_range_length [OF w] wr_range_append [OF w, of bs]
    by (auto simp: stuff_Cons rest_def [symmetric] e_def [symmetric] add.assoc)
qed

lemma HCI_Slip_DecodePacket_frame:
  assumes wf: "slip_wf cb" and bs: "4 \<le> length bs" "length bs \<le> HCI_SLIP_DECODE_BUF_SIZE"
  shows "\<exists>buf. HCI_Slip_DecodePacket (slip_frame oof bs) cb =
            Some (Some (of_nat (length bs)), cb\<lparr>slipDecodeBuf := buf, decodeLen := of_nat (length bs)\<rparr>)
          \<and> take (length bs) buf = bs \<and> length buf = HCI_SLIP_DECODE_BUF_SIZE"
proof -
  define body where "body = stuff (slip_esc oof) bs"
  have lb: "length bs \<le> length body" "length body \<le> 2 * length bs" using slip.stuff_length [of bs oof] by (simp_all add: body_def)
  have small: "length body < 2 ^ 32" "2 + length body < 2 ^ 32" using lb bs(2) by (simp_all add: slip_sizes)
  have "unat (of_nat (2 + length body) :: u32) = 2 + length body" using small by (intro unat_of_nat_small) simp
  then have len: "\<not> (of_nat (2 + length body) :: u32) < 6" "(of_nat (2 + length body) :: u32) \<noteq> 0"
    using lb bs(1) by (auto simp: word_less_nat_alt)
  have "drop 1 (slip_frame oof bs) = body @ [SLIP_DELIMITER]" by (simp add: slip_frame_def body_def)
  then obtain buf where b: "slip_decode_loop (slip_frame oof bs) 1 (of_nat (length body)) (cb\<lparr>decodeLen := 0\<rparr>) =
       Some (True, cb\<lparr>slipDecodeBuf := buf, decodeLen := of_nat (length bs)\<rparr>)"
     and w: "wr_range (slipDecodeBuf cb) 0 bs = Some buf"
    using slip_decode_loop_spec [of 1 "slip_frame oof bs" oof bs "[SLIP_DELIMITER]" "cb\<lparr>decodeLen := 0\<rparr>"] small bs(2) wf
    by (auto simp: body_def slip_wf_def)
  have "take (length bs) buf = bs" "length buf = HCI_SLIP_DECODE_BUF_SIZE"
    using w wf by (auto simp: wr_range_def slip_wf_def split: if_splits)
  moreover have "length (slip_frame oof bs) = 2 + length body" by (simp add: slip_frame_def body_def)
  ultimately show ?thesis using b len
    by (auto simp: HCI_Slip_DecodePacket_def Let_def)
qed

text \<open>On a packet that ends with a delimiter the decoder reads only the packet, whatever the bytes are.\<close>

lemma slip_decode_loop_safe:
  assumes "p + unat len < length pkt" "pkt ! (p + unat len) = SLIP_DELIMITER"
    and "length (slipDecodeBuf cb) = HCI_SLIP_DECODE_BUF_SIZE"
  shows "\<exists>done cb'. slip_decode_loop pkt p len cb = Some (done, cb') \<and> slipEncodeBuf cb' = slipEncodeBuf cb
           \<and> length (slipDecodeBuf cb') = HCI_SLIP_DECODE_BUF_SIZE \<and> unat (decodeLen cb') \<le> max (unat (decodeLen cb)) HCI_SLIP_DECODE_BUF_SIZE"
  using assms
proof (induction pkt p len cb rule: slip_decode_loop.induct)
  case (1 pkt p len cb)
  show ?case
  proof (cases "len = 0")
    case True
    then show ?thesis using 1(5) by (subst slip_decode_loop.simps) auto
  next
    case False
    then have l: "0 < unat len" by (simp add: unat_gt_0)
    have l1: "unat (len - 1) = unat len - 1" using False by (simp add: unat_minus_one)
    have rd: "rd8 pkt p = Some (pkt ! p)" using 1(3) by simp
    have nxt: "BYTES_TO_UINT16 pkt p = Some (ucast (pkt ! p) + push_bit 8 (ucast (pkt ! (p + 1))))"
      using 1(3) l by (simp add: BYTES_TO_UINT16_def rd8_def)
    have full: "unat (decodeLen cb) + 1 \<le> HCI_SLIP_DECODE_BUF_SIZE \<Longrightarrow> unat (decodeLen cb + 1) = unat (decodeLen cb) + 1"
      using unat_word_add_no_wrap [of "decodeLen cb" 1] by (simp add: slip_sizes)
    show ?thesis
    proof (cases "pkt ! p = 0xDB")
      case plain: False
      show ?thesis
      proof (cases "unat (decodeLen cb) + 1 > HCI_SLIP_DECODE_BUF_SIZE")
        case True
        then show ?thesis using False rd plain 1(5) by (subst slip_decode_loop.simps) (auto simp del: rd8_Some_iff)
      next
        case fits: False
        then obtain buf where w: "wr8 (slipDecodeBuf cb) (unat (decodeLen cb)) (pkt ! p) = Some buf"
          using 1(5) by (auto simp: wr8_def)
        show ?thesis using 1(2) [OF False rd plain fits w] 1(3-5) l l1 False rd plain fits w full wr8_length [OF w]
          by (subst slip_decode_loop.simps) (auto simp del: rd8_Some_iff)
      qed
    next
      case esc: True
      show ?thesis
      proof (cases "HCI_Slip_GetUnencoded (ucast (pkt ! p) + push_bit 8 (ucast (pkt ! (p + 1)))) = SLIP_INVALID_UNENCODED
                      \<or> unat (decodeLen cb) + 1 > HCI_SLIP_DECODE_BUF_SIZE")
        case True
        then show ?thesis using False rd nxt esc 1(5) by (subst slip_decode_loop.simps) (auto simp del: rd8_Some_iff)
      next
        case go: False
        have "unat len \<noteq> 1"
        proof
          assume "unat len = 1"
          then have "pkt ! (p + 1) = 0xC0" using 1(4) by (simp add: SLIP_DELIMITER_def)
          then show False using go esc by (simp add: HCI_Slip_GetUnencoded_def slipEscapeTbl_def push_bit_eq_mult)
        qed
        then have l2: "unat (len - 2) = unat len - 2" using l unat_sub [of 2 len] by (simp add: word_le_nat_alt)
        obtain buf where w: "wr8 (slipDecodeBuf cb) (unat (decodeLen cb))
            (HCI_Slip_GetUnencoded (ucast (pkt ! p) + push_bit 8 (ucast (pkt ! (p + 1))))) = Some buf"
          using 1(5) go by (auto simp: wr8_def)
        have "Suc (Suc (p + unat len - 2)) = p + unat len" using l \<open>unat len \<noteq> 1\<close> by arith
        then show ?thesis using 1(1) [OF False rd esc nxt _ _ w] 1(3-5) l l2 \<open>unat len \<noteq> 1\<close> False rd nxt esc go w full wr8_length [OF w]
          by (subst slip_decode_loop.simps) (auto simp del: rd8_Some_iff)
      qed
    qed
  qed
qed

section \<open>Properties\<close>

text \<open>
  C28.  Whatever the sender gives to the UART for a packet of 4 to 306 bytes, the decoder at the other
  end turns back into exactly that packet: the SLIP layer is lossless, with software flow control on
  or off, and neither side touches memory outside its buffers.
\<close>

theorem slip_roundtrip:
  assumes "slip_wf tx" "slip_wf rx" "ue_txDone env"
    and "4 \<le> length bs" "length bs \<le> HCI_H5_HEAD_LEN + HCI_TR_TX_BUF_SIZE + HCI_H5_CRC_LEN"
  shows "\<exists>out tx' rx'. HCI_Slip_Send env bs tx = Some (ue_sendRes env \<noteq> 0, Some out, tx') \<and> slip_wf tx'
           \<and> HCI_Slip_DecodePacket out rx = Some (Some (of_nat (length bs)), rx') \<and> slip_wf rx'
           \<and> take (length bs) (slipDecodeBuf rx') = bs"
proof -
  define fr where "fr = slip_frame (oofEnable tx) bs"
  obtain buf where e: "HCI_Slip_Send env bs tx = Some (ue_sendRes env \<noteq> 0, Some fr,
             tx\<lparr>slipEncodeBuf := buf, encodeLen := of_nat (length fr)\<rparr>)" "length buf = 4 + HCI_SLIP_ENCODE_BUF_SIZE"
    using HCI_Slip_Send_spec [OF assms(1,3,5)] by (auto simp: fr_def)
  obtain rb where r: "HCI_Slip_DecodePacket fr rx = Some (Some (of_nat (length bs)), rx\<lparr>slipDecodeBuf := rb, decodeLen := of_nat (length bs)\<rparr>)"
     "take (length bs) rb = bs" "length rb = HCI_SLIP_DECODE_BUF_SIZE"
    using HCI_Slip_DecodePacket_frame [OF assms(2,4), of "oofEnable tx"] assms(5) by (auto simp: fr_def slip_sizes)
  show ?thesis using e r assms(1,2) by (auto simp: slip_wf_def)
qed

theorem slip_roundtrip_witness:
  "let cb = \<lparr>h5PktHandler = None, slipDecodeBuf = replicate 308 0, slipEncodeBuf = replicate 620 0, decodeLen = 0,
             encodeLen = 0, oofEnable = True\<rparr>
   in \<exists>out tx' rx'. HCI_Slip_Send \<lparr>ue_txDone = True, ue_sendRes = 1\<rparr> [0xC0, 0x11, 0xDB, 0, 7] cb = Some (True, Some out, tx')
        \<and> HCI_Slip_DecodePacket out cb = Some (Some 5, rx')
        \<and> take (length [0xC0, 0x11, 0xDB, 0, 7 :: u8]) (slipDecodeBuf rx') = [0xC0, 0x11, 0xDB, 0, 7]"
  using slip_roundtrip [of "\<lparr>h5PktHandler = None, slipDecodeBuf = replicate 308 0, slipEncodeBuf = replicate 620 0, decodeLen = 0,
             encodeLen = 0, oofEnable = True\<rparr>" "\<lparr>h5PktHandler = None, slipDecodeBuf = replicate 308 0, slipEncodeBuf = replicate 620 0,
             decodeLen = 0, encodeLen = 0, oofEnable = True\<rparr>" "\<lparr>ue_txDone = True, ue_sendRes = 1\<rparr>" "[0xC0, 0x11, 0xDB, 0, 7]"]
  by (auto simp: slip_wf_def slip_sizes)

text \<open>
  The frame put on the wire starts and ends with the delimiter, holds no delimiter in between, is
  at most twice the packet plus two bytes long, and two packets with the same frame are equal.
\<close>

theorem slip_frame_delimited:
  assumes "slip_wf cb" "ue_txDone env" "length bs \<le> HCI_H5_HEAD_LEN + HCI_TR_TX_BUF_SIZE + HCI_H5_CRC_LEN"
  shows "\<exists>body cb'. HCI_Slip_Send env bs cb = Some (ue_sendRes env \<noteq> 0, Some (SLIP_DELIMITER # body @ [SLIP_DELIMITER]), cb')
           \<and> SLIP_DELIMITER \<notin> set body \<and> length body \<le> 2 * length bs
           \<and> (\<forall>bs'. stuff (slip_esc (oofEnable cb)) bs' = body \<longrightarrow> bs' = bs)"
  using HCI_Slip_Send_spec [OF assms] slip.stuff_no_delim slip.stuff_length [of bs] slip.stuff_inject
  by (auto simp: slip_frame_def intro!: exI [of _ "stuff (slip_esc (oofEnable cb)) bs"])

theorem slip_frame_delimited_witness:
  "\<exists>body cb'. HCI_Slip_Send \<lparr>ue_txDone = True, ue_sendRes = 1\<rparr> [0xC0, 0xC0]
      \<lparr>h5PktHandler = None, slipDecodeBuf = replicate 308 0, slipEncodeBuf = replicate 620 0, decodeLen = 0,
       encodeLen = 0, oofEnable = False\<rparr> = Some (True, Some (SLIP_DELIMITER # body @ [SLIP_DELIMITER]), cb')
      \<and> SLIP_DELIMITER \<notin> set body \<and> length body \<le> 4"
  using slip_frame_delimited [of "\<lparr>h5PktHandler = None, slipDecodeBuf = replicate 308 0, slipEncodeBuf = replicate 620 0, decodeLen = 0,
       encodeLen = 0, oofEnable = False\<rparr>" "\<lparr>ue_txDone = True, ue_sendRes = 1\<rparr>" "[0xC0, 0xC0]"]
  by (auto simp: slip_wf_def slip_sizes)

text \<open>
  The decoder is memory safe on every byte string the transport can hand it: whatever stands
  between the delimiters, truncated escapes and over-long frames included, it reads inside the
  packet, writes inside the decode buffer and never reports more bytes than the buffer holds.
\<close>

theorem slip_decode_safe:
  assumes "slip_wf cb" "length pkt < 2 ^ 31" "pkt \<noteq> []" "last pkt = SLIP_DELIMITER"
  shows "\<exists>r cb'. HCI_Slip_DecodePacket pkt cb = Some (r, cb') \<and> slip_wf cb'
           \<and> (\<forall>n. r = Some n \<longrightarrow> unat n \<le> HCI_SLIP_DECODE_BUF_SIZE)"
proof (cases "length pkt < 6")
  case True
  then have "unat (of_nat (length pkt) :: u32) = length pkt" by (intro unat_of_nat_small) simp
  then have "(of_nat (length pkt) :: u32) < 6" using True by (simp add: word_less_nat_alt)
  then show ?thesis using assms(1) by (auto simp: HCI_Slip_DecodePacket_def Let_def)
next
  case False
  have u: "unat (of_nat (length pkt) :: u32) = length pkt" using assms(2) by (intro unat_of_nat_small) simp
  then have n6: "\<not> (of_nat (length pkt) :: u32) < 6" "(of_nat (length pkt) :: u32) \<noteq> 0"
    using False by (auto simp: word_less_nat_alt)
  have u2: "unat (of_nat (length pkt) - 2 :: u32) = length pkt - 2"
    using u False by (subst unat_sub) (simp_all add: word_le_nat_alt)
  have "pkt ! (length pkt - 1) = SLIP_DELIMITER" using assms(3,4) by (simp add: last_conv_nth)
  moreover have "1 + (length pkt - 2) = length pkt - 1" using False by simp
  ultimately have at: "1 + unat (of_nat (length pkt) - 2 :: u32) < length pkt" "pkt ! (1 + unat (of_nat (length pkt) - 2 :: u32)) = SLIP_DELIMITER"
    using u2 False by simp_all
  obtain dn cb' where "slip_decode_loop pkt 1 (of_nat (length pkt) - 2) (cb\<lparr>decodeLen := 0\<rparr>) = Some (dn, cb')"
      "slipEncodeBuf cb' = slipEncodeBuf cb" "length (slipDecodeBuf cb') = HCI_SLIP_DECODE_BUF_SIZE"
      "unat (decodeLen cb') \<le> HCI_SLIP_DECODE_BUF_SIZE"
    using slip_decode_loop_safe [OF at, of "cb\<lparr>decodeLen := 0\<rparr>"] assms(1) by (auto simp: slip_wf_def)
  then show ?thesis using n6 assms(1) by (auto simp: HCI_Slip_DecodePacket_def Let_def slip_wf_def)
qed

theorem slip_decode_safe_witness:
  "\<exists>r cb'. HCI_Slip_DecodePacket [0xC0, 1, 2, 3, 4, 0xDB, 0xC0]
      \<lparr>h5PktHandler = None, slipDecodeBuf = replicate 308 0, slipEncodeBuf = replicate 620 0, decodeLen = 0,
       encodeLen = 0, oofEnable = False\<rparr> = Some (r, cb') \<and> slip_wf cb'"
  using slip_decode_safe [of "\<lparr>h5PktHandler = None, slipDecodeBuf = replicate 308 0, slipEncodeBuf = replicate 620 0, decodeLen = 0,
       encodeLen = 0, oofEnable = False\<rparr>" "[0xC0, 1, 2, 3, 4, 0xDB, 0xC0]"]
  by (auto simp: slip_wf_def slip_sizes SLIP_DELIMITER_def)

end
