(* ===== verification/Hci_Fifo.thy ===== *)
theory Hci_Fifo
  imports Packet_Fifo
begin

unbundle bit_operations_syntax

text \<open>
  The HCI FIFOs (\<^verbatim>\<open>hci_fifo_t\<close> of \<^verbatim>\<open>stack/ble/hci/hci.h\<close>) that connect the transports with the
  controller, and the HCI event senders of \<^verbatim>\<open>hci_transport/hci_dfu_port.c\<close> that write into the
  transmit FIFO.  The slot address is \<^verbatim>\<open>p + (i & mask) * size\<close> in 32-bit arithmetic.  The type
  interprets the contract \<open>packet_fifo\<close>.
\<close>

section \<open>Data\<close>

record hci_fifo_t =
  hf_size :: u32
  hf_num :: u8
  hf_mask :: u8
  hf_wptr :: u8
  hf_rptr :: u8
  hf_p :: bytes

definition hf_slot :: "hci_fifo_t \<Rightarrow> u8 \<Rightarrow> nat" where
  "hf_slot f i = unat (ucast (i AND hf_mask f) * hf_size f)"

text \<open>Storing a packet in the slot of the write index and advancing it, as every writer does.\<close>

definition hf_put :: "hci_fifo_t \<Rightarrow> bytes \<Rightarrow> hci_fifo_t option" where
  "hf_put f d =
     do { p' \<leftarrow> wr_range (hf_p f) (hf_slot f (hf_wptr f)) d;
          Some (f\<lparr>hf_p := p', hf_wptr := hf_wptr f + 1\<rparr>) }"

definition hf_pop :: "hci_fifo_t \<Rightarrow> hci_fifo_t" where
  "hf_pop f = f\<lparr>hf_rptr := hf_rptr f + 1\<rparr>"

definition hf_front :: "hci_fifo_t \<Rightarrow> bytes option" where
  "hf_front f =
     (if hf_wptr f = hf_rptr f then None else rd_range (hf_p f) (hf_slot f (hf_rptr f)) (unat (hf_size f)))"

section \<open>HCI event senders\<close>

definition HCI_EVT_HEAD_LEN :: nat where "HCI_EVT_HEAD_LEN = 2"
definition HCI_TR_TYPE_EVENT :: u8 where "HCI_TR_TYPE_EVENT = 4"

definition hci_fifo_full :: "hci_fifo_t \<Rightarrow> bool" where
  "hci_fifo_full f \<longleftrightarrow> int (unat (hf_wptr f)) - int (unat (hf_rptr f)) \<ge> int (unat (hf_num f))"

definition cmd_cmpl_evt :: "u16 \<Rightarrow> bytes \<Rightarrow> bytes" where
  "cmd_cmpl_evt opcode param =
     UINT16_TO_BSTREAM (of_nat (1 + HCI_EVT_HEAD_LEN + 3 + length param))
     @ [HCI_TR_TYPE_EVENT, 0x0E, of_nat (3 + length param), 1] @ UINT16_TO_BSTREAM opcode @ param"

definition cmd_status_evt :: "u16 \<Rightarrow> u8 \<Rightarrow> bytes" where
  "cmd_status_evt opcode status =
     UINT16_TO_BSTREAM (of_nat (1 + HCI_EVT_HEAD_LEN + 4))
     @ [HCI_TR_TYPE_EVENT, 0x0F, 4, status, 1] @ UINT16_TO_BSTREAM opcode"

definition Hci_SendCmdCmplEvt :: "u16 \<Rightarrow> bytes \<Rightarrow> hci_fifo_t \<Rightarrow> hci_fifo_t option" where
  "Hci_SendCmdCmplEvt opcode param f = (if hci_fifo_full f then Some f else hf_put f (cmd_cmpl_evt opcode param))"

definition Hci_SendCmdCmplStatusEvt :: "u16 \<Rightarrow> u8 \<Rightarrow> hci_fifo_t \<Rightarrow> hci_fifo_t option" where
  "Hci_SendCmdCmplStatusEvt opcode status f = Hci_SendCmdCmplEvt opcode [status] f"

definition Hci_SendCmdStatusEvt :: "u16 \<Rightarrow> u8 \<Rightarrow> hci_fifo_t \<Rightarrow> hci_fifo_t option" where
  "Hci_SendCmdStatusEvt opcode status f = (if hci_fifo_full f then Some f else hf_put f (cmd_status_evt opcode status))"

section \<open>Invariant, abstraction and contract\<close>

definition hf_ok :: "hci_fifo_t \<Rightarrow> bool" where
  "hf_ok f \<longleftrightarrow> pf_ok (unat (hf_size f)) (unat (hf_num f)) (hf_p f) (hf_rptr f) (hf_wptr f)
     \<and> hf_mask f = hf_num f - 1 \<and> length (hf_p f) < 2 ^ 31"

definition hf_view :: "hci_fifo_t \<Rightarrow> bytes list" where
  "hf_view f = pf_view (unat (hf_size f)) (unat (hf_num f)) (hf_p f) (hf_rptr f) (hf_wptr f)"

lemma hf_slot_eq:
  assumes "hf_ok f"
  shows "hf_slot f i = (unat i mod unat (hf_num f)) * unat (hf_size f)"
proof -
  obtain k where k: "k < 8" "unat (hf_num f) = 2 ^ k" "length (hf_p f) = 2 ^ k * unat (hf_size f)"
    using assms by (auto simp: hf_ok_def pf_ok_def)
  have "hf_num f \<noteq> 0" using k(2) by (metis unat_0 power_not_zero zero_neq_numeral)
  then have m: "unat (hf_mask f) + 1 = 2 ^ k" using assms k(2) by (simp add: hf_ok_def unat_minus_one)
  have idx: "unat (ucast (i AND hf_mask f) :: u32) = unat i mod 2 ^ k"
    by (simp add: unat_and_mask_pow2 [OF m] unat_ucast_up)
  have "(unat i mod 2 ^ k) * unat (hf_size f) \<le> 2 ^ k * unat (hf_size f)"
    by (intro mult_le_mono1) (simp add: less_imp_le)
  also have "\<dots> < 2 ^ 32" using assms k(3) by (simp add: hf_ok_def)
  finally show ?thesis unfolding hf_slot_def k(2)
    by (subst unat_word_ariths(2)) (simp add: idx)
qed

lemma hf_put_ok:
  assumes ok: "hf_ok f" and room: "length (hf_view f) < unat (hf_num f)" and fits: "length d \<le> unat (hf_size f)"
  shows "\<exists>f' rest. hf_put f d = Some f' \<and> hf_ok f' \<and> hf_num f' = hf_num f \<and> hf_size f' = hf_size f
     \<and> hf_rptr f' = hf_rptr f \<and> hf_view f' = hf_view f @ [d @ rest]"
proof -
  have pf: "pf_ok (unat (hf_size f)) (unat (hf_num f)) (hf_p f) (hf_rptr f) (hf_wptr f)"
    using ok by (simp add: hf_ok_def)
  obtain p' rest where p': "wr_range (hf_p f) ((unat (hf_wptr f) mod unat (hf_num f)) * unat (hf_size f)) d = Some p'"
      "pf_ok (unat (hf_size f)) (unat (hf_num f)) p' (hf_rptr f) (hf_wptr f + 1)"
      "pf_view (unat (hf_size f)) (unat (hf_num f)) p' (hf_rptr f) (hf_wptr f + 1) = hf_view f @ [d @ rest]"
    using pf_put [OF pf, of d] room fits by (auto simp: hf_view_def)
  then show ?thesis using ok wr_range_length [OF p'(1)]
    by (auto simp: hf_put_def hf_slot_eq [OF ok] hf_view_def hf_ok_def)
qed

lemma hf_pop_ok:
  "hf_ok f \<Longrightarrow> hf_view f = s # ss \<Longrightarrow> hf_front f = Some s \<and> hf_ok (hf_pop f) \<and> hf_view (hf_pop f) = ss"
  using pf_pop [of "unat (hf_size f)" "unat (hf_num f)" "hf_p f" "hf_rptr f" "hf_wptr f" s ss]
  by (auto simp: hf_front_def hf_slot_eq hf_ok_def hf_view_def hf_pop_def)

interpretation hf: packet_fifo hf_ok hf_view "\<lambda>f. unat (hf_num f)" "\<lambda>f. unat (hf_size f)" "\<lambda>d. d" hf_put hf_front hf_pop
proof unfold_locales
  fix f and d :: bytes assume "hf_ok f" "length (hf_view f) < unat (hf_num f)" "length d \<le> unat (hf_size f)"
  then show "\<exists>f' rest. hf_put f d = Some f' \<and> hf_ok f' \<and> unat (hf_num f') = unat (hf_num f)
      \<and> unat (hf_size f') = unat (hf_size f) \<and> hf_view f' = hf_view f @ [d @ rest]"
    using hf_put_ok [of f d] by auto
next
  fix f s ss assume "hf_ok f" "hf_view f = s # ss"
  then show "hf_front f = Some s \<and> hf_ok (hf_pop f) \<and> unat (hf_num (hf_pop f)) = unat (hf_num f)
      \<and> unat (hf_size (hf_pop f)) = unat (hf_size f) \<and> hf_view (hf_pop f) = ss"
    using hf_pop_ok [of f s ss] by (simp add: hf_pop_def)
qed

lemma hf_view_empty_iff: "hf_view f = [] \<longleftrightarrow> hf_rptr f = hf_wptr f"
  by (simp add: hf_view_def pf_view_empty_iff)

lemma hf_view_length: "length (hf_view f) = unat (hf_wptr f - hf_rptr f)"
  by (simp add: hf_view_def)

text \<open>The C comparison is right as long as the write index has not wrapped past the read index.\<close>

lemma hci_fifo_full_no_wrap:
  assumes "hf_rptr f \<le> hf_wptr f"
  shows "hci_fifo_full f \<longleftrightarrow> length (hf_view f) \<ge> unat (hf_num f)"
proof -
  have "unat (hf_wptr f - hf_rptr f) = unat (hf_wptr f) - unat (hf_rptr f)" using assms by (rule unat_sub)
  moreover have "unat (hf_rptr f) \<le> unat (hf_wptr f)" using assms by (simp add: word_le_nat_alt)
  ultimately show ?thesis unfolding hci_fifo_full_def hf_view_length by linarith
qed

lemma cmd_cmpl_evt_length: "length (cmd_cmpl_evt opcode param) = 8 + length param"
  by (simp add: cmd_cmpl_evt_def UINT16_TO_BSTREAM_def)

section \<open>Properties\<close>

text \<open>
  While the write index has not wrapped past the read index, a command-complete event is either
  dropped with the FIFO unchanged, exactly when the FIFO is full, or appended behind the queued
  packets as a slot that holds the packet length, the event header and the parameters.
\<close>

theorem hci_cmd_cmpl_evt_queued:
  assumes "hf_ok f" "hf_rptr f \<le> hf_wptr f" "8 + length param \<le> unat (hf_size f)"
  shows "if length (hf_view f) \<ge> unat (hf_num f) then Hci_SendCmdCmplEvt opcode param f = Some f
         else \<exists>f' rest. Hci_SendCmdCmplEvt opcode param f = Some f' \<and> hf_ok f'
                \<and> hf_view f' = hf_view f @ [UINT16_TO_BSTREAM (of_nat (6 + length param))
                     @ [4, 0x0E, of_nat (3 + length param), 1] @ UINT16_TO_BSTREAM opcode @ param @ rest]"
proof (cases "length (hf_view f) \<ge> unat (hf_num f)")
  case True
  then show ?thesis using hci_fifo_full_no_wrap [OF assms(2)] by (simp add: Hci_SendCmdCmplEvt_def)
next
  case False
  then have n: "\<not> hci_fifo_full f" using hci_fifo_full_no_wrap [OF assms(2)] by simp
  have "length (cmd_cmpl_evt opcode param) \<le> unat (hf_size f)" using assms(3) by (simp add: cmd_cmpl_evt_length)
  with hf_put_ok [OF assms(1), of "cmd_cmpl_evt opcode param"] False n show ?thesis
    by (auto simp: Hci_SendCmdCmplEvt_def cmd_cmpl_evt_def HCI_EVT_HEAD_LEN_def HCI_TR_TYPE_EVENT_def)
qed

definition hci_fifo_example :: hci_fifo_t where
  "hci_fifo_example = \<lparr>hf_size = 16, hf_num = 2, hf_mask = 1, hf_wptr = 0, hf_rptr = 0, hf_p = replicate 32 0\<rparr>"

lemma hci_fifo_example_ok: "hf_ok hci_fifo_example" "hf_view hci_fifo_example = []"
  by (auto simp: hci_fifo_example_def hf_ok_def pf_ok_def hf_view_empty_iff intro: exI [of _ 1])

theorem hci_cmd_cmpl_evt_queued_witness:
  "\<exists>f' rest. Hci_SendCmdCmplEvt 0x1003 [0] hci_fifo_example = Some f'
     \<and> hf_view f' = [[7, 0, 4, 0x0E, 4, 1, 3, 0x10, 0] @ rest]"
proof -
  have e: "hf_rptr hci_fifo_example \<le> hf_wptr hci_fifo_example" "8 + length [0 :: u8] \<le> unat (hf_size hci_fifo_example)"
    "unat (hf_num hci_fifo_example) = 2" by (simp_all add: hci_fifo_example_def)
  show ?thesis using hci_cmd_cmpl_evt_queued [OF hci_fifo_example_ok(1) e(1,2), of "0x1003"]
    by (auto simp: hci_fifo_example_ok(2) e(3) UINT16_TO_BSTREAM_def)
qed

text \<open>
  The full test subtracts the two 8-bit indices as integers.  Once the write index has wrapped
  past the read index it never reports a full FIFO: a further event overwrites the oldest queued
  packet and the FIFO then counts more packets than it has slots.
\<close>

theorem hci_cmd_cmpl_evt_overrun:
  assumes "hf_ok f" "length (hf_view f) = unat (hf_num f)" "hf_wptr f < hf_rptr f"
    and "8 + length param \<le> unat (hf_size f)"
  shows "\<exists>f'. Hci_SendCmdCmplEvt opcode param f = Some f' \<and> length (hf_view f') = unat (hf_num f) + 1
           \<and> hf_slot f (hf_wptr f) = hf_slot f (hf_rptr f)"
proof -
  have pf: "pf_ok (unat (hf_size f)) (unat (hf_num f)) (hf_p f) (hf_rptr f) (hf_wptr f)"
    using assms(1) by (simp add: hf_ok_def)
  note n = pf_num_dvd [OF pf]
  have w: "unat (hf_wptr f) < unat (hf_rptr f)" using assms(3) by (simp add: word_less_nat_alt)
  have nf: "\<not> hci_fifo_full f" unfolding hci_fifo_full_def using w by linarith
  have "(unat (hf_wptr f) mod unat (hf_num f)) * unat (hf_size f) + length (cmd_cmpl_evt opcode param) \<le> length (hf_p f)"
    using n pf assms(4) by (intro slot_fits [of _ "unat (hf_num f)"]) (simp_all add: pf_ok_def cmd_cmpl_evt_length)
  then obtain p' where p': "wr_range (hf_p f) (hf_slot f (hf_wptr f)) (cmd_cmpl_evt opcode param) = Some p'"
    by (auto simp: wr_range_def hf_slot_eq [OF assms(1)])
  have cnt: "unat (hf_wptr f - hf_rptr f) = unat (hf_num f)" using assms(2) by (simp add: hf_view_length)
  have "hf_wptr f + 1 - hf_rptr f = (hf_wptr f - hf_rptr f) + 1" by simp
  moreover have "unat ((hf_wptr f - hf_rptr f) + 1) = unat (hf_num f) + 1"
    using n cnt unat_word_add_no_wrap [of "hf_wptr f - hf_rptr f" 1] by simp
  ultimately have c1: "unat (hf_wptr f + 1 - hf_rptr f) = unat (hf_num f) + 1" by metis
  have "unat (hf_rptr f + (hf_wptr f - hf_rptr f)) = (unat (hf_rptr f) + unat (hf_wptr f - hf_rptr f)) mod 256"
    by (simp only: unat_word_ariths(1) len_of_numeral_defs) simp
  then have "unat (hf_wptr f) = (unat (hf_rptr f) + unat (hf_num f)) mod 256" using cnt by simp
  then have "unat (hf_wptr f) mod unat (hf_num f) = unat (hf_rptr f) mod unat (hf_num f)"
    using n by (metis mod_add_self2 mod_mod_cancel)
  then show ?thesis using nf p' c1
    by (simp add: Hci_SendCmdCmplEvt_def hf_put_def hf_view_length hf_slot_eq [OF assms(1)])
qed

theorem hci_cmd_cmpl_evt_overrun_witness:
  "\<exists>f'. Hci_SendCmdCmplEvt 0x1003 [0] (hci_fifo_example\<lparr>hf_wptr := 1, hf_rptr := 255\<rparr>) = Some f'
     \<and> length (hf_view f') = 3"
proof -
  have k: "\<exists>k < 8. (2 :: nat) ^ k = 2" by (intro exI [of _ 1]) simp
  show ?thesis using hci_cmd_cmpl_evt_overrun [of "hci_fifo_example\<lparr>hf_wptr := 1, hf_rptr := 255\<rparr>" "[0]" "0x1003"] k
    by (auto simp: hci_fifo_example_def hf_ok_def pf_ok_def hf_view_length)
qed

end
