(* ===== verification/Crc.thy ===== *)
theory Crc
  imports Telink_Prelude
begin

unbundle bit_operations_syntax

text \<open>
  The two reflected cyclic redundancy checks of the HCI transport: the CCITT CRC-16 of the
  H5 packets (\<^verbatim>\<open>HCI_H5_CcittCrc16Calc\<close>, \<^verbatim>\<open>hci_h5.c\<close>) and the CRC-32 of the firmware
  download (\<^verbatim>\<open>DFU_Crc32Calc\<close>, \<^verbatim>\<open>hci_dfu.c\<close>).  Both are a fold of a one-bit
  shift-register step over the bytes.  The locale \<open>reflected_crc\<close> states what the step must
  satisfy and proves, once, that appending the register to the message gives residue zero
  and that two messages which differ in one byte never share a checksum.
\<close>

section \<open>The two checksum routines\<close>

text \<open>One iteration of the inner loop of \<^verbatim>\<open>HCI_H5_CcittCrc16Calc\<close>.\<close>

definition crc16_shift :: "u16 \<Rightarrow> u16" where
  "crc16_shift crc = (if crc AND 1 \<noteq> 0 then drop_bit 1 crc XOR 0x8408 else drop_bit 1 crc)"

fun HCI_H5_CcittCrc16Calc :: "u16 \<Rightarrow> bytes \<Rightarrow> u16" where
  "HCI_H5_CcittCrc16Calc crc [] = crc"
| "HCI_H5_CcittCrc16Calc crc (b # bs) =
     HCI_H5_CcittCrc16Calc ((crc16_shift ^^ 8) (crc XOR ucast b)) bs"

text \<open>One iteration of the inner loop of \<^verbatim>\<open>DFU_Crc32Calc\<close>.\<close>

definition crc32_shift :: "u32 \<Rightarrow> u32" where
  "crc32_shift crc = (if crc AND 1 \<noteq> 0 then drop_bit 1 crc XOR 0xEDB88320 else drop_bit 1 crc)"

fun DFU_Crc32Calc :: "u32 \<Rightarrow> bytes \<Rightarrow> u32" where
  "DFU_Crc32Calc crc [] = crc"
| "DFU_Crc32Calc crc (b # bs) = DFU_Crc32Calc ((crc32_shift ^^ 8) (crc XOR ucast b)) bs"

section \<open>The contract of a reflected CRC\<close>

locale reflected_crc =
  fixes shift :: "'a::len word \<Rightarrow> 'a word"
    and calc :: "'a word \<Rightarrow> bytes \<Rightarrow> 'a word"
  assumes width: "8 \<le> LENGTH('a)"
    and shift_even: "\<not> bit c 0 \<Longrightarrow> shift c = drop_bit 1 c"
    and shift_inj: "shift c = shift d \<Longrightarrow> c = d"
    and calc_Nil: "calc c [] = c"
    and calc_Cons: "calc c (b # bs) = calc ((shift ^^ 8) (c XOR ucast b)) bs"
begin

lemma shift_pow_low_zero:
  "take_bit k c = 0 \<Longrightarrow> (shift ^^ k) c = drop_bit k c"
proof (induction k arbitrary: c)
  case 0
  then show ?case by simp
next
  case (Suc k)
  have b0: "\<not> bit c 0"
    using arg_cong [OF Suc.prems, of "\<lambda>w. bit w 0"] by (simp add: bit_simps)
  have "take_bit k (drop_bit 1 c) = 0"
  proof (rule bit_word_eqI)
    fix n
    assume "n < LENGTH('a)"
    show "bit (take_bit k (drop_bit 1 c)) n = bit 0 n"
      using arg_cong [OF Suc.prems, of "\<lambda>w. bit w (Suc n)"] by (auto simp: bit_simps)
  qed
  then have "(shift ^^ k) (drop_bit 1 c) = drop_bit k (drop_bit 1 c)" by (rule Suc.IH)
  then show ?case
    using b0 by (simp add: funpow_Suc_right shift_even drop_bit_drop_bit del: funpow.simps)
qed

lemma shift_byte_self: "(shift ^^ 8) (c XOR ucast (ucast c :: u8)) = drop_bit 8 c"
proof -
  have "take_bit 8 (c XOR ucast (ucast c :: u8)) = 0"
    by (rule bit_word_eqI) (auto simp: bit_simps)
  then have "(shift ^^ 8) (c XOR ucast (ucast c :: u8)) = drop_bit 8 (c XOR ucast (ucast c :: u8))"
    by (rule shift_pow_low_zero)
  also have "\<dots> = drop_bit 8 c"
    by (rule bit_word_eqI) (auto simp: bit_simps)
  finally show ?thesis .
qed

lemma shift_pow_inj: "(shift ^^ k) c = (shift ^^ k) d \<Longrightarrow> c = d"
  by (induction k) (auto dest: shift_inj)

lemma calc_append: "calc c (xs @ ys) = calc (calc c xs) ys"
  by (induction xs arbitrary: c) (simp_all add: calc_Nil calc_Cons)

text \<open>Feeding the register its own bytes, least significant first, shifts it out.\<close>

lemma calc_own_bytes:
  "calc c (map (\<lambda>i. ucast (drop_bit (8 * i) c)) [0..<n]) = drop_bit (8 * n) c"
proof (induction n)
  case 0
  then show ?case by (simp add: calc_Nil)
next
  case (Suc n)
  let ?d = "drop_bit (8 * n) c"
  have "calc c (map (\<lambda>i. ucast (drop_bit (8 * i) c)) [0..<Suc n]) = calc ?d [ucast ?d]"
    using Suc.IH by (simp add: calc_append)
  also have "\<dots> = drop_bit 8 ?d" by (simp add: calc_Cons calc_Nil shift_byte_self)
  also have "\<dots> = drop_bit (8 * Suc n) c" by (simp add: drop_bit_drop_bit)
  finally show ?case .
qed

lemma residue_zero:
  "LENGTH('a) \<le> 8 * n \<Longrightarrow>
     calc c (xs @ map (\<lambda>i. ucast (drop_bit (8 * i) (calc c xs))) [0..<n]) = 0"
  unfolding calc_append calc_own_bytes
  by (rule bit_word_eqI) (auto simp: bit_simps dest: bit_imp_le_length)

lemma calc_state_inj: "calc c xs = calc d xs \<Longrightarrow> c = d"
proof (induction xs arbitrary: c d)
  case Nil
  then show ?case by (simp add: calc_Nil)
next
  case (Cons b bs)
  from Cons.prems have "calc ((shift ^^ 8) (c XOR ucast b)) bs = calc ((shift ^^ 8) (d XOR ucast b)) bs"
    by (simp add: calc_Cons)
  then have "(shift ^^ 8) (c XOR ucast b) = (shift ^^ 8) (d XOR ucast b)" by (rule Cons.IH)
  then have "c XOR ucast b = d XOR ucast b" by (rule shift_pow_inj)
  then show ?case by simp
qed

lemma byte_error_detected:
  assumes "b \<noteq> b'"
  shows "calc c (xs @ b # ys) \<noteq> calc c (xs @ b' # ys)"
proof
  assume "calc c (xs @ b # ys) = calc c (xs @ b' # ys)"
  then have "calc ((shift ^^ 8) (calc c xs XOR ucast b)) ys = calc ((shift ^^ 8) (calc c xs XOR ucast b')) ys"
    by (simp add: calc_append calc_Cons)
  then have "(shift ^^ 8) (calc c xs XOR ucast b) = (shift ^^ 8) (calc c xs XOR ucast b')"
    by (rule calc_state_inj)
  then have "calc c xs XOR ucast b = calc c xs XOR ucast b'" by (rule shift_pow_inj)
  then have eq: "(ucast b :: 'a word) = ucast b'" by simp
  have "b = b'"
  proof (rule bit_word_eqI)
    fix n assume "n < LENGTH(8)"
    then show "bit b n = bit b' n"
      using arg_cong [OF eq, of "\<lambda>w. bit w n"] width by (auto simp: bit_simps)
  qed
  with assms show False by simp
qed

end

section \<open>The routines meet the contract\<close>

lemma and_1_eq_bit0: "((c::'a::len word) AND 1 \<noteq> 0) = bit c 0"
  by (simp add: and_one_eq bit_0 odd_iff_mod_2_eq_one)

lemma crc16_shift_alt: "crc16_shift c = drop_bit 1 c XOR (if bit c 0 then 0x8408 else 0)"
  by (simp only: crc16_shift_def and_1_eq_bit0) simp

lemma crc32_shift_alt: "crc32_shift c = drop_bit 1 c XOR (if bit c 0 then 0xEDB88320 else 0)"
  by (simp only: crc32_shift_def and_1_eq_bit0) simp

text \<open>
  A shift whose feedback polynomial has its top bit set is injective: the top bit of the
  result is the bit shifted out.
\<close>

lemma poly_shift_inj:
  fixes p :: "'a::len word"
  assumes top: "bit p (LENGTH('a) - 1)"
    and eq: "drop_bit 1 c XOR (if bit c 0 then p else 0) = drop_bit 1 d XOR (if bit d 0 then p else 0)"
  shows "c = d"
proof -
  have b0: "bit c 0 = bit d 0"
    using arg_cong [OF eq, of "\<lambda>w. bit w (LENGTH('a) - 1)"] top
    by (auto simp: bit_simps dest: bit_imp_le_length split: if_splits)
  have "drop_bit 1 c = drop_bit 1 d" using eq unfolding b0 word_xor_right_cancel .
  then have "bit (drop_bit 1 c) n = bit (drop_bit 1 d) n" for n by simp
  then have rest: "bit c (Suc n) = bit d (Suc n)" for n by (simp add: bit_drop_bit_eq)
  show ?thesis
  proof (rule bit_word_eqI)
    fix n show "bit c n = bit d n" using b0 rest by (cases n) simp_all
  qed
qed

interpretation h5_crc: reflected_crc crc16_shift HCI_H5_CcittCrc16Calc
proof unfold_locales
  show "\<not> bit c 0 \<Longrightarrow> crc16_shift c = drop_bit 1 c" for c by (simp add: crc16_shift_alt)
  show "crc16_shift c = crc16_shift d \<Longrightarrow> c = d" for c d
    unfolding crc16_shift_alt by (erule poly_shift_inj [rotated]) simp
qed simp_all

interpretation dfu_crc: reflected_crc crc32_shift DFU_Crc32Calc
proof unfold_locales
  show "\<not> bit c 0 \<Longrightarrow> crc32_shift c = drop_bit 1 c" for c by (simp add: crc32_shift_alt)
  show "crc32_shift c = crc32_shift d \<Longrightarrow> c = d" for c d
    unfolding crc32_shift_alt by (erule poly_shift_inj [rotated]) simp
qed simp_all

lemma UINT32_TO_BSTREAM_map:
  "UINT32_TO_BSTREAM c = map (\<lambda>i. ucast (drop_bit (8 * i) c)) [0..<4]"
  by (simp add: UINT32_TO_BSTREAM_def upt_rec)

lemma dfu_crc_residue: "DFU_Crc32Calc c (xs @ UINT32_TO_BSTREAM (DFU_Crc32Calc c xs)) = 0"
  using dfu_crc.residue_zero [of 4 c xs] by (simp add: UINT32_TO_BSTREAM_map del: upt_conv_Cons)

section \<open>Properties\<close>

text \<open>Corruption of any one byte of an H5 packet, wherever it is and whatever the initial
  register value, changes the packet's CRC-16.\<close>

theorem h5_crc_detects_byte_error:
  "b \<noteq> b' \<Longrightarrow> HCI_H5_CcittCrc16Calc crc (xs @ b # ys) \<noteq> HCI_H5_CcittCrc16Calc crc (xs @ b' # ys)"
  by (rule h5_crc.byte_error_detected)

theorem h5_crc_detects_byte_error_witness:
  "HCI_H5_CcittCrc16Calc 0xFFFF ([1, 2] @ 3 # [4]) \<noteq> HCI_H5_CcittCrc16Calc 0xFFFF ([1, 2] @ 7 # [4])"
  by (rule h5_crc_detects_byte_error) simp

text \<open>A firmware data block that carries the little-endian CRC-32 of its payload as its
  last four bytes passes the receiver's check (residue zero), and a block in which one byte was
  changed afterwards does not.\<close>

theorem dfu_block_check:
  "DFU_Crc32Calc crc (xs @ UINT32_TO_BSTREAM (DFU_Crc32Calc crc xs)) = 0
   \<and> (xs @ UINT32_TO_BSTREAM (DFU_Crc32Calc crc xs) = us @ b # vs \<and> b' \<noteq> b
        \<longrightarrow> DFU_Crc32Calc crc (us @ b' # vs) \<noteq> 0)"
  using dfu_crc.byte_error_detected [of b' b crc us vs] dfu_crc_residue [of crc xs] by auto

theorem dfu_block_check_witness:
  "DFU_Crc32Calc 0xFFFFFFFF ([10, 20] @ UINT32_TO_BSTREAM (DFU_Crc32Calc 0xFFFFFFFF [10, 20])) = 0
   \<and> DFU_Crc32Calc 0xFFFFFFFF ([10] @ 21 # UINT32_TO_BSTREAM (DFU_Crc32Calc 0xFFFFFFFF [10, 20])) \<noteq> 0"
  using dfu_block_check [of "0xFFFFFFFF" "[10, 20]" "[10]" 20
    "UINT32_TO_BSTREAM (DFU_Crc32Calc 0xFFFFFFFF [10, 20])" 21] by simp

end
