(* ===== verification/Hci_H5.thy ===== *)
theory Hci_H5
  imports Hci_Slip Hci_Fifo Crc
begin

unbundle bit_operations_syntax

text \<open>
  The three-wire (H5) protocol of \<^verbatim>\<open>hci_transport/hci_h5.c\<close>: packet headers, the link establishment
  state machine, sequence and acknowledge numbers, resending and the main loop.

  \<open>h5_state\<close> joins the control block with the objects it points to: the two HCI FIFOs, the transmit
  buffer and the SLIP layer below.  \<open>wire\<close> collects the frames the UART accepted, \<open>hciResets\<close> counts
  the calls of \<^verbatim>\<open>blc_hci_reset\<close>.  The UART answers each send call: \<open>env n\<close> is what it says to the
  \<open>n\<close>-th one.  Operations are \<open>None\<close> when they would access memory outside a buffer.  The received
  packet is the SLIP decode buffer together with the number of bytes in it, as in the code.
\<close>

section \<open>Data\<close>

datatype h5_link_state = HCI_H5_LINK_STATE_IDLE | HCI_H5_LINK_STATE_INIT | HCI_H5_LINK_STATE_ACTIVE

text \<open>The order of the enumeration is the order in which a link comes up.\<close>

fun link_rank :: "h5_link_state \<Rightarrow> nat" where
  "link_rank HCI_H5_LINK_STATE_IDLE = 0"
| "link_rank HCI_H5_LINK_STATE_INIT = 1"
| "link_rank HCI_H5_LINK_STATE_ACTIVE = 2"

instantiation h5_link_state :: linorder
begin

definition less_eq_h5_link_state :: "h5_link_state \<Rightarrow> h5_link_state \<Rightarrow> bool" where
  "less_eq_h5_link_state a b = (link_rank a \<le> link_rank b)"

definition less_h5_link_state :: "h5_link_state \<Rightarrow> h5_link_state \<Rightarrow> bool" where
  "less_h5_link_state a b = (link_rank a < link_rank b)"

instance
proof
  fix x y :: h5_link_state
  show "x \<le> y \<Longrightarrow> y \<le> x \<Longrightarrow> x = y" by (cases x; cases y) (simp_all add: less_eq_h5_link_state_def)
qed (auto simp: less_eq_h5_link_state_def less_h5_link_state_def)

end

definition HCI_H5_PKT_TYPE_ACK :: u8 where "HCI_H5_PKT_TYPE_ACK = 0"
definition HCI_H5_PKT_TYPE_CMD :: u8 where "HCI_H5_PKT_TYPE_CMD = 1"
definition HCI_H5_PKT_TYPE_ACL :: u8 where "HCI_H5_PKT_TYPE_ACL = 2"
definition HCI_H5_PKT_TYPE_SCO :: u8 where "HCI_H5_PKT_TYPE_SCO = 3"
definition HCI_H5_PKT_TYPE_EVT :: u8 where "HCI_H5_PKT_TYPE_EVT = 4"
definition HCI_H5_PKT_TYPE_LINK_CTRL :: u8 where "HCI_H5_PKT_TYPE_LINK_CTRL = 15"

definition HCI_H5_MSG_SYNC :: u16 where "HCI_H5_MSG_SYNC = 0x7E01"
definition HCI_H5_MSG_SYNC_RSP :: u16 where "HCI_H5_MSG_SYNC_RSP = 0x7D02"
definition HCI_H5_MSG_CONFIG :: u16 where "HCI_H5_MSG_CONFIG = 0xFC03"
definition HCI_H5_MSG_CONFIG_RSP :: u16 where "HCI_H5_MSG_CONFIG_RSP = 0x7B04"

definition H5_PURE_ACK_TO :: u32 where "H5_PURE_ACK_TO = 10"
definition H5_RESEND_TO :: u32 where "H5_RESEND_TO = 50"

definition HCI_H5_TX_BUF_SIZE :: nat where
  "HCI_H5_TX_BUF_SIZE = MEM_SIZE_ALIGN4 (HCI_H5_HEAD_LEN + HCI_TR_TX_BUF_SIZE + HCI_H5_CRC_LEN)"

record HciH5Config_t =
  slidWinSize :: u8
  oofFlowCtrl :: u8
  dataIntgrtChkType :: u8
  version :: u8

text \<open>The local configuration: window 1, no flow control, no integrity check, version 1.0.\<close>

definition hciH5Config :: HciH5Config_t where
  "hciH5Config = \<lparr>slidWinSize = 1, oofFlowCtrl = 0, dataIntgrtChkType = 0, version = 0\<rparr>"

record HciH5Head_t =
  seqNum :: u8
  ackNum :: u8
  hd_crc :: u8
  reliable :: u8
  pktType :: u8
  headCheckSum :: u8
  payloadLen :: u16

record h5_state =
  pHciRxFifo :: hci_fifo_t
  pHciTxFifo :: hci_fifo_t
  h5TxBuf :: bytes
  h5_config :: HciH5Config_t
  h5_tick :: u32
  linkState :: h5_link_state
  rxSlidWinSize :: u8
  txSlidWinSize :: u8
  txSeq :: u8
  txAck :: u8
  rxAck :: u8
  isReliable :: bool
  txTick :: u32
  rxTick :: u32
  resendTick :: u32
  slip :: HciH5SlipCb_t
  sends :: nat
  wire :: "bytes list"
  hciResets :: nat

type_synonym uart = "nat \<Rightarrow> uart_env"

section \<open>Initialization\<close>

text \<open>The packet handler registered with the SLIP layer has number 1.\<close>

definition HCI_H5_Init :: "u32 \<Rightarrow> hci_fifo_t \<Rightarrow> hci_fifo_t \<Rightarrow> h5_state \<Rightarrow> h5_state" where
  "HCI_H5_Init now rxf txf s =
     s\<lparr>pHciRxFifo := rxf, pHciTxFifo := txf, linkState := HCI_H5_LINK_STATE_IDLE, rxSlidWinSize := 0,
       txSlidWinSize := 0, txSeq := 0, txAck := 0, rxAck := 0, h5_tick := now OR 1, isReliable := True,
       txTick := 0, rxTick := 0, resendTick := 0,
       slip := HCI_SLip_SetFlowCtrlEnable False (HCI_Slip_RegisterPktHandler (Some 1) (slip s))\<rparr>"

definition HCI_H5_Reset :: "u32 \<Rightarrow> h5_state \<Rightarrow> h5_state" where
  "HCI_H5_Reset now s =
     s\<lparr>rxSlidWinSize := 0, txSlidWinSize := 0, txSeq := 0, txAck := 0, rxAck := 0, h5_tick := now OR 1,
       txTick := 0, rxTick := 0, resendTick := 0,
       pHciRxFifo := (pHciRxFifo s)\<lparr>hf_wptr := 0, hf_rptr := 0\<rparr>,
       pHciTxFifo := (pHciTxFifo s)\<lparr>hf_wptr := 0, hf_rptr := 0\<rparr>,
       slip := HCI_SLip_SetFlowCtrlEnable False (slip s)\<rparr>"

section \<open>Headers\<close>

definition HCI_H5_CheckSumCalc :: "bytes \<Rightarrow> u8" where
  "HCI_H5_CheckSumCalc p = NOT (ucast ((ucast (p ! 0) + ucast (p ! 1) + ucast (p ! 2) :: u32) AND 0xff))"

definition HCI_H5_IsCheckSumValid :: "bytes \<Rightarrow> bool" where
  "HCI_H5_IsCheckSumValid p = ((\<Sum>b \<leftarrow> p. ucast b :: u32) mod 256 = 0xFF)"

definition HCI_H5_PackHeader :: "HciH5Head_t \<Rightarrow> bytes" where
  "HCI_H5_PackHeader h =
     (let tmp = (ucast (seqNum h) OR push_bit 3 (ucast (ackNum h)) OR push_bit 6 (ucast (hd_crc h))
                 OR push_bit 7 (ucast (reliable h)) :: u16);
          tmp2 = (ucast (ucast (pktType h) OR (push_bit 4 (ucast (payloadLen h)) AND 0x0fff) :: u32) :: u16);
          b = [ucast tmp] @ UINT16_TO_BSTREAM tmp2
      in b @ [HCI_H5_CheckSumCalc b])"

definition HCI_H5_UnpackHeader :: "bytes \<Rightarrow> HciH5Head_t option" where
  "HCI_H5_UnpackHeader p =
     do { head \<leftarrow> BYTES_TO_UINT32 p 0;
          Some \<lparr>seqNum = ucast (head AND 0x07), ackNum = ucast (drop_bit 3 head AND 0x07),
                hd_crc = ucast (drop_bit 6 head AND 0x01), reliable = ucast (drop_bit 7 head AND 0x01),
                pktType = ucast (drop_bit 8 head AND 0x0F), headCheckSum = ucast (drop_bit 24 head AND 0xFF),
                payloadLen = ucast (drop_bit 12 head AND 0x0FFF)\<rparr> }"

section \<open>Sending\<close>

definition HCI_H5_IsReliablePacket :: "u8 \<Rightarrow> bool" where
  "HCI_H5_IsReliablePacket ty \<longleftrightarrow>
     ty = HCI_H5_PKT_TYPE_CMD \<or> ty = HCI_H5_PKT_TYPE_ACL \<or> ty = HCI_H5_PKT_TYPE_EVT"

text \<open>The call of \<^verbatim>\<open>HCI_Slip_Send\<close> on the transmit buffer.\<close>

definition h5_slip_send :: "uart \<Rightarrow> bytes \<Rightarrow> h5_state \<Rightarrow> (bool \<times> h5_state) option" where
  "h5_slip_send env pkt s =
     do { (res, out, cb) \<leftarrow> HCI_Slip_Send (env (sends s)) pkt (slip s);
          Some (res, s\<lparr>slip := cb, sends := sends s + 1,
                       wire := wire s @ (case out of Some fr \<Rightarrow> if res then [fr] else [] | None \<Rightarrow> [])\<rparr>) }"

definition h5_send_head :: "u8 \<Rightarrow> nat \<Rightarrow> h5_state \<Rightarrow> HciH5Head_t" where
  "h5_send_head ty len s =
     \<lparr>seqNum = (if HCI_H5_IsReliablePacket ty then txSeq s else 0), ackNum = txAck s,
      hd_crc = (if ty \<noteq> HCI_H5_PKT_TYPE_ACK \<and> ty \<noteq> HCI_H5_PKT_TYPE_LINK_CTRL
                then dataIntgrtChkType (h5_config s) else 0),
      reliable = (if HCI_H5_IsReliablePacket ty then 1 else 0), pktType = ty, headCheckSum = 0,
      payloadLen = of_nat len\<rparr>"

text \<open>\<^verbatim>\<open>pPacket\<close> and \<^verbatim>\<open>len\<close> are the list of payload bytes, empty for a null pointer.\<close>

definition HCI_H5_Send :: "uart \<Rightarrow> u8 \<Rightarrow> bytes \<Rightarrow> h5_state \<Rightarrow> (bool \<times> h5_state) option" where
  "HCI_H5_Send env h5Type pkt s =
     (let len = length pkt;
          h = h5_send_head h5Type len s;
          s1 = (if HCI_H5_IsReliablePacket h5Type then s\<lparr>txSeq := (txSeq s + 1) mod 8\<rparr> else s)
      in do { b1 \<leftarrow> wr_range (h5TxBuf s1) 0 (HCI_H5_PackHeader h);
              b2 \<leftarrow> (if pkt = [] then Some b1 else wr_range b1 HCI_H5_HEAD_LEN pkt);
              b3 \<leftarrow> (if hd_crc h \<noteq> 0
                     then do { d \<leftarrow> rd_range b2 0 (HCI_H5_HEAD_LEN + len);
                               let crc = HCI_H5_CcittCrc16Calc 0xFFFF d in
                               wr_range b2 (HCI_H5_HEAD_LEN + len) [ucast (drop_bit 8 crc AND 0xFF), ucast (crc AND 0xFF)] }
                     else Some b2);
              out \<leftarrow> rd_range b3 0 (unat (of_nat (HCI_H5_HEAD_LEN + len + (if hd_crc h \<noteq> 0 then HCI_H5_CRC_LEN else 0)) :: u16));
              h5_slip_send env out (s1\<lparr>h5TxBuf := b3\<rparr>) })"

definition HCI_H5_SendData :: "uart \<Rightarrow> u32 \<Rightarrow> h5_state \<Rightarrow> h5_state option" where
  "HCI_H5_SendData env now s =
     (let f = pHciTxFifo s in
      if txSlidWinSize s \<ge> slidWinSize (h5_config s) then Some s
      else if int (unat (hf_wptr f)) = int (unat (hf_rptr f)) + int (unat (txSlidWinSize s)) then Some s
      else
        (let off = hf_slot f (hf_rptr f + txSlidWinSize s);
             s1 = s\<lparr>txSlidWinSize := txSlidWinSize s + 1\<rparr>
         in do { len \<leftarrow> BYTES_TO_UINT16 (hf_p f) off;
                 hciType \<leftarrow> rd8 (hf_p f) (off + 2);
                 if len = 0 then None
                 else do { pkt \<leftarrow> rd_range (hf_p f) (off + 3) (unat len - 1);
                           (res, s2) \<leftarrow> HCI_H5_Send env hciType pkt s1;
                           if \<not> res
                           then Some (s2\<lparr>txSeq := (txSeq s2 - 1) AND 0x07,
                                         txSlidWinSize := txSlidWinSize s2 - 1, txTick := 0\<rparr>)
                           else Some (s2\<lparr>rxSlidWinSize := 0, txTick := now OR 1, rxTick := 0\<rparr>) } }))"

definition HCI_H5_SendPureAck :: "uart \<Rightarrow> h5_state \<Rightarrow> (bool \<times> h5_state) option" where
  "HCI_H5_SendPureAck env s = HCI_H5_Send env HCI_H5_PKT_TYPE_ACK [] s"

definition HCI_H5_SendSync :: "uart \<Rightarrow> h5_state \<Rightarrow> h5_state option" where
  "HCI_H5_SendSync env s = map_option snd (HCI_H5_Send env HCI_H5_PKT_TYPE_LINK_CTRL (UINT16_TO_BSTREAM HCI_H5_MSG_SYNC) s)"

definition HCI_H5_SendSyncRsp :: "uart \<Rightarrow> h5_state \<Rightarrow> h5_state option" where
  "HCI_H5_SendSyncRsp env s =
     map_option snd (HCI_H5_Send env HCI_H5_PKT_TYPE_LINK_CTRL (UINT16_TO_BSTREAM HCI_H5_MSG_SYNC_RSP) s)"

definition h5_config_byte :: u8 where
  "h5_config_byte = slidWinSize hciH5Config OR push_bit 3 (oofFlowCtrl hciH5Config)
     OR push_bit 4 (dataIntgrtChkType hciH5Config) OR push_bit 5 (version hciH5Config)"

definition HCI_H5_SendConfig :: "uart \<Rightarrow> h5_state \<Rightarrow> h5_state option" where
  "HCI_H5_SendConfig env s =
     map_option snd (HCI_H5_Send env HCI_H5_PKT_TYPE_LINK_CTRL (UINT16_TO_BSTREAM HCI_H5_MSG_CONFIG @ [h5_config_byte]) s)"

definition HCI_H5_SendConfigRsp :: "uart \<Rightarrow> h5_state \<Rightarrow> h5_state option" where
  "HCI_H5_SendConfigRsp env s =
     map_option snd (HCI_H5_Send env HCI_H5_PKT_TYPE_LINK_CTRL (UINT16_TO_BSTREAM HCI_H5_MSG_CONFIG_RSP @ [h5_config_byte]) s)"

section \<open>Link establishment\<close>

definition h5_negotiate :: "u8 \<Rightarrow> HciH5Config_t" where
  "h5_negotiate cfg =
     \<lparr>slidWinSize = min (slidWinSize hciH5Config) (cfg AND 0x07),
      oofFlowCtrl = oofFlowCtrl hciH5Config AND (drop_bit 3 cfg AND 0x01),
      dataIntgrtChkType = dataIntgrtChkType hciH5Config AND (drop_bit 4 cfg AND 0x01),
      version = min (version hciH5Config) (drop_bit 5 cfg AND 0x07)\<rparr>"

definition HCI_H5_DecodeLinkPdu :: "uart \<Rightarrow> u32 \<Rightarrow> bytes \<Rightarrow> h5_state \<Rightarrow> h5_state option" where
  "HCI_H5_DecodeLinkPdu env now buf s =
     do { msg \<leftarrow> BYTES_TO_UINT16 buf HCI_H5_HEAD_LEN;
          cfg \<leftarrow> rd8 buf (HCI_H5_HEAD_LEN + 2);
          case linkState s of
            HCI_H5_LINK_STATE_IDLE \<Rightarrow>
              (if msg = HCI_H5_MSG_SYNC then HCI_H5_SendSyncRsp env s
               else if msg = HCI_H5_MSG_SYNC_RSP
               then HCI_H5_SendConfig env (s\<lparr>linkState := HCI_H5_LINK_STATE_INIT\<rparr>)
               else HCI_H5_SendSync env s)
          | HCI_H5_LINK_STATE_INIT \<Rightarrow>
              (if msg = HCI_H5_MSG_SYNC then HCI_H5_SendSyncRsp env s
               else if msg = HCI_H5_MSG_CONFIG then HCI_H5_SendConfigRsp env s
               else if msg = HCI_H5_MSG_CONFIG_RSP
               then Some ((HCI_H5_Reset now (s\<lparr>linkState := HCI_H5_LINK_STATE_ACTIVE\<rparr>))\<lparr>h5_config := h5_negotiate cfg\<rparr>)
               else Some s)
          | HCI_H5_LINK_STATE_ACTIVE \<Rightarrow>
              (if msg = HCI_H5_MSG_CONFIG then HCI_H5_SendConfigRsp env s
               else if msg = HCI_H5_MSG_SYNC
               then HCI_H5_SendSyncRsp env
                      ((HCI_H5_Reset now (s\<lparr>linkState := HCI_H5_LINK_STATE_IDLE\<rparr>))\<lparr>hciResets := hciResets s + 1\<rparr>)
               else Some s) }"

section \<open>Data packets\<close>

definition HCI_H5_PackHciPdu :: "u8 \<Rightarrow> bytes \<Rightarrow> h5_state \<Rightarrow> h5_state option" where
  "HCI_H5_PackHciPdu hciType payload s =
     do { f \<leftarrow> hf_put (pHciRxFifo s) (hciType # payload); Some (s\<lparr>pHciRxFifo := f\<rparr>) }"

definition HCI_H5_ResendStart :: "uart \<Rightarrow> u32 \<Rightarrow> h5_state \<Rightarrow> h5_state option" where
  "HCI_H5_ResendStart env now s = HCI_H5_SendData env now (s\<lparr>txSeq := rxAck s, txSlidWinSize := 0\<rparr>)"

definition HCI_H5_ReSendCheck :: "u32 \<Rightarrow> h5_state \<Rightarrow> h5_state" where
  "HCI_H5_ReSendCheck now s =
     (if rxAck s = txSeq s
      then s\<lparr>pHciTxFifo := (pHciTxFifo s)\<lparr>hf_rptr := hf_rptr (pHciTxFifo s) + txSlidWinSize s\<rparr>,
             txSlidWinSize := 0, txTick := 0, resendTick := 0\<rparr>
      else s\<lparr>txTick := 0, resendTick := (if resendTick s = 0 then now OR 1 else resendTick s)\<rparr>)"

text \<open>The integrity check of a received data packet of \<open>len\<close> bytes.\<close>

definition h5_crc_ok :: "bytes \<Rightarrow> nat \<Rightarrow> bool option" where
  "h5_crc_ok buf len =
     (let pLen = unat (of_nat len - 2 :: u16) in
      do { d \<leftarrow> rd_range buf 0 pLen;
           lo \<leftarrow> rd8 buf (pLen + 1);
           hi \<leftarrow> rd8 buf pLen;
           let crc = HCI_H5_CcittCrc16Calc 0x0000 d in
           Some (crc AND 0xff = ucast lo \<and> drop_bit 8 crc AND 0xff = ucast hi) })"

text \<open>The reliable branch: acceptance of the packet, then the acknowledgement it carries.\<close>

definition h5_accept_seq :: "uart \<Rightarrow> u32 \<Rightarrow> HciH5Head_t \<Rightarrow> bytes \<Rightarrow> h5_state \<Rightarrow> h5_state option" where
  "h5_accept_seq env now h buf s =
     (if seqNum h = txAck s
      then let s1 = s\<lparr>txAck := (txAck s + 1) mod 8, rxSlidWinSize := rxSlidWinSize s + 1, rxTick := now OR 1\<rparr> in
           do { s2 \<leftarrow> (if slidWinSize (h5_config s1) = 1 then Some s1
                       else if rxSlidWinSize s1 \<ge> slidWinSize (h5_config s1)
                       then do { (_, u) \<leftarrow> HCI_H5_SendPureAck env s1; Some (u\<lparr>rxSlidWinSize := 0\<rparr>) }
                       else Some s1);
                payload \<leftarrow> rd_range buf HCI_H5_HEAD_LEN (unat (payloadLen h));
                HCI_H5_PackHciPdu (pktType h) payload s2 }
      else Some s)"

definition h5_take_ack :: "u32 \<Rightarrow> HciH5Head_t \<Rightarrow> h5_state \<Rightarrow> h5_state" where
  "h5_take_ack now h s =
     (if ackNum h = txSeq s
      then s\<lparr>rxAck := ackNum h, pHciTxFifo := (pHciTxFifo s)\<lparr>hf_rptr := hf_rptr (pHciTxFifo s) + txSlidWinSize s\<rparr>,
             txSlidWinSize := 0, resendTick := 0, txTick := 0\<rparr>
      else s\<lparr>resendTick := (if resendTick s = 0 then now OR 1 else resendTick s)\<rparr>)"

definition HCI_H5_DecodeDataPdu :: "uart \<Rightarrow> u32 \<Rightarrow> HciH5Head_t \<Rightarrow> bytes \<Rightarrow> nat \<Rightarrow> h5_state \<Rightarrow> h5_state option" where
  "HCI_H5_DecodeDataPdu env now h buf len s =
     (if dataIntgrtChkType (h5_config s) = 0 \<and> hd_crc h \<noteq> 0 then Some s
      else do { ok \<leftarrow> (if hd_crc h \<noteq> 0 then h5_crc_ok buf len else Some True);
                if \<not> ok then Some s
                else if reliable h \<noteq> 0
                then do { s1 \<leftarrow> h5_accept_seq env now h buf s; Some (h5_take_ack now h s1) }
                else do { payload \<leftarrow> rd_range buf HCI_H5_HEAD_LEN (unat (payloadLen h));
                          HCI_H5_PackHciPdu (pktType h) payload (s\<lparr>txAck := (txAck s + 1) mod 8\<rparr>) } })"

definition HCI_H5_PacketHandler :: "uart \<Rightarrow> u32 \<Rightarrow> bytes \<Rightarrow> nat \<Rightarrow> h5_state \<Rightarrow> h5_state option" where
  "HCI_H5_PacketHandler env now buf len s =
     do { hb \<leftarrow> rd_range buf 0 HCI_H5_HEAD_LEN;
          if \<not> HCI_H5_IsCheckSumValid hb then Some s
          else do { h \<leftarrow> HCI_H5_UnpackHeader buf;
                    if hd_crc h = 0 \<and> HCI_H5_HEAD_LEN + unat (payloadLen h) \<noteq> len then Some s
                    else if hd_crc h \<noteq> 0 \<and> HCI_H5_HEAD_LEN + unat (payloadLen h) + HCI_H5_CRC_LEN \<noteq> len then Some s
                    else if pktType h = HCI_H5_PKT_TYPE_ACK
                    then (if linkState s \<noteq> HCI_H5_LINK_STATE_ACTIVE then Some s
                          else Some (HCI_H5_ReSendCheck now (s\<lparr>rxAck := ackNum h\<rparr>)))
                    else if pktType h = HCI_H5_PKT_TYPE_LINK_CTRL then HCI_H5_DecodeLinkPdu env now buf s
                    else if pktType h = HCI_H5_PKT_TYPE_CMD \<or> pktType h = HCI_H5_PKT_TYPE_ACL
                            \<or> pktType h = HCI_H5_PKT_TYPE_SCO \<or> pktType h = HCI_H5_PKT_TYPE_EVT
                    then (if linkState s \<noteq> HCI_H5_LINK_STATE_ACTIVE then Some s
                          else HCI_H5_DecodeDataPdu env now h buf len s)
                    else Some s } }"

text \<open>A SLIP packet from the transport, decoded and handed to the registered handler.\<close>

definition h5_receive :: "uart \<Rightarrow> u32 \<Rightarrow> bytes \<Rightarrow> h5_state \<Rightarrow> h5_state option" where
  "h5_receive env now pkt s =
     do { (r, cb) \<leftarrow> HCI_Slip_DecodePacket pkt (slip s);
          case r of
            None \<Rightarrow> Some (s\<lparr>slip := cb\<rparr>)
          | Some n \<Rightarrow> (if h5PktHandler cb = None then Some (s\<lparr>slip := cb\<rparr>)
                       else HCI_H5_PacketHandler env now (slipDecodeBuf cb) (unat n) (s\<lparr>slip := cb\<rparr>)) }"

section \<open>The main loop\<close>

definition HCI_H5_Poll :: "uart \<Rightarrow> u32 \<Rightarrow> h5_state \<Rightarrow> h5_state option" where
  "HCI_H5_Poll env now s =
     (case linkState s of
        HCI_H5_LINK_STATE_IDLE \<Rightarrow>
          (if clock_time_exceed now (h5_tick s) (250 * 1000)
           then do { s1 \<leftarrow> HCI_H5_SendSync env s; Some (s1\<lparr>h5_tick := now\<rparr>) } else Some s)
      | HCI_H5_LINK_STATE_INIT \<Rightarrow>
          (if clock_time_exceed now (h5_tick s) (250 * 1000)
           then do { s1 \<leftarrow> HCI_H5_SendConfig env s; Some (s1\<lparr>h5_tick := now\<rparr>) } else Some s)
      | HCI_H5_LINK_STATE_ACTIVE \<Rightarrow>
          do { s1 \<leftarrow>
                 (if resendTick s \<noteq> 0
                  then (if clock_time_exceed now (resendTick s) (H5_RESEND_TO * 1000)
                        then HCI_H5_ResendStart env now (s\<lparr>resendTick := 0\<rparr>) else Some s)
                  else if txSlidWinSize s \<ge> slidWinSize (h5_config s)
                  then (if txTick s \<noteq> 0 \<and> clock_time_exceed now (txTick s) (H5_RESEND_TO * 1000)
                        then HCI_H5_ResendStart env now (s\<lparr>txTick := 0\<rparr>) else Some s)
                  else HCI_H5_SendData env now s);
               if slidWinSize (h5_config s1) = 1 \<and> rxTick s1 \<noteq> 0
                  \<and> clock_time_exceed now (rxTick s1) (H5_PURE_ACK_TO * 1000)
               then do { (_, s2) \<leftarrow> HCI_H5_SendPureAck env (s1\<lparr>rxTick := 0\<rparr>); Some (s2\<lparr>rxSlidWinSize := 0\<rparr>) }
               else Some s1 })"

section \<open>Header encoding\<close>

lemma h5_masks:
  "(0x07 :: u32) = mask 3" "(0x01 :: u32) = mask 1" "(0x0F :: u32) = mask 4" "(0xFF :: u32) = mask 8" "(0x0FFF :: u32) = mask 12"
  "(0xFF :: u16) = mask 8"
  by (simp_all add: mask_eq_exp_minus_1)

lemma even_drop_bit_iff: "even (drop_bit n (w::'a::len word)) \<longleftrightarrow> \<not> bit w n"
  by (simp add: bit_iff_odd_drop_bit)

lemma h5_head_fields:
  fixes b0 b1 b2 b3 :: u8
  defines "head \<equiv> (ucast b0 OR push_bit 8 (ucast b1) OR push_bit 16 (ucast b2) OR push_bit 24 (ucast b3) :: u32)"
  shows "ucast (head AND 0x07) = take_bit 3 b0" "ucast (drop_bit 3 head AND 0x07) = take_bit 3 (drop_bit 3 b0)"
    "ucast (drop_bit 6 head AND 0x01) = take_bit 1 (drop_bit 6 b0)" "ucast (drop_bit 7 head AND 0x01) = drop_bit 7 b0"
    "ucast (drop_bit 8 head AND 0x0F) = take_bit 4 b1" "ucast (drop_bit 24 head AND 0xFF) = b3"
    "ucast (drop_bit 12 head AND 0x0FFF) = (ucast (drop_bit 4 b1) OR push_bit 4 (ucast b2) :: u16)"
  unfolding head_def h5_masks
  by (rule bit_word_eqI; auto simp: bit_simps even_drop_bit_iff dest: bit_u8_less)+

lemma h5_pack_byte0:
  fixes s a c r :: u8
  assumes "unat s < 8" "unat a < 8" "unat c < 2" "unat r < 2"
  defines "b \<equiv> ucast (ucast s OR push_bit 3 (ucast a) OR push_bit 6 (ucast c) OR push_bit 7 (ucast r) :: u16) :: u8"
  shows "take_bit 3 b = s" "take_bit 3 (drop_bit 3 b) = a" "take_bit 1 (drop_bit 6 b) = c" "drop_bit 7 b = r"
proof -
  have bd: "bit s k \<Longrightarrow> k < 3" "bit a k \<Longrightarrow> k < 3" "bit c k \<Longrightarrow> k < 1" "bit r k \<Longrightarrow> k < 1" for k
    using assms(1-4) bit_less_of_bound [of s 3 k] bit_less_of_bound [of a 3 k] bit_less_of_bound [of c 1 k]
      bit_less_of_bound [of r 1 k] by simp_all
  show "take_bit 3 b = s" "take_bit 3 (drop_bit 3 b) = a" "take_bit 1 (drop_bit 6 b) = c" "drop_bit 7 b = r"
    unfolding b_def by (auto intro!: bit_word_eqI simp: bit_simps even_drop_bit_iff, (use bd in force)+)
qed

lemma h5_pack_word:
  fixes t :: u8 and n :: u16
  assumes "unat t < 16"
  defines "w \<equiv> ucast (ucast t OR (push_bit 4 (ucast n) AND 0x0fff) :: u32) :: u16"
  shows "take_bit 4 (ucast w :: u8) = t"
    "ucast (drop_bit 4 (ucast w :: u8)) OR push_bit 4 (ucast (ucast (drop_bit 8 w) :: u8)) = (n AND 0xFF :: u16)"
proof -
  have bd: "bit t k \<Longrightarrow> k < 4" for k using assms(1) bit_less_of_bound [of t 4 k] by simp
  show "take_bit 4 (ucast w :: u8) = t"
    "ucast (drop_bit 4 (ucast w :: u8)) OR push_bit 4 (ucast (ucast (drop_bit 8 w) :: u8)) = (n AND 0xFF :: u16)"
    unfolding w_def h5_masks by (auto intro!: bit_word_eqI simp: bit_simps, (use bd in force)+)
qed

lemma u8_u32_u8 [simp]: "(ucast (ucast (b :: u8) :: u32) :: u8) = b"
  by (rule bit_word_eqI) (simp add: bit_simps)

lemma u32_to_u8_add: "(ucast (a + b :: u32) :: u8) = ucast a + ucast b"
proof -
  have "(ucast (a + b) :: u8) = word_of_int (uint (a + b))" by (rule ucast_eq)
  also have "uint (a + b) = (uint a + uint b) mod 2 ^ 32" by (simp add: uint_word_ariths)
  also have "(word_of_int ((uint a + uint b) mod 2 ^ 32) :: u8) = word_of_int (uint a + uint b)"
    by (subst word_of_int_eq_iff) (simp add: take_bit_eq_mod mod_mod_cancel)
  also have "\<dots> = word_of_int (uint a) + word_of_int (uint b)" by (rule of_int_add)
  finally show ?thesis by (simp only: ucast_eq)
qed

lemma u32_low_byte: "(w :: u32) mod 256 = 0xFF \<longleftrightarrow> (ucast w :: u8) = 0xFF"
proof -
  have "w mod 256 = ucast (ucast w :: u8)"
    unfolding take_bit_eq_mod [of 8 w, simplified, symmetric] by (rule bit_word_eqI) (auto simp: bit_simps)
  moreover have "(ucast x :: u32) = 0xFF \<longleftrightarrow> x = 0xFF" for x :: u8
  proof
    assume "(ucast x :: u32) = 0xFF"
    then have "(ucast (ucast x :: u32) :: u8) = ucast (0xFF :: u32)" by (simp only:)
    then show "x = 0xFF" by simp
  qed simp
  ultimately show ?thesis by simp
qed

lemma checksum_sum: "ucast (\<Sum>b \<leftarrow> p. ucast b :: u32) = (sum_list p :: u8)"
  by (induction p) (simp_all add: u32_to_u8_add)

lemma HCI_H5_IsCheckSumValid_iff: "HCI_H5_IsCheckSumValid p \<longleftrightarrow> sum_list p = - 1"
proof -
  have "(0xFF :: u8) = - 1" by simp
  then show ?thesis unfolding HCI_H5_IsCheckSumValid_def u32_low_byte checksum_sum by (simp only:)
qed

lemma HCI_H5_CheckSumCalc_eq: "HCI_H5_CheckSumCalc [a, b, c] = NOT (a + b + c)"
proof -
  have "(ucast ((w :: u32) AND 0xff) :: u8) = ucast w" for w
    unfolding h5_masks by (rule bit_word_eqI) (auto simp: bit_simps)
  then show ?thesis by (simp add: HCI_H5_CheckSumCalc_def u32_to_u8_add)
qed


lemma sum_list4: "sum_list [a, b, c, d] = (a + b + c + d :: u8)"
  by (simp add: add.assoc)

lemma HCI_H5_PackHeader_eq:
  "\<exists>b0 b1 b2. HCI_H5_PackHeader h = [b0, b1, b2, NOT (b0 + b1 + b2)]
     \<and> b0 = ucast (ucast (seqNum h) OR push_bit 3 (ucast (ackNum h)) OR push_bit 6 (ucast (hd_crc h))
                 OR push_bit 7 (ucast (reliable h)) :: u16)
     \<and> b1 = ucast (ucast (ucast (pktType h) OR (push_bit 4 (ucast (payloadLen h)) AND 0x0fff) :: u32) :: u16)
     \<and> b2 = ucast (drop_bit 8 (ucast (ucast (pktType h) OR (push_bit 4 (ucast (payloadLen h)) AND 0x0fff) :: u32) :: u16))"
  unfolding HCI_H5_PackHeader_def Let_def UINT16_TO_BSTREAM_def append_Cons append_Nil HCI_H5_CheckSumCalc_eq
  by blast

lemma HCI_H5_PackHeader_valid: "HCI_H5_IsCheckSumValid (HCI_H5_PackHeader h) \<and> length (HCI_H5_PackHeader h) = 4"
proof -
  obtain b0 b1 b2 where b: "HCI_H5_PackHeader h = [b0, b1, b2, NOT (b0 + b1 + b2)]" using HCI_H5_PackHeader_eq by blast
  have "x + NOT x = - 1" for x :: u8 by (simp add: not_eq_complement)
  then have "sum_list [b0, b1, b2, NOT (b0 + b1 + b2)] = - 1" unfolding sum_list4 .
  then show ?thesis by (simp only: b HCI_H5_IsCheckSumValid_iff) simp
qed

definition h5_head_ok :: "HciH5Head_t \<Rightarrow> bool" where
  "h5_head_ok h \<longleftrightarrow> unat (seqNum h) < 8 \<and> unat (ackNum h) < 8 \<and> unat (hd_crc h) < 2 \<and> unat (reliable h) < 2 \<and> unat (pktType h) < 16"

lemma HCI_H5_Unpack_Pack:
  assumes "h5_head_ok h"
  shows "HCI_H5_UnpackHeader (HCI_H5_PackHeader h @ rest) =
           Some (h\<lparr>headCheckSum := HCI_H5_PackHeader h ! 3, payloadLen := payloadLen h AND 0xFF\<rparr>)"
proof -
  note ok = assms [unfolded h5_head_ok_def]
  obtain b0 b1 b2 where b: "HCI_H5_PackHeader h = [b0, b1, b2, NOT (b0 + b1 + b2)]"
    "b0 = ucast (ucast (seqNum h) OR push_bit 3 (ucast (ackNum h)) OR push_bit 6 (ucast (hd_crc h))
                 OR push_bit 7 (ucast (reliable h)) :: u16)"
    "b1 = ucast (ucast (ucast (pktType h) OR (push_bit 4 (ucast (payloadLen h)) AND 0x0fff) :: u32) :: u16)"
    "b2 = ucast (drop_bit 8 (ucast (ucast (pktType h) OR (push_bit 4 (ucast (payloadLen h)) AND 0x0fff) :: u32) :: u16))"
    using HCI_H5_PackHeader_eq by blast
  have f: "take_bit 3 b0 = seqNum h" "take_bit 3 (drop_bit 3 b0) = ackNum h" "take_bit 1 (drop_bit 6 b0) = hd_crc h"
     "drop_bit 7 b0 = reliable h" "take_bit 4 b1 = pktType h"
     "ucast (drop_bit 4 b1) OR push_bit 4 (ucast b2) = payloadLen h AND 0xFF"
    using h5_pack_byte0 [of "seqNum h" "ackNum h" "hd_crc h" "reliable h"] h5_pack_word [of "pktType h" "payloadLen h"] ok
    unfolding b(2-4) by simp_all
  have "BYTES_TO_UINT32 (HCI_H5_PackHeader h @ rest) 0 =
     Some (ucast b0 OR push_bit 8 (ucast b1) OR push_bit 16 (ucast b2) OR push_bit 24 (ucast (NOT (b0 + b1 + b2))))"
    unfolding b(1) by (simp add: BYTES_TO_UINT32_def rd8_def u32_bytes_plus_or numeral_2_eq_2 numeral_3_eq_3)
  then show ?thesis
    by (simp only: HCI_H5_UnpackHeader_def bind.bind_lunit h5_head_fields f) (simp add: b(1))
qed

section \<open>The state invariant and the sender\<close>

definition h5_wf :: "h5_state \<Rightarrow> bool" where
  "h5_wf s \<longleftrightarrow> slip_wf (slip s) \<and> length (h5TxBuf s) = HCI_H5_TX_BUF_SIZE
     \<and> unat (txSeq s) < 8 \<and> unat (txAck s) < 8 \<and> unat (rxAck s) < 8 \<and> unat (dataIntgrtChkType (h5_config s)) < 2
     \<and> slidWinSize (h5_config s) \<le> 1"

text \<open>The packet \<^verbatim>\<open>HCI_H5_Send\<close> builds, before SLIP framing.\<close>

definition h5_packet :: "u8 \<Rightarrow> bytes \<Rightarrow> h5_state \<Rightarrow> bytes" where
  "h5_packet ty payload s =
     (let h = h5_send_head ty (length payload) s; b = HCI_H5_PackHeader h @ payload; crc = HCI_H5_CcittCrc16Calc 0xFFFF b
      in b @ (if hd_crc h \<noteq> 0 then [ucast (drop_bit 8 crc AND 0xFF), ucast (crc AND 0xFF)] else []))"

definition uart_takes :: "uart \<Rightarrow> h5_state \<Rightarrow> bool" where
  "uart_takes env s \<longleftrightarrow> ue_txDone (env (sends s)) \<and> ue_sendRes (env (sends s)) \<noteq> 0"

lemma wr_range_at_end:
  "length pre \<le> length b \<Longrightarrow> length pre + length d \<le> length b \<Longrightarrow> take (length pre) b = pre \<Longrightarrow>
     \<exists>b'. wr_range b (length pre) d = Some b' \<and> length b' = length b \<and> take (length (pre @ d)) b' = pre @ d"
  by (auto simp: wr_range_def)

lemma h5_packet_length: "length (h5_packet ty payload s) \<le> 6 + length payload"
  using HCI_H5_PackHeader_valid by (simp add: h5_packet_def Let_def)

lemma h5_slip_send_spec:
  assumes "slip_wf (slip s)" "length pkt \<le> 306"
  shows "\<exists>cb. h5_slip_send env pkt s = Some (uart_takes env s,
            s\<lparr>slip := cb, sends := sends s + 1,
              wire := wire s @ (if uart_takes env s then [slip_frame (oofEnable (slip s)) pkt] else [])\<rparr>)
          \<and> slip_wf cb \<and> oofEnable cb = oofEnable (slip s) \<and> slipDecodeBuf cb = slipDecodeBuf (slip s)
          \<and> h5PktHandler cb = h5PktHandler (slip s)"
proof (cases "ue_txDone (env (sends s))")
  case True
  obtain buf where "HCI_Slip_Send (env (sends s)) pkt (slip s) = Some (ue_sendRes (env (sends s)) \<noteq> 0, Some (slip_frame (oofEnable (slip s)) pkt),
             (slip s)\<lparr>slipEncodeBuf := buf, encodeLen := of_nat (length (slip_frame (oofEnable (slip s)) pkt))\<rparr>)"
     "length buf = 4 + HCI_SLIP_ENCODE_BUF_SIZE"
    using HCI_Slip_Send_spec [OF assms(1) True, of pkt] assms(2) by (auto simp: slip_sizes)
  then show ?thesis using True assms(1) by (auto simp: h5_slip_send_def uart_takes_def slip_wf_def)
next
  case False
  then show ?thesis using assms(1)
    by (auto simp: h5_slip_send_def uart_takes_def HCI_Slip_Send_def intro!: exI [of _ "slip s"])
qed

lemma HCI_H5_Send_spec:
  assumes wf: "h5_wf s" and len: "length payload \<le> 300"
  shows "\<exists>buf cb. HCI_H5_Send env ty payload s = Some (uart_takes env s,
            s\<lparr>txSeq := (if HCI_H5_IsReliablePacket ty then (txSeq s + 1) mod 8 else txSeq s), h5TxBuf := buf, slip := cb,
              sends := sends s + 1,
              wire := wire s @ (if uart_takes env s then [slip_frame (oofEnable (slip s)) (h5_packet ty payload s)] else [])\<rparr>)
          \<and> length buf = HCI_H5_TX_BUF_SIZE \<and> slip_wf cb \<and> oofEnable cb = oofEnable (slip s)
          \<and> slipDecodeBuf cb = slipDecodeBuf (slip s) \<and> h5PktHandler cb = h5PktHandler (slip s)"
proof -
  define h where "h = h5_send_head ty (length payload) s"
  define s1 where "s1 = (if HCI_H5_IsReliablePacket ty then s\<lparr>txSeq := (txSeq s + 1) mod 8\<rparr> else s)"
  define hb where "hb = HCI_H5_PackHeader h"
  have lhb: "length hb = 4" using HCI_H5_PackHeader_valid by (simp add: hb_def)
  have lb: "length (h5TxBuf s1) = 308" using wf by (simp add: h5_wf_def s1_def HCI_H5_TX_BUF_SIZE_def slip_sizes)
  obtain b1 where b1: "wr_range (h5TxBuf s1) 0 hb = Some b1" "length b1 = 308" "take 4 b1 = hb"
    using wr_range_at_end [of "[]" "h5TxBuf s1" hb] lb lhb by auto
  obtain b2 where b2: "(if payload = [] then Some b1 else wr_range b1 4 payload) = Some b2" "length b2 = 308"
      "take (4 + length payload) b2 = hb @ payload"
    using wr_range_at_end [of hb b1 payload] b1 lhb len by (cases "payload = []") auto
  define crc where "crc = HCI_H5_CcittCrc16Calc 0xFFFF (hb @ payload)"
  define tr where "tr = (if hd_crc h \<noteq> 0 then [ucast (drop_bit 8 crc AND 0xFF), ucast (crc AND 0xFF)] else [] :: bytes)"
  have rd: "rd_range b2 0 (4 + length payload) = Some (hb @ payload)" using b2 len by (simp add: rd_range_def)
  obtain b3 where b3: "(if hd_crc h \<noteq> 0 then wr_range b2 (4 + length payload) tr else Some b2) = Some b3" "length b3 = 308"
      "take (4 + length payload + length tr) b3 = hb @ payload @ tr"
    using wr_range_at_end [of "hb @ payload" b2 tr] b2 lhb len by (cases "hd_crc h \<noteq> 0") (auto simp: tr_def)
  have tl: "length tr = (if hd_crc h \<noteq> 0 then 2 else 0)" by (simp add: tr_def)
  have n: "unat (of_nat (4 + length payload + length tr) :: u16) = 4 + length payload + length tr"
    using len tl by (intro unat_of_nat_small) simp
  have out: "rd_range b3 0 (4 + length payload + length tr) = Some (hb @ payload @ tr)"
    using b3 len tl by (simp add: rd_range_def)
  have pk: "h5_packet ty payload s = hb @ payload @ tr"
    by (simp add: h5_packet_def Let_def hb_def h_def tr_def crc_def)
  have eq: "HCI_H5_Send env ty payload s = h5_slip_send env (hb @ payload @ tr) (s1\<lparr>h5TxBuf := b3\<rparr>)"
    unfolding HCI_H5_Send_def Let_def h_def [symmetric] s1_def [symmetric] hb_def [symmetric]
      HCI_H5_HEAD_LEN_def HCI_H5_CRC_LEN_def b1(1) b2(1) bind.bind_lunit
    using b3(1) rd out n tl by (cases "hd_crc h \<noteq> 0") (simp_all add: tr_def crc_def)
  have l: "length (hb @ payload @ tr) \<le> 306" using len lhb tl by simp
  have w: "slip_wf (slip (s1\<lparr>h5TxBuf := b3\<rparr>))" using wf by (simp add: h5_wf_def s1_def)
  have ut: "uart_takes env (s1\<lparr>h5TxBuf := b3\<rparr>) = uart_takes env s" by (simp add: uart_takes_def s1_def)
  show ?thesis using h5_slip_send_spec [OF w l, of env] b3(2) unfolding eq pk ut
    by (cases s) (auto simp: s1_def HCI_H5_TX_BUF_SIZE_def slip_sizes)
qed

section \<open>Sequence numbers\<close>

lemma u8_mod8_less [simp]: "unat ((w::u8) mod 8) < 8"
  by (simp add: unat_mod_distrib)

lemma u8_and7_less [simp]: "unat ((w::u8) AND 0x07) < 8"
  using unat_and_mask_pow2 [of "0x07 :: u8" 3 w] by simp

lemma u8_seq_undo: "unat (x::u8) < 8 \<Longrightarrow> ((x + 1) mod 8 - 1) AND 0x07 = x"
proof -
  assume x: "unat x < 8"
  have "x = 0 \<or> x = 1 \<or> x = 2 \<or> x = 3 \<or> x = 4 \<or> x = 5 \<or> x = 6 \<or> x = 7"
    unfolding word_unat_eq_iff using x by simp arith
  then show ?thesis by (elim disjE) simp_all
qed

text \<open>The part of the state a transmission leaves alone.\<close>

definition h5_same :: "h5_state \<Rightarrow> h5_state \<Rightarrow> bool" where
  "h5_same s s' \<longleftrightarrow> pHciTxFifo s' = pHciTxFifo s \<and> pHciRxFifo s' = pHciRxFifo s \<and> h5_config s' = h5_config s
     \<and> linkState s' = linkState s \<and> txAck s' = txAck s \<and> rxAck s' = rxAck s \<and> txSlidWinSize s' = txSlidWinSize s
     \<and> rxSlidWinSize s' = rxSlidWinSize s \<and> h5_tick s' = h5_tick s \<and> txTick s' = txTick s \<and> rxTick s' = rxTick s
     \<and> resendTick s' = resendTick s \<and> hciResets s' = hciResets s"

lemma HCI_H5_Send_wf:
  assumes "h5_wf s" "length payload \<le> 300"
  shows "\<exists>s'. HCI_H5_Send env ty payload s = Some (uart_takes env s, s') \<and> h5_wf s'
     \<and> h5_same s s' \<and> txSeq s' = (if HCI_H5_IsReliablePacket ty then (txSeq s + 1) mod 8 else txSeq s)
     \<and> wire s' = wire s @ (if uart_takes env s then [slip_frame (oofEnable (slip s)) (h5_packet ty payload s)] else [])"
proof -
  obtain buf cb where b: "HCI_H5_Send env ty payload s = Some (uart_takes env s,
            s\<lparr>txSeq := (if HCI_H5_IsReliablePacket ty then (txSeq s + 1) mod 8 else txSeq s), h5TxBuf := buf, slip := cb,
              sends := sends s + 1,
              wire := wire s @ (if uart_takes env s then [slip_frame (oofEnable (slip s)) (h5_packet ty payload s)] else [])\<rparr>)"
     "length buf = HCI_H5_TX_BUF_SIZE" "slip_wf cb"
    using HCI_H5_Send_spec [OF assms] by blast
  then show ?thesis using assms(1) by (auto simp: h5_wf_def h5_same_def)
qed


section \<open>The transmit queue\<close>

text \<open>A queued packet: 16-bit length, packet type, payload, all inside its slot and the transmit buffer.\<close>

definition txslot_ok :: "bytes \<Rightarrow> bool" where
  "txslot_ok slot \<longleftrightarrow> (\<exists>n. BYTES_TO_UINT16 slot 0 = Some n \<and> 1 \<le> unat n \<and> unat n \<le> 301 \<and> unat n + 2 \<le> length slot)"

definition txslot_type :: "bytes \<Rightarrow> u8" where
  "txslot_type slot = slot ! 2"

definition txslot_payload :: "bytes \<Rightarrow> bytes" where
  "txslot_payload slot = take (unat (the (BYTES_TO_UINT16 slot 0)) - 1) (drop 3 slot)"

definition txq_ok :: "hci_fifo_t \<Rightarrow> bool" where
  "txq_ok f \<longleftrightarrow> hf_ok f \<and> (\<forall>slot \<in> set (hf_view f). txslot_ok slot)"

lemma BYTES_TO_UINT16_inner:
  "rd_range p off sz = Some slot \<Longrightarrow> BYTES_TO_UINT16 slot i = Some n \<Longrightarrow> BYTES_TO_UINT16 p (off + i) = Some n"
  by (auto simp: BYTES_TO_UINT16_def rd_range_def rd8_def split: if_splits)

lemma txslot_read:
  assumes r: "rd_range p off sz = Some slot" and ok: "txslot_ok slot"
  shows "\<exists>n. BYTES_TO_UINT16 p off = Some n \<and> n \<noteq> 0 \<and> rd8 p (off + 2) = Some (txslot_type slot)
     \<and> rd_range p (off + 3) (unat n - 1) = Some (txslot_payload slot) \<and> length (txslot_payload slot) \<le> 300"
proof -
  obtain n where n: "BYTES_TO_UINT16 slot 0 = Some n" "1 \<le> unat n" "unat n \<le> 301" "unat n + 2 \<le> length slot"
    using ok by (auto simp: txslot_ok_def)
  have s: "off + sz \<le> length p" "slot = take sz (drop off p)" "length slot = sz"
    using r by (auto simp: rd_range_def split: if_splits)
  have "take (unat n - 1) (drop 3 slot) = take (unat n - 1) (drop (off + 3) p)"
    using s n(4) by (simp add: drop_take add.commute min_def)
  moreover have "slot ! 2 = p ! (off + 2)" using s n by simp
  ultimately show ?thesis using n s BYTES_TO_UINT16_inner [OF r n(1)]
    by (auto simp: txslot_type_def txslot_payload_def rd_range_def rd8_def)
qed


lemma u8_window_zero: "txw < w \<Longrightarrow> w \<le> 1 \<Longrightarrow> txw = 0 \<and> w = (1::u8)"
  by (simp add: word_less_nat_alt word_le_nat_alt word_unat_eq_iff)

text \<open>One send attempt: the FIFO is untouched; either the front packet went out, or nothing did.\<close>

lemma HCI_H5_SendData_spec:
  assumes wf: "h5_wf s" and q: "txq_ok (pHciTxFifo s)"
  shows "\<exists>s'. HCI_H5_SendData env now s = Some s' \<and> h5_wf s' \<and> pHciTxFifo s' = pHciTxFifo s \<and> pHciRxFifo s' = pHciRxFifo s
     \<and> h5_config s' = h5_config s \<and> linkState s' = linkState s \<and> txAck s' = txAck s
     \<and> (if txSlidWinSize s < slidWinSize (h5_config s) \<and> hf_view (pHciTxFifo s) \<noteq> [] \<and> uart_takes env s
        then wire s' = wire s @ [slip_frame (oofEnable (slip s))
                 (h5_packet (txslot_type (hd (hf_view (pHciTxFifo s)))) (txslot_payload (hd (hf_view (pHciTxFifo s)))) s)]
             \<and> txSlidWinSize s' = 1 \<and> txTick s' \<noteq> 0
        else wire s' = wire s \<and> txSlidWinSize s' = txSlidWinSize s)"
proof -
  define f where "f = pHciTxFifo s"
  show ?thesis
  proof (cases "txSlidWinSize s < slidWinSize (h5_config s)")
    case False
    then show ?thesis using wf by (auto simp: HCI_H5_SendData_def Let_def not_less)
  next
    case True
    have w: "txSlidWinSize s = 0" "slidWinSize (h5_config s) = 1"
      using u8_window_zero [OF True] wf by (auto simp: h5_wf_def)
    show ?thesis
    proof (cases "hf_view f")
      case Nil
      then have "hf_wptr f = hf_rptr f" by (simp add: hf_view_empty_iff)
      then show ?thesis using wf w Nil by (auto simp: HCI_H5_SendData_def Let_def f_def)
    next
      case (Cons slot rest)
      have ok: "hf_ok f" "txslot_ok slot" using q Cons by (auto simp: txq_ok_def f_def)
      have ne: "hf_wptr f \<noteq> hf_rptr f" using Cons hf_view_empty_iff [of f] by auto
      then have un: "unat (hf_wptr f) \<noteq> unat (hf_rptr f)" by (simp add: word_unat_eq_iff)
      have ne': "int (unat (hf_wptr f)) \<noteq> int (unat (hf_rptr f)) + int (unat (txSlidWinSize s))"
        unfolding w(1) unsigned_0 using un by linarith
      have "hf_front f = Some slot" using hf_pop_ok [OF ok(1) Cons] by simp
      then have "rd_range (hf_p f) (hf_slot f (hf_rptr f)) (unat (hf_size f)) = Some slot" using ne by (simp add: hf_front_def)
      from txslot_read [OF this ok(2)] obtain n where n: "BYTES_TO_UINT16 (hf_p f) (hf_slot f (hf_rptr f)) = Some n" "n \<noteq> 0"
        "rd8 (hf_p f) (hf_slot f (hf_rptr f) + 2) = Some (txslot_type slot)"
        "rd_range (hf_p f) (hf_slot f (hf_rptr f) + 3) (unat n - 1) = Some (txslot_payload slot)"
        "length (txslot_payload slot) \<le> 300" by blast
      define s1 where "s1 = s\<lparr>txSlidWinSize := txSlidWinSize s + 1\<rparr>"
      have wf1: "h5_wf s1" using wf by (simp add: h5_wf_def s1_def)
      have pk: "h5_packet (txslot_type slot) (txslot_payload slot) s1 = h5_packet (txslot_type slot) (txslot_payload slot) s"
        by (simp add: h5_packet_def h5_send_head_def s1_def)
      have sl: "slip s1 = slip s" "wire s1 = wire s" by (simp_all add: s1_def)
      have ut: "uart_takes env s1 = uart_takes env s" by (simp add: uart_takes_def s1_def)
      obtain s2 where s2: "HCI_H5_Send env (txslot_type slot) (txslot_payload slot) s1 = Some (uart_takes env s, s2)" "h5_wf s2"
         "h5_same s1 s2"
         "wire s2 = wire s @ (if uart_takes env s then [slip_frame (oofEnable (slip s)) (h5_packet (txslot_type slot) (txslot_payload slot) s)] else [])"
        using HCI_H5_Send_wf [OF wf1 n(5), of env "txslot_type slot"] unfolding ut pk sl by blast
      have keep: "pHciTxFifo s2 = f" "pHciRxFifo s2 = pHciRxFifo s" "h5_config s2 = h5_config s" "linkState s2 = linkState s"
          "txAck s2 = txAck s" "txSlidWinSize s2 = 1"
        using w s2(3) by (simp_all add: h5_same_def s1_def f_def)
      have eq: "HCI_H5_SendData env now s =
         (if \<not> uart_takes env s
          then Some (s2\<lparr>txSeq := (txSeq s2 - 1) AND 0x07, txSlidWinSize := txSlidWinSize s2 - 1, txTick := 0\<rparr>)
          else Some (s2\<lparr>rxSlidWinSize := 0, txTick := now OR 1, rxTick := 0\<rparr>))"
        unfolding HCI_H5_SendData_def Let_def f_def [symmetric] s1_def [symmetric]
        using True ne' w n s2(1) by (simp add: not_le del: rd8_Some_iff)
      show ?thesis unfolding eq using s2(2,4) keep w True Cons
        by (cases "uart_takes env s") (auto simp: h5_wf_def f_def)
    qed
  qed
qed


lemma HCI_H5_ResendStart_spec:
  assumes "h5_wf s" "txq_ok (pHciTxFifo s)"
  shows "\<exists>s'. HCI_H5_ResendStart env now s = Some s' \<and> h5_wf s' \<and> pHciTxFifo s' = pHciTxFifo s \<and> pHciRxFifo s' = pHciRxFifo s
     \<and> h5_config s' = h5_config s \<and> linkState s' = linkState s"
  using HCI_H5_SendData_spec [of "s\<lparr>txSeq := rxAck s, txSlidWinSize := 0\<rparr>" env now] assms
  by (auto simp: HCI_H5_ResendStart_def h5_wf_def)

lemma HCI_H5_SendPureAck_spec:
  assumes "h5_wf s"
  shows "\<exists>r s'. HCI_H5_SendPureAck env s = Some (r, s') \<and> h5_wf s' \<and> h5_same s s'"
  using HCI_H5_Send_wf [OF assms, of "[]" env HCI_H5_PKT_TYPE_ACK] by (auto simp: HCI_H5_SendPureAck_def)

text \<open>
  A link-control packet as it stands on the wire, written out: no sequence number, no integrity check, packet type
  15, the acknowledge number of the sender and the checksum of the header.
\<close>

definition h5_link_frame :: "u8 \<Rightarrow> bytes \<Rightarrow> bytes" where
  "h5_link_frame ack p =
     (let b0 = 8 * ack; b1 = 0x0F + 0x10 * of_nat (length p) in [b0, b1, 0, NOT (b0 + b1)] @ p)"

lemma u8_below_8: "unat (a :: u8) < 8 \<Longrightarrow> a = 0 \<or> a = 1 \<or> a = 2 \<or> a = 3 \<or> a = 4 \<or> a = 5 \<or> a = 6 \<or> a = 7"
  unfolding word_unat_eq_iff by simp arith

lemma h5_packet_link:
  assumes "unat (txAck s) < 8" "length p = 2 \<or> length p = 3"
  shows "h5_packet HCI_H5_PKT_TYPE_LINK_CTRL p s = h5_link_frame (txAck s) p"
proof -
  obtain b0 b1 b2 where b: "HCI_H5_PackHeader (h5_send_head HCI_H5_PKT_TYPE_LINK_CTRL (length p) s) = [b0, b1, b2, NOT (b0 + b1 + b2)]"
    "b0 = ucast (0 OR push_bit 3 (ucast (txAck s)) OR push_bit 6 0 OR push_bit 7 0 :: u16)"
    "b1 = ucast (ucast (0xF OR (push_bit 4 (ucast (of_nat (length p) :: u16)) AND 0x0fff) :: u32) :: u16)"
    "b2 = ucast (drop_bit 8 (ucast (0xF OR (push_bit 4 (ucast (of_nat (length p) :: u16)) AND 0x0fff) :: u32) :: u16))"
    using HCI_H5_PackHeader_eq [of "h5_send_head HCI_H5_PKT_TYPE_LINK_CTRL (length p) s"]
    by (auto simp: h5_send_head_def HCI_H5_IsReliablePacket_def HCI_H5_PKT_TYPE_LINK_CTRL_def HCI_H5_PKT_TYPE_CMD_def
        HCI_H5_PKT_TYPE_ACL_def HCI_H5_PKT_TYPE_EVT_def)
  have b0: "b0 = 8 * txAck s" unfolding b(2) using u8_below_8 [OF assms(1)] by (elim disjE) simp_all
  have b1: "b1 = 0x0F + 0x10 * of_nat (length p)" "b2 = 0" unfolding b(3,4) using assms(2) by (elim disjE; simp)+
  have "hd_crc (h5_send_head HCI_H5_PKT_TYPE_LINK_CTRL n s) = 0" for n by (simp add: h5_send_head_def)
  then show ?thesis by (simp add: h5_packet_def Let_def b(1) b0 b1 h5_link_frame_def)
qed

text \<open>The transmission of one link-control packet, as the peer and the rest of the state see it.\<close>

definition h5_sent :: "uart \<Rightarrow> bytes option \<Rightarrow> h5_state \<Rightarrow> h5_state \<Rightarrow> bool" where
  "h5_sent env p s s' \<longleftrightarrow> h5_same s s' \<and> txSeq s' = txSeq s \<and> oofEnable (slip s') = oofEnable (slip s)
     \<and> sends s' = sends s + (case p of None \<Rightarrow> 0 | Some _ \<Rightarrow> 1)
     \<and> wire s' = wire s @ (case p of None \<Rightarrow> []
         | Some d \<Rightarrow> if uart_takes env s then [slip_frame (oofEnable (slip s)) (h5_link_frame (txAck s) d)] else [])"

lemma h5_link_send_spec:
  assumes "h5_wf s" "length p = 2 \<or> length p = 3"
  shows "\<exists>s'. map_option snd (HCI_H5_Send env HCI_H5_PKT_TYPE_LINK_CTRL p s) = Some s' \<and> h5_wf s' \<and> h5_sent env (Some p) s s'"
proof -
  have r: "\<not> HCI_H5_IsReliablePacket HCI_H5_PKT_TYPE_LINK_CTRL"
    by (simp add: HCI_H5_IsReliablePacket_def HCI_H5_PKT_TYPE_LINK_CTRL_def HCI_H5_PKT_TYPE_CMD_def HCI_H5_PKT_TYPE_ACL_def HCI_H5_PKT_TYPE_EVT_def)
  have l: "length p \<le> 300" "unat (txAck s) < 8" using assms by (auto simp: h5_wf_def)
  obtain buf cb where b: "HCI_H5_Send env HCI_H5_PKT_TYPE_LINK_CTRL p s = Some (uart_takes env s,
            s\<lparr>h5TxBuf := buf, slip := cb, sends := sends s + 1,
              wire := wire s @ (if uart_takes env s then [slip_frame (oofEnable (slip s)) (h5_link_frame (txAck s) p)] else [])\<rparr>)"
      "length buf = HCI_H5_TX_BUF_SIZE" "slip_wf cb" "oofEnable cb = oofEnable (slip s)"
    using HCI_H5_Send_spec [OF assms(1) l(1), of env HCI_H5_PKT_TYPE_LINK_CTRL] unfolding h5_packet_link [OF l(2) assms(2)] if_not_P [OF r]
    by fastforce
  then show ?thesis using assms(1) by (auto simp: h5_wf_def h5_sent_def h5_same_def)
qed

lemma h5_msg_bytes:
  "UINT16_TO_BSTREAM HCI_H5_MSG_SYNC = [0x01, 0x7E]" "UINT16_TO_BSTREAM HCI_H5_MSG_SYNC_RSP = [0x02, 0x7D]"
  "UINT16_TO_BSTREAM HCI_H5_MSG_CONFIG @ [h5_config_byte] = [0x03, 0xFC, 0x01]"
  "UINT16_TO_BSTREAM HCI_H5_MSG_CONFIG_RSP @ [h5_config_byte] = [0x04, 0x7B, 0x01]"
  by (simp_all add: UINT16_TO_BSTREAM_def HCI_H5_MSG_SYNC_def HCI_H5_MSG_SYNC_RSP_def HCI_H5_MSG_CONFIG_def HCI_H5_MSG_CONFIG_RSP_def
      h5_config_byte_def hciH5Config_def)

lemma h5_link_sends:
  assumes "h5_wf s"
  shows "\<exists>s'. HCI_H5_SendSync env s = Some s' \<and> h5_wf s' \<and> h5_sent env (Some [0x01, 0x7E]) s s'"
    "\<exists>s'. HCI_H5_SendSyncRsp env s = Some s' \<and> h5_wf s' \<and> h5_sent env (Some [0x02, 0x7D]) s s'"
    "\<exists>s'. HCI_H5_SendConfig env s = Some s' \<and> h5_wf s' \<and> h5_sent env (Some [0x03, 0xFC, 0x01]) s s'"
    "\<exists>s'. HCI_H5_SendConfigRsp env s = Some s' \<and> h5_wf s' \<and> h5_sent env (Some [0x04, 0x7B, 0x01]) s s'"
  unfolding HCI_H5_SendSync_def HCI_H5_SendSyncRsp_def HCI_H5_SendConfig_def HCI_H5_SendConfigRsp_def h5_msg_bytes
  by (rule h5_link_send_spec [OF assms], simp)+

section \<open>The link state machine\<close>

inductive h5_link_step :: "u16 \<Rightarrow> h5_link_state \<Rightarrow> h5_link_state \<Rightarrow> bool" where
  idle_up: "h5_link_step HCI_H5_MSG_SYNC_RSP HCI_H5_LINK_STATE_IDLE HCI_H5_LINK_STATE_INIT"
| init_up: "h5_link_step HCI_H5_MSG_CONFIG_RSP HCI_H5_LINK_STATE_INIT HCI_H5_LINK_STATE_ACTIVE"
| restart: "h5_link_step HCI_H5_MSG_SYNC HCI_H5_LINK_STATE_ACTIVE HCI_H5_LINK_STATE_IDLE"
| idle_stay: "m \<noteq> HCI_H5_MSG_SYNC_RSP \<Longrightarrow> h5_link_step m HCI_H5_LINK_STATE_IDLE HCI_H5_LINK_STATE_IDLE"
| init_stay: "m \<noteq> HCI_H5_MSG_CONFIG_RSP \<Longrightarrow> h5_link_step m HCI_H5_LINK_STATE_INIT HCI_H5_LINK_STATE_INIT"
| active_stay: "m \<noteq> HCI_H5_MSG_SYNC \<Longrightarrow> h5_link_step m HCI_H5_LINK_STATE_ACTIVE HCI_H5_LINK_STATE_ACTIVE"

inductive_cases link_from_idle: "h5_link_step m HCI_H5_LINK_STATE_IDLE l"
inductive_cases link_from_init: "h5_link_step m HCI_H5_LINK_STATE_INIT l"
inductive_cases link_from_active: "h5_link_step m HCI_H5_LINK_STATE_ACTIVE l"

lemmas h5_msgs = HCI_H5_MSG_SYNC_def HCI_H5_MSG_SYNC_RSP_def HCI_H5_MSG_CONFIG_def HCI_H5_MSG_CONFIG_RSP_def

lemma h5_negotiate_bounds:
  "slidWinSize (h5_negotiate cfg) \<le> 1" "unat (dataIntgrtChkType (h5_negotiate cfg)) < 2"
  "oofFlowCtrl (h5_negotiate cfg) = 0" "dataIntgrtChkType (h5_negotiate cfg) = 0"
  by (simp_all add: h5_negotiate_def hciH5Config_def)

text \<open>The packet the specification answers a message with, in each state of the link.\<close>

fun h5_link_reply :: "u16 \<Rightarrow> h5_link_state \<Rightarrow> bytes option" where
  "h5_link_reply m HCI_H5_LINK_STATE_IDLE =
     Some (if m = 0x7E01 then [0x02, 0x7D] else if m = 0x7D02 then [0x03, 0xFC, 0x01] else [0x01, 0x7E])"
| "h5_link_reply m _ =
     (if m = 0x7E01 then Some [0x02, 0x7D] else if m = 0xFC03 then Some [0x04, 0x7B, 0x01] else None)"

text \<open>The agreement: in every field of the configuration byte the smaller of the two values.\<close>

definition h5_agreed :: "u8 \<Rightarrow> HciH5Config_t \<Rightarrow> bool" where
  "h5_agreed cfg c \<longleftrightarrow> unat (slidWinSize c) = min 1 (unat cfg mod 8) \<and> unat (oofFlowCtrl c) = min 0 (unat cfg div 8 mod 2)
     \<and> unat (dataIntgrtChkType c) = min 0 (unat cfg div 16 mod 2) \<and> unat (version c) = min 0 (unat cfg div 32)"

lemma h5_negotiate_agreed: "h5_agreed cfg (h5_negotiate cfg)"
proof -
  have "unat (cfg AND 7) = unat cfg mod 8" using unat_and_mask_pow2 [of "7 :: u8" 3 cfg] by simp
  then show ?thesis by (simp add: h5_agreed_def h5_negotiate_def hciH5Config_def min_def word_le_nat_alt)
qed

text \<open>The restart of a link: empty FIFOs, numbers, windows and timers at their start values, no flow control.\<close>

definition h5_restarted :: "u32 \<Rightarrow> h5_state \<Rightarrow> h5_state \<Rightarrow> bool" where
  "h5_restarted now s s' \<longleftrightarrow> txSeq s' = 0 \<and> txAck s' = 0 \<and> rxAck s' = 0 \<and> txSlidWinSize s' = 0 \<and> rxSlidWinSize s' = 0
     \<and> h5_tick s' = now OR 1 \<and> txTick s' = 0 \<and> rxTick s' = 0 \<and> resendTick s' = 0 \<and> \<not> oofEnable (slip s')
     \<and> pHciTxFifo s' = (pHciTxFifo s)\<lparr>hf_wptr := 0, hf_rptr := 0\<rparr> \<and> pHciRxFifo s' = (pHciRxFifo s)\<lparr>hf_wptr := 0, hf_rptr := 0\<rparr>"

text \<open>One step of the link establishment with everything an observer can see of it.\<close>

definition h5_link_outcome :: "uart \<Rightarrow> u32 \<Rightarrow> u16 \<Rightarrow> u8 \<Rightarrow> h5_state \<Rightarrow> h5_state \<Rightarrow> bool" where
  "h5_link_outcome env now msg cfg s s' \<longleftrightarrow>
     (let up = (linkState s = HCI_H5_LINK_STATE_INIT \<and> linkState s' = HCI_H5_LINK_STATE_ACTIVE);
          down = (linkState s = HCI_H5_LINK_STATE_ACTIVE \<and> linkState s' = HCI_H5_LINK_STATE_IDLE);
          reply = h5_link_reply msg (linkState s)
      in h5_link_step msg (linkState s) (linkState s')
       \<and> (if up \<or> down then h5_restarted now s s'
          else h5_same (s\<lparr>linkState := linkState s'\<rparr>) s' \<and> txSeq s' = txSeq s \<and> oofEnable (slip s') = oofEnable (slip s))
       \<and> (if up then h5_agreed cfg (h5_config s') else h5_config s' = h5_config s)
       \<and> hciResets s' = hciResets s + (if down then 1 else 0)
       \<and> sends s' = sends s + (case reply of None \<Rightarrow> 0 | Some _ \<Rightarrow> 1)
       \<and> wire s' = wire s @ (case reply of None \<Rightarrow> []
           | Some p \<Rightarrow> if uart_takes env s then [slip_frame (oofEnable (slip s')) (h5_link_frame (txAck s') p)] else []))"

lemma h5_outcome_reply:
  assumes "h5_sent env (h5_link_reply msg (linkState s)) (s\<lparr>linkState := l\<rparr>) s'" "h5_link_step msg (linkState s) l"
    and "\<not> (linkState s = HCI_H5_LINK_STATE_INIT \<and> l = HCI_H5_LINK_STATE_ACTIVE)" "\<not> (linkState s = HCI_H5_LINK_STATE_ACTIVE \<and> l = HCI_H5_LINK_STATE_IDLE)"
  shows "h5_link_outcome env now msg cfg s s'"
proof -
  have l: "linkState s' = l" "h5_config s' = h5_config s" "hciResets s' = hciResets s" "txAck s' = txAck s"
      "oofEnable (slip s') = oofEnable (slip s)"
    using assms(1) by (simp_all add: h5_sent_def h5_same_def)
  show ?thesis using assms l unfolding h5_link_outcome_def Let_def
    by (cases "h5_link_reply msg (linkState s)") (auto simp: h5_sent_def uart_takes_def)
qed

lemma h5_outcome_step: "h5_link_outcome env now msg cfg s s' \<Longrightarrow> h5_link_step msg (linkState s) (linkState s')"
  unfolding h5_link_outcome_def Let_def by (elim conjE)

lemma h5_reset_wf: "h5_wf s \<Longrightarrow> h5_wf (HCI_H5_Reset now (s\<lparr>linkState := l\<rparr>))"
  by (simp add: h5_wf_def HCI_H5_Reset_def HCI_SLip_SetFlowCtrlEnable_def slip_wf_def)

lemma h5_outcome_up:
  assumes "h5_wf s" "linkState s = HCI_H5_LINK_STATE_INIT"
    and "s' = (HCI_H5_Reset now (s\<lparr>linkState := HCI_H5_LINK_STATE_ACTIVE\<rparr>))\<lparr>h5_config := h5_negotiate cfg\<rparr>"
  shows "h5_wf s' \<and> h5_link_outcome env now HCI_H5_MSG_CONFIG_RSP cfg s s'"
proof -
  have "h5_wf s'" using h5_reset_wf [OF assms(1), of now HCI_H5_LINK_STATE_ACTIVE] assms(3) by (simp add: h5_wf_def h5_negotiate_bounds)
  moreover have "linkState s' = HCI_H5_LINK_STATE_ACTIVE" by (simp add: assms(3) HCI_H5_Reset_def)
  ultimately show ?thesis using assms(2) init_up h5_negotiate_agreed [of cfg]
    by (simp add: h5_link_outcome_def Let_def h5_restarted_def assms(3) HCI_H5_Reset_def HCI_SLip_SetFlowCtrlEnable_def h5_msgs)
qed

lemma h5_outcome_down:
  assumes "linkState s = HCI_H5_LINK_STATE_ACTIVE"
    and "u = (HCI_H5_Reset now (s\<lparr>linkState := HCI_H5_LINK_STATE_IDLE\<rparr>))\<lparr>hciResets := hciResets s + 1\<rparr>"
    and "h5_sent env (Some [0x02, 0x7D]) u s'"
  shows "h5_link_outcome env now HCI_H5_MSG_SYNC cfg s s'"
proof -
  have "linkState s' = HCI_H5_LINK_STATE_IDLE" using assms(2,3) by (simp add: h5_sent_def h5_same_def HCI_H5_Reset_def)
  then show ?thesis using assms restart
    by (simp add: h5_link_outcome_def Let_def h5_restarted_def h5_sent_def h5_same_def HCI_H5_Reset_def HCI_SLip_SetFlowCtrlEnable_def
        h5_msgs uart_takes_def)
qed

lemma HCI_H5_DecodeLinkPdu_spec:
  assumes wf: "h5_wf s" and msg: "BYTES_TO_UINT16 buf HCI_H5_HEAD_LEN = Some msg" and cfg: "rd8 buf (HCI_H5_HEAD_LEN + 2) = Some cfg"
  shows "\<exists>s'. HCI_H5_DecodeLinkPdu env now buf s = Some s' \<and> h5_wf s' \<and> h5_link_outcome env now msg cfg s s'"
proof -
  note eq = HCI_H5_DecodeLinkPdu_def [of env now buf s, unfolded msg cfg bind.bind_lunit]
  note keep = h5_outcome_reply [of env msg s "linkState s", simplified]
  have quiet: "h5_link_outcome env now msg cfg s s" if "h5_link_reply msg (linkState s) = None" "h5_link_step msg (linkState s) (linkState s)"
    using that by (intro keep) (auto simp: h5_sent_def h5_same_def)
  show ?thesis
  proof (cases "linkState s")
    case HCI_H5_LINK_STATE_IDLE
    have wfi: "h5_wf (s\<lparr>linkState := HCI_H5_LINK_STATE_INIT\<rparr>)" using wf by (simp add: h5_wf_def)
    consider "msg = HCI_H5_MSG_SYNC" | "msg = HCI_H5_MSG_SYNC_RSP" | "msg \<noteq> HCI_H5_MSG_SYNC" "msg \<noteq> HCI_H5_MSG_SYNC_RSP" by blast
    then show ?thesis
    proof cases
      case 1
      then show ?thesis unfolding eq using HCI_H5_LINK_STATE_IDLE h5_link_sends(2) [OF wf, of env] keep idle_stay [of msg]
        by (auto simp: h5_msgs)
    next
      case 2
      then show ?thesis unfolding eq using HCI_H5_LINK_STATE_IDLE h5_link_sends(3) [OF wfi, of env] idle_up
          h5_outcome_reply [of env msg s HCI_H5_LINK_STATE_INIT]
        by (auto simp: h5_msgs)
    next
      case 3
      then show ?thesis unfolding eq using HCI_H5_LINK_STATE_IDLE h5_link_sends(1) [OF wf, of env] keep idle_stay [of msg]
        by (auto simp: h5_msgs)
    qed
  next
    case HCI_H5_LINK_STATE_INIT
    consider "msg = HCI_H5_MSG_SYNC" | "msg = HCI_H5_MSG_CONFIG" | "msg = HCI_H5_MSG_CONFIG_RSP"
      | "msg \<noteq> HCI_H5_MSG_SYNC" "msg \<noteq> HCI_H5_MSG_CONFIG" "msg \<noteq> HCI_H5_MSG_CONFIG_RSP" by blast
    then show ?thesis
    proof cases
      case 1
      then show ?thesis unfolding eq using HCI_H5_LINK_STATE_INIT h5_link_sends(2) [OF wf, of env] keep init_stay [of msg]
        by (auto simp: h5_msgs)
    next
      case 2
      then show ?thesis unfolding eq using HCI_H5_LINK_STATE_INIT h5_link_sends(4) [OF wf, of env] keep init_stay [of msg]
        by (auto simp: h5_msgs)
    next
      case 3
      then show ?thesis unfolding eq using HCI_H5_LINK_STATE_INIT h5_outcome_up [OF wf HCI_H5_LINK_STATE_INIT refl]
        by (simp add: h5_msgs)
    next
      case 4
      then show ?thesis unfolding eq using HCI_H5_LINK_STATE_INIT wf quiet init_stay [of msg] by (simp add: h5_msgs)
    qed
  next
    case HCI_H5_LINK_STATE_ACTIVE
    let ?u = "(HCI_H5_Reset now (s\<lparr>linkState := HCI_H5_LINK_STATE_IDLE\<rparr>))\<lparr>hciResets := hciResets s + 1\<rparr>"
    have wfu: "h5_wf ?u" using h5_reset_wf [OF wf, of now HCI_H5_LINK_STATE_IDLE] by (simp add: h5_wf_def)
    consider "msg = HCI_H5_MSG_SYNC" | "msg = HCI_H5_MSG_CONFIG" | "msg \<noteq> HCI_H5_MSG_SYNC" "msg \<noteq> HCI_H5_MSG_CONFIG" by blast
    then show ?thesis
    proof cases
      case 1
      then show ?thesis unfolding eq using HCI_H5_LINK_STATE_ACTIVE h5_link_sends(2) [OF wfu, of env]
          h5_outcome_down [OF HCI_H5_LINK_STATE_ACTIVE refl]
        by (auto simp: h5_msgs)
    next
      case 2
      then show ?thesis unfolding eq using HCI_H5_LINK_STATE_ACTIVE h5_link_sends(4) [OF wf, of env] keep active_stay [of msg]
        by (auto simp: h5_msgs)
    next
      case 3
      then show ?thesis unfolding eq using HCI_H5_LINK_STATE_ACTIVE wf quiet active_stay [of msg] by (simp add: h5_msgs)
    qed
  qed
qed

text \<open>A run of link-control packets, and the path of link states it takes.\<close>

fun h5_link_run :: "uart \<Rightarrow> u32 \<Rightarrow> bytes list \<Rightarrow> h5_state \<Rightarrow> h5_state option" where
  "h5_link_run env now [] s = Some s"
| "h5_link_run env now (b # bs) s = Option.bind (HCI_H5_DecodeLinkPdu env now b s) (h5_link_run env now bs)"

inductive h5_link_path :: "u16 list \<Rightarrow> h5_link_state \<Rightarrow> h5_link_state \<Rightarrow> bool" where
  path_nil: "h5_link_path [] l l"
| path_cons: "h5_link_step m l l1 \<Longrightarrow> h5_link_path ms l1 l2 \<Longrightarrow> h5_link_path (m # ms) l l2"

definition link_msg :: "bytes \<Rightarrow> u16" where
  "link_msg b = the (BYTES_TO_UINT16 b HCI_H5_HEAD_LEN)"

lemma link_bytes:
  "7 \<le> length b \<Longrightarrow> BYTES_TO_UINT16 b HCI_H5_HEAD_LEN = Some (link_msg b) \<and> rd8 b (HCI_H5_HEAD_LEN + 2) = Some (b ! 6)"
  by (auto simp: link_msg_def BYTES_TO_UINT16_def rd8_def HCI_H5_HEAD_LEN_def)

lemma h5_link_run_path:
  assumes "h5_wf s" "\<forall>b \<in> set bs. 7 \<le> length b"
  shows "\<exists>s'. h5_link_run env now bs s = Some s' \<and> h5_wf s' \<and> h5_link_path (map link_msg bs) (linkState s) (linkState s')"
  using assms
proof (induction bs arbitrary: s)
  case Nil
  then show ?case by (simp add: path_nil)
next
  case (Cons b bs)
  have l: "BYTES_TO_UINT16 b HCI_H5_HEAD_LEN = Some (link_msg b)" "rd8 b (HCI_H5_HEAD_LEN + 2) = Some (b ! 6)"
    using link_bytes [of b] Cons.prems(2) by auto
  obtain s1 where s1: "HCI_H5_DecodeLinkPdu env now b s = Some s1" "h5_wf s1" "h5_link_step (link_msg b) (linkState s) (linkState s1)"
    using HCI_H5_DecodeLinkPdu_spec [OF Cons.prems(1) l, of env now] h5_outcome_step by blast
  obtain s' where "h5_link_run env now bs s1 = Some s'" "h5_wf s'" "h5_link_path (map link_msg bs) (linkState s1) (linkState s')"
    using Cons.IH [OF s1(2)] Cons.prems(2) by auto
  then show ?case using s1 by (auto intro: path_cons)
qed

text \<open>No shortcut: a link that became active has seen a sync response and, later, a configuration response.\<close>

lemma path_init_active:
  "h5_link_path ms l l' \<Longrightarrow> l = HCI_H5_LINK_STATE_INIT \<Longrightarrow> l' = HCI_H5_LINK_STATE_ACTIVE \<Longrightarrow> HCI_H5_MSG_CONFIG_RSP \<in> set ms"
proof (induction rule: h5_link_path.induct)
  case (path_cons m l l1 ms l2)
  have "h5_link_step m HCI_H5_LINK_STATE_INIT l1" using path_cons.hyps(1) path_cons.prems(1) by simp
  then show ?case by (rule link_from_init) (use path_cons in auto)
qed simp

lemma path_idle_active:
  "h5_link_path ms l l' \<Longrightarrow> l = HCI_H5_LINK_STATE_IDLE \<Longrightarrow> l' = HCI_H5_LINK_STATE_ACTIVE \<Longrightarrow>
     \<exists>us vs. ms = us @ HCI_H5_MSG_SYNC_RSP # vs \<and> HCI_H5_MSG_CONFIG_RSP \<in> set vs"
proof (induction rule: h5_link_path.induct)
  case (path_cons m l l1 ms l2)
  have "h5_link_step m HCI_H5_LINK_STATE_IDLE l1" using path_cons.hyps(1) path_cons.prems(1) by simp
  then show ?case
  proof (rule link_from_idle)
    assume a: "m = HCI_H5_MSG_SYNC_RSP" "l1 = HCI_H5_LINK_STATE_INIT"
    then have "HCI_H5_MSG_CONFIG_RSP \<in> set ms" using path_init_active [OF path_cons.hyps(2)] path_cons.prems(2) by simp
    then show ?thesis using a by (intro exI [of _ "[]"] exI [of _ ms]) simp
  next
    assume "l1 = HCI_H5_LINK_STATE_IDLE"
    then obtain us vs where "ms = us @ HCI_H5_MSG_SYNC_RSP # vs \<and> HCI_H5_MSG_CONFIG_RSP \<in> set vs"
      using path_cons.IH path_cons.prems(2) by blast
    then show ?thesis by (intro exI [of _ "m # us"] exI [of _ vs]) simp
  qed
qed simp

section \<open>Reliable data\<close>

lemma h5_take_ack_keeps: "pHciRxFifo (h5_take_ack now h s) = pHciRxFifo s" "txAck (h5_take_ack now h s) = txAck s"
  "h5_config (h5_take_ack now h s) = h5_config s" "linkState (h5_take_ack now h s) = linkState s"
  by (simp_all add: h5_take_ack_def)

lemma h5_take_ack_wf: "h5_wf s \<Longrightarrow> unat (ackNum h) < 8 \<Longrightarrow> h5_wf (h5_take_ack now h s)"
  by (simp add: h5_take_ack_def h5_wf_def)

text \<open>The receiver's acceptance rule and what it hands to the controller.\<close>

fun h5_accepted :: "u8 \<Rightarrow> (HciH5Head_t \<times> bytes) list \<Rightarrow> bytes list" where
  "h5_accepted expected [] = []"
| "h5_accepted expected ((h, buf) # ps) =
     (if seqNum h = expected
      then (pktType h # take (unat (payloadLen h)) (drop 4 buf)) # h5_accepted ((expected + 1) mod 8) ps
      else h5_accepted expected ps)"

fun h5_data_run :: "uart \<Rightarrow> u32 \<Rightarrow> (HciH5Head_t \<times> bytes) list \<Rightarrow> h5_state \<Rightarrow> h5_state option" where
  "h5_data_run env now [] s = Some s"
| "h5_data_run env now ((h, buf) # ps) s =
     Option.bind (HCI_H5_DecodeDataPdu env now h buf (4 + unat (payloadLen h)) s) (h5_data_run env now ps)"

definition h5_data_ok :: "h5_state \<Rightarrow> HciH5Head_t \<times> bytes \<Rightarrow> bool" where
  "h5_data_ok s p \<longleftrightarrow> hd_crc (fst p) = 0 \<and> reliable (fst p) \<noteq> 0 \<and> unat (ackNum (fst p)) < 8
     \<and> 4 + unat (payloadLen (fst p)) \<le> length (snd p) \<and> unat (payloadLen (fst p)) + 1 \<le> unat (hf_size (pHciRxFifo s))"

lemma HCI_H5_DecodeDataPdu_spec:
  assumes wf: "h5_wf s" and cfg: "slidWinSize (h5_config s) = 1" and rx: "hf_ok (pHciRxFifo s)" "length (hf_view (pHciRxFifo s)) < unat (hf_num (pHciRxFifo s))"
    and ok: "h5_data_ok s (h, buf)"
  shows "\<exists>s'. HCI_H5_DecodeDataPdu env now h buf len s = Some s' \<and> h5_wf s' \<and> h5_config s' = h5_config s \<and> linkState s' = linkState s
     \<and> hf_ok (pHciRxFifo s') \<and> hf_num (pHciRxFifo s') = hf_num (pHciRxFifo s) \<and> hf_size (pHciRxFifo s') = hf_size (pHciRxFifo s)
     \<and> (if seqNum h = txAck s
        then txAck s' = (txAck s + 1) mod 8
             \<and> (\<exists>rest. hf_view (pHciRxFifo s') = hf_view (pHciRxFifo s) @ [(pktType h # take (unat (payloadLen h)) (drop 4 buf)) @ rest])
        else txAck s' = txAck s \<and> pHciRxFifo s' = pHciRxFifo s)"
proof -
  have rd: "rd_range buf HCI_H5_HEAD_LEN (unat (payloadLen h)) = Some (take (unat (payloadLen h)) (drop 4 buf))"
    using ok by (simp add: h5_data_ok_def rd_range_def HCI_H5_HEAD_LEN_def)
  have lp: "length (pktType h # take (unat (payloadLen h)) (drop 4 buf)) \<le> unat (hf_size (pHciRxFifo s))"
    using ok by (auto simp: h5_data_ok_def min_def)
  obtain f rest where f: "hf_put (pHciRxFifo s) (pktType h # take (unat (payloadLen h)) (drop 4 buf)) = Some f" "hf_ok f"
      "hf_num f = hf_num (pHciRxFifo s)" "hf_size f = hf_size (pHciRxFifo s)"
      "hf_view f = hf_view (pHciRxFifo s) @ [(pktType h # take (unat (payloadLen h)) (drop 4 buf)) @ rest]"
    using hf_put_ok [OF rx lp] by blast
  define s1 where "s1 = (if seqNum h = txAck s then s\<lparr>txAck := (txAck s + 1) mod 8, rxSlidWinSize := rxSlidWinSize s + 1,
      rxTick := now OR 1, pHciRxFifo := f\<rparr> else s)"
  have a: "h5_accept_seq env now h buf s = Some s1"
    using cfg f(1) rd by (auto simp: h5_accept_seq_def HCI_H5_PackHciPdu_def s1_def)
  have "HCI_H5_DecodeDataPdu env now h buf len s = Some (h5_take_ack now h s1)"
    using ok a by (simp add: HCI_H5_DecodeDataPdu_def h5_data_ok_def)
  moreover have "h5_wf s1" using wf by (simp add: h5_wf_def s1_def)
  moreover have "unat (ackNum h) < 8" using ok by (simp add: h5_data_ok_def)
  ultimately show ?thesis using f rx by (auto simp: h5_take_ack_wf h5_take_ack_keeps s1_def)
qed

lemma h5_data_run_spec:
  assumes "h5_wf s" "slidWinSize (h5_config s) = 1" "hf_ok (pHciRxFifo s)"
    "length (hf_view (pHciRxFifo s)) + length ps \<le> unat (hf_num (pHciRxFifo s))" "\<forall>p \<in> set ps. h5_data_ok s p"
  shows "\<exists>s' ss. h5_data_run env now ps s = Some s' \<and> hf_view (pHciRxFifo s') = hf_view (pHciRxFifo s) @ ss
     \<and> list_all2 (\<lambda>d slot. take (length d) slot = d) (h5_accepted (txAck s) ps) ss"
  using assms
proof (induction ps arbitrary: s)
  case Nil
  then show ?case by simp
next
  case (Cons p ps)
  obtain h buf where p: "p = (h, buf)" by force
  have room: "length (hf_view (pHciRxFifo s)) < unat (hf_num (pHciRxFifo s))" using Cons.prems(4) by simp
  have ok: "h5_data_ok s (h, buf)" using Cons.prems(5) p by simp
  from HCI_H5_DecodeDataPdu_spec [OF Cons.prems(1-3) room ok, of env now "4 + unat (payloadLen h)"]
  obtain s1 where s1: "HCI_H5_DecodeDataPdu env now h buf (4 + unat (payloadLen h)) s = Some s1" "h5_wf s1" "h5_config s1 = h5_config s"
     "hf_ok (pHciRxFifo s1)" "hf_num (pHciRxFifo s1) = hf_num (pHciRxFifo s)" "hf_size (pHciRxFifo s1) = hf_size (pHciRxFifo s)"
     "if seqNum h = txAck s
        then txAck s1 = (txAck s + 1) mod 8
             \<and> (\<exists>rest. hf_view (pHciRxFifo s1) = hf_view (pHciRxFifo s) @ [(pktType h # take (unat (payloadLen h)) (drop 4 buf)) @ rest])
        else txAck s1 = txAck s \<and> pHciRxFifo s1 = pHciRxFifo s" by blast
  have "\<forall>q \<in> set ps. h5_data_ok s1 q" using Cons.prems(5) s1(6) by (simp add: h5_data_ok_def)
  moreover have "length (hf_view (pHciRxFifo s1)) + length ps \<le> unat (hf_num (pHciRxFifo s1))"
    using s1(5,7) Cons.prems(4) by (auto split: if_splits)
  ultimately obtain s' ss where s': "h5_data_run env now ps s1 = Some s'" "hf_view (pHciRxFifo s') = hf_view (pHciRxFifo s1) @ ss"
     "list_all2 (\<lambda>d slot. take (length d) slot = d) (h5_accepted (txAck s1) ps) ss"
    using Cons.IH [OF s1(2) _ s1(4)] s1(3) Cons.prems(2) by auto
  show ?case
  proof (cases "seqNum h = txAck s")
    case True
    then obtain rest where r: "txAck s1 = (txAck s + 1) mod 8"
       "hf_view (pHciRxFifo s1) = hf_view (pHciRxFifo s) @ [(pktType h # take (unat (payloadLen h)) (drop 4 buf)) @ rest]" using s1(7) by auto
    have "min (length buf - 4) (unat (payloadLen h)) = unat (payloadLen h)" using ok by (auto simp: h5_data_ok_def min_def)
    then show ?thesis using s1(1) s' r p True
      by (auto intro!: exI [of _ "((pktType h # take (unat (payloadLen h)) (drop 4 buf)) @ rest) # ss"])
  next
    case False
    then show ?thesis using s1(1,7) s' p by auto
  qed
qed


section \<open>The main loop\<close>

lemma HCI_H5_Poll_spec:
  assumes wf: "h5_wf s" and q: "txq_ok (pHciTxFifo s)"
  shows "\<exists>s'. HCI_H5_Poll env now s = Some s' \<and> h5_wf s' \<and> pHciTxFifo s' = pHciTxFifo s \<and> pHciRxFifo s' = pHciRxFifo s
     \<and> linkState s' = linkState s"
proof (cases "linkState s")
  case HCI_H5_LINK_STATE_IDLE
  then show ?thesis using h5_link_sends(1) [OF wf, of env] wf
    by (auto simp: HCI_H5_Poll_def h5_sent_def h5_same_def h5_wf_def)
next
  case HCI_H5_LINK_STATE_INIT
  then show ?thesis using h5_link_sends(3) [OF wf, of env] wf
    by (auto simp: HCI_H5_Poll_def h5_sent_def h5_same_def h5_wf_def)
next
  case HCI_H5_LINK_STATE_ACTIVE
  have w: "h5_wf (s\<lparr>resendTick := x\<rparr>)" "h5_wf (s\<lparr>txTick := x\<rparr>)" for x using wf by (simp_all add: h5_wf_def)
  have step: "\<exists>s1. (if resendTick s \<noteq> 0
                  then (if clock_time_exceed now (resendTick s) (H5_RESEND_TO * 1000)
                        then HCI_H5_ResendStart env now (s\<lparr>resendTick := 0\<rparr>) else Some s)
                  else if txSlidWinSize s \<ge> slidWinSize (h5_config s)
                  then (if txTick s \<noteq> 0 \<and> clock_time_exceed now (txTick s) (H5_RESEND_TO * 1000)
                        then HCI_H5_ResendStart env now (s\<lparr>txTick := 0\<rparr>) else Some s)
                  else HCI_H5_SendData env now s) = Some s1
     \<and> h5_wf s1 \<and> pHciTxFifo s1 = pHciTxFifo s \<and> pHciRxFifo s1 = pHciRxFifo s \<and> linkState s1 = linkState s"
    using wf HCI_H5_ResendStart_spec [OF w(1), of 0 env now] HCI_H5_ResendStart_spec [OF w(2), of 0 env now]
      HCI_H5_SendData_spec [OF wf q, of env now] q by auto
  then obtain s1 where s1: "(if resendTick s \<noteq> 0
                  then (if clock_time_exceed now (resendTick s) (H5_RESEND_TO * 1000)
                        then HCI_H5_ResendStart env now (s\<lparr>resendTick := 0\<rparr>) else Some s)
                  else if txSlidWinSize s \<ge> slidWinSize (h5_config s)
                  then (if txTick s \<noteq> 0 \<and> clock_time_exceed now (txTick s) (H5_RESEND_TO * 1000)
                        then HCI_H5_ResendStart env now (s\<lparr>txTick := 0\<rparr>) else Some s)
                  else HCI_H5_SendData env now s) = Some s1"
     "h5_wf s1" "pHciTxFifo s1 = pHciTxFifo s" "pHciRxFifo s1 = pHciRxFifo s" "linkState s1 = linkState s" by blast
  have "h5_wf (s1\<lparr>rxTick := 0\<rparr>)" using s1(2) by (simp add: h5_wf_def)
  then obtain r s2 where s2: "HCI_H5_SendPureAck env (s1\<lparr>rxTick := 0\<rparr>) = Some (r, s2)" "h5_wf s2" "h5_same (s1\<lparr>rxTick := 0\<rparr>) s2"
    using HCI_H5_SendPureAck_spec by blast
  show ?thesis unfolding HCI_H5_Poll_def HCI_H5_LINK_STATE_ACTIVE h5_link_state.case s1(1) bind.bind_lunit
    using s1(2-5) s2 HCI_H5_LINK_STATE_ACTIVE by (auto simp: h5_same_def h5_wf_def)
qed

section \<open>One packet from sender to receiver\<close>

lemma reliable_types: "HCI_H5_IsReliablePacket ty \<longleftrightarrow> ty = 1 \<or> ty = 2 \<or> ty = 4"
  by (simp add: HCI_H5_IsReliablePacket_def HCI_H5_PKT_TYPE_CMD_def HCI_H5_PKT_TYPE_ACL_def HCI_H5_PKT_TYPE_EVT_def)

lemmas h5_types = HCI_H5_PKT_TYPE_ACK_def HCI_H5_PKT_TYPE_CMD_def HCI_H5_PKT_TYPE_ACL_def HCI_H5_PKT_TYPE_SCO_def
  HCI_H5_PKT_TYPE_EVT_def HCI_H5_PKT_TYPE_LINK_CTRL_def

lemma h5_send_head_ok: "h5_wf s \<Longrightarrow> HCI_H5_IsReliablePacket ty \<Longrightarrow> h5_head_ok (h5_send_head ty n s)"
  by (auto simp: h5_head_ok_def h5_send_head_def h5_wf_def reliable_types h5_types)

lemma payload_len_low:
  "n < 256 \<Longrightarrow> (of_nat n :: u16) AND 0xFF = of_nat n" "n < 65536 \<Longrightarrow> unat ((of_nat n :: u16) AND 0xFF) = n mod 256"
proof -
  have m: "unat ((of_nat n :: u16) AND 0xFF) = unat (of_nat n :: u16) mod 2 ^ 8" by (rule unat_and_mask_pow2) simp
  show "unat ((of_nat n :: u16) AND 0xFF) = n mod 256" if "n < 65536" using m that by (simp add: unat_of_nat)
  show "(of_nat n :: u16) AND 0xFF = of_nat n" if "n < 256"
    using m that by (simp add: word_unat_eq_iff unat_of_nat)
qed

text \<open>What the receiver's packet handler sees of a packet in its decode buffer.\<close>

lemma h5_handler_header:
  assumes ok: "h5_head_ok h" and buf: "take (4 + n) buf = HCI_H5_PackHeader h @ d" "4 + n \<le> length buf"
  shows "rd_range buf 0 HCI_H5_HEAD_LEN = Some (HCI_H5_PackHeader h)"
    and "HCI_H5_UnpackHeader buf = Some (h\<lparr>headCheckSum := HCI_H5_PackHeader h ! 3, payloadLen := payloadLen h AND 0xFF\<rparr>)"
    and "take n (drop 4 buf) = d"
proof -
  have l: "length (HCI_H5_PackHeader h) = 4" using HCI_H5_PackHeader_valid by simp
  have b: "buf = HCI_H5_PackHeader h @ d @ drop (4 + n) buf"
    using append_take_drop_id [of "4 + n" buf] unfolding buf(1) by simp
  show "rd_range buf 0 HCI_H5_HEAD_LEN = Some (HCI_H5_PackHeader h)"
    using buf(2) l by (subst b) (simp add: rd_range_def HCI_H5_HEAD_LEN_def)
  show "HCI_H5_UnpackHeader buf = Some (h\<lparr>headCheckSum := HCI_H5_PackHeader h ! 3, payloadLen := payloadLen h AND 0xFF\<rparr>)"
    by (subst b) (rule HCI_H5_Unpack_Pack [OF ok])
  have "drop 4 (take (4 + n) buf) = d" unfolding buf(1) using l by simp
  then show "take n (drop 4 buf) = d" by (simp add: drop_take)
qed

lemma h5_packet_no_crc:
  "dataIntgrtChkType (h5_config s) = 0 \<Longrightarrow>
     h5_packet ty payload s = HCI_H5_PackHeader (h5_send_head ty (length payload) s) @ payload"
  by (simp add: h5_packet_def Let_def h5_send_head_def)

lemma h5_receive_frame:
  assumes wf: "slip_wf (slip b)" and hd: "h5PktHandler (slip b) \<noteq> None" and len: "4 \<le> length pkt" "length pkt \<le> 308"
  shows "\<exists>cb. h5_receive env now (slip_frame oof pkt) b = HCI_H5_PacketHandler env now (slipDecodeBuf cb) (length pkt) (b\<lparr>slip := cb\<rparr>)
     \<and> slip_wf cb \<and> take (length pkt) (slipDecodeBuf cb) = pkt \<and> length (slipDecodeBuf cb) = 308
     \<and> h5PktHandler cb = h5PktHandler (slip b)"
proof -
  obtain buf where r: "HCI_Slip_DecodePacket (slip_frame oof pkt) (slip b) =
            Some (Some (of_nat (length pkt)), (slip b)\<lparr>slipDecodeBuf := buf, decodeLen := of_nat (length pkt)\<rparr>)"
          "take (length pkt) buf = pkt" "length buf = HCI_SLIP_DECODE_BUF_SIZE"
    using HCI_Slip_DecodePacket_frame [OF wf len(1), of oof] len(2) by (auto simp: slip_sizes)
  have "unat (of_nat (length pkt) :: u16) = length pkt" using len(2) by (intro unat_of_nat_small) simp
  then show ?thesis using r hd wf
    by (intro exI [of _ "(slip b)\<lparr>slipDecodeBuf := buf, decodeLen := of_nat (length pkt)\<rparr>"])
       (auto simp: h5_receive_def slip_wf_def slip_sizes)
qed

lemma h5_deliver:
  assumes a: "h5_wf a" "uart_takes env a" "dataIntgrtChkType (h5_config a) = 0"
    and b: "h5_wf b" "linkState b = HCI_H5_LINK_STATE_ACTIVE" "slidWinSize (h5_config b) = 1" "h5PktHandler (slip b) \<noteq> None"
    and ty: "HCI_H5_IsReliablePacket ty" and len: "length payload < 256" and seq: "txSeq a = txAck b"
    and rx: "hf_ok (pHciRxFifo b)" "length (hf_view (pHciRxFifo b)) < unat (hf_num (pHciRxFifo b))"
      "1 + length payload \<le> unat (hf_size (pHciRxFifo b))"
  shows "\<exists>a' b' fr rest. HCI_H5_Send env ty payload a = Some (True, a') \<and> wire a' = wire a @ [fr]
     \<and> h5_receive env' now fr b = Some b' \<and> h5_wf b' \<and> txAck b' = (txAck b + 1) mod 8
     \<and> hf_view (pHciRxFifo b') = hf_view (pHciRxFifo b) @ [(ty # payload) @ rest]"
proof -
  define h where "h = h5_send_head ty (length payload) a"
  define pkt where "pkt = HCI_H5_PackHeader h @ payload"
  define fr where "fr = slip_frame (oofEnable (slip a)) pkt"
  have pk: "h5_packet ty payload a = pkt" using h5_packet_no_crc [OF a(3)] by (simp add: pkt_def h_def)
  obtain a' where a': "HCI_H5_Send env ty payload a = Some (True, a')" "wire a' = wire a @ [fr]"
    using HCI_H5_Send_wf [OF a(1), of payload env ty] len a(2) by (auto simp: fr_def pk)
  have hok: "h5_head_ok h" using h5_send_head_ok [OF a(1) ty] by (simp add: h_def)
  have lp: "length pkt = 4 + length payload" using HCI_H5_PackHeader_valid by (simp add: pkt_def)
  obtain cb where cb: "h5_receive env' now fr b = HCI_H5_PacketHandler env' now (slipDecodeBuf cb) (length pkt) (b\<lparr>slip := cb\<rparr>)"
      "slip_wf cb" "take (length pkt) (slipDecodeBuf cb) = pkt" "length (slipDecodeBuf cb) = 308"
    using h5_receive_frame [of b pkt env' now "oofEnable (slip a)"] b(1,4) lp len by (auto simp: fr_def h5_wf_def)
  let ?buf = "slipDecodeBuf cb" and ?b = "b\<lparr>slip := cb\<rparr>"
  have tb: "take (4 + length payload) ?buf = HCI_H5_PackHeader h @ payload" using cb(3) lp by (simp add: pkt_def)
  note hh = h5_handler_header [OF hok tb] 
  have fits: "4 + length payload \<le> length ?buf" using len cb(4) by simp
  let ?h = "h\<lparr>headCheckSum := HCI_H5_PackHeader h ! 3, payloadLen := payloadLen h AND 0xFF\<rparr>"
  have pl: "unat (payloadLen ?h) = length payload" using len payload_len_low(1) [OF len]
    by (simp add: h_def h5_send_head_def unat_of_nat)
  have f: "hd_crc ?h = 0" "reliable ?h \<noteq> 0" "pktType ?h = ty" "seqNum ?h = txAck b" "unat (ackNum ?h) < 8"
    using a(1,3) ty seq by (simp_all add: h_def h5_send_head_def h5_wf_def)
  have eq: "HCI_H5_PacketHandler env' now ?buf (length pkt) ?b = HCI_H5_DecodeDataPdu env' now ?h ?buf (length pkt) ?b"
    unfolding HCI_H5_PacketHandler_def hh(1)[OF fits] hh(2)[OF fits] bind.bind_lunit
    using f pl lp ty b(2) HCI_H5_PackHeader_valid [of h]
    by (auto simp: reliable_types h5_types HCI_H5_HEAD_LEN_def)
  have wfb: "h5_wf ?b" using b(1) cb(2) by (simp add: h5_wf_def)
  have dok: "h5_data_ok ?b (?h, ?buf)" using f pl fits rx(3) by (simp add: h5_data_ok_def)
  obtain b' rest where "HCI_H5_DecodeDataPdu env' now ?h ?buf (length pkt) ?b = Some b'" "h5_wf b'" "txAck b' = (txAck b + 1) mod 8"
      "hf_view (pHciRxFifo b') = hf_view (pHciRxFifo b) @ [(ty # take (length payload) (drop 4 ?buf)) @ rest]"
    using HCI_H5_DecodeDataPdu_spec [OF wfb _ _ _ dok, of env' now "length pkt"] b(3) rx f(3,4) unfolding pl by auto
  then show ?thesis using a' cb(1) eq hh(3)[OF fits] by auto
qed

lemma h5_truncated_dropped:
  assumes a: "h5_wf a" "uart_takes env a" "dataIntgrtChkType (h5_config a) = 0"
    and b: "h5_wf b" "h5PktHandler (slip b) \<noteq> None"
    and ty: "HCI_H5_IsReliablePacket ty" and len: "256 \<le> length payload" "length payload \<le> 300"
  shows "\<exists>a' cb fr. HCI_H5_Send env ty payload a = Some (True, a') \<and> wire a' = wire a @ [fr]
     \<and> h5_receive env' now fr b = Some (b\<lparr>slip := cb\<rparr>)"
proof -
  define h where "h = h5_send_head ty (length payload) a"
  define pkt where "pkt = HCI_H5_PackHeader h @ payload"
  define fr where "fr = slip_frame (oofEnable (slip a)) pkt"
  have pk: "h5_packet ty payload a = pkt" using h5_packet_no_crc [OF a(3)] by (simp add: pkt_def h_def)
  obtain a' where a': "HCI_H5_Send env ty payload a = Some (True, a')" "wire a' = wire a @ [fr]"
    using HCI_H5_Send_wf [OF a(1), of payload env ty] len a(2) by (auto simp: fr_def pk)
  have hok: "h5_head_ok h" using h5_send_head_ok [OF a(1) ty] by (simp add: h_def)
  have lp: "length pkt = 4 + length payload" using HCI_H5_PackHeader_valid by (simp add: pkt_def)
  obtain cb where cb: "h5_receive env' now fr b = HCI_H5_PacketHandler env' now (slipDecodeBuf cb) (length pkt) (b\<lparr>slip := cb\<rparr>)"
      "take (length pkt) (slipDecodeBuf cb) = pkt" "length (slipDecodeBuf cb) = 308"
    using h5_receive_frame [of b pkt env' now "oofEnable (slip a)"] b lp len by (auto simp: fr_def h5_wf_def)
  let ?buf = "slipDecodeBuf cb"
  have tb: "take (4 + length payload) ?buf = HCI_H5_PackHeader h @ payload" "4 + length payload \<le> length ?buf"
    using cb(2,3) lp len by (simp_all add: pkt_def)
  note hh = h5_handler_header [OF hok tb]
  have pl: "unat (payloadLen h AND 0xFF) \<noteq> length payload" "hd_crc h = 0"
    using len a(3) payload_len_low(2) [of "length payload"] by (auto simp: h_def h5_send_head_def)
  have "HCI_H5_PacketHandler env' now ?buf (length pkt) (b\<lparr>slip := cb\<rparr>) = Some (b\<lparr>slip := cb\<rparr>)"
    unfolding HCI_H5_PacketHandler_def hh(1) hh(2) bind.bind_lunit using pl lp by (simp add: HCI_H5_HEAD_LEN_def)
  then show ?thesis using a' cb(1) by auto
qed

lemma h5_crc_mismatch: "HCI_H5_CcittCrc16Calc 0xFFFF d \<noteq> HCI_H5_CcittCrc16Calc 0 d"
  using h5_crc.calc_state_inj [of "0xFFFF" d 0] by auto

lemma h5_crc_bytes_inj:
  "c AND 0xff = ucast (ucast (d AND 0xFF) :: u8) \<Longrightarrow> drop_bit 8 c AND 0xff = ucast (ucast (drop_bit 8 d AND 0xFF) :: u8) \<Longrightarrow> c = (d :: u16)"
proof -
  assume 1: "c AND 0xff = ucast (ucast (d AND 0xFF) :: u8)" and 2: "drop_bit 8 c AND 0xff = ucast (ucast (drop_bit 8 d AND 0xFF) :: u8)"
  show "c = d"
  proof (rule bit_word_eqI)
    fix n assume n: "n < LENGTH(16)"
    show "bit c n = bit d n"
    proof (cases "n < 8")
      case True
      then show ?thesis using arg_cong [OF 1, of "\<lambda>w. bit w n"] by (simp add: h5_masks(6) bit_simps)
    next
      case False
      then have "n - 8 < 8" using n by simp
      then show ?thesis using n False arg_cong [OF 2, of "\<lambda>w. bit w (n - 8)"] by (simp add: h5_masks(6) bit_simps)
    qed
  qed
qed

text \<open>The check the receiver makes on a packet the sender protected with its CRC fails.\<close>

lemma h5_crc_ok_sender:
  assumes crc: "hd_crc (h5_send_head ty (length payload) a) \<noteq> 0" and len: "length payload \<le> 300"
    and buf: "take (length (h5_packet ty payload a)) buf = h5_packet ty payload a" "length (h5_packet ty payload a) \<le> length buf"
  shows "h5_crc_ok buf (length (h5_packet ty payload a)) = Some False"
proof -
  define d where "d = HCI_H5_PackHeader (h5_send_head ty (length payload) a) @ payload"
  define c where "c = HCI_H5_CcittCrc16Calc 0xFFFF d"
  have pk: "h5_packet ty payload a = d @ [ucast (drop_bit 8 c AND 0xFF), ucast (c AND 0xFF)]"
    using crc by (simp add: h5_packet_def Let_def d_def c_def)
  have ld: "length d \<le> 304" using len HCI_H5_PackHeader_valid by (simp add: d_def)
  have b: "buf = d @ [ucast (drop_bit 8 c AND 0xFF), ucast (c AND 0xFF)] @ drop (length d + 2) buf"
    using append_take_drop_id [of "length (h5_packet ty payload a)" buf] unfolding buf(1) by (simp add: pk)
  have n: "unat (of_nat (length (h5_packet ty payload a)) - 2 :: u16) = length d"
    using ld by (simp add: pk unat_of_nat_small)
  have r: "rd_range buf 0 (length d) = Some d" "rd8 buf (length d + 1) = Some (ucast (c AND 0xFF))"
      "rd8 buf (length d) = Some (ucast (drop_bit 8 c AND 0xFF))"
    by (subst b, simp add: rd_range_def rd8_def nth_append)+
  have "\<not> (HCI_H5_CcittCrc16Calc 0 d AND 0xff = ucast (ucast (c AND 0xFF) :: u8)
      \<and> drop_bit 8 (HCI_H5_CcittCrc16Calc 0 d) AND 0xff = ucast (ucast (drop_bit 8 c AND 0xFF) :: u8))"
    using h5_crc_bytes_inj [of "HCI_H5_CcittCrc16Calc 0 d" c] h5_crc_mismatch [of d] by (auto simp: c_def)
  then show ?thesis unfolding h5_crc_ok_def Let_def n r bind.bind_lunit by simp
qed

text \<open>A protected packet of any data type on its way from the sender's buffer to the receiver's packet handler.\<close>

lemma h5_protected_dropped:
  assumes a: "h5_wf a" "uart_takes env a" "dataIntgrtChkType (h5_config a) \<noteq> 0"
    and b: "h5_wf b" "h5PktHandler (slip b) \<noteq> None"
    and ty: "ty \<in> {HCI_H5_PKT_TYPE_CMD, HCI_H5_PKT_TYPE_ACL, HCI_H5_PKT_TYPE_SCO, HCI_H5_PKT_TYPE_EVT}" and len: "length payload \<le> 300"
  shows "\<exists>a' cb fr. HCI_H5_Send env ty payload a = Some (True, a') \<and> wire a' = wire a @ [fr]
     \<and> h5_receive env' now fr b = Some (b\<lparr>slip := cb\<rparr>)"
proof -
  define h where "h = h5_send_head ty (length payload) a"
  define pkt where "pkt = h5_packet ty payload a"
  define fr where "fr = slip_frame (oofEnable (slip a)) pkt"
  have crc: "hd_crc h \<noteq> 0" using a(3) ty by (auto simp: h_def h5_send_head_def h5_types)
  obtain d where d: "pkt = HCI_H5_PackHeader h @ d" "length d = length payload + 2"
    using crc by (auto simp: pkt_def h5_packet_def Let_def h_def)
  obtain a' where a': "HCI_H5_Send env ty payload a = Some (True, a')" "wire a' = wire a @ [fr]"
    using HCI_H5_Send_wf [OF a(1) len, of env ty] a(2) by (auto simp: fr_def pkt_def)
  have hok: "h5_head_ok h" using a(1) ty by (auto simp: h_def h5_send_head_def h5_head_ok_def h5_wf_def h5_types)
  have lp: "length pkt = 4 + (length payload + 2)" using HCI_H5_PackHeader_valid d by simp
  obtain cb where cb: "h5_receive env' now fr b = HCI_H5_PacketHandler env' now (slipDecodeBuf cb) (length pkt) (b\<lparr>slip := cb\<rparr>)"
      "take (length pkt) (slipDecodeBuf cb) = pkt" "length (slipDecodeBuf cb) = 308"
    using h5_receive_frame [of b pkt env' now "oofEnable (slip a)"] b lp len by (auto simp: fr_def h5_wf_def)
  let ?buf = "slipDecodeBuf cb" and ?b = "b\<lparr>slip := cb\<rparr>"
  let ?h = "h\<lparr>headCheckSum := HCI_H5_PackHeader h ! 3, payloadLen := payloadLen h AND 0xFF\<rparr>"
  have tb: "take (4 + (length payload + 2)) ?buf = HCI_H5_PackHeader h @ d" "4 + (length payload + 2) \<le> length ?buf"
    using cb(2,3) lp len d(1) by simp_all
  note hh = h5_handler_header [OF hok tb]
  have "h5_crc_ok ?buf (length pkt) = Some False"
    unfolding pkt_def by (rule h5_crc_ok_sender) (use crc len cb(2,3) lp in \<open>simp_all add: h_def pkt_def\<close>)
  then have dec: "HCI_H5_DecodeDataPdu env' now ?h ?buf (length pkt) ?b = Some ?b"
    using crc by (simp add: HCI_H5_DecodeDataPdu_def)
  have "HCI_H5_PacketHandler env' now ?buf (length pkt) ?b = Some ?b"
    unfolding HCI_H5_PacketHandler_def hh(1) hh(2) bind.bind_lunit using dec crc ty
    by (auto simp: h_def h5_send_head_def h5_types)
  then show ?thesis using a' cb(1) by auto
qed

definition h5_example :: "h5_link_state \<Rightarrow> h5_state" where
  "h5_example l =
     \<lparr>pHciRxFifo = \<lparr>hf_size = 16, hf_num = 2, hf_mask = 1, hf_wptr = 0, hf_rptr = 0, hf_p = replicate 32 0\<rparr>,
      pHciTxFifo = \<lparr>hf_size = 16, hf_num = 2, hf_mask = 1, hf_wptr = 0, hf_rptr = 0, hf_p = replicate 32 0\<rparr>,
      h5TxBuf = replicate 308 0, h5_config = hciH5Config, h5_tick = 0, linkState = l, rxSlidWinSize = 0, txSlidWinSize = 0,
      txSeq = 0, txAck = 0, rxAck = 0, isReliable = True, txTick = 0, rxTick = 0, resendTick = 0,
      slip = \<lparr>h5PktHandler = Some 1, slipDecodeBuf = replicate 308 0, slipEncodeBuf = replicate 620 0, decodeLen = 0,
              encodeLen = 0, oofEnable = False\<rparr>,
      sends = 0, wire = [], hciResets = 0\<rparr>"

definition uart_ready :: uart where
  "uart_ready = (\<lambda>_. \<lparr>ue_txDone = True, ue_sendRes = 1\<rparr>)"

lemma h5_example_fifo: "hf_ok \<lparr>hf_size = 16, hf_num = 2, hf_mask = 1, hf_wptr = 0, hf_rptr = 0, hf_p = replicate 32 0\<rparr>"
  by (auto simp: hf_ok_def pf_ok_def intro: exI [of _ 1])

lemma h5_example_ok:
  "h5_wf (h5_example l)" "linkState (h5_example l) = l" "h5_config (h5_example l) = hciH5Config" "hf_ok (pHciRxFifo (h5_example l))"
  "hf_view (pHciRxFifo (h5_example l)) = []" "txq_ok (pHciTxFifo (h5_example l))" "uart_takes uart_ready (h5_example l)"
  "h5PktHandler (slip (h5_example l)) \<noteq> None" "unat (hf_num (pHciRxFifo (h5_example l))) = 2"
  "unat (hf_size (pHciRxFifo (h5_example l))) = 16" "txSeq (h5_example l) = 0" "txAck (h5_example l) = 0" "wire (h5_example l) = []"
  using h5_example_fifo
  by (simp_all add: h5_example_def h5_wf_def slip_wf_def slip_sizes HCI_H5_TX_BUF_SIZE_def hciH5Config_def txq_ok_def
      hf_view_empty_iff [THEN iffD2] uart_takes_def uart_ready_def)

lemma hciH5Config_fields [simp]: "slidWinSize hciH5Config = 1" "dataIntgrtChkType hciH5Config = 0"
  by (simp_all add: hciH5Config_def)

section \<open>Properties\<close>

text \<open>
  End to end: a command, data or event packet of up to 255 payload bytes that one endpoint
  sends and its UART takes is, when the other endpoint's link is active, the sequence number is the
  one expected and there is room, decoded from the wire and appended to the receive FIFO as packet
  type and payload, unchanged; the expected sequence number advances modulo 8.
\<close>

theorem h5_end_to_end:
  assumes "h5_wf a" "uart_takes env a" "dataIntgrtChkType (h5_config a) = 0"
    and "h5_wf b" "linkState b = HCI_H5_LINK_STATE_ACTIVE" "slidWinSize (h5_config b) = 1" "h5PktHandler (slip b) \<noteq> None"
    and "HCI_H5_IsReliablePacket ty" "length payload < 256" "txSeq a = txAck b"
    and "hf_ok (pHciRxFifo b)" "length (hf_view (pHciRxFifo b)) < unat (hf_num (pHciRxFifo b))"
      "1 + length payload \<le> unat (hf_size (pHciRxFifo b))"
  shows "\<exists>a' b' fr rest. HCI_H5_Send env ty payload a = Some (True, a') \<and> wire a' = wire a @ [fr]
     \<and> h5_receive env' now fr b = Some b' \<and> h5_wf b' \<and> txAck b' = (txAck b + 1) mod 8
     \<and> hf_view (pHciRxFifo b') = hf_view (pHciRxFifo b) @ [(ty # payload) @ rest]"
  using assms by (rule h5_deliver)

theorem h5_end_to_end_witness:
  "\<exists>a' b' fr rest. HCI_H5_Send uart_ready 1 [3, 0x0C, 0] (h5_example HCI_H5_LINK_STATE_ACTIVE) = Some (True, a') \<and> wire a' = [fr]
     \<and> h5_receive uart_ready 9 fr (h5_example HCI_H5_LINK_STATE_ACTIVE) = Some b'
     \<and> hf_view (pHciRxFifo b') = [[1, 3, 0x0C, 0] @ rest]"
  using h5_end_to_end [of "h5_example HCI_H5_LINK_STATE_ACTIVE" uart_ready "h5_example HCI_H5_LINK_STATE_ACTIVE" 1 "[3, 0x0C, 0]" uart_ready 9]
  by (auto simp: h5_example_ok reliable_types)

text \<open>
  C8.  Reliable delivery is in order and without duplicates: over any sequence of well-formed
  reliable packets without integrity check, whose payloads fit the slots of the receive FIFO and which it could
  hold together with those already waiting (the code does not check for a full FIFO), what is appended to the
  FIFO are exactly the packets that carry the expected number at their turn, in their order;
  retransmissions and gaps leave it unchanged.
\<close>

theorem h5_in_order_delivery:
  assumes "h5_wf s" "slidWinSize (h5_config s) = 1" "hf_ok (pHciRxFifo s)"
    "length (hf_view (pHciRxFifo s)) + length ps \<le> unat (hf_num (pHciRxFifo s))" "\<forall>p \<in> set ps. h5_data_ok s p"
  shows "\<exists>s' ss. h5_data_run env now ps s = Some s' \<and> hf_view (pHciRxFifo s') = hf_view (pHciRxFifo s) @ ss
     \<and> list_all2 (\<lambda>d slot. take (length d) slot = d) (h5_accepted (txAck s) ps) ss"
  using assms by (rule h5_data_run_spec)

theorem h5_in_order_delivery_witness:
  "\<exists>s' slot. h5_data_run uart_ready 9
       [(\<lparr>seqNum = 0, ackNum = 0, hd_crc = 0, reliable = 1, pktType = 1, headCheckSum = 0, payloadLen = 1\<rparr>, [0, 0, 0, 0, 7]),
        (\<lparr>seqNum = 0, ackNum = 0, hd_crc = 0, reliable = 1, pktType = 1, headCheckSum = 0, payloadLen = 1\<rparr>, [0, 0, 0, 0, 7])]
       (h5_example HCI_H5_LINK_STATE_ACTIVE) = Some s'
     \<and> hf_view (pHciRxFifo s') = [slot] \<and> take (length [1, 7 :: u8]) slot = [1, 7]"
  using h5_in_order_delivery [of "h5_example HCI_H5_LINK_STATE_ACTIVE"
      "[(\<lparr>seqNum = 0, ackNum = 0, hd_crc = 0, reliable = 1, pktType = 1, headCheckSum = 0, payloadLen = 1\<rparr>, [0, 0, 0, 0, 7]),
        (\<lparr>seqNum = 0, ackNum = 0, hd_crc = 0, reliable = 1, pktType = 1, headCheckSum = 0, payloadLen = 1\<rparr>, [0, 0, 0, 0, 7])]"
      uart_ready 9]
  by (auto simp: h5_example_ok h5_data_ok_def list_all2_Cons1 simp del: h5_data_run.simps)

text \<open>
  No shortcut into the active state: a link that was idle and is active after a run of
  link-control packets has received a sync response and after it a configuration response.
\<close>

theorem h5_active_needs_handshake:
  assumes "h5_wf s" "\<forall>b \<in> set bs. 7 \<le> length b" "h5_link_run env now bs s = Some s'"
    and "linkState s = HCI_H5_LINK_STATE_IDLE" "linkState s' = HCI_H5_LINK_STATE_ACTIVE"
  shows "\<exists>us vs. map link_msg bs = us @ HCI_H5_MSG_SYNC_RSP # vs \<and> HCI_H5_MSG_CONFIG_RSP \<in> set vs"
proof -
  have "h5_link_path (map link_msg bs) (linkState s) (linkState s')"
    using h5_link_run_path [OF assms(1,2), of env now] assms(3) by auto
  then show ?thesis using assms(4,5) by (rule path_idle_active)
qed

theorem h5_active_needs_handshake_witness:
  "\<exists>s' us vs. h5_link_run uart_ready 9 [[0, 0, 0, 0, 2, 0x7D, 0], [0, 0, 0, 0, 4, 0x7B, 1]] (h5_example HCI_H5_LINK_STATE_IDLE) = Some s'
     \<and> linkState s' = HCI_H5_LINK_STATE_ACTIVE \<and> [0x7D02, 0x7B04] = us @ HCI_H5_MSG_SYNC_RSP # vs \<and> HCI_H5_MSG_CONFIG_RSP \<in> set vs"
proof -
  let ?bs = "[[0, 0, 0, 0, 2, 0x7D, 0], [0, 0, 0, 0, 4, 0x7B, 1]] :: bytes list" and ?s = "h5_example HCI_H5_LINK_STATE_IDLE"
  have m: "link_msg [0, 0, 0, 0, 2, 0x7D, 0] = HCI_H5_MSG_SYNC_RSP" "link_msg [0, 0, 0, 0, 4, 0x7B, 1] = HCI_H5_MSG_CONFIG_RSP"
    by (simp_all add: link_msg_def BYTES_TO_UINT16_def HCI_H5_HEAD_LEN_def rd8_def h5_msgs)
  obtain s' where s': "h5_link_run uart_ready 9 ?bs ?s = Some s'" "h5_link_path (map link_msg ?bs) (linkState ?s) (linkState s')"
    using h5_link_run_path [OF h5_example_ok(1), of ?bs uart_ready 9] by auto
  have "linkState s' = HCI_H5_LINK_STATE_ACTIVE"
    using s'(2) unfolding h5_example_ok(2) list.map m
    by (auto elim!: h5_link_path.cases link_from_idle link_from_init simp: h5_msgs)
  then show ?thesis using h5_active_needs_handshake [OF h5_example_ok(1) _ s'(1)] s'(1) by (auto simp: h5_example_ok m h5_msgs)
qed

text \<open>
  C9.  The link-control handler implements the link establishment of the three-wire specification,
  \<open>h5_link_outcome\<close>: it never faults, keeps the invariant, moves the link state by exactly one transition of
  \<open>h5_link_step\<close> for the received message, and puts exactly the reply of the specification on the wire, byte for byte
  (SYNC by SYNC RESPONSE, CONFIG by CONFIG RESPONSE, SYNC RESPONSE by CONFIG, anything else in the idle state by SYNC,
  nothing otherwise).  Becoming active and a sync message in the active state restart the link: numbers, windows
  and timers at their start values and both FIFOs empty, before the reply is sent; every other message leaves them as they
  are.  On becoming active each field of the configuration is the smaller of the two ends'; a sync message in
  the active state resets the controller, and nothing else does.
\<close>

theorem h5_link_pdu_refines:
  assumes "h5_wf s" "BYTES_TO_UINT16 buf HCI_H5_HEAD_LEN = Some msg" "rd8 buf (HCI_H5_HEAD_LEN + 2) = Some cfg"
  shows "\<exists>s'. HCI_H5_DecodeLinkPdu env now buf s = Some s' \<and> h5_wf s' \<and> h5_link_outcome env now msg cfg s s'"
  using assms by (rule HCI_H5_DecodeLinkPdu_spec)

theorem h5_link_pdu_refines_witness:
  "\<exists>s'. HCI_H5_DecodeLinkPdu uart_ready 9 [0, 0, 0, 0, 1, 0x7E, 0] ((h5_example HCI_H5_LINK_STATE_ACTIVE)\<lparr>txAck := 5\<rparr>) = Some s'
     \<and> linkState s' = HCI_H5_LINK_STATE_IDLE \<and> txAck s' = 0 \<and> hciResets s' = 1
     \<and> wire s' = [slip_frame False [0, 0x2F, 0, 0xD0, 0x02, 0x7D]]"
proof -
  let ?s = "(h5_example HCI_H5_LINK_STATE_ACTIVE)\<lparr>txAck := 5\<rparr>"
  have b: "BYTES_TO_UINT16 [0, 0, 0, 0, 1, 0x7E, 0] HCI_H5_HEAD_LEN = Some 0x7E01" "rd8 [0, 0, 0, 0, 1, 0x7E, 0] (HCI_H5_HEAD_LEN + 2) = Some 0"
    by (simp_all add: BYTES_TO_UINT16_def HCI_H5_HEAD_LEN_def rd8_def)
  have wf: "h5_wf ?s" using h5_example_ok(1) [of HCI_H5_LINK_STATE_ACTIVE] by (simp add: h5_wf_def)
  have e: "linkState ?s = HCI_H5_LINK_STATE_ACTIVE" "hciResets ?s = 0" "wire ?s = []" "uart_takes uart_ready ?s"
    by (simp_all add: h5_example_def uart_takes_def uart_ready_def)
  obtain s' where s': "HCI_H5_DecodeLinkPdu uart_ready 9 [0, 0, 0, 0, 1, 0x7E, 0] ?s = Some s'" "h5_link_outcome uart_ready 9 0x7E01 0 ?s s'"
    using h5_link_pdu_refines [OF wf b] by blast
  have l: "linkState s' = HCI_H5_LINK_STATE_IDLE"
    using h5_outcome_step [OF s'(2)] unfolding e(1) by (rule link_from_active) (simp_all add: h5_msgs)
  have f: "h5_link_frame 0 [0x02, 0x7D] = [0, 0x2F, 0, 0xD0, 0x02, 0x7D]" by code_simp
  show ?thesis using s' l e f
    by (simp add: h5_link_outcome_def Let_def h5_restarted_def)
qed

text \<open>
  C10.  A queued packet is not lost before the peer acknowledged it: the main loop, which sends and
  resends, never removes a packet from the transmit FIFO, and an acknowledge number other than the
  next one to be sent leaves the FIFO as it is, in a data packet and in a pure acknowledgement.
\<close>

theorem h5_no_loss_before_ack:
  assumes "h5_wf s" "txq_ok (pHciTxFifo s)"
  shows "(\<exists>s'. HCI_H5_Poll env now s = Some s' \<and> h5_wf s' \<and> hf_view (pHciTxFifo s') = hf_view (pHciTxFifo s))
     \<and> (ackNum h \<noteq> txSeq s \<longrightarrow> hf_view (pHciTxFifo (h5_take_ack now h s)) = hf_view (pHciTxFifo s))
     \<and> (rxAck s \<noteq> txSeq s \<longrightarrow> hf_view (pHciTxFifo (HCI_H5_ReSendCheck now s)) = hf_view (pHciTxFifo s))"
  using HCI_H5_Poll_spec [OF assms, of env now] by (auto simp: h5_take_ack_def HCI_H5_ReSendCheck_def)

theorem h5_no_loss_before_ack_witness:
  "\<exists>s'. HCI_H5_Poll uart_ready 9 (h5_example HCI_H5_LINK_STATE_ACTIVE) = Some s' \<and> hf_view (pHciTxFifo s') = []"
proof -
  have "hf_view (pHciTxFifo (h5_example HCI_H5_LINK_STATE_ACTIVE)) = []" by (simp add: h5_example_def hf_view_empty_iff)
  then show ?thesis using h5_no_loss_before_ack [OF h5_example_ok(1,6), of uart_ready 9] by metis
qed

text \<open>
  A packed header passes the receiver's checksum test and unpacks to the same fields, for
  every header whose fields fit their bits and whose payload is shorter than 256 bytes.
\<close>

theorem h5_header_roundtrip:
  assumes "h5_head_ok h" "unat (payloadLen h) < 256"
  shows "HCI_H5_IsCheckSumValid (HCI_H5_PackHeader h) \<and> length (HCI_H5_PackHeader h) = 4
     \<and> (\<exists>c. HCI_H5_UnpackHeader (HCI_H5_PackHeader h @ rest) = Some (h\<lparr>headCheckSum := c\<rparr>))"
proof -
  have "payloadLen h AND 0xFF = payloadLen h"
    using assms(2) unat_and_mask_pow2 [of "0xFF :: u16" 8 "payloadLen h"] by (simp add: word_unat_eq_iff)
  then show ?thesis using HCI_H5_Unpack_Pack [OF assms(1), of rest] HCI_H5_PackHeader_valid [of h] by auto
qed

theorem h5_header_roundtrip_witness:
  "HCI_H5_IsCheckSumValid (HCI_H5_PackHeader
     \<lparr>seqNum = 5, ackNum = 2, hd_crc = 1, reliable = 1, pktType = 4, headCheckSum = 0, payloadLen = 200\<rparr>)"
  using h5_header_roundtrip [of "\<lparr>seqNum = 5, ackNum = 2, hd_crc = 1, reliable = 1, pktType = 4, headCheckSum = 0, payloadLen = 200\<rparr>"]
  by (simp add: h5_head_ok_def)

text \<open>
  The header packer keeps only eight bits of the twelve-bit length: a packet of 256 to 300
  payload bytes, which the transmit buffer takes, is sent with a truncated length and the receiver
  discards it.
\<close>

theorem h5_long_payload_dropped:
  assumes "h5_wf a" "uart_takes env a" "dataIntgrtChkType (h5_config a) = 0" "h5_wf b" "h5PktHandler (slip b) \<noteq> None"
    and "HCI_H5_IsReliablePacket ty" "256 \<le> length payload" "length payload \<le> 300"
  shows "\<exists>a' cb fr. HCI_H5_Send env ty payload a = Some (True, a') \<and> wire a' = wire a @ [fr]
     \<and> h5_receive env' now fr b = Some (b\<lparr>slip := cb\<rparr>)"
  using assms by (rule h5_truncated_dropped)

theorem h5_long_payload_dropped_witness:
  "\<exists>a' cb fr. HCI_H5_Send uart_ready 2 (replicate 256 7) (h5_example HCI_H5_LINK_STATE_ACTIVE) = Some (True, a') \<and> wire a' = [fr]
     \<and> h5_receive uart_ready 9 fr (h5_example HCI_H5_LINK_STATE_ACTIVE) = Some ((h5_example HCI_H5_LINK_STATE_ACTIVE)\<lparr>slip := cb\<rparr>)"
  using h5_long_payload_dropped [of "h5_example HCI_H5_LINK_STATE_ACTIVE" uart_ready "h5_example HCI_H5_LINK_STATE_ACTIVE" 2
      "replicate 256 7" uart_ready 9]
  by (auto simp: h5_example_ok reliable_types)

text \<open>
  A header in which one byte was corrupted is discarded without any effect.
\<close>

theorem h5_header_error_discarded:
  assumes "HCI_H5_IsCheckSumValid (take 4 buf)" "4 \<le> length buf" "i < 4" "b' \<noteq> buf ! i"
  shows "HCI_H5_PacketHandler env now (buf[i := b']) len s = Some s"
proof -
  have l: "length (take 4 buf) = 4" using assms(2) by simp
  have "sum_list ((take 4 buf)[i := b']) = sum_list (take 4 buf) + b' - take 4 buf ! i"
    using assms(3) l by (subst (2) id_take_nth_drop [of i "take 4 buf"]) (simp_all add: upd_conv_take_nth_drop)
  moreover have "take 4 buf ! i = buf ! i" using assms(3) by simp
  ultimately have "\<not> HCI_H5_IsCheckSumValid ((take 4 buf)[i := b'])"
    using assms(1,4) by (simp add: HCI_H5_IsCheckSumValid_iff)
  then show ?thesis using assms(2)
    by (simp add: HCI_H5_PacketHandler_def rd_range_def HCI_H5_HEAD_LEN_def take_update_swap)
qed

theorem h5_header_error_discarded_witness:
  "HCI_H5_PacketHandler uart_ready 9 ([0, 0, 0, 0xFF][2 := 1]) 4 (h5_example HCI_H5_LINK_STATE_ACTIVE) = Some (h5_example HCI_H5_LINK_STATE_ACTIVE)"
  by (rule h5_header_error_discarded) (simp_all add: HCI_H5_IsCheckSumValid_def)

text \<open>
  C36.  With the integrity check on the two ends never agree: the sender starts its CRC register at \<open>0xFFFF\<close>, the
  receiver at zero.  Whatever data packet \<^verbatim>\<open>HCI_H5_Send\<close> builds (a command, ACL, event or SCO packet of at most 300
  bytes), it hands the UART the SLIP frame of its transmit buffer, and a receiver that gets exactly the bytes
  of that buffer discards them without any effect.
\<close>

theorem h5_crc_never_accepted:
  assumes "h5_wf a" "uart_takes env a" "dataIntgrtChkType (h5_config a) \<noteq> 0" "h5_wf b" "h5PktHandler (slip b) \<noteq> None"
    and "ty \<in> {HCI_H5_PKT_TYPE_CMD, HCI_H5_PKT_TYPE_ACL, HCI_H5_PKT_TYPE_SCO, HCI_H5_PKT_TYPE_EVT}" "length payload \<le> 300"
  shows "\<exists>a' cb fr. HCI_H5_Send env ty payload a = Some (True, a') \<and> wire a' = wire a @ [fr]
     \<and> h5_receive env' now fr b = Some (b\<lparr>slip := cb\<rparr>)"
  using assms by (rule h5_protected_dropped)

theorem h5_crc_never_accepted_witness:
  "let a = (h5_example HCI_H5_LINK_STATE_ACTIVE)\<lparr>h5_config := hciH5Config\<lparr>dataIntgrtChkType := 1\<rparr>\<rparr> in
   \<exists>a' cb fr. HCI_H5_Send uart_ready 1 [7, 8] a = Some (True, a') \<and> wire a' = [fr] \<and> h5_receive uart_ready 9 fr a = Some (a\<lparr>slip := cb\<rparr>)"
proof -
  let ?a = "(h5_example HCI_H5_LINK_STATE_ACTIVE)\<lparr>h5_config := hciH5Config\<lparr>dataIntgrtChkType := 1\<rparr>\<rparr>"
  have "h5_wf ?a" using h5_example_ok(1) [of HCI_H5_LINK_STATE_ACTIVE] by (simp add: h5_wf_def hciH5Config_def)
  moreover have "uart_takes uart_ready ?a" "wire ?a = []" "h5PktHandler (slip ?a) \<noteq> None"
    by (simp_all add: uart_takes_def uart_ready_def h5_example_def)
  ultimately show ?thesis using h5_crc_never_accepted [of ?a uart_ready ?a 1 "[7, 8]" uart_ready 9]
    by (simp add: HCI_H5_PKT_TYPE_CMD_def Let_def)
qed

end
