(* ===== verification/Nor_Flash.thy ===== *)
theory Nor_Flash
  imports Telink_Prelude
begin

unbundle bit_operations_syntax

text \<open>
  The internal flash driver (\<^verbatim>\<open>drivers/B91/flash.c\<close>) on which the firmware download writes.
  The chip behind the driver is a serial NOR flash with 24-bit addresses: a program command clears
  bits inside one 256-byte page and wraps at the end of that page, an erase command sets a whole
  4-KByte sector to \<open>0xFF\<close>, a read command streams consecutive bytes.  The driver splits a write
  at the page boundaries.  The locale \<open>nor_flash\<close> is the contract the clients of the driver rely
  on; the driver interprets it.
\<close>

section \<open>The chip commands\<close>

type_synonym flash_mem = "24 word \<Rightarrow> u8"

datatype flash_command_e = FLASH_WRITE_CMD | FLASH_QUAD_PAGE_PROGRAM_CMD | FLASH_SECT_ERASE_CMD

text \<open>\<^verbatim>\<open>flash_send_addr\<close> shifts out the three low bytes of the address.\<close>

definition flash_send_addr :: "u32 \<Rightarrow> 24 word" where
  "flash_send_addr addr = ucast addr"

text \<open>The cell that byte \<open>i\<close> of a page program started at \<open>a\<close> goes to.\<close>

definition page_cell :: "24 word \<Rightarrow> nat \<Rightarrow> 24 word" where
  "page_cell a i = (a AND 0xFFFF00) OR ((a + of_nat i) AND 0xFF)"

fun page_program :: "24 word \<Rightarrow> nat \<Rightarrow> bytes \<Rightarrow> flash_mem \<Rightarrow> flash_mem" where
  "page_program a i [] m = m"
| "page_program a i (b # bs) m =
     page_program a (Suc i) bs (m(page_cell a i := m (page_cell a i) AND b))"

definition sector_erase :: "24 word \<Rightarrow> flash_mem \<Rightarrow> flash_mem" where
  "sector_erase a m = (\<lambda>x. if drop_bit 12 x = drop_bit 12 a then 0xFF else m x)"

fun flash_mspi_write_ram :: "flash_command_e \<Rightarrow> u32 \<Rightarrow> bytes \<Rightarrow> flash_mem \<Rightarrow> flash_mem" where
  "flash_mspi_write_ram FLASH_SECT_ERASE_CMD addr data m = sector_erase (flash_send_addr addr) m"
| "flash_mspi_write_ram FLASH_WRITE_CMD addr data m = page_program (flash_send_addr addr) 0 data m"
| "flash_mspi_write_ram FLASH_QUAD_PAGE_PROGRAM_CMD addr data m =
     page_program (flash_send_addr addr) 0 data m"

definition flash_mspi_read_ram :: "u32 \<Rightarrow> nat \<Rightarrow> flash_mem \<Rightarrow> bytes" where
  "flash_mspi_read_ram addr n m = map (\<lambda>i. m (flash_send_addr addr + of_nat i)) [0..<n]"

section \<open>The driver\<close>

definition PAGE_SIZE :: nat where "PAGE_SIZE = 256"

text \<open>
  The loop of \<^verbatim>\<open>flash_write\<close>: \<open>ns\<close> is the room left in the current page.  The source buffers
  of the modelled clients are in RAM, so the copy for flash-resident buffers is not taken.
\<close>

function flash_write_loop :: "flash_command_e \<Rightarrow> nat \<Rightarrow> u32 \<Rightarrow> bytes \<Rightarrow> flash_mem \<Rightarrow> flash_mem" where
  "flash_write_loop cmd ns addr buf m =
     (if buf = [] then m
      else let nw = (if length buf > ns then ns else length buf) in
        flash_write_loop cmd PAGE_SIZE (addr + of_nat nw) (drop nw buf)
          (flash_mspi_write_ram cmd addr (take nw buf) m))"
  by pat_completeness auto
termination
  by (relation "measure (\<lambda>(_, ns, _, buf, _). 2 * length buf + (if ns = 0 then 1 else 0))")
     (auto simp: PAGE_SIZE_def)

declare flash_write_loop.simps [simp del]

definition flash_write :: "flash_command_e \<Rightarrow> u32 \<Rightarrow> bytes \<Rightarrow> flash_mem \<Rightarrow> flash_mem" where
  "flash_write cmd addr buf m =
     flash_write_loop cmd (PAGE_SIZE - unat (addr AND of_nat (PAGE_SIZE - 1))) addr buf m"

definition flash_page_program :: "u32 \<Rightarrow> bytes \<Rightarrow> flash_mem \<Rightarrow> flash_mem" where
  "flash_page_program addr buf m = flash_write FLASH_WRITE_CMD addr buf m"

definition flash_quad_page_program :: "u32 \<Rightarrow> bytes \<Rightarrow> flash_mem \<Rightarrow> flash_mem" where
  "flash_quad_page_program addr buf m = flash_write FLASH_QUAD_PAGE_PROGRAM_CMD addr buf m"

definition flash_dread :: "u32 \<Rightarrow> nat \<Rightarrow> flash_mem \<Rightarrow> bytes" where
  "flash_dread addr len m = flash_mspi_read_ram addr len m"

definition flash_erase_sector :: "u32 \<Rightarrow> flash_mem \<Rightarrow> flash_mem" where
  "flash_erase_sector addr m = flash_mspi_write_ram FLASH_SECT_ERASE_CMD addr [] m"

section \<open>The driver programs a linear range\<close>

text \<open>Reference: programming byte after byte at consecutive addresses.\<close>

fun linear_program :: "24 word \<Rightarrow> bytes \<Rightarrow> flash_mem \<Rightarrow> flash_mem" where
  "linear_program a [] m = m"
| "linear_program a (b # bs) m = linear_program (a + 1) bs (m(a := m a AND b))"

lemma linear_program_append:
  "linear_program a (xs @ ys) m = linear_program (a + of_nat (length xs)) ys (linear_program a xs m)"
  by (induction xs arbitrary: a m) (simp_all add: ac_simps)

lemma page_masks: "(0xFFFF00 OR 0xFF :: 24 word) = -1"
  by simp

lemma page_cell_inside:
  assumes "unat (a AND 0xFF) + i < 256"
  shows "page_cell a i = a + of_nat i"
proof -
  have m: "unat (0xFF :: 24 word) + 1 = 2 ^ 8" by simp
  have lo: "unat (a AND 0xFF) = unat a mod 256" using unat_and_mask_pow2 [OF m, of a] by simp
  have split: "a = (a AND 0xFFFF00) + (a AND 0xFF)"
  proof -
    have "a = (a AND 0xFFFF00) OR (a AND 0xFF)"
    proof -
      have "a AND (0xFFFF00 OR 0xFF) = (a AND 0xFFFF00) OR (a AND 0xFF)" by (rule bit.conj_disj_distrib)
      moreover have "a AND (0xFFFF00 OR 0xFF) = a"
        unfolding page_masks by (rule and.right_neutral)
      ultimately show ?thesis by simp
    qed
    also have "\<dots> = (a AND 0xFFFF00) + (a AND 0xFF)"
    proof (rule disjunctive_add_eq_or [symmetric])
      have "(a AND 0xFFFF00) AND (a AND 0xFF) = a AND (0xFFFF00 AND 0xFF)"
        by (simp only: and.assoc and.left_commute and.left_idem)
      then show "(a AND 0xFFFF00) AND (a AND 0xFF) = 0" by simp
    qed
    finally show ?thesis .
  qed
  let ?r = "(a AND 0xFF) + of_nat i :: 24 word"
  have ui: "unat (of_nat i :: 24 word) = i" using assms by (simp add: unat_of_nat)
  have ur: "unat ?r = unat (a AND 0xFF) + i"
    using assms ui by (subst unat_word_add_no_wrap) simp_all
  have r8: "?r AND 0xFF = ?r"
    using unat_and_mask_pow2 [OF m, of ?r] ur assms by (simp add: word_unat_eq_iff)
  have low: "(a + of_nat i) AND 0xFF = ?r"
  proof -
    have "unat ((a + of_nat i) AND 0xFF) = unat (a + of_nat i) mod 256"
      using unat_and_mask_pow2 [OF m, of "a + of_nat i"] by simp
    also have "\<dots> = (unat a + i) mod 256"
      by (simp add: unat_word_ariths(1) ui mod_mod_cancel)
    also have "\<dots> = (unat a mod 256 + i) mod 256" by (simp add: mod_simps)
    also have "\<dots> = unat ?r" using assms lo ur by simp
    finally show ?thesis by (simp add: word_unat_eq_iff)
  qed
  have disj: "(a AND 0xFFFF00) AND ?r = 0"
  proof -
    have "(a AND 0xFFFF00) AND ?r = (a AND 0xFFFF00) AND (?r AND 0xFF)" by (simp only: r8)
    also have "\<dots> = (a AND ?r) AND (0xFFFF00 AND 0xFF)" by (simp only: ac_simps)
    finally show ?thesis by simp
  qed
  have "page_cell a i = (a AND 0xFFFF00) OR ?r" by (simp add: page_cell_def low)
  also have "\<dots> = (a AND 0xFFFF00) + ?r" by (rule disjunctive_add_eq_or [symmetric, OF disj])
  also have "\<dots> = a + of_nat i" by (subst (3) split) (simp add: ac_simps)
  finally show ?thesis .
qed

lemma page_program_linear:
  "unat (a AND 0xFF) + i + length bs \<le> 256 \<Longrightarrow>
     page_program a i bs m = linear_program (a + of_nat i) bs m"
proof (induction bs arbitrary: i m)
  case Nil
  then show ?case by simp
next
  case (Cons b bs)
  then show ?case by (simp add: page_cell_inside ac_simps fun_upd_def)
qed


lemma flash_mspi_write_ram_linear:
  assumes "cmd \<noteq> FLASH_SECT_ERASE_CMD" "unat (flash_send_addr addr AND 0xFF) + length bs \<le> 256"
  shows "flash_mspi_write_ram cmd addr bs m = linear_program (flash_send_addr addr) bs m"
  using assms page_program_linear [of "flash_send_addr addr" 0 bs m] by (cases cmd) simp_all

lemma unat_send_addr: "unat (flash_send_addr a) = unat a mod 2 ^ 24"
  by (simp add: flash_send_addr_def unsigned_ucast_eq take_bit_eq_mod)

lemma send_addr_add: "flash_send_addr (a + of_nat n) = flash_send_addr a + of_nat n"
proof -
  have "unat (a + of_nat n) mod 2 ^ 24 = (unat a + n) mod 2 ^ 24"
    by (simp add: unat_word_ariths(1) unat_of_nat mod_mod_cancel mod_simps)
  moreover have "unat (flash_send_addr a + of_nat n) = (unat a + n) mod 2 ^ 24"
    by (simp add: unat_word_ariths(1) unat_of_nat unat_send_addr mod_simps)
  ultimately show ?thesis unfolding word_unat_eq_iff unat_send_addr by simp
qed

lemma send_addr_page:
  "unat (flash_send_addr a AND 0xFF) = unat (a AND of_nat (PAGE_SIZE - 1))"
proof -
  have "unat (flash_send_addr a AND 0xFF) = unat a mod 2 ^ 24 mod 2 ^ 8"
    by (subst unat_and_mask_pow2 [of _ 8]) (simp_all add: unat_send_addr)
  also have "\<dots> = unat a mod 2 ^ 8" by (simp add: mod_mod_cancel)
  also have "\<dots> = unat (a AND of_nat (PAGE_SIZE - 1))"
    by (subst unat_and_mask_pow2 [of _ 8]) (simp_all add: PAGE_SIZE_def)
  finally show ?thesis .
qed

lemma unat_and_FF: "unat ((a :: 24 word) AND 0xFF) = unat a mod 256"
  by (subst unat_and_mask_pow2 [of _ 8]) simp_all

lemma next_page_aligned:
  "(a + of_nat (256 - unat (a AND 0xFF))) AND 0xFF = (0 :: 24 word)"
proof -
  have add: "unat ((a + of_nat k) AND 0xFF) = (unat a + k) mod 256" for k
    by (simp add: unat_and_FF unat_word_ariths(1) unat_of_nat mod_mod_cancel mod_simps)
  have "unat ((a + of_nat (256 - unat a mod 256)) AND 0xFF) = (unat a + (256 - unat a mod 256)) mod 256"
    by (rule add)
  also have "\<dots> = (unat a mod 256 + (256 - unat a mod 256)) mod 256" by (simp only: mod_simps)
  also have "\<dots> = 0" by simp
  finally show ?thesis unfolding word_unat_eq_iff unat_0 by (simp only: unat_and_FF)
qed

lemma flash_write_loop_linear:
  assumes "cmd \<noteq> FLASH_SECT_ERASE_CMD"
  shows "ns = 256 - unat (flash_send_addr addr AND 0xFF) \<Longrightarrow>
     flash_write_loop cmd ns addr buf m = linear_program (flash_send_addr addr) buf m"
  using assms
proof (induction cmd ns addr buf m rule: flash_write_loop.induct)
  case (1 cmd ns addr buf m)
  let ?n = "if length buf > ns then ns else length buf"
  let ?m = "flash_mspi_write_ram cmd addr (take ?n buf) m"
  have m: "?m = linear_program (flash_send_addr addr) (take ?n buf) m"
    using 1(2,3) unat_and_FF [of "flash_send_addr addr"] by (intro flash_mspi_write_ram_linear) auto
  show ?case
  proof (cases "length buf \<le> ns")
    case True
    then show ?thesis using m by (simp add: flash_write_loop.simps)
  next
    case False
    have "flash_send_addr (addr + of_nat ns) AND 0xFF = 0"
      unfolding send_addr_add 1(2) by (rule next_page_aligned)
    then have "flash_write_loop cmd PAGE_SIZE (addr + of_nat ns) (drop ns buf) ?m
        = linear_program (flash_send_addr (addr + of_nat ns)) (drop ns buf) ?m"
      using False 1(1) [OF _ refl] 1(3) by (cases "buf = []") (auto simp: PAGE_SIZE_def)
    then show ?thesis using False m
      linear_program_append [of "flash_send_addr addr" "take ns buf" "drop ns buf" m]
      by (subst flash_write_loop.simps) (auto simp: send_addr_add Let_def)
  qed
qed

lemma flash_write_linear:
  "cmd \<noteq> FLASH_SECT_ERASE_CMD \<Longrightarrow>
     flash_write cmd addr buf m = linear_program (flash_send_addr addr) buf m"
  unfolding flash_write_def
  by (rule flash_write_loop_linear) (simp_all add: send_addr_page PAGE_SIZE_def)

text \<open>What a linear program leaves in a cell.\<close>

lemma linear_program_cell:
  "length d \<le> 2 ^ 24 \<Longrightarrow>
     linear_program a d m x = (if unat (x - a) < length d then m x AND d ! unat (x - a) else m x)"
proof (induction d arbitrary: a m)
  case Nil
  then show ?case by simp
next
  case (Cons b bs)
  show ?case
  proof (cases "x = a")
    case True
    have "x - (a + 1) = 0xFFFFFF" using True by simp
    then have "unat (x - (a + 1)) = unat (0xFFFFFF :: 24 word)" by (rule arg_cong)
    then have "\<not> unat (x - (a + 1)) < length bs" using Cons.prems by simp
    then show ?thesis using True Cons by simp
  next
    case False
    then have nz: "x - a \<noteq> 0" by simp
    then have "unat (x - a - 1) = unat (x - a) - 1" by (rule unat_minus_one)
    moreover have "unat (x - a) \<noteq> 0" using nz by (simp only: unat_eq_zero not_False_eq_True)
    ultimately obtain k where k: "unat (x - a) = Suc k" "unat (x - (a + 1)) = k"
      by (cases "unat (x - a)") (simp_all add: diff_diff_add)
    show ?thesis using False k Cons by simp
  qed
qed

lemma and_FF_u8: "0xFF AND (b :: u8) = b" "b AND 0xFF = b"
proof -
  have "(0xFF :: u8) = -1" by simp
  then show "0xFF AND b = b" "b AND 0xFF = b" by (simp_all only: and.left_neutral and.right_neutral)
qed

lemma ucast_add_24: "(ucast (a + b :: u32) :: 24 word) = ucast a + ucast b"
  using send_addr_add [of a "unat b"] by (simp add: flash_send_addr_def)

lemma ucast_of_nat_24: "(ucast (of_nat n :: u32) :: 24 word) = of_nat n"
  using send_addr_add [of 0 n] by (simp add: flash_send_addr_def)

lemma sector_index:
  fixes B x :: "24 word"
  assumes B: "unat B mod 0x1000 = 0" and i: "i mod 0x1000 = 0" "i < 2 ^ 24"
  shows "drop_bit 12 x = drop_bit 12 (B + of_nat i) \<longleftrightarrow> i \<le> unat (x - B) \<and> unat (x - B) < i + 0x1000"
proof -
  obtain b where b: "unat B = 0x1000 * b" using B by (metis mod_0_imp_dvd dvdE)
  obtain j where j: "i = 0x1000 * j" using i(1) by (metis mod_0_imp_dvd dvdE)
  have jl: "j < 4096" using i(2) j by simp
  let ?y = "unat (x - B)"
  have yl: "?y < 2 ^ 24" using unsigned_less [of "x - B"] by simp
  have q: "?y div 4096 < 4096" using yl by (intro less_mult_imp_div_less) simp
  have idx: "unat (drop_bit 12 (B + of_nat k)) = (b + k div 4096) mod 4096" if "k < 2 ^ 24" for k
  proof -
    have "unat (drop_bit 12 (B + of_nat k)) = (0x1000 * b + k) mod 0x1000000 div 0x1000"
      using that b unfolding unsigned_drop_bit_eq
      by (simp add: drop_bit_eq_div take_bit_eq_mod unat_word_ariths(1) unat_of_nat mod_simps)
    also have "\<dots> = (0x1000 * b + k) div 0x1000 mod 0x1000"
      using mod_mult2_eq [of "0x1000 * b + k" "0x1000" "0x1000"] by simp
    also have "(0x1000 * b + k) div 0x1000 = b + k div 0x1000" by simp
    finally show ?thesis .
  qed
  have x: "x = B + of_nat ?y" by simp
  have "drop_bit 12 x = drop_bit 12 (B + of_nat i) \<longleftrightarrow> (b + ?y div 4096) mod 4096 = (b + j) mod 4096"
    unfolding word_unat_eq_iff using idx [OF yl] idx [OF i(2)] j by simp
  also have "\<dots> \<longleftrightarrow> ?y div 4096 = j" using ring_mod_inj [OF q jl, of b] by auto
  also have "\<dots> \<longleftrightarrow> i \<le> ?y \<and> ?y < i + 0x1000"
  proof -
    have "y div 4096 = j \<longleftrightarrow> 4096 * j \<le> y \<and> y < 4096 * j + 4096" for y :: nat
    proof
      assume "y div 4096 = j"
      then show "4096 * j \<le> y \<and> y < 4096 * j + 4096"
        using mult_div_mod_eq [of 4096 y] mod_less_divisor [of 4096 y] by linarith
    qed (auto intro!: div_nat_eqI)
    then show ?thesis unfolding j by simp
  qed
  finally show ?thesis .
qed

lemma aligned_24:
  assumes "(a :: u32) AND 0xFFF = 0"
  shows "unat (ucast a :: 24 word) mod 0x1000 = 0"
proof -
  have "unat (a AND 0xFFF) = unat a mod 2 ^ 12" by (rule unat_and_mask_pow2) simp
  then have "unat a mod 0x1000 = 0" using assms by simp
  then show ?thesis by (simp add: unsigned_ucast_eq take_bit_eq_mod mod_mod_cancel)
qed

section \<open>The contract of the flash driver\<close>

locale nor_flash =
  fixes wr :: "u32 \<Rightarrow> bytes \<Rightarrow> 'm \<Rightarrow> 'm" and rd :: "u32 \<Rightarrow> nat \<Rightarrow> 'm \<Rightarrow> bytes"
    and er :: "u32 \<Rightarrow> 'm \<Rightarrow> 'm" and cell :: "'m \<Rightarrow> 24 word \<Rightarrow> u8"
  assumes cell_wr: "length d \<le> 2 ^ 24 \<Longrightarrow> cell (wr a d m) x =
      (if unat (x - ucast a) < length d then cell m x AND d ! unat (x - ucast a) else cell m x)"
    and cell_er: "cell (er a m) x = (if drop_bit 12 x = drop_bit 12 (ucast a :: 24 word) then 0xFF else cell m x)"
    and rd_cells: "rd a n m = map (\<lambda>i. cell m (ucast a + of_nat i)) [0..<n]"
begin

definition erased :: "u32 \<Rightarrow> nat \<Rightarrow> 'm \<Rightarrow> bool" where
  "erased a n m \<longleftrightarrow> (\<forall>i < n. cell m (ucast a + of_nat i) = 0xFF)"

lemma rd_length [simp]: "length (rd a n m) = n"
  by (simp add: rd_cells)

lemma rd_nth: "i < n \<Longrightarrow> rd a n m ! i = cell m (ucast a + of_nat i)"
  by (simp add: rd_cells)

lemma cell_wr_inside:
  "length d \<le> 2 ^ 24 \<Longrightarrow> i < length d \<Longrightarrow>
     cell (wr a d m) (ucast a + of_nat i) = cell m (ucast a + of_nat i) AND d ! i"
  by (simp add: cell_wr unat_of_nat)

text \<open>Data programmed into erased cells is read back unchanged.\<close>

lemma rd_wr_erased:
  assumes "erased a (length d) m" "length d \<le> 2 ^ 24"
  shows "rd a (length d) (wr a d m) = d"
  using assms by (intro nth_equalityI) (simp_all add: rd_nth cell_wr_inside erased_def and_FF_u8)

end

interpretation flash: nor_flash flash_page_program flash_dread flash_erase_sector "\<lambda>m. m"
proof unfold_locales
  show "flash_page_program a d m x =
      (if unat (x - ucast a) < length d then m x AND d ! unat (x - ucast a) else m x)"
    if "length d \<le> 2 ^ 24" for a d m x
    using that by (simp add: flash_page_program_def flash_write_linear linear_program_cell flash_send_addr_def)
qed (simp_all add: flash_erase_sector_def sector_erase_def flash_send_addr_def flash_dread_def flash_mspi_read_ram_def)

section \<open>Properties\<close>

text \<open>
  C31.  The driver accepts a write of any length at any address: splitting it at the page
  boundaries it never lets the chip wrap inside a page, so that every addressed cell is combined
  with its own byte and no other cell of the chip changes.
\<close>

theorem flash_page_program_linear:
  assumes "length buf \<le> 2 ^ 24"
  shows "flash_page_program addr buf m x =
     (if unat (x - ucast addr) < length buf then m x AND buf ! unat (x - ucast addr) else m x)"
  using assms by (rule flash.cell_wr)

theorem flash_page_program_linear_witness:
  "flash_page_program 0xFE [1, 2, 3, 4] (\<lambda>_. 0xFF) 0x101 = 4"
  using flash_page_program_linear [of "[1, 2, 3, 4]" "0xFE" "\<lambda>_. 0xFF" "0x101"] by simp

end
