(* ===== verification/Hci_Dfu.thy ===== *)
theory Hci_Dfu
  imports Crc Hci_Fifo Nor_Flash
begin

unbundle bit_operations_syntax

text \<open>
  Firmware download over HCI (\<^verbatim>\<open>hci_transport/hci_dfu.c\<close> with the flash wrappers of
  \<^verbatim>\<open>hci_dfu_port.c\<close>): the vendor commands that start a download, carry its data blocks and end
  it, the command dispatcher, the task that reboots, terminates or times out, and the
  initialisation.

  The state holds the control block \<^verbatim>\<open>dfuCb\<close>, the transmit FIFO \<^verbatim>\<open>bltHci_txfifo\<close> that takes the
  events, the flash, and the list of calls made into the precompiled controller library (newest
  last).  What the code reads from that library are arguments: the tick \<open>now\<close>, the revision \<open>ver\<close>
  that \<^verbatim>\<open>hci_get_revision\<close> returns, the start address \<open>nxt\<close> that
  \<^verbatim>\<open>blc_ota_getNextFirmwareStartAddress\<close> returns and the UART state \<open>busy\<close>.
  The buffer of a command is the list of its bytes; the handlers of the parameters get the
  buffer from the first parameter on, and \<open>None\<close> is an access outside the buffer.
\<close>

section \<open>Data\<close>

datatype dfu_status = DFU_STA_NONE | DFU_STA_START | DFU_STA_END | DFU_STA_TERM

record DfuCb_t =
  newFwAddrStart :: u32
  maxFwSize :: u32
  nextFwAddrStart :: u32
  newFwSize :: u32
  fwOffset :: u32
  curCrc :: u32
  dfu_timer :: u32
  dfu_sta :: dfu_status
  resendCnt :: u8

datatype dfu_call = Call_HciReset | Call_Reboot | Call_SetRevision u16 | Call_RegisterHandler

record dfu_state =
  ds_cb :: DfuCb_t
  ds_tx :: hci_fifo_t
  ds_flash :: flash_mem
  ds_calls :: "dfu_call list"

definition HCI_SUCCESS :: u8 where "HCI_SUCCESS = 0"
definition HCI_ERR_FW_VER :: u8 where "HCI_ERR_FW_VER = 0xA0"
definition HCI_ERR_DFU_DISABLED :: u8 where "HCI_ERR_DFU_DISABLED = 0xA2"
definition HCI_ERR_DFU_ENABLED :: u8 where "HCI_ERR_DFU_ENABLED = 0xA3"
definition HCI_ERR_FW_CHECKSUM :: u8 where "HCI_ERR_FW_CHECKSUM = 0xA4"
definition HCI_ERR_FW_CRC :: u8 where "HCI_ERR_FW_CRC = 0xA5"
definition HCI_ERR_FW_INCOMPLETE :: u8 where "HCI_ERR_FW_INCOMPLETE = 0xA6"
definition HCI_ERR_DATA_LENGTH :: u8 where "HCI_ERR_DATA_LENGTH = 0xA7"
definition HCI_ERR_INVALID_PARAM :: u8 where "HCI_ERR_INVALID_PARAM = 0xA8"
text \<open>\<^verbatim>\<open>HCI_ERR_CMD_DISALLOWED\<close> of \<^verbatim>\<open>stack/ble/ble_common.h\<close>.\<close>
definition HCI_ERR_CMD_DISALLOWED :: u8 where "HCI_ERR_CMD_DISALLOWED = 0x0C"

definition DFU_FW_VERSION :: u16 where "DFU_FW_VERSION = 0x0040"
definition DFU_NEW_FW_ADDR_BASE :: u32 where "DFU_NEW_FW_ADDR_BASE = 0x40000"
definition DFU_NEW_FW_MAX_SIZE :: u32 where "DFU_NEW_FW_MAX_SIZE = 0x40000 - 0x1000"
definition DFU_MAX_PAYLOAD :: u32 where "DFU_MAX_PAYLOAD = 64"
definition DFU_TIMEOUT :: u32 where "DFU_TIMEOUT = 30"
definition DFU_RESEND_CNT :: u8 where "DFU_RESEND_CNT = 3"
definition DFU_CRC_INIT_VALUE :: u32 where "DFU_CRC_INIT_VALUE = 0xFFFFFFFF"
definition DFU_CHECKSUM_LEN :: u32 where "DFU_CHECKSUM_LEN = 4"
definition DFU_FW_FLAG_OFFSET :: u32 where "DFU_FW_FLAG_OFFSET = 0x20"

definition HCI_OPCODE :: "u16 \<Rightarrow> u16 \<Rightarrow> u16" where "HCI_OPCODE ogf ocf = push_bit 10 ogf + ocf"
definition HCI_OGF :: "u16 \<Rightarrow> u16" where "HCI_OGF opcode = drop_bit 10 opcode"
definition HCI_OCF :: "u16 \<Rightarrow> u16" where "HCI_OCF opcode = opcode AND 0x03FF"

definition HCI_OGF_VS :: u16 where "HCI_OGF_VS = 0x3F"
definition HCI_OCF_VS_START_DFU :: u16 where "HCI_OCF_VS_START_DFU = 0x0300"
definition HCI_OCF_VS_FW_DATA :: u16 where "HCI_OCF_VS_FW_DATA = 0x0302"
definition HCI_OPCODE_VS_START_DFU :: u16 where "HCI_OPCODE_VS_START_DFU = HCI_OPCODE HCI_OGF_VS HCI_OCF_VS_START_DFU"
definition HCI_OPCODE_VS_END_DFU :: u16 where "HCI_OPCODE_VS_END_DFU = HCI_OPCODE HCI_OGF_VS 0x0301"
definition HCI_OPCODE_VS_FW_DATA :: u16 where "HCI_OPCODE_VS_FW_DATA = HCI_OPCODE HCI_OGF_VS HCI_OCF_VS_FW_DATA"
definition HCI_OPCODE_RESET :: u16 where "HCI_OPCODE_RESET = HCI_OPCODE 0x03 0x03"
definition HCI_OPCODE_READ_LOCAL_VER_INFO :: u16 where "HCI_OPCODE_READ_LOCAL_VER_INFO = HCI_OPCODE 0x04 0x01"
definition BLUETOOTH_VER :: u8 where "BLUETOOTH_VER = 9"
definition VENDOR_ID :: u16 where "VENDOR_ID = 0x0211"

section \<open>The port layer\<close>

definition FLASH_WritePage :: "u32 \<Rightarrow> bytes \<Rightarrow> flash_mem \<Rightarrow> flash_mem" where
  "FLASH_WritePage addr data m = flash_page_program addr data m"

definition FLASH_ReadPage :: "u32 \<Rightarrow> nat \<Rightarrow> flash_mem \<Rightarrow> bytes" where
  "FLASH_ReadPage addr n m = flash_dread addr n m"

definition FLASH_EraseSector :: "u32 \<Rightarrow> flash_mem \<Rightarrow> flash_mem" where
  "FLASH_EraseSector addr m = flash_erase_sector addr m"

text \<open>The event senders act on the transmit FIFO of the state.\<close>

definition send_cmpl :: "u16 \<Rightarrow> bytes \<Rightarrow> dfu_state \<Rightarrow> dfu_state option" where
  "send_cmpl opcode param s =
     do { f \<leftarrow> Hci_SendCmdCmplEvt opcode param (ds_tx s); Some (s\<lparr>ds_tx := f\<rparr>) }"

definition send_cmpl_status :: "u16 \<Rightarrow> u8 \<Rightarrow> dfu_state \<Rightarrow> dfu_state option" where
  "send_cmpl_status opcode st s =
     do { f \<leftarrow> Hci_SendCmdCmplStatusEvt opcode st (ds_tx s); Some (s\<lparr>ds_tx := f\<rparr>) }"

definition send_status :: "u16 \<Rightarrow> u8 \<Rightarrow> dfu_state \<Rightarrow> dfu_state option" where
  "send_status opcode st s =
     do { f \<leftarrow> Hci_SendCmdStatusEvt opcode st (ds_tx s); Some (s\<lparr>ds_tx := f\<rparr>) }"

definition set_sta :: "dfu_status \<Rightarrow> dfu_state \<Rightarrow> dfu_state" where
  "set_sta st s = s\<lparr>ds_cb := (ds_cb s)\<lparr>dfu_sta := st\<rparr>\<rparr>"

definition set_timer :: "u32 \<Rightarrow> dfu_state \<Rightarrow> dfu_state" where
  "set_timer t s = s\<lparr>ds_cb := (ds_cb s)\<lparr>dfu_timer := t\<rparr>\<rparr>"

section \<open>Command handlers\<close>

definition DFU_isEnable :: "DfuCb_t \<Rightarrow> bool" where
  "DFU_isEnable cb \<longleftrightarrow> dfu_sta cb = DFU_STA_START"

definition DFU_Reset :: "DfuCb_t \<Rightarrow> DfuCb_t" where
  "DFU_Reset cb = cb\<lparr>newFwSize := 0, fwOffset := 0, curCrc := DFU_CRC_INIT_VALUE,
     dfu_timer := 0, dfu_sta := DFU_STA_NONE, resendCnt := 0\<rparr>"

text \<open>The code at the label \<^verbatim>\<open>DFU_START\<close>.\<close>

definition dfu_start_session :: "u32 \<Rightarrow> u32 \<Rightarrow> dfu_state \<Rightarrow> dfu_state option" where
  "dfu_start_session now fwSize s =
     send_cmpl HCI_OPCODE_VS_START_DFU [HCI_SUCCESS, ucast DFU_MAX_PAYLOAD, 0]
       (s\<lparr>ds_cb := (DFU_Reset (ds_cb s))\<lparr>dfu_sta := DFU_STA_START, newFwSize := fwSize,
                     dfu_timer := now OR 1\<rparr>\<rparr>)"

definition DFU_StartDfuCmdHandler :: "u32 \<Rightarrow> u16 \<Rightarrow> bytes \<Rightarrow> dfu_state \<Rightarrow> dfu_state option" where
  "DFU_StartDfuCmdHandler now ver pParam s =
     do { dfuMode \<leftarrow> rd8 pParam 0; fwVer \<leftarrow> BYTES_TO_UINT16 pParam 1; fwSize \<leftarrow> BYTES_TO_UINT32 pParam 3;
          (if dfu_sta (ds_cb s) = DFU_STA_START
           then send_cmpl_status HCI_OPCODE_VS_START_DFU HCI_ERR_DFU_ENABLED s
           else if fwSize > maxFwSize (ds_cb s)
           then send_cmpl_status HCI_OPCODE_VS_START_DFU HCI_ERR_INVALID_PARAM (s\<lparr>ds_cb := DFU_Reset (ds_cb s)\<rparr>)
           else if dfuMode = 1 then dfu_start_session now fwSize s
           else if dfuMode = 2 then
             (if fwVer \<le> ver then send_cmpl_status HCI_OPCODE_VS_START_DFU HCI_ERR_FW_VER s
              else dfu_start_session now fwSize s)
           else if dfuMode = 3 then
             (if fwVer \<ge> ver then send_cmpl_status HCI_OPCODE_VS_START_DFU HCI_ERR_FW_VER s
              else dfu_start_session now fwSize s)
           else if dfuMode = 4 then
             (if fwVer = ver then send_cmpl_status HCI_OPCODE_VS_START_DFU HCI_ERR_FW_VER s
              else dfu_start_session now fwSize s)
           else send_cmpl_status HCI_OPCODE_VS_START_DFU HCI_ERR_INVALID_PARAM s) }"

text \<open>Marking the new firmware bootable and the running one not.\<close>

definition dfu_switch_flags :: "DfuCb_t \<Rightarrow> flash_mem \<Rightarrow> flash_mem" where
  "dfu_switch_flags cb m =
     (let m1 = FLASH_WritePage (nextFwAddrStart cb + DFU_FW_FLAG_OFFSET) [0x4B] m;
          baseAddr = (if nextFwAddrStart cb = 0 then newFwAddrStart cb else 0)
      in FLASH_WritePage (baseAddr + DFU_FW_FLAG_OFFSET) [0] m1)"

definition DFU_EndDfuCmdHandler :: "u32 \<Rightarrow> bytes \<Rightarrow> dfu_state \<Rightarrow> dfu_state option" where
  "DFU_EndDfuCmdHandler now pParam s0 =
     do { endMode \<leftarrow> rd8 pParam 0;
          let s = set_timer (now OR 1) s0; cb = ds_cb s in
          if endMode = 0 then
            if fwOffset cb \<noteq> newFwSize cb then
              map_option (set_sta DFU_STA_TERM) (send_cmpl_status HCI_OPCODE_VS_END_DFU HCI_ERR_FW_INCOMPLETE s)
            else if curCrc cb \<noteq> 0 then
              map_option (set_sta DFU_STA_TERM) (send_cmpl_status HCI_OPCODE_VS_END_DFU HCI_ERR_FW_CRC s)
            else
              map_option (set_sta DFU_STA_END)
                (send_cmpl_status HCI_OPCODE_VS_END_DFU HCI_SUCCESS
                  (s\<lparr>ds_flash := dfu_switch_flags cb (ds_flash s)\<rparr>))
          else if endMode = 1 then
            send_cmpl_status HCI_OPCODE_VS_END_DFU HCI_SUCCESS (set_sta DFU_STA_TERM s)
          else send_cmpl_status HCI_OPCODE_VS_END_DFU HCI_ERR_INVALID_PARAM s }"

text \<open>
  The part of \<^verbatim>\<open>DFU_FwDataCmdHandler\<close> that stores a block whose checksum is right.  The boot
  flag of the first block is withheld from the flash, and put back into the copy over which the
  image checksum is computed.
\<close>

definition dfu_store_block :: "bytes \<Rightarrow> u32 \<Rightarrow> dfu_state \<Rightarrow> dfu_state option" where
  "dfu_store_block pParam dataLen s =
     (let cb = ds_cb s; addr = nextFwAddrStart cb + fwOffset cb; n = unat dataLen in
      do { (bootFlag, p) \<leftarrow>
             (if fwOffset cb = 0 \<and> dataLen \<ge> DFU_FW_FLAG_OFFSET then
                do { b \<leftarrow> rd8 pParam (unat DFU_FW_FLAG_OFFSET);
                     p \<leftarrow> wr8 pParam (unat DFU_FW_FLAG_OFFSET) 0xFF; Some (b, p) }
              else Some (0, pParam));
           data \<leftarrow> rd_range p 0 n;
           let m = FLASH_WritePage addr data (ds_flash s);
           buf0 \<leftarrow> wr_range (replicate (unat DFU_MAX_PAYLOAD + 4) 0) 0 (FLASH_ReadPage addr n m);
           buf \<leftarrow> (if fwOffset cb = 0 then wr8 buf0 (unat DFU_FW_FLAG_OFFSET) bootFlag else Some buf0);
           block \<leftarrow> rd_range buf 0 n;
           send_status HCI_OPCODE_VS_FW_DATA HCI_SUCCESS
             (s\<lparr>ds_flash := m, ds_cb := cb\<lparr>curCrc := DFU_Crc32Calc (curCrc cb) block,
                                          fwOffset := fwOffset cb + dataLen\<rparr>\<rparr>) })"

definition DFU_FwDataCmdHandler :: "u32 \<Rightarrow> bytes \<Rightarrow> u32 \<Rightarrow> dfu_state \<Rightarrow> dfu_state option" where
  "DFU_FwDataCmdHandler now pParam len s0 =
     (let dataLen = len - DFU_CHECKSUM_LEN in
      if resendCnt (ds_cb s0) \<ge> DFU_RESEND_CNT then Some s0
      else
        let s = set_timer (now OR 1) s0; cb = ds_cb s in
        if dfu_sta cb \<noteq> DFU_STA_START then send_status HCI_OPCODE_VS_FW_DATA HCI_ERR_DFU_DISABLED s
        else if dataLen > DFU_MAX_PAYLOAD then send_status HCI_OPCODE_VS_FW_DATA HCI_ERR_DATA_LENGTH s
        else
          do { d \<leftarrow> rd_range pParam 0 (unat len);
               if DFU_Crc32Calc DFU_CRC_INIT_VALUE d \<noteq> 0 then
                 send_status HCI_OPCODE_VS_FW_DATA HCI_ERR_FW_CHECKSUM
                   (s\<lparr>ds_cb := cb\<lparr>resendCnt := resendCnt cb + 1\<rparr>\<rparr>)
               else
                 let s' = s\<lparr>ds_cb := cb\<lparr>resendCnt := 0\<rparr>\<rparr> in
                 if fwOffset cb < newFwSize cb then dfu_store_block pParam dataLen s'
                 else send_status HCI_OPCODE_VS_FW_DATA HCI_ERR_FW_INCOMPLETE s' })"

definition DFU_CmdHandler :: "u32 \<Rightarrow> u16 \<Rightarrow> bytes \<Rightarrow> dfu_state \<Rightarrow> dfu_state option" where
  "DFU_CmdHandler now ver pkt s =
     do { opcode \<leftarrow> BYTES_TO_UINT16 pkt 1; paramLen \<leftarrow> rd8 pkt 3;
          let pPkt = drop 4 pkt in
          if opcode = HCI_OPCODE_VS_START_DFU then DFU_StartDfuCmdHandler now ver pPkt s
          else if opcode = HCI_OPCODE_VS_FW_DATA then DFU_FwDataCmdHandler now pPkt (ucast paramLen) s
          else if opcode = HCI_OPCODE_VS_END_DFU then DFU_EndDfuCmdHandler now pPkt s
          else if opcode = HCI_OPCODE_RESET then
            send_cmpl_status opcode HCI_SUCCESS (set_sta DFU_STA_TERM (s\<lparr>ds_calls := ds_calls s @ [Call_HciReset]\<rparr>))
          else if opcode = HCI_OPCODE_READ_LOCAL_VER_INFO then
            send_cmpl opcode ([HCI_SUCCESS, BLUETOOTH_VER] @ UINT16_TO_BSTREAM ver @ [BLUETOOTH_VER]
                              @ UINT16_TO_BSTREAM VENDOR_ID @ UINT16_TO_BSTREAM 0) s
          else send_status opcode HCI_ERR_CMD_DISALLOWED s }"

text \<open>The handler registered with the controller; the flag says whether it consumed the packet.\<close>

definition DFU_Handler :: "u32 \<Rightarrow> u16 \<Rightarrow> bytes \<Rightarrow> dfu_state \<Rightarrow> (bool \<times> dfu_state) option" where
  "DFU_Handler now ver p s =
     do { opcode \<leftarrow> BYTES_TO_UINT16 p 1;
          if (HCI_OGF opcode = HCI_OGF_VS \<or> DFU_isEnable (ds_cb s))
             \<and> (HCI_OCF opcode \<ge> HCI_OCF_VS_START_DFU \<and> HCI_OCF opcode \<le> HCI_OCF_VS_FW_DATA \<or> DFU_isEnable (ds_cb s))
          then do { s' \<leftarrow> DFU_CmdHandler now ver p s; Some (True, s') }
          else Some (False, s) }"

section \<open>Erasing, task and initialisation\<close>

text \<open>The loop \<^verbatim>\<open>for (i = 0; i < maxFwSize; i += 0x1000)\<close>.\<close>

function erase_loop :: "u32 \<Rightarrow> nat \<Rightarrow> nat \<Rightarrow> flash_mem \<Rightarrow> flash_mem" where
  "erase_loop base mx i m =
     (if i < mx then erase_loop base mx (i + 0x1000) (FLASH_EraseSector (base + of_nat i) m) else m)"
  by pat_completeness auto
termination by (relation "measure (\<lambda>(_, mx, i, _). mx - i)") auto

declare erase_loop.simps [simp del]

text \<open>Three probe words decide whether the area is erased.\<close>

definition dfu_probe_dirty :: "DfuCb_t \<Rightarrow> flash_mem \<Rightarrow> bool" where
  "dfu_probe_dirty cb m \<longleftrightarrow>
     BYTES_TO_UINT32 (FLASH_ReadPage (nextFwAddrStart cb) 4 m) 0 \<noteq> Some 0xFFFFFFFF
     \<or> BYTES_TO_UINT32 (FLASH_ReadPage (nextFwAddrStart cb + (maxFwSize cb div 0x1000 div 2) * 0x1000) 4 m) 0 \<noteq> Some 0xFFFFFFFF
     \<or> BYTES_TO_UINT32 (FLASH_ReadPage (nextFwAddrStart cb + maxFwSize cb - 4) 4 m) 0 \<noteq> Some 0xFFFFFFFF"

definition DFU_EraseNewFwArea :: "DfuCb_t \<Rightarrow> flash_mem \<Rightarrow> flash_mem" where
  "DFU_EraseNewFwArea cb m =
     (if dfu_probe_dirty cb m then erase_loop (nextFwAddrStart cb) (unat (maxFwSize cb)) 0 m else m)"

definition DFU_Init :: "u32 \<Rightarrow> dfu_state \<Rightarrow> dfu_state" where
  "DFU_Init nxt s =
     (let cb = \<lparr>newFwAddrStart = DFU_NEW_FW_ADDR_BASE, maxFwSize = DFU_NEW_FW_MAX_SIZE, nextFwAddrStart = nxt,
                newFwSize = 0, fwOffset = 0, curCrc = 0, dfu_timer = 0, dfu_sta = DFU_STA_NONE, resendCnt = 0\<rparr>
      in s\<lparr>ds_cb := cb, ds_flash := DFU_EraseNewFwArea cb (ds_flash s),
           ds_calls := ds_calls s @ [Call_SetRevision DFU_FW_VERSION, Call_RegisterHandler]\<rparr>)"

definition tx_idle :: "bool \<Rightarrow> dfu_state \<Rightarrow> bool" where
  "tx_idle busy s \<longleftrightarrow> hf_wptr (ds_tx s) = hf_rptr (ds_tx s) \<and> \<not> busy"

definition DFU_TaskStart :: "u32 \<Rightarrow> bool \<Rightarrow> dfu_state \<Rightarrow> dfu_state" where
  "DFU_TaskStart now busy s0 =
     (let s1 = (if dfu_sta (ds_cb s0) = DFU_STA_END \<and> tx_idle busy s0
                then (set_sta DFU_STA_NONE s0)\<lparr>ds_calls := ds_calls s0 @ [Call_Reboot]\<rparr> else s0);
          s2 = (if dfu_sta (ds_cb s1) = DFU_STA_TERM \<and> tx_idle busy s1
                then let cb = DFU_Reset (ds_cb (set_sta DFU_STA_NONE s1))
                     in s1\<lparr>ds_cb := cb, ds_flash := DFU_EraseNewFwArea cb (ds_flash s1)\<rparr>
                else s1)
      in if dfu_timer (ds_cb s2) \<noteq> 0 \<and> clock_time_exceed now (dfu_timer (ds_cb s2)) (DFU_TIMEOUT * 1000 * 1000)
         then s2\<lparr>ds_cb := DFU_Reset (ds_cb s2), ds_flash := DFU_EraseNewFwArea (ds_cb s2) (ds_flash s2)\<rparr>
         else s2)"

section \<open>Invariant and frame\<close>

text \<open>
  What the senders need of the transmit FIFO to stay inside its memory.  Unlike \<open>hf_ok\<close> it says
  nothing about the indices: it also holds of an overrun FIFO.
\<close>

definition tx_shape :: "hci_fifo_t \<Rightarrow> bool" where
  "tx_shape f \<longleftrightarrow> hf_ok (f\<lparr>hf_wptr := hf_rptr f\<rparr>) \<and> 17 \<le> unat (hf_size f)"

definition dfu_inv :: "dfu_state \<Rightarrow> bool" where
  "dfu_inv s \<longleftrightarrow> tx_shape (ds_tx s)
     \<and> nextFwAddrStart (ds_cb s) AND 0xFFF = 0 \<and> maxFwSize (ds_cb s) = DFU_NEW_FW_MAX_SIZE
     \<and> newFwSize (ds_cb s) \<le> DFU_NEW_FW_MAX_SIZE
     \<and> unat (fwOffset (ds_cb s)) \<le> unat (newFwSize (ds_cb s)) + 63"

text \<open>
  The cells a download may change: the new firmware area with the overhang of a last block, and the
  boot flag of the running firmware.
\<close>

definition dfu_area :: "DfuCb_t \<Rightarrow> 24 word \<Rightarrow> bool" where
  "dfu_area cb x \<longleftrightarrow> unat (x - ucast (nextFwAddrStart cb)) < unat (maxFwSize cb) + 63
     \<or> x = ucast ((if nextFwAddrStart cb = 0 then newFwAddrStart cb else 0) + DFU_FW_FLAG_OFFSET)"

definition dfu_frame :: "dfu_state \<Rightarrow> dfu_state \<Rightarrow> bool" where
  "dfu_frame s s' \<longleftrightarrow> dfu_inv s' \<and> nextFwAddrStart (ds_cb s') = nextFwAddrStart (ds_cb s)
     \<and> newFwAddrStart (ds_cb s') = newFwAddrStart (ds_cb s)
     \<and> (\<forall>x. \<not> dfu_area (ds_cb s) x \<longrightarrow> ds_flash s' x = ds_flash s x)"

lemma hf_slot_wptr_upd [simp]: "hf_slot (f\<lparr>hf_wptr := w\<rparr>) i = hf_slot f i"
  by (simp add: hf_slot_def)

lemma tx_shape_put:
  assumes "tx_shape f" "length d \<le> 17"
  shows "\<exists>f'. hf_put f d = Some f' \<and> tx_shape f' \<and> hf_rptr f' = hf_rptr f"
proof -
  let ?g = "f\<lparr>hf_wptr := hf_rptr f\<rparr>"
  have ok: "hf_ok ?g" and sz: "17 \<le> unat (hf_size f)" using assms(1) by (auto simp: tx_shape_def)
  have pf: "pf_ok (unat (hf_size f)) (unat (hf_num f)) (hf_p f) (hf_rptr f) (hf_rptr f)"
    using ok by (simp add: hf_ok_def)
  have "hf_slot f (hf_wptr f) = (unat (hf_wptr f) mod unat (hf_num f)) * unat (hf_size f)"
    using hf_slot_eq [OF ok, of "hf_wptr f"] by simp
  moreover have "(unat (hf_wptr f) mod unat (hf_num f)) * unat (hf_size f) + length d \<le> length (hf_p f)"
    using pf_num_dvd [OF pf] pf assms(2) sz by (intro slot_fits [of _ "unat (hf_num f)"]) (simp_all add: pf_ok_def)
  ultimately obtain p' where "wr_range (hf_p f) (hf_slot f (hf_wptr f)) d = Some p'" by (auto simp: wr_range_def)
  then show ?thesis using ok sz wr_range_length [of "hf_p f" _ d p']
    by (auto simp: hf_put_def tx_shape_def hf_ok_def pf_ok_def)
qed

text \<open>Sending an event changes the FIFO only, and never faults.\<close>

lemma send_cmpl_ok:
  assumes "tx_shape (ds_tx t)" "length param \<le> 9"
  shows "\<exists>f. tx_shape f \<and> send_cmpl opcode param t = Some (t\<lparr>ds_tx := f\<rparr>)"
  using tx_shape_put [OF assms(1), of "cmd_cmpl_evt opcode param"] assms
  by (auto simp: send_cmpl_def Hci_SendCmdCmplEvt_def cmd_cmpl_evt_length)

lemma send_cmpl_status_ok:
  "tx_shape (ds_tx t) \<Longrightarrow> \<exists>f. tx_shape f \<and> send_cmpl_status opcode st t = Some (t\<lparr>ds_tx := f\<rparr>)"
  using send_cmpl_ok [of t "[st]" opcode]
  by (simp add: send_cmpl_status_def send_cmpl_def Hci_SendCmdCmplStatusEvt_def)

lemma send_status_ok:
  "tx_shape (ds_tx t) \<Longrightarrow> \<exists>f. tx_shape f \<and> send_status opcode st t = Some (t\<lparr>ds_tx := f\<rparr>)"
  using tx_shape_put [of "ds_tx t" "cmd_status_evt opcode st"]
  by (auto simp: send_status_def Hci_SendCmdStatusEvt_def cmd_status_evt_def)

lemma dfu_frame_refl: "dfu_inv s \<Longrightarrow> dfu_frame s s"
  by (simp add: dfu_frame_def)

lemma dfu_frame_send:
  assumes "dfu_frame s t"
  shows "length param \<le> 9 \<Longrightarrow> \<exists>s'. send_cmpl opcode param t = Some s' \<and> dfu_frame s s'"
    and "\<exists>s'. send_cmpl_status opcode st t = Some s' \<and> dfu_frame s s'"
    and "\<exists>s'. send_status opcode st t = Some s' \<and> dfu_frame s s'"
proof -
  have tx: "tx_shape (ds_tx t)" using assms by (simp add: dfu_frame_def dfu_inv_def)
  have fr: "dfu_frame s (t\<lparr>ds_tx := f\<rparr>)" if "tx_shape f" for f
    using assms that by (auto simp: dfu_frame_def dfu_inv_def)
  show "\<exists>s'. send_cmpl opcode param t = Some s' \<and> dfu_frame s s'" if "length param \<le> 9"
    using send_cmpl_ok [OF tx that] fr by blast
  show "\<exists>s'. send_cmpl_status opcode st t = Some s' \<and> dfu_frame s s'"
    using send_cmpl_status_ok [OF tx] fr by blast
  show "\<exists>s'. send_status opcode st t = Some s' \<and> dfu_frame s s'"
    using send_status_ok [OF tx] fr by blast
qed

section \<open>Storing one block\<close>

definition withhold_flag :: "u32 \<Rightarrow> bytes \<Rightarrow> bytes" where
  "withhold_flag off d = (if off = 0 then d[0x20 := 0xFF] else d)"

definition restore_flag :: "u32 \<Rightarrow> bytes \<Rightarrow> bytes \<Rightarrow> bytes" where
  "restore_flag off d r = (if off = 0 then r[0x20 := d ! 0x20] else r)"

lemma length_FLASH_ReadPage [simp]: "length (FLASH_ReadPage a n m) = n"
  by (simp add: FLASH_ReadPage_def)

lemma dfu_store_block_eq:
  fixes s :: dfu_state
  assumes n: "unat dataLen \<le> 64" and len: "68 \<le> length pParam"
  defines "cb \<equiv> ds_cb s" and "d \<equiv> take (unat dataLen) pParam"
  defines "addr \<equiv> nextFwAddrStart cb + fwOffset cb"
  defines "m \<equiv> FLASH_WritePage addr (withhold_flag (fwOffset cb) d) (ds_flash s)"
  shows "dfu_store_block pParam dataLen s = send_status HCI_OPCODE_VS_FW_DATA HCI_SUCCESS
     (s\<lparr>ds_flash := m, ds_cb := cb\<lparr>curCrc := DFU_Crc32Calc (curCrc cb)
           (restore_flag (fwOffset cb) d (FLASH_ReadPage addr (unat dataLen) m)),
         fwOffset := fwOffset cb + dataLen\<rparr>\<rparr>)"
proof -
  have ge: "0x20 \<le> dataLen \<longleftrightarrow> 0x20 \<le> unat dataLen" by (simp add: word_le_nat_alt)
  have buf0: "wr_range (replicate (unat DFU_MAX_PAYLOAD + 4) 0) 0 r = Some (r @ replicate (68 - unat dataLen) 0)"
    if "length r = unat dataLen" for r :: bytes
    using that n by (simp add: wr_range_def DFU_MAX_PAYLOAD_def)
  show ?thesis
  proof (cases "fwOffset (ds_cb s) = 0 \<and> 0x20 \<le> unat dataLen")
    case True
    then show ?thesis using n len
      by (simp add: dfu_store_block_def ge rd8_def wr8_def rd_range_def DFU_FW_FLAG_OFFSET_def Let_def buf0
          restore_flag_def withhold_flag_def m_def addr_def cb_def d_def list_update_append take_update_swap
          list_update_beyond)
  next
    case False
    then show ?thesis using n len
      by (auto simp: dfu_store_block_def ge wr8_def rd_range_def DFU_FW_FLAG_OFFSET_def Let_def buf0
          restore_flag_def withhold_flag_def m_def addr_def cb_def d_def list_update_append list_update_beyond)
  qed
qed

section \<open>Which cells change\<close>

lemma FLASH_WritePage_cell:
  "length d \<le> 2 ^ 24 \<Longrightarrow> FLASH_WritePage a d m x =
     (if unat (x - ucast a) < length d then m x AND d ! unat (x - ucast a) else m x)"
  unfolding FLASH_WritePage_def by (rule flash.cell_wr)

lemma unat_add_le: "unat (a + b :: 'a::len word) \<le> unat a + unat b"
  by (simp add: unat_word_ariths)

lemma area_write:
  assumes "unat off + length d \<le> unat (maxFwSize cb) + 63" "length d \<le> 2 ^ 24" "\<not> dfu_area cb x"
  shows "FLASH_WritePage (nextFwAddrStart cb + off) d m x = m x"
proof -
  let ?o = "ucast off :: 24 word" and ?b = "ucast (nextFwAddrStart cb) :: 24 word"
  have o: "unat ?o \<le> unat off" by (simp add: unsigned_ucast_eq)
  have "unat (x - ?b) \<le> unat (x - (?b + ?o)) + unat ?o"
    using unat_add_le [of "x - (?b + ?o)" ?o] by (simp add: algebra_simps)
  then have "\<not> unat (x - (?b + ?o)) < length d"
    using assms o unfolding dfu_area_def by linarith
  then show ?thesis using assms(2) by (simp add: FLASH_WritePage_cell ucast_add_24)
qed

lemma erase_loop_cell:
  assumes B: "unat (ucast base :: 24 word) mod 0x1000 = 0" and mx: "mx mod 0x1000 = 0" "mx \<le> 2 ^ 24"
  shows "i mod 0x1000 = 0 \<Longrightarrow> erase_loop base mx i m x =
     (if i \<le> unat (x - ucast base) \<and> unat (x - ucast base) < mx then 0xFF else m x)"
  using B mx
proof (induction base mx i m rule: erase_loop.induct)
  case (1 base mx i m)
  show ?case
  proof (cases "i < mx")
    case False
    then show ?thesis by (auto simp: erase_loop.simps)
  next
    case True
    have le: "i + 0x1000 \<le> mx"
      using True 1(2,4) by (metis Suc_leI add.commute add_Suc_right dvd_diff_nat dvd_imp_le le_diff_conv2 less_imp_le_nat mod_0_imp_dvd zero_less_diff)
    have "FLASH_EraseSector (base + of_nat i) m x
        = (if i \<le> unat (x - ucast base) \<and> unat (x - ucast base) < i + 0x1000 then 0xFF else m x)"
      using sector_index [OF 1(3) 1(2), of x] True 1(5)
      by (simp add: FLASH_EraseSector_def flash.cell_er ucast_add_24 ucast_of_nat_24)
    then show ?thesis using True le 1 by (subst erase_loop.simps) auto
  qed
qed

lemma FLASH_WritePage_byte: "FLASH_WritePage a [b] m x = (if x = ucast a then m x AND b else m x)"
proof -
  have "unat (x - ucast a) = 0 \<longleftrightarrow> x = ucast a" unfolding unat_eq_zero by simp
  then show ?thesis by (simp add: FLASH_WritePage_cell)
qed

lemma erase_area_cell:
  assumes "nextFwAddrStart cb AND 0xFFF = 0" "maxFwSize cb = DFU_NEW_FW_MAX_SIZE"
  shows "erase_loop (nextFwAddrStart cb) (unat (maxFwSize cb)) 0 m x =
     (if unat (x - ucast (nextFwAddrStart cb)) < unat (maxFwSize cb) then 0xFF else m x)"
  using erase_loop_cell [OF aligned_24 [OF assms(1)], of "unat (maxFwSize cb)" 0 m x] assms(2)
  by (simp add: DFU_NEW_FW_MAX_SIZE_def)

lemma erase_area_frame:
  assumes "nextFwAddrStart cb AND 0xFFF = 0" "maxFwSize cb = DFU_NEW_FW_MAX_SIZE" "\<not> dfu_area cb x"
  shows "DFU_EraseNewFwArea cb m x = m x"
  using assms(3) by (simp add: DFU_EraseNewFwArea_def erase_area_cell [OF assms(1,2)] dfu_area_def)

lemma BYTES_TO_UINT32_total: "i + 4 \<le> length p \<Longrightarrow> \<exists>w. BYTES_TO_UINT32 p i = Some w"
  by (simp add: BYTES_TO_UINT32_def rd8_def)

lemma BYTES_TO_UINT16_total: "i + 2 \<le> length p \<Longrightarrow> \<exists>w. BYTES_TO_UINT16 p i = Some w"
  by (simp add: BYTES_TO_UINT16_def rd8_def)

lemma dfu_start_session_frame:
  assumes "dfu_inv s" "fwSize \<le> maxFwSize (ds_cb s)"
  shows "\<exists>s'. dfu_start_session now fwSize s = Some s' \<and> dfu_frame s s'"
  unfolding dfu_start_session_def using assms
  by (intro dfu_frame_send(1)) (simp_all add: dfu_frame_def dfu_inv_def DFU_Reset_def)

lemma DFU_Start_frame:
  assumes inv: "dfu_inv s" and len: "7 \<le> length pParam"
  shows "\<exists>s'. DFU_StartDfuCmdHandler now ver pParam s = Some s' \<and> dfu_frame s s'"
proof -
  obtain mode where 1: "rd8 pParam 0 = Some mode" using len by (cases "rd8 pParam 0") auto
  obtain v where 2: "BYTES_TO_UINT16 pParam 1 = Some v" using len BYTES_TO_UINT16_total [of 1 pParam] by auto
  obtain sz where 3: "BYTES_TO_UINT32 pParam 3 = Some sz" using len BYTES_TO_UINT32_total [of 3 pParam] by auto
  have fr: "dfu_frame s s" "dfu_frame s (s\<lparr>ds_cb := DFU_Reset (ds_cb s)\<rparr>)"
    using inv by (simp_all add: dfu_frame_def dfu_inv_def DFU_Reset_def)
  show ?thesis unfolding DFU_StartDfuCmdHandler_def 1 2 3 bind.bind_lunit
    using dfu_frame_send(2) [OF fr(1)] dfu_frame_send(2) [OF fr(2)] dfu_start_session_frame [OF inv, of sz]
    by (auto simp: not_less split: if_splits)
qed

lemma map_option_set_sta_frame:
  "(\<exists>s'. r = Some s' \<and> dfu_frame s s') \<Longrightarrow> \<exists>s'. map_option (set_sta st) r = Some s' \<and> dfu_frame s s'"
  by (auto simp: dfu_frame_def dfu_inv_def set_sta_def)

lemma dfu_switch_flags_frame:
  assumes "maxFwSize cb = DFU_NEW_FW_MAX_SIZE" "\<not> dfu_area cb x"
  shows "dfu_switch_flags cb m x = m x"
proof -
  have "FLASH_WritePage (nextFwAddrStart cb + DFU_FW_FLAG_OFFSET) [0x4B] m x = m x"
    using assms by (intro area_write) (simp_all add: DFU_NEW_FW_MAX_SIZE_def DFU_FW_FLAG_OFFSET_def)
  moreover have "x \<noteq> ucast ((if nextFwAddrStart cb = 0 then newFwAddrStart cb else 0) + DFU_FW_FLAG_OFFSET)"
    using assms by (auto simp: dfu_area_def)
  ultimately show ?thesis unfolding dfu_switch_flags_def Let_def by (simp only: FLASH_WritePage_byte if_False)
qed

lemma DFU_End_frame:
  assumes inv: "dfu_inv s" and len: "1 \<le> length pParam"
  shows "\<exists>s'. DFU_EndDfuCmdHandler now pParam s = Some s' \<and> dfu_frame s s'"
proof -
  obtain md where 1: "rd8 pParam 0 = Some md" using len by (cases "rd8 pParam 0") auto
  let ?s = "set_timer (now OR 1) s"
  have fr: "dfu_frame s ?s" "dfu_frame s (set_sta DFU_STA_TERM ?s)"
    "dfu_frame s (?s\<lparr>ds_flash := dfu_switch_flags (ds_cb ?s) (ds_flash ?s)\<rparr>)"
    using inv dfu_switch_flags_frame [of "ds_cb s"] dfu_switch_flags_frame [of "(ds_cb s)\<lparr>dfu_timer := now OR 1\<rparr>"]
    by (simp_all add: dfu_frame_def dfu_inv_def set_timer_def set_sta_def dfu_area_def)
  note sends = dfu_frame_send(2) [OF fr(1)] dfu_frame_send(2) [OF fr(2)] dfu_frame_send(2) [OF fr(3)]
  show ?thesis unfolding DFU_EndDfuCmdHandler_def 1 bind.bind_lunit Let_def
    using sends map_option_set_sta_frame [OF sends(1)] map_option_set_sta_frame [OF sends(3)] by simp
qed

lemma length_withhold [simp]: "length (withhold_flag off d) = length d"
  by (simp add: withhold_flag_def)

lemma dfu_store_block_frame:
  assumes fr: "dfu_frame s t" and inv: "dfu_inv s" and n: "unat dataLen \<le> 64" and len: "68 \<le> length pParam"
    and off: "fwOffset (ds_cb t) < newFwSize (ds_cb t)"
  shows "\<exists>s'. dfu_store_block pParam dataLen t = Some s' \<and> dfu_frame s s'"
proof -
  let ?cb = "ds_cb t" and ?d = "withhold_flag (fwOffset (ds_cb t)) (take (unat dataLen) pParam)"
  have mx: "maxFwSize ?cb = DFU_NEW_FW_MAX_SIZE" and sz: "newFwSize ?cb \<le> DFU_NEW_FW_MAX_SIZE"
    using fr by (simp_all add: dfu_frame_def dfu_inv_def)
  have o: "unat (fwOffset ?cb) < unat (newFwSize ?cb)" "unat (newFwSize ?cb) \<le> 0x3F000"
    using off sz by (simp_all add: word_less_nat_alt word_le_nat_alt DFU_NEW_FW_MAX_SIZE_def)
  have ar: "dfu_area ?cb = dfu_area (ds_cb s)" using fr inv by (simp add: dfu_area_def dfu_frame_def dfu_inv_def fun_eq_iff)
  have keep: "FLASH_WritePage (nextFwAddrStart ?cb + fwOffset ?cb) ?d (ds_flash t) x = ds_flash s x"
    if x: "\<not> dfu_area (ds_cb s) x" for x
  proof -
    have "FLASH_WritePage (nextFwAddrStart ?cb + fwOffset ?cb) ?d (ds_flash t) x = ds_flash t x"
      using o n mx x ar by (intro area_write) (auto simp: DFU_NEW_FW_MAX_SIZE_def)
    then show ?thesis using fr x by (simp add: dfu_frame_def)
  qed
  have "unat (fwOffset ?cb + dataLen) \<le> unat (newFwSize ?cb) + 63"
    using unat_add_le [of "fwOffset ?cb" dataLen] o n by linarith
  then show ?thesis unfolding dfu_store_block_eq [OF n len] using fr keep
    by (intro dfu_frame_send(3)) (auto simp: dfu_frame_def dfu_inv_def)
qed

lemma DFU_FwData_frame:
  assumes inv: "dfu_inv s" and len: "255 \<le> length pParam"
  shows "\<exists>s'. DFU_FwDataCmdHandler now pParam (ucast (n :: u8)) s = Some s' \<and> dfu_frame s s'"
proof -
  let ?s = "set_timer (now OR 1) s" and ?len = "ucast n :: u32"
  have fr: "dfu_frame s ?s" and fr': "dfu_frame s (?s\<lparr>ds_cb := (ds_cb ?s)\<lparr>resendCnt := c\<rparr>\<rparr>)" for c
    using inv by (simp_all add: dfu_frame_def dfu_inv_def set_timer_def)
  have ul: "unat ?len < 256" using unat_u8_less [of n] by (simp add: unat_ucast_up)
  then obtain d where d: "rd_range pParam 0 (unat ?len) = Some d" using len by (auto simp: rd_range_def)
  have store: "\<exists>s'. dfu_store_block pParam (?len - DFU_CHECKSUM_LEN) (?s\<lparr>ds_cb := (ds_cb ?s)\<lparr>resendCnt := 0\<rparr>\<rparr>) = Some s' \<and> dfu_frame s s'"
    if "\<not> DFU_MAX_PAYLOAD < ?len - DFU_CHECKSUM_LEN" "fwOffset (ds_cb ?s) < newFwSize (ds_cb ?s)"
    using that len by (intro dfu_store_block_frame [OF fr' inv])
      (simp_all add: DFU_MAX_PAYLOAD_def word_less_nat_alt)
  show ?thesis unfolding DFU_FwDataCmdHandler_def Let_def d bind.bind_lunit
    using dfu_frame_refl [OF inv] dfu_frame_send(3) [OF fr] dfu_frame_send(3) [OF fr'] store by simp
qed

lemma DFU_CmdHandler_frame:
  assumes inv: "dfu_inv s" and len: "259 \<le> length pkt"
  shows "\<exists>s'. DFU_CmdHandler now ver pkt s = Some s' \<and> dfu_frame s s'"
proof -
  obtain op where 1: "BYTES_TO_UINT16 pkt 1 = Some op" using len BYTES_TO_UINT16_total [of 1 pkt] by auto
  obtain n where 2: "rd8 pkt 3 = Some n" using len by (cases "rd8 pkt 3") auto
  have fr: "dfu_frame s (set_sta DFU_STA_TERM (s\<lparr>ds_calls := ds_calls s @ [Call_HciReset]\<rparr>))"
    using inv by (simp add: dfu_frame_def dfu_inv_def set_sta_def)
  note h = DFU_Start_frame [OF inv, of "drop 4 pkt" now ver] DFU_FwData_frame [OF inv, of "drop 4 pkt" now n]
    DFU_End_frame [OF inv, of "drop 4 pkt" now] dfu_frame_send(2) [OF fr]
    dfu_frame_send(3) [OF dfu_frame_refl [OF inv]]
    dfu_frame_send(1) [OF dfu_frame_refl [OF inv], of "[HCI_SUCCESS, BLUETOOTH_VER] @ UINT16_TO_BSTREAM ver @ [BLUETOOTH_VER]
                              @ UINT16_TO_BSTREAM VENDOR_ID @ UINT16_TO_BSTREAM 0"]
  show ?thesis unfolding DFU_CmdHandler_def 1 2 bind.bind_lunit Let_def using h len by simp
qed

lemma DFU_Handler_frame:
  assumes inv: "dfu_inv s" and len: "259 \<le> length pkt"
  shows "\<exists>h s'. DFU_Handler now ver pkt s = Some (h, s') \<and> dfu_frame s s'"
proof -
  obtain op where 1: "BYTES_TO_UINT16 pkt 1 = Some op" using len BYTES_TO_UINT16_total [of 1 pkt] by auto
  obtain s' where "DFU_CmdHandler now ver pkt s = Some s'" "dfu_frame s s'"
    using DFU_CmdHandler_frame [OF assms] by blast
  then show ?thesis unfolding DFU_Handler_def 1 bind.bind_lunit using dfu_frame_refl [OF inv] by auto
qed

lemma dfu_frame_trans:
  assumes "dfu_inv r" "dfu_frame r s" "dfu_frame s t"
  shows "dfu_frame r t"
proof -
  have "dfu_area (ds_cb s) = dfu_area (ds_cb r)"
    using assms(1,2) by (simp add: dfu_area_def dfu_frame_def dfu_inv_def fun_eq_iff)
  then show ?thesis using assms(2,3) by (simp add: dfu_frame_def)
qed

lemma erase_reset_frame:
  assumes "dfu_inv s" "nextFwAddrStart cb = nextFwAddrStart (ds_cb s)" "maxFwSize cb = maxFwSize (ds_cb s)"
    "newFwAddrStart cb = newFwAddrStart (ds_cb s)"
  shows "dfu_frame s (s\<lparr>ds_cb := DFU_Reset (ds_cb s), ds_flash := DFU_EraseNewFwArea cb (ds_flash s)\<rparr>)"
  using assms erase_area_frame [of cb _ "ds_flash s"]
  by (auto simp: dfu_frame_def dfu_inv_def DFU_Reset_def dfu_area_def)

lemma DFU_TaskStart_frame:
  assumes inv: "dfu_inv s"
  shows "dfu_frame s (DFU_TaskStart now busy s)"
proof -
  define s1 where "s1 = (if dfu_sta (ds_cb s) = DFU_STA_END \<and> tx_idle busy s
                then (set_sta DFU_STA_NONE s)\<lparr>ds_calls := ds_calls s @ [Call_Reboot]\<rparr> else s)"
  define s2 where "s2 = (if dfu_sta (ds_cb s1) = DFU_STA_TERM \<and> tx_idle busy s1
                then let cb = DFU_Reset (ds_cb (set_sta DFU_STA_NONE s1))
                     in s1\<lparr>ds_cb := cb, ds_flash := DFU_EraseNewFwArea cb (ds_flash s1)\<rparr>
                else s1)"
  have f1: "dfu_frame s s1" using inv by (simp add: s1_def dfu_frame_def dfu_inv_def set_sta_def)
  then have i1: "dfu_inv s1" by (simp add: dfu_frame_def)
  have "DFU_Reset (ds_cb (set_sta DFU_STA_NONE s1)) = DFU_Reset (ds_cb s1)" by (simp add: DFU_Reset_def set_sta_def)
  then have f2: "dfu_frame s1 s2"
    using erase_reset_frame [OF i1, of "DFU_Reset (ds_cb s1)"] dfu_frame_refl [OF i1] by (simp add: s2_def DFU_Reset_def Let_def)
  then have i2: "dfu_inv s2" by (simp add: dfu_frame_def)
  have "dfu_frame s2 (DFU_TaskStart now busy s)"
    using erase_reset_frame [OF i2, of "ds_cb s2"] dfu_frame_refl [OF i2]
    by (simp add: DFU_TaskStart_def s1_def [symmetric] s2_def [symmetric] Let_def)
  then show ?thesis using f1 f2 inv i1 by (blast intro: dfu_frame_trans)
qed

section \<open>Runs of the download service\<close>

text \<open>
  Commands of any content in a buffer of at least 259 bytes (the header and the longest parameter
  field), calls of the task, and the transport taking sent events from the transmit FIFO, in any
  order.
\<close>

inductive dfu_run :: "dfu_state \<Rightarrow> dfu_state \<Rightarrow> bool" for s where
  run_refl: "dfu_run s s"
| run_cmd: "dfu_run s t \<Longrightarrow> 259 \<le> length pkt \<Longrightarrow> DFU_Handler now ver pkt t = Some (h, u) \<Longrightarrow> dfu_run s u"
| run_task: "dfu_run s t \<Longrightarrow> dfu_run s (DFU_TaskStart now busy t)"
| run_sent: "dfu_run s t \<Longrightarrow> dfu_run s (t\<lparr>ds_tx := hf_pop (ds_tx t)\<rparr>)"

lemma tx_shape_pop: "tx_shape f \<Longrightarrow> tx_shape (hf_pop f)"
  by (simp add: tx_shape_def hf_pop_def hf_ok_def pf_ok_def)

lemma dfu_run_frame: "dfu_run s t \<Longrightarrow> dfu_inv s \<Longrightarrow> dfu_frame s t"
proof (induction rule: dfu_run.induct)
  case run_refl
  then show ?case by (rule dfu_frame_refl)
next
  case (run_cmd t pkt now ver h u)
  then have f: "dfu_frame s t" "dfu_inv t" by (simp_all add: dfu_frame_def)
  have "dfu_frame t u" using DFU_Handler_frame [OF f(2) run_cmd(2), of now ver] run_cmd(3) by auto
  then show ?case using f run_cmd.prems by (blast intro: dfu_frame_trans)
next
  case (run_task t now busy)
  then have f: "dfu_frame s t" "dfu_inv t" by (simp_all add: dfu_frame_def)
  then show ?case using DFU_TaskStart_frame [OF f(2)] run_task.prems by (blast intro: dfu_frame_trans)
next
  case (run_sent t)
  then show ?case by (auto simp: dfu_frame_def dfu_inv_def tx_shape_pop)
qed

lemma DFU_Init_inv:
  "tx_shape (ds_tx s) \<Longrightarrow> nxt AND 0xFFF = 0 \<Longrightarrow> dfu_inv (DFU_Init nxt s)"
  by (simp add: dfu_inv_def DFU_Init_def Let_def DFU_NEW_FW_MAX_SIZE_def)

lemma DFU_Init_flash:
  assumes "nxt AND 0xFFF = 0" "\<not> dfu_area (ds_cb (DFU_Init nxt s)) x"
  shows "ds_flash (DFU_Init nxt s) x = ds_flash s x"
  using assms erase_area_frame [of "ds_cb (DFU_Init nxt s)" x "ds_flash s"] by (simp add: DFU_Init_def Let_def)

section \<open>The image checksum is that of the flash contents\<close>

definition dfu_img :: "dfu_state \<Rightarrow> bool" where
  "dfu_img s \<longleftrightarrow> (\<exists>b. curCrc (ds_cb s) = DFU_Crc32Calc DFU_CRC_INIT_VALUE
     ((FLASH_ReadPage (nextFwAddrStart (ds_cb s)) (unat (fwOffset (ds_cb s))) (ds_flash s))[0x20 := b]))"

lemma dfu_img_reset: "fwOffset (ds_cb s) = 0 \<Longrightarrow> curCrc (ds_cb s) = DFU_CRC_INIT_VALUE \<Longrightarrow> dfu_img s"
  by (simp add: dfu_img_def FLASH_ReadPage_def flash.rd_cells)

lemma dfu_img_cong:
  "curCrc (ds_cb t) = curCrc (ds_cb s) \<Longrightarrow> fwOffset (ds_cb t) = fwOffset (ds_cb s) \<Longrightarrow>
   nextFwAddrStart (ds_cb t) = nextFwAddrStart (ds_cb s) \<Longrightarrow> ds_flash t = ds_flash s \<Longrightarrow> dfu_img s \<Longrightarrow> dfu_img t"
  by (simp add: dfu_img_def)

lemma send_cb:
  "send_cmpl opcode param s = Some s' \<Longrightarrow> ds_cb s' = ds_cb s \<and> ds_flash s' = ds_flash s \<and> ds_calls s' = ds_calls s"
  "send_cmpl_status opcode st s = Some s' \<Longrightarrow> ds_cb s' = ds_cb s \<and> ds_flash s' = ds_flash s \<and> ds_calls s' = ds_calls s"
  "send_status opcode st s = Some s' \<Longrightarrow> ds_cb s' = ds_cb s \<and> ds_flash s' = ds_flash s \<and> ds_calls s' = ds_calls s"
  by (auto simp: send_cmpl_def send_cmpl_status_def send_status_def bind_eq_Some_conv)

lemma read_page_append:
  "FLASH_ReadPage a (i + n) m = FLASH_ReadPage a i m @ FLASH_ReadPage (a + of_nat i) n m"
proof -
  have "map f [i..<i + n] = map (\<lambda>k. f (i + k)) [0..<n]" for f :: "nat \<Rightarrow> u8"
    by (rule nth_equalityI) simp_all
  then show ?thesis
    by (simp add: FLASH_ReadPage_def flash.rd_cells upt_add_eq_append [of 0] ucast_add_24 ucast_of_nat_24 add.assoc)
qed

lemma read_page_write_after:
  assumes "i + length d \<le> 2 ^ 24"
  shows "FLASH_ReadPage a i (FLASH_WritePage (a + of_nat i) d m) = FLASH_ReadPage a i m"
proof (rule nth_equalityI)
  fix k assume "k < length (FLASH_ReadPage a i (FLASH_WritePage (a + of_nat i) d m))"
  then have k: "k < i" by simp
  have "unat (of_nat k - of_nat i :: 24 word) = 2 ^ 24 - (i - k)"
  proof -
    have "(of_nat k - of_nat i :: 24 word) = of_nat (2 ^ 24 - (i - k))"
      using k assms by (simp add: of_nat_diff)
    then show ?thesis using k assms by (simp only: unat_of_nat) simp
  qed
  then have "\<not> unat (ucast a + of_nat k - (ucast a + of_nat i :: 24 word)) < length d"
    using k assms by simp
  then show "FLASH_ReadPage a i (FLASH_WritePage (a + of_nat i) d m) ! k = FLASH_ReadPage a i m ! k"
    using k assms by (simp add: FLASH_ReadPage_def flash.rd_nth FLASH_WritePage_cell ucast_add_24 ucast_of_nat_24)
qed simp


lemma dfu_store_block_img:
  assumes n: "unat dataLen \<le> 64" and len: "68 \<le> length pParam" and o: "unat (fwOffset (ds_cb s)) \<le> 0x3F000"
    and img: "dfu_img s" and r: "dfu_store_block pParam dataLen s = Some s'"
  shows "dfu_img s'"
proof -
  let ?cb = "ds_cb s"
  let ?a = "nextFwAddrStart ?cb" and ?o = "unat (fwOffset ?cb)" and ?n = "unat dataLen"
  define d where "d = take ?n pParam"
  define m where "m = FLASH_WritePage (?a + fwOffset ?cb) (withhold_flag (fwOffset ?cb) d) (ds_flash s)"
  define X where "X = FLASH_ReadPage ?a ?o (ds_flash s)"
  define R where "R = FLASH_ReadPage (?a + fwOffset ?cb) ?n m"
  obtain b where b: "curCrc ?cb = DFU_Crc32Calc DFU_CRC_INIT_VALUE (X[0x20 := b])"
    using img by (auto simp: dfu_img_def X_def)
  have u: "unat (fwOffset ?cb + dataLen) = ?o + ?n" using n o by (subst unat_word_add_no_wrap) simp_all
  have "FLASH_ReadPage ?a ?o m = X"
    using read_page_write_after [of ?o "withhold_flag (fwOffset ?cb) d" ?a "ds_flash s"] n o
    by (simp add: m_def X_def d_def)
  then have rd: "FLASH_ReadPage ?a (unat (fwOffset ?cb + dataLen)) m = X @ R"
    by (simp add: u read_page_append R_def)
  have "\<exists>b'. X[0x20 := b] @ restore_flag (fwOffset ?cb) d R = (X @ R)[0x20 := b']"
  proof (cases "fwOffset ?cb = 0")
    case True
    then have "X = []" by (simp add: X_def FLASH_ReadPage_def flash.rd_cells)
    then show ?thesis using True by (auto simp: restore_flag_def)
  next
    case False
    show ?thesis
    proof (cases "0x20 < length X")
      case True
      then show ?thesis using False by (auto simp: restore_flag_def list_update_append)
    next
      case short: False
      have "(X @ R)[0x20 := (X @ R) ! 0x20] = X @ R" by (rule list_update_id)
      then show ?thesis using False short by (auto simp: restore_flag_def list_update_beyond intro!: exI [of _ "(X @ R) ! 0x20"])
    qed
  qed
  then obtain b' where "DFU_Crc32Calc (curCrc ?cb) (restore_flag (fwOffset ?cb) d R)
      = DFU_Crc32Calc DFU_CRC_INIT_VALUE ((X @ R)[0x20 := b'])"
    unfolding b dfu_crc.calc_append [symmetric] by metis
  moreover have "ds_flash s' = m \<and> fwOffset (ds_cb s') = fwOffset ?cb + dataLen \<and> nextFwAddrStart (ds_cb s') = ?a
      \<and> curCrc (ds_cb s') = DFU_Crc32Calc (curCrc ?cb) (restore_flag (fwOffset ?cb) d R)"
    using send_cb(3) [OF r [unfolded dfu_store_block_eq [OF n len]]] by (simp add: m_def R_def d_def)
  ultimately show ?thesis unfolding dfu_img_def using rd by auto
qed

text \<open>Where the two firmware areas can be: at address 0 and at \<^verbatim>\<open>DFU_NEW_FW_ADDR_BASE\<close>.\<close>

definition dfu_addrs :: "DfuCb_t \<Rightarrow> bool" where
  "dfu_addrs cb \<longleftrightarrow> newFwAddrStart cb = DFU_NEW_FW_ADDR_BASE
     \<and> (nextFwAddrStart cb = 0 \<or> nextFwAddrStart cb = DFU_NEW_FW_ADDR_BASE)"

lemma of_nat_24_inj: "i < 2 ^ 24 \<Longrightarrow> j < 2 ^ 24 \<Longrightarrow> (of_nat i :: 24 word) = of_nat j \<longleftrightarrow> i = j"
  by (simp add: word_unat_eq_iff unat_of_nat)

lemma dfu_switch_flags_read:
  assumes ad: "dfu_addrs cb" and n: "n \<le> 0x3F03F"
  shows "(FLASH_ReadPage (nextFwAddrStart cb) n (dfu_switch_flags cb m))[0x20 := b]
       = (FLASH_ReadPage (nextFwAddrStart cb) n m)[0x20 := b]"
proof (rule nth_equalityI)
  fix k assume "k < length ((FLASH_ReadPage (nextFwAddrStart cb) n (dfu_switch_flags cb m))[0x20 := b])"
  then have k: "k < n" by simp
  let ?x = "ucast (nextFwAddrStart cb) + of_nat k :: 24 word"
  have keep: "dfu_switch_flags cb m ?x = m ?x" if "k \<noteq> 0x20"
  proof -
    have 1: "(of_nat k :: 24 word) \<noteq> of_nat 0x20"
      using that k n of_nat_24_inj [of k "0x20"] by simp
    have 2: "(of_nat k :: 24 word) \<noteq> of_nat 0x40020" "(of_nat (0x40000 + k) :: 24 word) \<noteq> of_nat 0x20"
      using k n of_nat_24_inj [of k "0x40020"] of_nat_24_inj [of "0x40000 + k" "0x20"] by simp_all
    show ?thesis using ad 1 2
      by (auto simp: dfu_switch_flags_def Let_def FLASH_WritePage_byte dfu_addrs_def DFU_NEW_FW_ADDR_BASE_def
          DFU_FW_FLAG_OFFSET_def)
  qed
  show "(FLASH_ReadPage (nextFwAddrStart cb) n (dfu_switch_flags cb m))[0x20 := b] ! k
       = (FLASH_ReadPage (nextFwAddrStart cb) n m)[0x20 := b] ! k"
    using k keep by (cases "k = 0x20") (simp_all add: FLASH_ReadPage_def flash.rd_nth)
qed simp

lemma dfu_img_send:
  "send_cmpl opcode param t = Some s' \<Longrightarrow> dfu_img t \<Longrightarrow> dfu_img s'"
  "send_cmpl_status opcode st t = Some s' \<Longrightarrow> dfu_img t \<Longrightarrow> dfu_img s'"
  "send_status opcode st t = Some s' \<Longrightarrow> dfu_img t \<Longrightarrow> dfu_img s'"
  by (auto dest!: send_cb intro: dfu_img_cong [of s' t])

lemma dfu_start_session_img: "dfu_start_session now sz s = Some s' \<Longrightarrow> dfu_img s'"
  unfolding dfu_start_session_def by (erule dfu_img_send) (rule dfu_img_reset, simp_all add: DFU_Reset_def)

lemma DFU_Start_img:
  "DFU_StartDfuCmdHandler now ver p s = Some s' \<Longrightarrow> dfu_img s \<Longrightarrow> dfu_img s'"
  unfolding DFU_StartDfuCmdHandler_def bind_eq_Some_conv
  by (auto split: if_splits dest: dfu_img_send(2) dfu_start_session_img
      intro: dfu_img_send(2) [OF _ dfu_img_reset] simp: DFU_Reset_def)

lemma dfu_img_set [simp]: "dfu_img (set_sta st s) = dfu_img s" "dfu_img (set_timer tm s) = dfu_img s"
  by (simp_all add: dfu_img_def set_sta_def set_timer_def)

lemma DFU_End_img:
  assumes "DFU_EndDfuCmdHandler now p s = Some s'" "dfu_img s" "dfu_inv s" "dfu_addrs (ds_cb s)"
  shows "dfu_img s'"
proof -
  let ?s = "set_timer (now OR 1) s"
  have "unat (fwOffset (ds_cb s)) \<le> 0x3F03F"
    using assms(3) by (simp add: dfu_inv_def DFU_NEW_FW_MAX_SIZE_def word_le_nat_alt)
  then have sw: "dfu_img (?s\<lparr>ds_flash := dfu_switch_flags (ds_cb ?s) (ds_flash ?s)\<rparr>)"
    using assms(2,4) dfu_switch_flags_read [of "ds_cb ?s" "unat (fwOffset (ds_cb s))" "ds_flash s"]
    by (simp add: dfu_img_def set_timer_def dfu_addrs_def)
  show ?thesis using assms(1,2) dfu_img_send(2) [OF _ sw]
    unfolding DFU_EndDfuCmdHandler_def bind_eq_Some_conv Let_def
    by (auto split: if_splits dest: dfu_img_send(2))
qed

lemma DFU_FwData_img:
  assumes r: "DFU_FwDataCmdHandler now p len s = Some s'" and img: "dfu_img s" and inv: "dfu_inv s"
    and p: "68 \<le> length p"
  shows "dfu_img s'"
proof -
  let ?s = "set_timer (now OR 1) s"
  have re: "dfu_img (?s\<lparr>ds_cb := (ds_cb ?s)\<lparr>resendCnt := c\<rparr>\<rparr>)" for c
    using img by (simp add: dfu_img_def set_timer_def)
  have st: "dfu_img s'" if "\<not> DFU_MAX_PAYLOAD < len - DFU_CHECKSUM_LEN" "fwOffset (ds_cb ?s) < newFwSize (ds_cb ?s)"
    "dfu_store_block p (len - DFU_CHECKSUM_LEN) (?s\<lparr>ds_cb := (ds_cb ?s)\<lparr>resendCnt := 0\<rparr>\<rparr>) = Some s'"
  proof (rule dfu_store_block_img [OF _ p _ re that(3)])
    show "unat (len - DFU_CHECKSUM_LEN) \<le> 64" using that(1) by (simp add: DFU_MAX_PAYLOAD_def word_less_nat_alt)
    show "unat (fwOffset (ds_cb (?s\<lparr>ds_cb := (ds_cb ?s)\<lparr>resendCnt := 0\<rparr>\<rparr>))) \<le> 0x3F000"
      using that(2) inv by (simp add: dfu_inv_def DFU_NEW_FW_MAX_SIZE_def word_le_nat_alt word_less_nat_alt set_timer_def)
  qed
  show ?thesis using r img st dfu_img_send(3) [OF _ re]
    unfolding DFU_FwDataCmdHandler_def Let_def bind_eq_Some_conv
    by (auto simp: bind_eq_Some_conv split: if_splits dest: dfu_img_send(3))
qed

lemma DFU_Handler_img:
  assumes r: "DFU_Handler now ver pkt s = Some (h, s')" and img: "dfu_img s" and inv: "dfu_inv s"
    and ad: "dfu_addrs (ds_cb s)" and p: "259 \<le> length pkt"
  shows "dfu_img s'"
proof -
  have cmd: "dfu_img t" if "DFU_CmdHandler now ver pkt s = Some t" for t
  proof -
    have rs: "dfu_img (s\<lparr>ds_calls := cs\<rparr>)" for cs using img by (simp add: dfu_img_def)
    show ?thesis using that p
      unfolding DFU_CmdHandler_def Let_def bind_eq_Some_conv
      by (auto split: if_splits simp: rs img dest: DFU_Start_img [OF _ img] DFU_End_img [OF _ img inv ad]
          DFU_FwData_img [OF _ img inv] dfu_img_send)
  qed
  show ?thesis using r img cmd unfolding DFU_Handler_def by (auto simp: bind_eq_Some_conv split: if_splits)
qed

lemma DFU_TaskStart_img: "dfu_img s \<Longrightarrow> dfu_img (DFU_TaskStart now busy s)"
proof -
  assume img: "dfu_img s"
  have re: "dfu_img (t\<lparr>ds_cb := DFU_Reset cb, ds_flash := m\<rparr>)" for t cb m
    by (rule dfu_img_reset) (simp_all add: DFU_Reset_def)
  have "dfu_img (set_sta DFU_STA_NONE s\<lparr>ds_calls := cs\<rparr>)" for cs
    using img by (simp add: dfu_img_def set_sta_def)
  then show ?thesis using img re by (simp add: DFU_TaskStart_def Let_def)
qed

lemma dfu_run_img:
  "dfu_run s t \<Longrightarrow> dfu_inv s \<Longrightarrow> dfu_addrs (ds_cb s) \<Longrightarrow> dfu_img s \<Longrightarrow> dfu_img t"
proof (induction rule: dfu_run.induct)
  case (run_cmd t pkt now ver h u)
  have "dfu_frame s t" using run_cmd dfu_run_frame by blast
  then have "dfu_inv t" "dfu_addrs (ds_cb t)" using run_cmd.prems by (simp_all add: dfu_frame_def dfu_addrs_def)
  then show ?case using run_cmd DFU_Handler_img by blast
next
  case (run_task t now busy)
  then show ?case using DFU_TaskStart_img by blast
next
  case (run_sent t)
  then show ?case by (auto simp: dfu_img_def)
qed

section \<open>A complete download\<close>

text \<open>The packets a host sends, in buffers padded to 259 bytes, and their delivery in order.\<close>

definition pad_pkt :: "bytes \<Rightarrow> bytes" where
  "pad_pkt p = p @ replicate (259 - length p) 0"

definition hci_cmd_pkt :: "u16 \<Rightarrow> bytes \<Rightarrow> bytes" where
  "hci_cmd_pkt opcode param = pad_pkt ([1] @ UINT16_TO_BSTREAM opcode @ [of_nat (length param)] @ param)"

definition fw_start_pkt :: "u32 \<Rightarrow> bytes" where
  "fw_start_pkt sz = hci_cmd_pkt HCI_OPCODE_VS_START_DFU ([1, 0, 0] @ UINT32_TO_BSTREAM sz)"

definition fw_data_pkt :: "bytes \<Rightarrow> bytes" where
  "fw_data_pkt d = hci_cmd_pkt HCI_OPCODE_VS_FW_DATA (d @ UINT32_TO_BSTREAM (DFU_Crc32Calc DFU_CRC_INIT_VALUE d))"

definition fw_end_pkt :: bytes where
  "fw_end_pkt = hci_cmd_pkt HCI_OPCODE_VS_END_DFU [0]"

fun dfu_feed :: "u32 \<Rightarrow> u16 \<Rightarrow> bytes list \<Rightarrow> dfu_state \<Rightarrow> dfu_state option" where
  "dfu_feed now ver [] s = Some s"
| "dfu_feed now ver (p # ps) s = do { (h, t) \<leftarrow> DFU_Handler now ver p s; if h then dfu_feed now ver ps t else None }"

lemma dfu_feed_append:
  "dfu_feed now ver (ps @ qs) s = do { t \<leftarrow> dfu_feed now ver ps s; dfu_feed now ver qs t }"
  by (induction ps arbitrary: s) (auto simp: bind_eq_Some_conv split: Option.bind_splits)

lemma dfu_opcodes:
  "HCI_OPCODE_VS_START_DFU = 0xFF00" "HCI_OPCODE_VS_END_DFU = 0xFF01" "HCI_OPCODE_VS_FW_DATA = 0xFF02"
  "HCI_OPCODE_RESET = 0x0C03" "HCI_OPCODE_READ_LOCAL_VER_INFO = 0x1001"
  by (simp_all add: HCI_OPCODE_VS_START_DFU_def HCI_OPCODE_VS_END_DFU_def HCI_OPCODE_VS_FW_DATA_def HCI_OPCODE_RESET_def
      HCI_OPCODE_READ_LOCAL_VER_INFO_def HCI_OPCODE_def HCI_OGF_VS_def HCI_OCF_VS_START_DFU_def HCI_OCF_VS_FW_DATA_def)

lemma hci_cmd_pkt_fields:
  assumes "length param \<le> 255"
  shows "BYTES_TO_UINT16 (hci_cmd_pkt op param) 1 = Some op"
    and "rd8 (hci_cmd_pkt op param) 3 = Some (of_nat (length param))"
    and "drop 4 (hci_cmd_pkt op param) = param @ replicate (255 - length param) 0"
proof -
  show "BYTES_TO_UINT16 (hci_cmd_pkt op param) 1 = Some op"
    using uint16_roundtrip [of "[1]" op] by (simp add: hci_cmd_pkt_def pad_pkt_def)
  show "rd8 (hci_cmd_pkt op param) 3 = Some (of_nat (length param))"
    by (simp add: hci_cmd_pkt_def pad_pkt_def UINT16_TO_BSTREAM_def)
  show "drop 4 (hci_cmd_pkt op param) = param @ replicate (255 - length param) 0"
    by (simp add: hci_cmd_pkt_def pad_pkt_def UINT16_TO_BSTREAM_def)
qed

lemma DFU_Handler_vs:
  assumes "length param \<le> 255" "op = 0xFF00 \<or> op = 0xFF01 \<or> op = 0xFF02"
  shows "DFU_Handler now ver (hci_cmd_pkt op param) s = do { t \<leftarrow>
      (let p = param @ replicate (255 - length param) 0 in
       if op = 0xFF00 then DFU_StartDfuCmdHandler now ver p s
       else if op = 0xFF02 then DFU_FwDataCmdHandler now p (of_nat (length param)) s
       else DFU_EndDfuCmdHandler now p s); Some (True, t) }"
proof -
  have u: "(ucast (of_nat (length param) :: u8) :: u32) = of_nat (length param)"
    using assms(1) by (simp add: word_unat_eq_iff unat_ucast_up unat_of_nat)
  have g: "HCI_OGF op = HCI_OGF_VS" "HCI_OCF_VS_START_DFU \<le> HCI_OCF op" "HCI_OCF op \<le> HCI_OCF_VS_FW_DATA"
    using assms(2) by (auto simp: HCI_OGF_def HCI_OGF_VS_def HCI_OCF_def HCI_OCF_VS_START_DFU_def HCI_OCF_VS_FW_DATA_def)
  show ?thesis unfolding DFU_Handler_def DFU_CmdHandler_def hci_cmd_pkt_fields [OF assms(1)] bind.bind_lunit Let_def u dfu_opcodes
    using assms(2) g by auto
qed

text \<open>The state of a download of \<open>tot\<close> bytes of which the bytes \<open>rx\<close> have been taken.\<close>

definition dfu_session :: "nat \<Rightarrow> bytes \<Rightarrow> dfu_state \<Rightarrow> bool" where
  "dfu_session tot rx s \<longleftrightarrow> dfu_inv s \<and> dfu_addrs (ds_cb s) \<and> dfu_sta (ds_cb s) = DFU_STA_START
     \<and> resendCnt (ds_cb s) = 0 \<and> unat (newFwSize (ds_cb s)) = tot \<and> unat (fwOffset (ds_cb s)) = length rx
     \<and> curCrc (ds_cb s) = DFU_Crc32Calc DFU_CRC_INIT_VALUE rx
     \<and> (\<forall>i < tot. ds_flash s (ucast (nextFwAddrStart (ds_cb s)) + of_nat i)
                     = (if i < length rx then rx[0x20 := 0xFF] ! i else 0xFF))"

lemma cell_after_write:
  assumes "i < 2 ^ 24" "ofs + length d \<le> 2 ^ 24"
  shows "FLASH_WritePage (a + of_nat ofs) d m (ucast a + of_nat i) =
     (if ofs \<le> i \<and> i < ofs + length d then m (ucast a + of_nat i) AND d ! (i - ofs) else m (ucast a + of_nat i))"
proof -
  have x: "ucast a + of_nat i - ucast (a + of_nat ofs :: u32) = (of_nat i - of_nat ofs :: 24 word)"
    by (simp add: ucast_add_24 ucast_of_nat_24)
  show ?thesis
  proof (cases "ofs \<le> i")
    case True
    then have "unat (of_nat i - of_nat ofs :: 24 word) = i - ofs"
      using assms(1) by (simp add: of_nat_diff [symmetric] unat_of_nat del: of_nat_diff)
    then show ?thesis using True assms(2) by (auto simp: FLASH_WritePage_cell x)
  next
    case False
    have "unat (of_nat i - of_nat ofs :: 24 word) = 2 ^ 24 - (ofs - i)"
    proof -
      have "(of_nat i - of_nat ofs :: 24 word) = of_nat (2 ^ 24 - (ofs - i))"
        using False assms by (simp add: of_nat_diff)
      then show ?thesis using False assms by (simp only: unat_of_nat) simp
    qed
    then show ?thesis using False assms(2) by (auto simp: FLASH_WritePage_cell x)
  qed
qed

lemma fw_data_accepted:
  assumes s: "dfu_session tot rx s" and d: "d \<noteq> []" "length d \<le> 64" and fit: "length rx + length d \<le> tot"
    and first: "0x20 < length (rx @ d)" "rx = [] \<or> 0x20 < length rx"
  shows "\<exists>t. DFU_Handler now ver (fw_data_pkt d) s = Some (True, t) \<and> dfu_session tot (rx @ d) t
           \<and> nextFwAddrStart (ds_cb t) = nextFwAddrStart (ds_cb s)"
proof -
  let ?cb = "ds_cb s" and ?c = "UINT32_TO_BSTREAM (DFU_Crc32Calc DFU_CRC_INIT_VALUE d)"
  let ?p = "(d @ ?c) @ replicate (255 - length (d @ ?c)) 0" and ?len = "of_nat (length (d @ ?c)) :: u32"
  let ?a = "nextFwAddrStart ?cb" and ?w = "withhold_flag (fwOffset ?cb) d"
  let ?s = "(set_timer (now OR 1) s)\<lparr>ds_cb := (ds_cb (set_timer (now OR 1) s))\<lparr>resendCnt := 0\<rparr>\<rparr>"
  have inv: "dfu_inv s" and ad: "dfu_addrs ?cb" and sta: "dfu_sta ?cb = DFU_STA_START" "resendCnt ?cb = 0"
    and sz: "unat (newFwSize ?cb) = tot" "unat (fwOffset ?cb) = length rx"
    and crc: "curCrc ?cb = DFU_Crc32Calc DFU_CRC_INIT_VALUE rx"
    and fl: "\<And>i. i < tot \<Longrightarrow> ds_flash s (ucast ?a + of_nat i) = (if i < length rx then rx[0x20 := 0xFF] ! i else 0xFF)"
    using s by (auto simp: dfu_session_def)
  have totb: "tot \<le> 0x3F000" using inv sz by (simp add: dfu_inv_def DFU_NEW_FW_MAX_SIZE_def word_le_nat_alt)
  have off: "fwOffset ?cb = of_nat (length rx)" unfolding sz(2) [symmetric] by simp
  have dl: "?len - DFU_CHECKSUM_LEN = of_nat (length d)" by (simp add: DFU_CHECKSUM_LEN_def)
  have udl: "unat (of_nat (length d) :: u32) = length d" using d by (intro unat_of_nat_small) simp
  have ulen: "unat ?len = length (d @ ?c)" using d by (intro unat_of_nat_small) simp
  have rd: "rd_range ?p 0 (unat ?len) = Some (d @ ?c)" unfolding ulen using d by (simp add: rd_range_def)
  have room: "fwOffset ?cb < newFwSize ?cb" using sz fit d(1) by (cases d) (simp_all add: word_less_nat_alt)
  have pay: "\<not> DFU_MAX_PAYLOAD < of_nat (length d)" using d by (simp add: DFU_MAX_PAYLOAD_def word_less_nat_alt udl)
  have h: "DFU_Handler now ver (fw_data_pkt d) s = do { t \<leftarrow> dfu_store_block ?p (of_nat (length d)) ?s; Some (True, t) }"
  proof -
    have "length (d @ ?c) \<le> 255" using d by simp
    then have "DFU_Handler now ver (fw_data_pkt d) s = do { t \<leftarrow> DFU_FwDataCmdHandler now ?p ?len s; Some (True, t) }"
      unfolding fw_data_pkt_def dfu_opcodes by (subst DFU_Handler_vs) (simp_all only: Let_def, simp_all)
    moreover have "DFU_FwDataCmdHandler now ?p ?len s = dfu_store_block ?p (of_nat (length d)) ?s"
      unfolding DFU_FwDataCmdHandler_def dl rd bind.bind_lunit dfu_crc_residue Let_def
      using sta room pay by (simp add: DFU_RESEND_CNT_def set_timer_def)
    ultimately show ?thesis by simp
  qed
  let ?m = "FLASH_WritePage (?a + fwOffset ?cb) ?w (ds_flash s)"
  have "FLASH_ReadPage (?a + fwOffset ?cb) (length ?w) ?m = ?w"
    unfolding FLASH_ReadPage_def FLASH_WritePage_def
  proof (rule flash.rd_wr_erased)
    show "flash.erased (?a + fwOffset ?cb) (length ?w) (ds_flash s)"
      using fl fit by (auto simp: flash.erased_def off ucast_add_24 ucast_of_nat_24 add.assoc simp flip: of_nat_add)
    show "length ?w \<le> 2 ^ 24" using d by simp
  qed
  then have rdback: "restore_flag (fwOffset ?cb) d (FLASH_ReadPage (?a + fwOffset ?cb) (length d) ?m) = d"
    by (cases "fwOffset ?cb = 0") (simp_all add: withhold_flag_def restore_flag_def)
  have off': "fwOffset ?cb + of_nat (length d) = of_nat (length rx + length d)" by (simp add: off)
  define t0 where "t0 = ?s\<lparr>ds_flash := ?m, ds_cb := (ds_cb ?s)\<lparr>curCrc := DFU_Crc32Calc DFU_CRC_INIT_VALUE (rx @ d),
        fwOffset := of_nat (length rx + length d)\<rparr>\<rparr>"
  have st: "dfu_store_block ?p (of_nat (length d)) ?s = send_status HCI_OPCODE_VS_FW_DATA HCI_SUCCESS t0"
    using dfu_store_block_eq [of "of_nat (length d)" ?p ?s] d rdback crc off'
    by (simp add: udl set_timer_def t0_def dfu_crc.calc_append)
  obtain t where t: "send_status HCI_OPCODE_VS_FW_DATA HCI_SUCCESS t0 = Some t"
    using send_status_ok [of t0] inv by (auto simp: t0_def dfu_inv_def set_timer_def)
  have tt: "ds_cb t = ds_cb t0" "ds_flash t = ds_flash t0" using send_cb(3) [OF t] by simp_all
  have "dfu_frame s t" using DFU_Handler_frame [OF inv, of "fw_data_pkt d" now ver] h st t d
    by (simp add: fw_data_pkt_def hci_cmd_pkt_def pad_pkt_def)
  then have "dfu_inv t" by (simp add: dfu_frame_def)
  moreover have "ds_flash t (ucast ?a + of_nat i) = (if i < length (rx @ d) then (rx @ d)[0x20 := 0xFF] ! i else 0xFF)"
    if i: "i < tot" for i
  proof -
    have "ds_flash t (ucast ?a + of_nat i) = (if length rx \<le> i \<and> i < length rx + length d
        then ds_flash s (ucast ?a + of_nat i) AND ?w ! (i - length rx) else ds_flash s (ucast ?a + of_nat i))"
      using cell_after_write [of i "length rx" ?w ?a "ds_flash s"] i totb d fit by (simp add: tt t0_def off)
    then show ?thesis using fl [OF i] first(2) sz(2)
      by (cases "rx = []") (auto simp: withhold_flag_def off nth_append list_update_append and_FF_u8 unat_eq_zero)
  qed
  moreover have "unat (of_nat (length rx + length d) :: u32) = length (rx @ d)"
    using fit totb by (subst unat_of_nat_small) simp_all
  ultimately have "dfu_session tot (rx @ d) t" using ad sta sz
    by (simp add: dfu_session_def tt t0_def set_timer_def dfu_addrs_def)
  then show ?thesis using h st t tt by (simp add: t0_def set_timer_def)
qed

definition area_erased :: "nat \<Rightarrow> dfu_state \<Rightarrow> bool" where
  "area_erased n s \<longleftrightarrow> (\<forall>i < n. ds_flash s (ucast (nextFwAddrStart (ds_cb s)) + of_nat i) = 0xFF)"

lemma fw_start_accepted:
  assumes inv: "dfu_inv s" and ad: "dfu_addrs (ds_cb s)" and sta: "dfu_sta (ds_cb s) \<noteq> DFU_STA_START"
    and sz: "sz \<le> DFU_NEW_FW_MAX_SIZE" and er: "area_erased (unat sz) s"
  shows "\<exists>t. DFU_Handler now ver (fw_start_pkt sz) s = Some (True, t) \<and> dfu_session (unat sz) [] t
           \<and> nextFwAddrStart (ds_cb t) = nextFwAddrStart (ds_cb s)"
proof -
  let ?param = "[1, 0, 0] @ UINT32_TO_BSTREAM sz"
  let ?p = "?param @ replicate (255 - length ?param) 0"
  have mx: "maxFwSize (ds_cb s) = DFU_NEW_FW_MAX_SIZE" using inv by (simp add: dfu_inv_def)
  have f: "rd8 ?p 0 = Some 1" "BYTES_TO_UINT16 ?p 1 = Some 0" "BYTES_TO_UINT32 ?p 3 = Some sz"
    using uint32_roundtrip [of "[1, 0, 0]" sz "replicate (255 - length ?param) 0"]
    by (simp_all add: BYTES_TO_UINT16_def rd8_def numeral_3_eq_3)
  have st: "DFU_StartDfuCmdHandler now ver ?p s = dfu_start_session now sz s"
    unfolding DFU_StartDfuCmdHandler_def f bind.bind_lunit using sta leD [OF sz] by (simp add: mx)
  have h: "DFU_Handler now ver (fw_start_pkt sz) s = do { t \<leftarrow> dfu_start_session now sz s; Some (True, t) }"
    unfolding fw_start_pkt_def dfu_opcodes st [symmetric] by (subst DFU_Handler_vs) (simp_all add: Let_def)
  obtain t where t: "dfu_start_session now sz s = Some t" "dfu_frame s t"
    using dfu_start_session_frame [OF inv, of sz now] sz mx by auto
  have tt: "ds_cb t = (DFU_Reset (ds_cb s))\<lparr>dfu_sta := DFU_STA_START, newFwSize := sz, dfu_timer := now OR 1\<rparr>"
    "ds_flash t = ds_flash s"
    using send_cb(1) [OF t(1) [unfolded dfu_start_session_def]] by simp_all
  have "dfu_session (unat sz) [] t" using t(2) ad er
    by (simp add: dfu_session_def tt dfu_frame_def DFU_Reset_def dfu_addrs_def area_erased_def)
  then show ?thesis using h t by (simp add: tt DFU_Reset_def)
qed

lemma fw_end_accepted:
  assumes s: "dfu_session (length rx) rx s" and crc: "DFU_Crc32Calc DFU_CRC_INIT_VALUE rx = 0" and len: "0x20 < length rx"
  shows "\<exists>t. DFU_Handler now ver fw_end_pkt s = Some (True, t) \<and> dfu_sta (ds_cb t) = DFU_STA_END
           \<and> nextFwAddrStart (ds_cb t) = nextFwAddrStart (ds_cb s)
           \<and> (\<forall>i < length rx. ds_flash t (ucast (nextFwAddrStart (ds_cb s)) + of_nat i) = rx[0x20 := 0x4B] ! i)
           \<and> ds_flash t (if nextFwAddrStart (ds_cb s) = 0 then 0x40020 else 0x20) = 0"
proof -
  let ?cb = "ds_cb s" and ?s = "set_timer (now OR 1) s"
  have inv: "dfu_inv s" and ad: "dfu_addrs ?cb" and sz: "fwOffset ?cb = newFwSize ?cb" and c: "curCrc ?cb = 0"
    and n: "length rx \<le> 0x3F000"
    and fl: "\<And>i. i < length rx \<Longrightarrow> ds_flash s (ucast (nextFwAddrStart ?cb) + of_nat i) = rx[0x20 := 0xFF] ! i"
    using s crc by (auto simp: dfu_session_def word_unat_eq_iff dfu_inv_def DFU_NEW_FW_MAX_SIZE_def word_le_nat_alt)
  let ?m = "dfu_switch_flags (ds_cb ?s) (ds_flash ?s)"
  obtain u where u: "send_cmpl_status HCI_OPCODE_VS_END_DFU HCI_SUCCESS (?s\<lparr>ds_flash := ?m\<rparr>) = Some u"
    using send_cmpl_status_ok [of "?s\<lparr>ds_flash := ?m\<rparr>"] inv by (auto simp: dfu_inv_def set_timer_def)
  have h: "DFU_Handler now ver fw_end_pkt s = Some (True, set_sta DFU_STA_END u)"
    unfolding fw_end_pkt_def dfu_opcodes
    by (subst DFU_Handler_vs) (use u sz c in \<open>simp_all add: Let_def DFU_EndDfuCmdHandler_def rd8_def set_timer_def dfu_opcodes\<close>)
  have uu: "ds_flash u = dfu_switch_flags ?cb (ds_flash s)" "nextFwAddrStart (ds_cb u) = nextFwAddrStart ?cb"
    using send_cb(2) [OF u] by (simp_all add: set_timer_def dfu_switch_flags_def)
  have old: "dfu_switch_flags ?cb m (if nextFwAddrStart ?cb = 0 then 0x40020 else 0x20) = 0" for m
    using ad by (auto simp: dfu_switch_flags_def Let_def FLASH_WritePage_byte dfu_addrs_def DFU_NEW_FW_ADDR_BASE_def DFU_FW_FLAG_OFFSET_def)
  have new: "dfu_switch_flags ?cb (ds_flash s) (ucast (nextFwAddrStart ?cb) + of_nat i) = rx[0x20 := 0x4B] ! i"
    if i: "i < length rx" for i
  proof (cases "i = 0x20")
    case True
    then show ?thesis using fl [OF i] ad len
      by (auto simp: dfu_switch_flags_def Let_def FLASH_WritePage_byte dfu_addrs_def DFU_NEW_FW_ADDR_BASE_def
          DFU_FW_FLAG_OFFSET_def and_FF_u8)
  next
    case False
    have "(FLASH_ReadPage (nextFwAddrStart ?cb) (length rx) (dfu_switch_flags ?cb (ds_flash s)))[0x20 := 0] ! i
        = (FLASH_ReadPage (nextFwAddrStart ?cb) (length rx) (ds_flash s))[0x20 := 0] ! i"
      using dfu_switch_flags_read [OF ad, of "length rx"] n by simp
    then show ?thesis using False fl [OF i] i by (simp add: FLASH_ReadPage_def flash.rd_nth)
  qed
  show ?thesis using h uu old new by (simp add: set_sta_def)
qed

lemma fw_blocks_accepted:
  assumes "dfu_session tot rx s" "\<And>d. d \<in> set ds \<Longrightarrow> d \<noteq> [] \<and> length d \<le> 64"
    and "length (rx @ concat ds) = tot" "rx = [] \<and> (ds \<noteq> [] \<longrightarrow> 0x20 < length (hd ds)) \<or> 0x20 < length rx"
  shows "\<exists>t. dfu_feed now ver (map fw_data_pkt ds) s = Some t \<and> dfu_session tot (rx @ concat ds) t
           \<and> nextFwAddrStart (ds_cb t) = nextFwAddrStart (ds_cb s)"
  using assms
proof (induction ds arbitrary: rx s)
  case Nil
  then show ?case by simp
next
  case (Cons d ds)
  obtain t where t: "DFU_Handler now ver (fw_data_pkt d) s = Some (True, t)" "dfu_session tot (rx @ d) t"
      "nextFwAddrStart (ds_cb t) = nextFwAddrStart (ds_cb s)"
    using fw_data_accepted [OF Cons.prems(1), of d now ver] Cons.prems(2) [of d] Cons.prems(3,4) by auto
  have "\<exists>u. dfu_feed now ver (map fw_data_pkt ds) t = Some u \<and> dfu_session tot ((rx @ d) @ concat ds) u
           \<and> nextFwAddrStart (ds_cb u) = nextFwAddrStart (ds_cb t)"
    using Cons.prems by (intro Cons.IH [OF t(2)]) auto
  then show ?case using t by auto
qed

lemma dfu_feed_download:
  assumes inv: "dfu_inv s" "dfu_addrs (ds_cb s)" "dfu_sta (ds_cb s) \<noteq> DFU_STA_START"
    and ds: "ds \<noteq> []" "\<And>d. d \<in> set ds \<Longrightarrow> d \<noteq> [] \<and> length d \<le> 64" "0x20 < length (hd ds)"
    and img: "length (concat ds) \<le> 0x3F000" "DFU_Crc32Calc DFU_CRC_INIT_VALUE (concat ds) = 0"
    and er: "area_erased (length (concat ds)) s"
  shows "\<exists>t. dfu_feed now ver (fw_start_pkt (of_nat (length (concat ds))) # map fw_data_pkt ds @ [fw_end_pkt]) s = Some t
           \<and> dfu_sta (ds_cb t) = DFU_STA_END
           \<and> (\<forall>i < length (concat ds). ds_flash t (ucast (nextFwAddrStart (ds_cb s)) + of_nat i) = (concat ds)[0x20 := 0x4B] ! i)
           \<and> ds_flash t (if nextFwAddrStart (ds_cb s) = 0 then 0x40020 else 0x20) = 0"
proof -
  let ?n = "length (concat ds)"
  have un: "unat (of_nat ?n :: u32) = ?n" using img(1) by (intro unat_of_nat_small) simp
  have le: "of_nat ?n \<le> DFU_NEW_FW_MAX_SIZE"
    unfolding word_le_nat_alt un using img(1) by (simp add: DFU_NEW_FW_MAX_SIZE_def)
  obtain t1 where t1: "DFU_Handler now ver (fw_start_pkt (of_nat ?n)) s = Some (True, t1)" "dfu_session ?n [] t1"
      "nextFwAddrStart (ds_cb t1) = nextFwAddrStart (ds_cb s)"
    using fw_start_accepted [OF inv le, of now ver] er un by auto
  obtain t2 where t2: "dfu_feed now ver (map fw_data_pkt ds) t1 = Some t2" "dfu_session ?n (concat ds) t2"
      "nextFwAddrStart (ds_cb t2) = nextFwAddrStart (ds_cb t1)"
    using fw_blocks_accepted [OF t1(2), of ds now ver] ds by auto
  have "length (hd ds) \<le> ?n" using ds(1) by (cases ds) simp_all
  then have "0x20 < ?n" using ds(3) by linarith
  then obtain t3 where t3: "DFU_Handler now ver fw_end_pkt t2 = Some (True, t3)" "dfu_sta (ds_cb t3) = DFU_STA_END"
      "\<forall>i < ?n. ds_flash t3 (ucast (nextFwAddrStart (ds_cb t2)) + of_nat i) = (concat ds)[0x20 := 0x4B] ! i"
      "ds_flash t3 (if nextFwAddrStart (ds_cb t2) = 0 then 0x40020 else 0x20) = 0"
    using fw_end_accepted [OF t2(2) img(2), of now ver] by auto
  show ?thesis using t1 t2 t3 by (intro exI [of _ t3]) (simp add: dfu_feed_append)
qed

lemma DFU_Start_accept:
  assumes "DFU_StartDfuCmdHandler now ver p s = Some t" "dfu_sta (ds_cb s) \<noteq> DFU_STA_START" "dfu_sta (ds_cb t) = DFU_STA_START"
  shows "dfu_img t"
  using assms unfolding DFU_StartDfuCmdHandler_def
  by (auto simp: bind_eq_Some_conv DFU_Reset_def split: if_splits dest: dfu_start_session_img dest!: send_cb(2))

lemma DFU_End_switches:
  assumes "DFU_EndDfuCmdHandler now q t = Some u" "ds_flash u \<noteq> ds_flash t"
  shows "fwOffset (ds_cb t) = newFwSize (ds_cb t) \<and> curCrc (ds_cb t) = 0 \<and> dfu_sta (ds_cb u) = DFU_STA_END"
  using assms unfolding DFU_EndDfuCmdHandler_def
  by (auto simp: Let_def bind_eq_Some_conv set_timer_def set_sta_def split: if_splits dest!: send_cb(2))

definition dfu_example :: dfu_state where
  "dfu_example = DFU_Init DFU_NEW_FW_ADDR_BASE
     \<lparr>ds_cb = \<lparr>newFwAddrStart = 0, maxFwSize = 0, nextFwAddrStart = 0, newFwSize = 0, fwOffset = 0, curCrc = 0,
        dfu_timer = 0, dfu_sta = DFU_STA_NONE, resendCnt = 0\<rparr>,
      ds_tx = \<lparr>hf_size = 32, hf_num = 2, hf_mask = 1, hf_wptr = 0, hf_rptr = 0, hf_p = replicate 64 0\<rparr>,
      ds_flash = (\<lambda>_. 0xFF), ds_calls = []\<rparr>"

lemma dfu_example_tx: "tx_shape \<lparr>hf_size = 32, hf_num = 2, hf_mask = 1, hf_wptr = 0, hf_rptr = 0, hf_p = replicate 64 0\<rparr>"
  by (auto simp: tx_shape_def hf_ok_def pf_ok_def intro: exI [of _ 1])

lemma dfu_example_ok:
  "dfu_inv dfu_example" "dfu_addrs (ds_cb dfu_example)" "dfu_sta (ds_cb dfu_example) = DFU_STA_NONE"
  "nextFwAddrStart (ds_cb dfu_example) = 0x40000" "tx_shape (ds_tx dfu_example)" "ds_flash dfu_example = (\<lambda>_. 0xFF)"
proof -
  show "dfu_inv dfu_example" unfolding dfu_example_def
    by (rule DFU_Init_inv) (simp_all add: dfu_example_tx DFU_NEW_FW_ADDR_BASE_def)
  show "dfu_addrs (ds_cb dfu_example)" "dfu_sta (ds_cb dfu_example) = DFU_STA_NONE"
    "nextFwAddrStart (ds_cb dfu_example) = 0x40000" "tx_shape (ds_tx dfu_example)"
    using dfu_example_tx by (simp_all add: dfu_example_def DFU_Init_def Let_def dfu_addrs_def DFU_NEW_FW_ADDR_BASE_def)
  show "ds_flash dfu_example = (\<lambda>_. 0xFF)"
    by (simp add: dfu_example_def DFU_Init_def Let_def DFU_EraseNewFwArea_def dfu_probe_dirty_def FLASH_ReadPage_def
        flash.rd_cells BYTES_TO_UINT32_def upt_rec rd8_def)
qed

text \<open>A concrete run that reaches a successful end command.\<close>

lemma dfu_example_run:
  "\<exists>s1 t u. DFU_StartDfuCmdHandler 5 0x40 (1 # 0 # 0 # UINT32_TO_BSTREAM 44 @ replicate 248 0) dfu_example = Some s1
     \<and> dfu_sta (ds_cb s1) = DFU_STA_START \<and> dfu_run s1 t \<and> newFwSize (ds_cb t) = 44
     \<and> DFU_EndDfuCmdHandler 5 (0 # replicate 254 0) t = Some u \<and> ds_flash u \<noteq> ds_flash t"
proof -
  let ?d = "replicate 40 7 @ UINT32_TO_BSTREAM (DFU_Crc32Calc DFU_CRC_INIT_VALUE (replicate 40 7))"
  have er: "area_erased (unat (44 :: u32)) dfu_example" "(44 :: u32) \<le> DFU_NEW_FW_MAX_SIZE"
    by (simp_all add: area_erased_def dfu_example_ok DFU_NEW_FW_MAX_SIZE_def)
  have ne: "dfu_sta (ds_cb dfu_example) \<noteq> DFU_STA_START" by (simp add: dfu_example_ok)
  obtain s1 where s1: "DFU_Handler 5 0x40 (fw_start_pkt 44) dfu_example = Some (True, s1)" "dfu_session (unat (44 :: u32)) [] s1"
    using fw_start_accepted [OF dfu_example_ok(1,2) ne er(2,1), of 5 "0x40"] by auto
  obtain t where t: "DFU_Handler 5 0x40 (fw_data_pkt ?d) s1 = Some (True, t)" "dfu_session (length ?d) ([] @ ?d) t"
    using fw_data_accepted [OF s1(2), of ?d 5 "0x40"] by auto
  obtain u where u: "DFU_Handler 5 0x40 fw_end_pkt t = Some (True, u)"
      "\<forall>i < length ?d. ds_flash u (ucast (nextFwAddrStart (ds_cb t)) + of_nat i) = ?d[0x20 := 0x4B] ! i"
    using fw_end_accepted [OF t(2) [simplified append_Nil] dfu_crc_residue, of 5 "0x40"] by auto
  have t0: "\<forall>i < length ?d. ds_flash t (ucast (nextFwAddrStart (ds_cb t)) + of_nat i) = ?d[0x20 := 0xFF] ! i"
    using t(2) by (simp add: dfu_session_def)
  have "ds_flash u (ucast (nextFwAddrStart (ds_cb t)) + of_nat 0x20) = 0x4B"
    "ds_flash t (ucast (nextFwAddrStart (ds_cb t)) + of_nat 0x20) = 0xFF"
    using u(2) [rule_format, of "0x20"] t0 [rule_format, of "0x20"] by simp_all
  then have ne: "ds_flash u \<noteq> ds_flash t" by auto
  have st: "DFU_StartDfuCmdHandler 5 0x40 (1 # 0 # 0 # UINT32_TO_BSTREAM 44 @ replicate 248 0) dfu_example = Some s1"
    using s1(1) unfolding fw_start_pkt_def dfu_opcodes
    by (subst (asm) DFU_Handler_vs) (auto simp: bind_eq_Some_conv Let_def)
  have en: "DFU_EndDfuCmdHandler 5 (0 # replicate 254 0) t = Some u"
    using u(1) unfolding fw_end_pkt_def dfu_opcodes
    by (subst (asm) DFU_Handler_vs) (auto simp: bind_eq_Some_conv Let_def)
  have run: "dfu_run s1 t"
    by (rule run_cmd [OF run_refl _ t(1)]) (simp add: fw_data_pkt_def hci_cmd_pkt_def pad_pkt_def)
  have "unat (newFwSize (ds_cb t)) = 44" using t(2) by (simp add: dfu_session_def)
  then have "newFwSize (ds_cb t) = 44" by (simp add: word_unat_eq_iff)
  then show ?thesis using st en ne run s1(2) by (auto simp: dfu_session_def)
qed

section \<open>Properties\<close>

text \<open>
  C2.  A download that follows the protocol succeeds: when the target area is erased and a host
  sends the start command, the image in blocks of at most 64 bytes (the first one longer than the
  flag offset) and the end command, and the image ends in its own checksum, then every command is
  reported as consumed (the host driver \<open>dfu_feed\<close> fails at a command that is not), the flash holds exactly the image with the boot flag \<open>0x4B\<close>, the boot flag of the
  running firmware is cleared, and the service waits for the reboot.
\<close>

theorem dfu_download_correct:
  assumes "dfu_inv s" "dfu_addrs (ds_cb s)" "dfu_sta (ds_cb s) \<noteq> DFU_STA_START"
    and "ds \<noteq> []" "\<And>d. d \<in> set ds \<Longrightarrow> d \<noteq> [] \<and> length d \<le> 64" "0x20 < length (hd ds)"
    and "length (concat ds) \<le> 0x3F000" "DFU_Crc32Calc DFU_CRC_INIT_VALUE (concat ds) = 0"
    and "area_erased (length (concat ds)) s"
  shows "\<exists>t. dfu_feed now ver (fw_start_pkt (of_nat (length (concat ds))) # map fw_data_pkt ds @ [fw_end_pkt]) s = Some t
           \<and> dfu_sta (ds_cb t) = DFU_STA_END
           \<and> (\<forall>i < length (concat ds). ds_flash t (ucast (nextFwAddrStart (ds_cb s)) + of_nat i) = (concat ds)[0x20 := 0x4B] ! i)
           \<and> ds_flash t (if nextFwAddrStart (ds_cb s) = 0 then 0x40020 else 0x20) = 0"
  using assms by (rule dfu_feed_download)

theorem dfu_download_correct_witness:
  "\<exists>t. dfu_feed 5 0x40 (fw_start_pkt 44 # map fw_data_pkt
         [replicate 40 7 @ UINT32_TO_BSTREAM (DFU_Crc32Calc DFU_CRC_INIT_VALUE (replicate 40 7))] @ [fw_end_pkt]) dfu_example = Some t
     \<and> dfu_sta (ds_cb t) = DFU_STA_END \<and> ds_flash t 0x20 = 0"
proof -
  let ?ds = "[replicate 40 7 @ UINT32_TO_BSTREAM (DFU_Crc32Calc DFU_CRC_INIT_VALUE (replicate 40 7))]"
  have l: "length (concat ?ds) = 44" by simp
  show ?thesis
    using dfu_download_correct [OF dfu_example_ok(1,2), of ?ds 5 "0x40"] dfu_crc_residue [of DFU_CRC_INIT_VALUE "replicate 40 7"]
    unfolding l by (auto simp: dfu_example_ok area_erased_def)
qed

text \<open>
  C3.  The boot flags are switched only over a verified image.  After an accepted start command,
  whatever commands, task calls and transmissions follow: when an end command changes the flash,
  as many bytes as announced have been stored, and the checksum of that many bytes of the target
  area, with the byte at the flag offset as it was sent, is correct.
\<close>

theorem dfu_boot_switch_verified:
  assumes "dfu_inv s" "dfu_addrs (ds_cb s)" "dfu_sta (ds_cb s) \<noteq> DFU_STA_START"
    and "DFU_StartDfuCmdHandler now ver p s = Some s1" "dfu_sta (ds_cb s1) = DFU_STA_START" "7 \<le> length p"
    and "dfu_run s1 t" "DFU_EndDfuCmdHandler now' q t = Some u" "ds_flash u \<noteq> ds_flash t"
  shows "fwOffset (ds_cb t) = newFwSize (ds_cb t) \<and> dfu_sta (ds_cb u) = DFU_STA_END
     \<and> (\<exists>b. DFU_Crc32Calc DFU_CRC_INIT_VALUE
              ((FLASH_ReadPage (nextFwAddrStart (ds_cb t)) (unat (newFwSize (ds_cb t))) (ds_flash t))[0x20 := b]) = 0)"
proof -
  have fr: "dfu_frame s s1" using DFU_Start_frame [OF assms(1,6), of now ver] assms(4) by auto
  have "dfu_img s1" using DFU_Start_accept assms(3-5) by blast
  then have "dfu_img t" using dfu_run_img [OF assms(7)] fr assms(2) by (simp add: dfu_frame_def dfu_addrs_def)
  then show ?thesis using DFU_End_switches [OF assms(8,9)] by (auto simp: dfu_img_def)
qed

theorem dfu_boot_switch_verified_witness:
  "\<exists>t u b. DFU_EndDfuCmdHandler 5 (0 # replicate 254 0) t = Some u \<and> dfu_sta (ds_cb u) = DFU_STA_END
     \<and> newFwSize (ds_cb t) = 44 \<and> DFU_Crc32Calc DFU_CRC_INIT_VALUE
              ((FLASH_ReadPage (nextFwAddrStart (ds_cb t)) 44 (ds_flash t))[0x20 := b]) = 0"
proof -
  obtain s1 t u where r: "DFU_StartDfuCmdHandler 5 0x40 (1 # 0 # 0 # UINT32_TO_BSTREAM 44 @ replicate 248 0) dfu_example = Some s1"
      "dfu_sta (ds_cb s1) = DFU_STA_START" "dfu_run s1 t" "newFwSize (ds_cb t) = 44"
      "DFU_EndDfuCmdHandler 5 (0 # replicate 254 0) t = Some u" "ds_flash u \<noteq> ds_flash t"
    using dfu_example_run by blast
  show ?thesis
    using dfu_boot_switch_verified [OF dfu_example_ok(1,2) _ r(1,2) _ r(3,5,6)] r(4,5) by (auto simp: dfu_example_ok)
qed

text \<open>
  C5.  The service never leaves its memory.  From initialisation with a sector-aligned address on, under
  any sequence of commands, task calls and transmissions, a further command of any content (in a receive
  buffer of at least 259 bytes) cannot access memory outside its buffer, the transmit FIFO or the block buffer.
  No flash cell has changed except in the new firmware area of \<open>0x3F000\<close> bytes, in the 63 bytes behind
  it, into which a last block may hang over, and at the boot flag of the running firmware.
\<close>

theorem dfu_flash_confined:
  assumes "tx_shape (ds_tx s)" "nxt AND 0xFFF = 0" "dfu_run (DFU_Init nxt s) t" "259 \<le> length pkt"
    and "0x3F03F \<le> unat (x - ucast nxt)" "x \<noteq> ucast ((if nxt = 0 then DFU_NEW_FW_ADDR_BASE else 0) + DFU_FW_FLAG_OFFSET)"
  shows "ds_flash t x = ds_flash s x \<and> (\<exists>h u. DFU_Handler now ver pkt t = Some (h, u))"
proof -
  have inv: "dfu_inv (DFU_Init nxt s)" using assms(1,2) by (rule DFU_Init_inv)
  have out: "\<not> dfu_area (ds_cb (DFU_Init nxt s)) x"
    using assms(5,6) by (auto simp: dfu_area_def DFU_Init_def Let_def DFU_NEW_FW_MAX_SIZE_def)
  have fr: "dfu_frame (DFU_Init nxt s) t" using assms(3) inv by (rule dfu_run_frame)
  then have "ds_flash t x = ds_flash s x" using out DFU_Init_flash [OF assms(2) out] by (simp add: dfu_frame_def)
  moreover have "dfu_inv t" using fr by (simp add: dfu_frame_def)
  ultimately show ?thesis using DFU_Handler_frame [OF _ assms(4)] by blast
qed

theorem dfu_flash_confined_witness:
  "\<exists>h u. DFU_Handler 9 0x40 (replicate 259 0) (DFU_TaskStart 3 False (DFU_Init 0x40000 dfu_example)) = Some (h, u)"
  using dfu_flash_confined [of dfu_example "0x40000" "DFU_TaskStart 3 False (DFU_Init 0x40000 dfu_example)" "replicate 259 0" 0 9 "0x40"]
  by (simp add: dfu_example_ok(5) run_task run_refl DFU_FW_FLAG_OFFSET_def)

text \<open>
  A block whose checksum is wrong never reaches the flash: it only advances the re-send
  counter.  After three such blocks in a row every further data command is ignored without an
  event, until the download is terminated or times out.
\<close>

theorem dfu_bad_block_rejected:
  assumes "tx_shape (ds_tx s)" "dfu_sta (ds_cb s) = DFU_STA_START" "4 \<le> n" "n \<le> 68" "n \<le> length p"
    and "DFU_Crc32Calc DFU_CRC_INIT_VALUE (take n p) \<noteq> 0"
  shows "if 3 \<le> resendCnt (ds_cb s) then DFU_FwDataCmdHandler now p (of_nat n) s = Some s
         else \<exists>t. DFU_FwDataCmdHandler now p (of_nat n) s = Some t \<and> ds_flash t = ds_flash s
                \<and> ds_cb t = (ds_cb s)\<lparr>dfu_timer := now OR 1, resendCnt := resendCnt (ds_cb s) + 1\<rparr>"
proof (cases "3 \<le> resendCnt (ds_cb s)")
  case True
  then show ?thesis by (simp add: DFU_FwDataCmdHandler_def DFU_RESEND_CNT_def)
next
  case False
  have un: "unat (of_nat n :: u32) = n" using assms(4) by (intro unat_of_nat_small) simp
  have "of_nat n - DFU_CHECKSUM_LEN = (of_nat (n - 4) :: u32)" using assms(3) by (simp add: DFU_CHECKSUM_LEN_def of_nat_diff)
  moreover have "unat (of_nat (n - 4) :: u32) = n - 4" using assms(4) by (intro unat_of_nat_small) simp
  ultimately have pay: "\<not> DFU_MAX_PAYLOAD < of_nat n - DFU_CHECKSUM_LEN"
    using assms(4) by (simp add: DFU_MAX_PAYLOAD_def word_less_nat_alt)
  let ?s = "set_timer (now OR 1) s"
  let ?t = "?s\<lparr>ds_cb := (ds_cb ?s)\<lparr>resendCnt := resendCnt (ds_cb ?s) + 1\<rparr>\<rparr>"
  have h: "DFU_FwDataCmdHandler now p (of_nat n) s = send_status HCI_OPCODE_VS_FW_DATA HCI_ERR_FW_CHECKSUM ?t"
    using assms False pay
    by (simp add: DFU_FwDataCmdHandler_def Let_def DFU_RESEND_CNT_def un rd_range_def set_timer_def)
  obtain f where "send_status HCI_OPCODE_VS_FW_DATA HCI_ERR_FW_CHECKSUM ?t = Some (?t\<lparr>ds_tx := f\<rparr>)"
    using send_status_ok [of ?t] assms(1) by (auto simp: set_timer_def)
  then show ?thesis using False h by (simp add: set_timer_def)
qed

theorem dfu_bad_block_rejected_witness:
  "\<exists>t. DFU_FwDataCmdHandler 3 (2 # UINT32_TO_BSTREAM (DFU_Crc32Calc DFU_CRC_INIT_VALUE [1])) (of_nat 5) (set_sta DFU_STA_START dfu_example) = Some t
     \<and> ds_flash t = (\<lambda>_. 0xFF) \<and> resendCnt (ds_cb t) = 1"
proof -
  let ?s = "set_sta DFU_STA_START dfu_example"
  have e: "tx_shape (ds_tx ?s)" "dfu_sta (ds_cb ?s) = DFU_STA_START" "ds_flash ?s = (\<lambda>_. 0xFF)"
    using dfu_example_ok by (simp_all add: set_sta_def)
  have r: "resendCnt (ds_cb ?s) = 0" by (simp add: dfu_example_def DFU_Init_def Let_def set_sta_def)
  have c: "DFU_Crc32Calc DFU_CRC_INIT_VALUE (take 5 (2 # UINT32_TO_BSTREAM (DFU_Crc32Calc DFU_CRC_INIT_VALUE [1]))) \<noteq> 0"
    using dfu_crc.byte_error_detected [of 2 1 DFU_CRC_INIT_VALUE "[]" "UINT32_TO_BSTREAM (DFU_Crc32Calc DFU_CRC_INIT_VALUE [1])"]
      dfu_crc_residue [of DFU_CRC_INIT_VALUE "[1]"] by (simp del: DFU_Crc32Calc.simps)
  show ?thesis using dfu_bad_block_rejected [OF e(1,2) _ _ _ c, of 3] unfolding r e(3) by (auto simp del: DFU_Crc32Calc.simps)
qed

text \<open>
  C35.  Right after initialisation, before any download was started, an end command passes the
  completeness test (zero bytes of zero) and the checksum test (the register is still zero): it
  clears the boot flag of the running firmware although there is no new one.
\<close>

theorem dfu_end_without_start:
  assumes "tx_shape (ds_tx s)"
  shows "\<exists>t. DFU_Handler now ver fw_end_pkt (DFU_Init 0x40000 s) = Some (True, t) \<and> ds_flash t 0x20 = 0
           \<and> dfu_sta (ds_cb t) = DFU_STA_END"
proof -
  let ?s = "set_timer (now OR 1) (DFU_Init 0x40000 s)"
  let ?m = "dfu_switch_flags (ds_cb ?s) (ds_flash ?s)"
  obtain u where u: "send_cmpl_status HCI_OPCODE_VS_END_DFU HCI_SUCCESS (?s\<lparr>ds_flash := ?m\<rparr>) = Some u"
    using send_cmpl_status_ok [of "?s\<lparr>ds_flash := ?m\<rparr>"] assms by (auto simp: set_timer_def DFU_Init_def Let_def)
  have h: "DFU_Handler now ver fw_end_pkt (DFU_Init 0x40000 s) = Some (True, set_sta DFU_STA_END u)"
    unfolding fw_end_pkt_def dfu_opcodes
    by (subst DFU_Handler_vs)
       (use u in \<open>simp_all add: Let_def DFU_EndDfuCmdHandler_def rd8_def set_timer_def dfu_opcodes DFU_Init_def\<close>)
  have "?m 0x20 = 0"
    by (simp add: dfu_switch_flags_def Let_def set_timer_def DFU_Init_def FLASH_WritePage_byte DFU_FW_FLAG_OFFSET_def)
  then show ?thesis using h send_cb(2) [OF u] by (simp add: set_sta_def)
qed

theorem dfu_end_without_start_witness:
  "\<exists>t. DFU_Handler 1 0x40 fw_end_pkt (DFU_Init 0x40000 dfu_example) = Some (True, t) \<and> ds_flash t 0x20 = 0"
  using dfu_end_without_start [OF dfu_example_ok(5), of 1 "0x40"] by blast

end
