(* ===== verification/Hci_Tr_H4.thy ===== *)
theory Hci_Tr_H4
  imports Hci_Fifo "HOL-Library.Sublist"
begin

unbundle bit_operations_syntax

text \<open>
  The H4 (plain UART) receiver of \<^verbatim>\<open>hci_transport/hci_tr_h4.c\<close>.  The UART writes chunks of the byte
  stream into the slots of \<open>h4_rx\<close>; the receive handler cuts them into HCI packets and copies these
  into the HCI receive FIFO \<open>h4_hciRx\<close>.  A packet that is not complete at the end of a chunk waits in
  the backup buffer.

  A pointer into the chunk is an offset into the memory of \<open>h4_rx\<close>, \<open>h4_dma\<close> is the buffer the UART
  was last told to fill (\<^verbatim>\<open>ext_hci_uartReceData\<close>).  \<open>None\<close> is an access outside a buffer; in
  \<open>h4_rx_loop\<close>, whose recursion may not end, it is also a loop that does not return.

  The model is the build for \<^verbatim>\<open>HCI_TR_RX_BUF_SIZE\<close> 300 without \<^verbatim>\<open>HCI_UART_SoftwareRxDone_EN\<close>.
\<close>

section \<open>Data\<close>

definition HCI_TR_TYPE_CMD :: u8 where "HCI_TR_TYPE_CMD = 1"
definition HCI_TR_TYPE_ACL :: u8 where "HCI_TR_TYPE_ACL = 2"
definition HCI_TR_TYPE_SCO :: u8 where "HCI_TR_TYPE_SCO = 3"
definition HCI_TR_TYPE_ISO :: u8 where "HCI_TR_TYPE_ISO = 5"

definition HCI_CMD_HEAD_LEN :: nat where "HCI_CMD_HEAD_LEN = 3"
definition HCI_ACL_HEAD_LEN :: nat where "HCI_ACL_HEAD_LEN = 4"
definition HCI_SCO_HEAD_LEN :: nat where "HCI_SCO_HEAD_LEN = 3"

definition MEM_SIZE_ALIGN16 :: "nat \<Rightarrow> nat" where "MEM_SIZE_ALIGN16 x = (x + 15) div 16 * 16"

definition HCI_H4_TR_RX_BUF_SIZE :: nat where "HCI_H4_TR_RX_BUF_SIZE = MEM_SIZE_ALIGN16 (4 + 300) * 2"
definition HCI_H4_TR_RX_BUF_NUM :: nat where "HCI_H4_TR_RX_BUF_NUM = 4"
definition HCI_H4_FLUSH_TO :: u32 where "HCI_H4_FLUSH_TO = 1000"

record HciH4TrCb_t =
  h4_hciRx :: hci_fifo_t
  h4_rx :: hci_fifo_t
  h4_backup :: bytes
  h4_flushTimer :: u32
  h4_backupCnt :: u8
  h4_dma :: "nat \<times> u32"

definition h4TrRxFifo :: hci_fifo_t where
  "h4TrRxFifo = \<lparr>hf_size = of_nat HCI_H4_TR_RX_BUF_SIZE, hf_num = of_nat HCI_H4_TR_RX_BUF_NUM,
     hf_mask = of_nat (HCI_H4_TR_RX_BUF_NUM - 1), hf_wptr = 0, hf_rptr = 0,
     hf_p = replicate (HCI_H4_TR_RX_BUF_SIZE * HCI_H4_TR_RX_BUF_NUM) 0\<rparr>"

section \<open>Initialization and timers\<close>

text \<open>\<open>ext_hci_uartReceData\<close> hands a receive buffer to the UART.\<close>

definition ext_hci_uartReceData :: "nat \<Rightarrow> u32 \<Rightarrow> HciH4TrCb_t \<Rightarrow> HciH4TrCb_t" where
  "ext_hci_uartReceData addr len s = s\<lparr>h4_dma := (addr, len)\<rparr>"

text \<open>The receive FIFO is a static object whose indices keep the values they have.\<close>

definition HCI_Tr_H4Init :: "hci_fifo_t \<Rightarrow> HciH4TrCb_t \<Rightarrow> HciH4TrCb_t" where
  "HCI_Tr_H4Init hciRxFifo s =
     (let s1 = s\<lparr>h4_backup := replicate HCI_H4_TR_RX_BUF_SIZE 0,
                 h4_rx := (h4_rx s)\<lparr>hf_p := replicate (HCI_H4_TR_RX_BUF_SIZE * HCI_H4_TR_RX_BUF_NUM) 0\<rparr>,
                 h4_hciRx := hciRxFifo, h4_backupCnt := 0, h4_flushTimer := 0\<rparr>
      in ext_hci_uartReceData 4 (hf_size (h4_rx s1) - 4) s1)"

definition HCI_Tr_H4TimerEnable :: "u32 \<Rightarrow> HciH4TrCb_t \<Rightarrow> HciH4TrCb_t" where
  "HCI_Tr_H4TimerEnable now s = s\<lparr>h4_flushTimer := now OR 1\<rparr>"

definition HCI_Tr_H4TimerDisable :: "HciH4TrCb_t \<Rightarrow> HciH4TrCb_t" where
  "HCI_Tr_H4TimerDisable s = s\<lparr>h4_flushTimer := 0\<rparr>"

definition HCI_Tr_H4FlushHandler :: "u32 \<Rightarrow> HciH4TrCb_t \<Rightarrow> HciH4TrCb_t" where
  "HCI_Tr_H4FlushHandler now s =
     (if h4_flushTimer s \<noteq> 0 \<and> clock_time_exceed now (h4_flushTimer s) (HCI_H4_FLUSH_TO * 1000)
      then s\<lparr>h4_flushTimer := 0, h4_backupCnt := 0\<rparr> else s)"

section \<open>The backup buffer\<close>

text \<open>The slot of the HCI FIFO is computed with \<^verbatim>\<open>num - 1\<close> instead of the mask.\<close>

definition h4_put :: "hci_fifo_t \<Rightarrow> bytes \<Rightarrow> hci_fifo_t option" where
  "h4_put f d =
     do { p' \<leftarrow> wr_range (hf_p f) (unat ((ucast (hf_wptr f) AND (ucast (hf_num f) - 1)) * hf_size f)) d;
          Some (f\<lparr>hf_p := p', hf_wptr := hf_wptr f + 1\<rparr>) }"

text \<open>\<open>n\<close> bytes of the chunk are appended to the backup buffer; the count has eight bits.\<close>

definition h4_store :: "nat \<Rightarrow> nat \<Rightarrow> HciH4TrCb_t \<Rightarrow> HciH4TrCb_t option" where
  "h4_store pPacket n s =
     do { d \<leftarrow> rd_range (hf_p (h4_rx s)) pPacket n;
          b \<leftarrow> wr_range (h4_backup s) (unat (h4_backupCnt s)) d;
          Some (s\<lparr>h4_backup := b, h4_backupCnt := h4_backupCnt s + of_nat n\<rparr>) }"

text \<open>The packet of \<open>pktLen\<close> bytes is delivered once the buffer holds all of it.\<close>

definition h4_complete :: "u32 \<Rightarrow> nat \<Rightarrow> HciH4TrCb_t \<Rightarrow> HciH4TrCb_t option" where
  "h4_complete now pktLen s =
     (if unat (h4_backupCnt s) = pktLen
      then do { d \<leftarrow> rd_range (h4_backup s) 0 (unat (h4_backupCnt s));
                f \<leftarrow> h4_put (h4_hciRx s) d;
                Some (HCI_Tr_H4TimerDisable (s\<lparr>h4_hciRx := f, h4_backupCnt := 0\<rparr>)) }
      else Some (HCI_Tr_H4TimerEnable now s))"

text \<open>
  The two packet cases of the handler have one shape; \<open>hlen\<close> is the header length and \<open>param\<close> reads the
  length field of the buffered header.
\<close>

definition h4_backup_case ::
    "u32 \<Rightarrow> nat \<Rightarrow> (bytes \<Rightarrow> u16 option) \<Rightarrow> nat \<Rightarrow> u32 \<Rightarrow> HciH4TrCb_t \<Rightarrow> (u32 \<times> HciH4TrCb_t) option" where
  "h4_backup_case now hlen param pPacket len s =
     (let backupLen = h4_backupCnt s in
      if unat backupLen \<ge> 1 + hlen
      then do { paramLen \<leftarrow> param (h4_backup s);
                let cpyLen = (of_nat (1 + hlen) + paramLen - ucast backupLen :: u16);
                    n = (min (ucast cpyLen) len :: u32) in
                do { s1 \<leftarrow> h4_store pPacket (unat n) s;
                     s2 \<leftarrow> h4_complete now (1 + hlen + unat paramLen) s1;
                     Some (n, s2) } }
      else if ucast backupLen + len \<ge> of_nat (1 + hlen)
      then let cpyLen = (of_nat (1 + hlen) - ucast backupLen :: u16) in
           do { s1 \<leftarrow> h4_store pPacket (unat cpyLen) s;
                paramLen \<leftarrow> param (h4_backup s1);
                let cpyLen2 = (of_nat (1 + hlen) + paramLen - ucast (h4_backupCnt s1) :: u16);
                    n = (min (ucast cpyLen2) (len - ucast cpyLen) :: u32) in
                do { s2 \<leftarrow> h4_store (pPacket + unat cpyLen) (unat n) s1;
                     s3 \<leftarrow> h4_complete now (1 + hlen + unat paramLen) s2;
                     Some (ucast (cpyLen + ucast n :: u16), s3) } }
      else do { s1 \<leftarrow> h4_store pPacket (unat len) s;
                Some (len, HCI_Tr_H4TimerEnable now s1) })"

definition h4_backup_cmd :: "u32 \<Rightarrow> nat \<Rightarrow> u32 \<Rightarrow> HciH4TrCb_t \<Rightarrow> (u32 \<times> HciH4TrCb_t) option" where
  "h4_backup_cmd now = h4_backup_case now HCI_CMD_HEAD_LEN (\<lambda>b. map_option ucast (rd8 b 3))"

definition h4_backup_acl :: "u32 \<Rightarrow> nat \<Rightarrow> u32 \<Rightarrow> HciH4TrCb_t \<Rightarrow> (u32 \<times> HciH4TrCb_t) option" where
  "h4_backup_acl now = h4_backup_case now HCI_ACL_HEAD_LEN (\<lambda>b. BYTES_TO_UINT16 b 3)"

definition HCI_Tr_H4BackUpHandler :: "u32 \<Rightarrow> nat \<Rightarrow> u32 \<Rightarrow> HciH4TrCb_t \<Rightarrow> (u32 \<times> HciH4TrCb_t) option" where
  "HCI_Tr_H4BackUpHandler now pPacket len s =
     (if h4_backupCnt s = 0
      then do { d \<leftarrow> rd_range (hf_p (h4_rx s)) pPacket (unat len);
                b \<leftarrow> wr_range (h4_backup s) 0 d;
                Some (len, HCI_Tr_H4TimerEnable now (s\<lparr>h4_backup := b, h4_backupCnt := ucast len\<rparr>)) }
      else do { hciType \<leftarrow> rd8 (h4_backup s) 0;
                if hciType = HCI_TR_TYPE_CMD then h4_backup_cmd now pPacket len s
                else if hciType = HCI_TR_TYPE_ACL \<or> hciType = HCI_TR_TYPE_ISO then h4_backup_acl now pPacket len s
                else Some (len, s) })"

section \<open>The receive handler\<close>

text \<open>What one iteration of the loop does: go on at an offset with a remaining length, or return.\<close>

datatype h4_next = Loop nat u32 HciH4TrCb_t | Return HciH4TrCb_t

definition h4_rx_packet :: "u32 \<Rightarrow> nat \<Rightarrow> u32 \<Rightarrow> u16 \<Rightarrow> HciH4TrCb_t \<Rightarrow> h4_next option" where
  "h4_rx_packet now pPacket len pktLen s =
     (if pktLen \<noteq> 0 \<and> len \<ge> ucast pktLen
      then if unat (hf_wptr (h4_hciRx s) - hf_rptr (h4_hciRx s)) \<ge> unat (hf_num (h4_hciRx s)) then Some (Return s)
           else do { d \<leftarrow> rd_range (hf_p (h4_rx s)) pPacket (unat pktLen);
                     f \<leftarrow> h4_put (h4_hciRx s) d;
                     Some (Loop (pPacket + unat pktLen) (len - ucast pktLen) (s\<lparr>h4_hciRx := f\<rparr>)) }
      else if pktLen \<noteq> 0 \<and> len < ucast pktLen
      then do { (_, s1) \<leftarrow> HCI_Tr_H4BackUpHandler now pPacket len s; Some (Loop pPacket 0 s1) }
      else Some (Loop pPacket len s))"

definition h4_rx_parse :: "u32 \<Rightarrow> nat \<Rightarrow> u32 \<Rightarrow> HciH4TrCb_t \<Rightarrow> h4_next option" where
  "h4_rx_parse now pPacket len s =
     (let b = hf_p (h4_rx s);
          backup = do { (_, s1) \<leftarrow> HCI_Tr_H4BackUpHandler now pPacket len s; Some (Loop pPacket 0 s1) } in
      do { hciType \<leftarrow> rd8 b pPacket;
           if hciType = HCI_TR_TYPE_CMD
           then if len < of_nat (1 + HCI_CMD_HEAD_LEN) then backup
                else do { paramLen \<leftarrow> rd8 b (pPacket + 3);
                          h4_rx_packet now pPacket len (of_nat (1 + HCI_CMD_HEAD_LEN) + ucast paramLen) s }
           else if hciType = HCI_TR_TYPE_ACL \<or> hciType = HCI_TR_TYPE_ISO
           then if len < of_nat (1 + HCI_ACL_HEAD_LEN) then backup
                else do { paramLen \<leftarrow> BYTES_TO_UINT16 b (pPacket + 3);
                          let pl = (if hciType = HCI_TR_TYPE_ISO then paramLen AND 0x03ff else paramLen) in
                          h4_rx_packet now pPacket len (of_nat (1 + HCI_ACL_HEAD_LEN) + pl) s }
           else if hciType = HCI_TR_TYPE_EVENT
           then if len < of_nat (1 + HCI_EVT_HEAD_LEN) then Some (Loop pPacket 0 s)
                else do { paramLen \<leftarrow> rd8 b (pPacket + 2);
                          Some (Loop pPacket (len - (of_nat (1 + HCI_EVT_HEAD_LEN) + ucast paramLen)) s) }
           else if hciType = HCI_TR_TYPE_SCO
           then if len < of_nat (1 + HCI_SCO_HEAD_LEN) then Some (Loop pPacket 0 s)
                else do { paramLen \<leftarrow> rd8 b (pPacket + 3);
                          Some (Loop pPacket (len - (of_nat (1 + HCI_SCO_HEAD_LEN) + ucast paramLen)) s) }
           else Some (Loop pPacket 0 s) })"

text \<open>The number of bytes the backup handler took is kept in eight bits.\<close>

definition h4_rx_step :: "u32 \<Rightarrow> nat \<Rightarrow> u32 \<Rightarrow> HciH4TrCb_t \<Rightarrow> h4_next option" where
  "h4_rx_step now pPacket len s =
     (if h4_backupCnt s \<noteq> 0
      then do { (r, s1) \<leftarrow> HCI_Tr_H4BackUpHandler now pPacket len s;
                let res = (ucast r :: u8); len1 = len - ucast res in
                if len1 = 0 then Some (Loop (pPacket + unat res) len1 s1)
                else h4_rx_parse now (pPacket + unat res) len1 s1 }
      else h4_rx_parse now pPacket len s)"

text \<open>The result tells whether the loop ended with the chunk used up.\<close>

partial_function (option) h4_rx_loop :: "u32 \<Rightarrow> nat \<Rightarrow> u32 \<Rightarrow> HciH4TrCb_t \<Rightarrow> (bool \<times> HciH4TrCb_t) option" where
  "h4_rx_loop now pPacket len s =
     (if len = 0 then Some (True, s)
      else do { nxt \<leftarrow> h4_rx_step now pPacket len s;
                case nxt of Return s' \<Rightarrow> Some (False, s') | Loop p' len' s' \<Rightarrow> h4_rx_loop now p' len' s' })"

definition HCI_Tr_H4RxHandler :: "u32 \<Rightarrow> HciH4TrCb_t \<Rightarrow> HciH4TrCb_t option" where
  "HCI_Tr_H4RxHandler now s0 =
     (let s = HCI_Tr_H4FlushHandler now s0; f = h4_rx s in
      if hf_wptr f = hf_rptr f then Some s
      else let pPacket = hf_slot f (hf_rptr f) in
        do { len \<leftarrow> BYTES_TO_UINT32 (hf_p f) pPacket;
             (fin, s1) \<leftarrow> h4_rx_loop now (pPacket + 4) len s;
             Some (if fin then s1\<lparr>h4_rx := hf_pop (h4_rx s1)\<rparr> else s1) })"

section \<open>Interrupts\<close>

definition HCI_Tr_H4UartRxIRQHandler :: "HciH4TrCb_t \<Rightarrow> HciH4TrCb_t option" where
  "HCI_Tr_H4UartRxIRQHandler s =
     (let f = h4_rx s; p = hf_slot f (hf_wptr f) in
      if unat (hf_wptr f - hf_rptr f) \<ge> unat (hf_num f)
      then Some (ext_hci_uartReceData (p + 4) (hf_size f - 4) s)
      else do { rxLen \<leftarrow> BYTES_TO_UINT32 (hf_p f) p;
                let f' = (if rxLen \<noteq> 0 then f\<lparr>hf_wptr := hf_wptr f + 1\<rparr> else f) in
                Some (ext_hci_uartReceData (hf_slot f' (hf_wptr f') + 4) (hf_size f' - 4) (s\<lparr>h4_rx := f'\<rparr>)) })"

text \<open>
  The receive interrupt of \<^verbatim>\<open>ext_hci_uart.c\<close>: the UART has filled the buffer it was given with
  \<open>chunk\<close>, the driver stores the number of bytes in the four bytes before it and calls the handler.
\<close>

definition ext_hci_irq_handler :: "bytes \<Rightarrow> HciH4TrCb_t \<Rightarrow> HciH4TrCb_t option" where
  "ext_hci_irq_handler chunk s =
     (let addr = fst (h4_dma s) in
      if unat (snd (h4_dma s)) < length chunk \<or> addr < 4 then None
      else do { p1 \<leftarrow> wr_range (hf_p (h4_rx s)) addr chunk;
                p2 \<leftarrow> wr_range p1 (addr - 4) (UINT32_TO_BSTREAM (of_nat (length chunk)));
                HCI_Tr_H4UartRxIRQHandler (s\<lparr>h4_rx := (h4_rx s)\<lparr>hf_p := p2\<rparr>\<rparr>) })"

section \<open>Packets and the bytes that wait for the rest of one\<close>

text \<open>A complete H4 packet from the host, at most 255 bytes long.\<close>

definition h4_frame :: "bytes \<Rightarrow> bool" where
  "h4_frame q \<longleftrightarrow> length q \<le> 255 \<and>
     (4 \<le> length q \<and> q ! 0 = HCI_TR_TYPE_CMD \<and> length q = 4 + unat (q ! 3)
      \<or> 5 \<le> length q \<and> (q ! 0 = HCI_TR_TYPE_ACL \<or> q ! 0 = HCI_TR_TYPE_ISO) \<and> length q = 5 + unat (q ! 3) \<and> q ! 4 = 0)"

definition h4_pend :: "HciH4TrCb_t \<Rightarrow> bytes \<Rightarrow> bool" where
  "h4_pend s pend \<longleftrightarrow> length (h4_backup s) = HCI_H4_TR_RX_BUF_SIZE \<and> unat (h4_backupCnt s) = length pend
     \<and> take (length pend) (h4_backup s) = pend"

lemmas h4_sizes = HCI_H4_TR_RX_BUF_SIZE_def HCI_H4_TR_RX_BUF_NUM_def MEM_SIZE_ALIGN16_def
lemmas h4_heads = HCI_CMD_HEAD_LEN_def HCI_ACL_HEAD_LEN_def HCI_SCO_HEAD_LEN_def HCI_EVT_HEAD_LEN_def
lemmas h4_types = HCI_TR_TYPE_CMD_def HCI_TR_TYPE_ACL_def HCI_TR_TYPE_ISO_def HCI_TR_TYPE_SCO_def HCI_TR_TYPE_EVENT_def
lemmas h4_timers = HCI_Tr_H4TimerEnable_def HCI_Tr_H4TimerDisable_def

lemma h4_frame_nonempty: "h4_frame q \<Longrightarrow> q \<noteq> []" "h4_frame q \<Longrightarrow> 4 \<le> length q" "h4_frame q \<Longrightarrow> length q \<le> 255"
  by (auto simp: h4_frame_def)

lemma h4_pend_length: "h4_pend s pend \<Longrightarrow> length pend < 256"
  using unat_u8_less [of "h4_backupCnt s"] by (simp add: h4_pend_def)

lemma h4_pend_empty_iff: "h4_pend s pend \<Longrightarrow> h4_backupCnt s = 0 \<longleftrightarrow> pend = []"
  by (auto simp: h4_pend_def unat_eq_0)

lemma h4_put_eq:
  assumes "hf_ok f"
  shows "h4_put f d = hf_put f d"
proof -
  have "hf_num f \<noteq> 0" using assms by (auto simp: hf_ok_def pf_ok_def unat_eq_0)
  then have "1 \<le> hf_num f" by (simp add: word_le_nat_alt Suc_le_eq unat_gt_0)
  then have "ucast (hf_num f - 1 :: u8) = (ucast (hf_num f) - 1 :: u32)"
    by (simp add: word_unat_eq_iff unat_ucast_up unat_sub word_le_nat_alt)
  moreover have "ucast (a AND b :: u8) = (ucast a AND ucast b :: u32)" for a b
    by (rule bit_word_eqI) (auto simp: bit_simps)
  ultimately show ?thesis using assms by (simp add: h4_put_def hf_put_def hf_slot_def hf_ok_def)
qed

lemma h4_store_ok:
  assumes "h4_pend s pend" "rd_range (hf_p (h4_rx s)) pPacket n = Some d" "length pend + n \<le> 255"
  shows "\<exists>s'. h4_store pPacket n s = Some s' \<and> h4_pend s' (pend @ d) \<and> h4_rx s' = h4_rx s
     \<and> h4_hciRx s' = h4_hciRx s \<and> h4_dma s' = h4_dma s"
proof -
  have n: "length d = n" using assms(2) by (rule rd_range_length)
  then obtain b where b: "wr_range (h4_backup s) (length pend) d = Some b"
    using assms(1,3) by (auto simp: wr_range_def h4_pend_def h4_sizes)
  have "unat (of_nat n :: u8) = n" using assms(3) by (intro unat_of_nat_small) simp
  then have "unat (h4_backupCnt s + of_nat n) = length pend + n"
    using assms by (subst unat_word_add_no_wrap) (simp_all add: h4_pend_def)
  moreover have "take (length pend + n) b = pend @ d" "length b = length (h4_backup s)"
    using b n assms(1) by (auto simp: wr_range_def h4_pend_def h4_sizes min_def split: if_splits)
  ultimately show ?thesis using assms b n by (auto simp: h4_store_def h4_pend_def)
qed

lemma h4_complete_ok:
  assumes "h4_pend s pend" "h4_put (h4_hciRx s) pend = Some f"
  shows "\<exists>s'. h4_complete now (length pend) s = Some s' \<and> h4_pend s' [] \<and> h4_rx s' = h4_rx s
     \<and> h4_hciRx s' = f \<and> h4_dma s' = h4_dma s"
  using assms h4_pend_length [OF assms(1)] by (auto simp: h4_complete_def h4_pend_def rd_range_def h4_timers h4_sizes)

lemma h4_complete_wait:
  assumes "h4_pend s pend" "length pend \<noteq> n"
  shows "\<exists>s'. h4_complete now n s = Some s' \<and> h4_pend s' pend \<and> h4_rx s' = h4_rx s
     \<and> h4_hciRx s' = h4_hciRx s \<and> h4_dma s' = h4_dma s"
  using assms by (auto simp: h4_complete_def h4_pend_def h4_timers)


section \<open>The backup handler\<close>

text \<open>
  \<open>q = pend @ y\<close> is the packet of which \<open>pend\<close> is buffered and \<open>data\<close> is what has come in: either the
  packet is completed and delivered, or all of \<open>data\<close> is buffered.
\<close>

definition h4_taken :: "HciH4TrCb_t \<Rightarrow> HciH4TrCb_t \<Rightarrow> bytes \<Rightarrow> bytes \<Rightarrow> bytes \<Rightarrow> bool" where
  "h4_taken s s' pend y data \<longleftrightarrow> h4_rx s' = h4_rx s \<and> h4_dma s' = h4_dma s \<and>
     (if length y \<le> length data then h4_pend s' [] \<and> h4_put (h4_hciRx s) (pend @ y) = Some (h4_hciRx s')
      else h4_pend s' (pend @ data) \<and> h4_hciRx s' = h4_hciRx s)"

lemma h4_fill:
  assumes pend: "h4_pend s pend" and data: "rd_range (hf_p (h4_rx s)) pPacket (length data) = Some data"
    and agree: "take (length y) data = take (length data) y" and len: "length pend + length y \<le> 255"
    and put: "length y \<le> length data \<Longrightarrow> h4_put (h4_hciRx s) (pend @ y) \<noteq> None"
  shows "\<exists>s1 s2. h4_store pPacket (min (length y) (length data)) s = Some s1
     \<and> h4_complete now (length pend + length y) s1 = Some s2 \<and> h4_taken s s2 pend y data"
proof -
  let ?d = "take (length y) data"
  have "rd_range (hf_p (h4_rx s)) pPacket (min (length y) (length data)) = Some ?d"
    using data by (auto simp: rd_range_def split: if_splits) (metis min.commute take_take)
  moreover have "length pend + min (length y) (length data) \<le> 255" using len by linarith
  ultimately obtain s1 where s1: "h4_store pPacket (min (length y) (length data)) s = Some s1"
      "h4_pend s1 (pend @ ?d)" "h4_rx s1 = h4_rx s" "h4_hciRx s1 = h4_hciRx s" "h4_dma s1 = h4_dma s"
    using h4_store_ok [OF pend] by blast
  show ?thesis
  proof (cases "length y \<le> length data")
    case True
    then have d: "?d = y" using agree by simp
    obtain f where "h4_put (h4_hciRx s1) (pend @ ?d) = Some f" using put [OF True] s1(4) d by auto
    with h4_complete_ok [OF s1(2) this, of now] s1 True d put [OF True] show ?thesis
      by (auto simp: h4_taken_def)
  next
    case False
    then have "length (pend @ ?d) \<noteq> length pend + length y" by simp
    from h4_complete_wait [OF s1(2) this] show ?thesis using s1 False by (auto simp: h4_taken_def)
  qed
qed

lemma u16_of_nat_up: "k < 2 ^ 16 \<Longrightarrow> (ucast (of_nat k :: u16) :: u32) = of_nat k"
  by (simp add: word_unat_eq_iff unat_ucast_up unat_of_nat)

lemma min_of_nat_u32:
  assumes "k < 2 ^ 32"
  shows "min (of_nat k) len = (of_nat (min k (unat len)) :: u32)"
proof -
  have "(of_nat k :: u32) \<le> len \<longleftrightarrow> k \<le> unat len" using assms by (simp add: word_le_nat_alt unat_of_nat)
  then show ?thesis by (simp add: min_def)
qed

lemma unat_u32_min_small: "unat (of_nat (min k (unat (len :: u32))) :: u32) = min k (unat len)"
proof -
  have "unat len < 2 ^ LENGTH(32)" by (rule unsigned_less)
  then show ?thesis by (intro unat_of_nat_small) (simp add: min_less_iff_disj)
qed

lemma h4_pend_cnt:
  assumes "h4_pend s pend"
  shows "unat (h4_backupCnt s) = length pend" "(ucast (h4_backupCnt s) :: u16) = of_nat (length pend)"
    "(ucast (h4_backupCnt s) :: u32) = of_nat (length pend)"
proof -
  show cnt: "unat (h4_backupCnt s) = length pend" using assms by (simp add: h4_pend_def)
  show "(ucast (h4_backupCnt s) :: u16) = of_nat (length pend)" "(ucast (h4_backupCnt s) :: u32) = of_nat (length pend)"
    using cnt by (metis of_nat_unat)+
qed

text \<open>What a length field reader of a header of \<open>hlen\<close> bytes has to do on the packet \<open>q\<close>.\<close>

definition h4_reads :: "(bytes \<Rightarrow> u16 option) \<Rightarrow> nat \<Rightarrow> bytes \<Rightarrow> bool" where
  "h4_reads param hlen q \<longleftrightarrow> 1 + hlen \<le> length q \<and> length q \<le> 255 \<and>
     (\<forall>b. 1 + hlen \<le> length b \<longrightarrow> take (1 + hlen) b = take (1 + hlen) q \<longrightarrow>
        param b = Some (of_nat (length q - (1 + hlen))))"

text \<open>With the header in the buffer the rest of the packet is collected.\<close>

lemma h4_collect:
  assumes pend: "h4_pend s pend" and data: "rd_range (hf_p (h4_rx s)) pPacket (unat len) = Some data"
    and agree: "take (length y) data = take (length data) y" and reads: "h4_reads param hlen (pend @ y)"
    and put: "length y \<le> length data \<Longrightarrow> h4_put (h4_hciRx s) (pend @ y) \<noteq> None"
    and head: "1 + hlen \<le> length pend"
  shows "\<exists>pl s1 s2. param (h4_backup s) = Some pl
     \<and> min (ucast (of_nat (1 + hlen) + pl - ucast (h4_backupCnt s) :: u16)) len = (of_nat (min (length y) (length data)) :: u32)
     \<and> h4_store pPacket (min (length y) (length data)) s = Some s1
     \<and> h4_complete now (1 + hlen + unat pl) s1 = Some s2 \<and> h4_taken s s2 pend y data"
proof -
  let ?pl = "of_nat (length (pend @ y) - (1 + hlen)) :: u16"
  have ld: "length data = unat len" using data by (rule rd_range_length)
  have len: "length pend + length y \<le> 255" using reads by (simp add: h4_reads_def)
  have "take (1 + hlen) (h4_backup s) = take (1 + hlen) (take (length pend) (h4_backup s))"
    using head by (simp add: min_def)
  also have "\<dots> = take (1 + hlen) (pend @ y)" using pend head by (simp add: h4_pend_def)
  finally have pr: "param (h4_backup s) = Some ?pl"
    using reads head pend len by (simp add: h4_pend_def h4_sizes h4_reads_def)
  have "(of_nat (1 + hlen) :: u16) + ?pl - of_nat (length pend) = of_nat (length y)"
    using head by (simp flip: of_nat_add of_nat_diff del: of_nat_Suc)
  then have mn: "min (ucast (of_nat (1 + hlen) + ?pl - ucast (h4_backupCnt s) :: u16)) len = (of_nat (min (length y) (length data)) :: u32)"
    using len by (simp only: h4_pend_cnt [OF pend] ld) (simp add: u16_of_nat_up min_of_nat_u32)
  have tot: "1 + hlen + unat ?pl = length pend + length y"
    using len head by (subst unat_of_nat_small) simp_all
  obtain s1 s2 where "h4_store pPacket (min (length y) (length data)) s = Some s1"
      "h4_complete now (length pend + length y) s1 = Some s2" "h4_taken s s2 pend y data"
    using h4_fill [OF pend _ agree len put] data ld by metis
  with pr mn show ?thesis unfolding tot [symmetric] by blast
qed

lemma h4_split_result:
  fixes y data :: bytes
  assumes "k \<le> length y" "k \<le> length data" "length y \<le> 255"
  shows "ucast (of_nat k + ucast (of_nat (min (length (drop k y)) (length (drop k data))) :: u32) :: u16)
    = (of_nat (min (length y) (length data)) :: u32)"
proof -
  let ?m = "min (length (drop k y)) (length (drop k data))"
  have m: "unat (of_nat ?m :: u32) = ?m" using assms by (intro unat_of_nat_small) simp
  have "ucast (of_nat ?m :: u32) = (of_nat ?m :: u16)" using m by (metis of_nat_unat)
  moreover have "k + ?m = min (length y) (length data)" using assms by simp
  ultimately have "of_nat k + ucast (of_nat ?m :: u32) = (of_nat (min (length y) (length data)) :: u16)"
    by (metis of_nat_add)
  then show ?thesis using assms by (simp only:) (intro u16_of_nat_up, simp)
qed

text \<open>With a part of the header in the buffer and enough data, the header is completed first.\<close>

lemma h4_collect_split:
  assumes pend: "h4_pend s pend" and data: "rd_range (hf_p (h4_rx s)) pPacket (unat len) = Some data"
    and agree: "take (length y) data = take (length data) y" and reads: "h4_reads param hlen (pend @ y)"
    and put: "length y \<le> length data \<Longrightarrow> h4_put (h4_hciRx s) (pend @ y) \<noteq> None"
    and k: "k = 1 + hlen - length pend" "length pend < 1 + hlen" "k \<le> unat len"
  shows "\<exists>pl s1 s2 s3. h4_store pPacket k s = Some s1 \<and> param (h4_backup s1) = Some pl
     \<and> min (ucast (of_nat (1 + hlen) + pl - ucast (h4_backupCnt s1) :: u16)) (len - of_nat k)
         = (of_nat (min (length (drop k y)) (length (drop k data))) :: u32)
     \<and> h4_store (pPacket + k) (min (length (drop k y)) (length (drop k data))) s1 = Some s2
     \<and> h4_complete now (1 + hlen + unat pl) s2 = Some s3 \<and> h4_taken s s3 pend y data"
proof -
  have ld: "length data = unat len" using data by (rule rd_range_length)
  have len: "length pend + length y \<le> 255" "k \<le> length y" using reads k(1) by (auto simp: h4_reads_def)
  have "rd_range (hf_p (h4_rx s)) pPacket k = Some (take k data)"
    using data k(3) by (auto simp: rd_range_def min_def split: if_splits)
  with h4_store_ok [OF pend this] len obtain s1 where s1: "h4_store pPacket k s = Some s1"
      "h4_pend s1 (pend @ take k data)" "h4_rx s1 = h4_rx s" "h4_hciRx s1 = h4_hciRx s" "h4_dma s1 = h4_dma s"
    by auto
  have "take k data = take k y" using arg_cong [OF agree, of "take k"] len(2) k(3) ld by (simp add: min_def)
  then have q: "(pend @ take k data) @ drop k y = pend @ y" by (simp only: append_assoc append_take_drop_id)
  have k32: "unat (of_nat k :: u32) = k" using len by (intro unat_of_nat_small) simp
  have l1: "unat (len - of_nat k) = length (drop k data)"
    using k(3) ld k32 by (subst unat_sub) (simp_all add: word_le_nat_alt)
  have d1: "rd_range (hf_p (h4_rx s1)) (pPacket + k) (unat (len - of_nat k)) = Some (drop k data)"
    using data s1(3) k(3) ld unfolding l1 by (auto simp: rd_range_def drop_take add.commute split: if_splits)
  have a1: "take (length (drop k y)) (drop k data) = take (length (drop k data)) (drop k y)"
    using arg_cong [OF agree, of "drop k"] by (simp add: drop_take)
  have p1: "length (drop k y) \<le> length (drop k data) \<Longrightarrow> h4_put (h4_hciRx s1) ((pend @ take k data) @ drop k y) \<noteq> None"
    using put s1(4) k(3) len(2) ld q by simp
  have h1: "1 + hlen \<le> length (pend @ take k data)" using k ld by simp
  have r1: "h4_reads param hlen ((pend @ take k data) @ drop k y)" using reads q by simp
  have t: "h4_taken s s3 pend y data" if "h4_taken s1 s3 (pend @ take k data) (drop k y) (drop k data)" for s3
    using that s1 q k(3) len(2) ld by (auto simp: h4_taken_def split: if_splits)
  show ?thesis using h4_collect [OF s1(2) d1 a1 r1 p1 h1, of now] s1(1) t by blast
qed

lemma h4_backup_case_ok:
  assumes pend: "h4_pend s pend" and data: "rd_range (hf_p (h4_rx s)) pPacket (unat len) = Some data"
    and agree: "take (length y) data = take (length data) y" and reads: "h4_reads param hlen (pend @ y)"
    and put: "length y \<le> length data \<Longrightarrow> h4_put (h4_hciRx s) (pend @ y) \<noteq> None"
    and small: "unat len < 2 ^ 31"
  shows "\<exists>s'. h4_backup_case now hlen param pPacket len s = Some (of_nat (min (length y) (length data)), s')
     \<and> h4_taken s s' pend y data"
proof (cases "1 + hlen \<le> length pend")
  case True
  have ld: "length data = unat len" using data by (rule rd_range_length)
  have u: "unat (of_nat (min (length y) (length data)) :: u32) = min (length y) (length data)"
    unfolding ld by (rule unat_u32_min_small)
  obtain pl s1 s2 where c: "param (h4_backup s) = Some pl"
    "min (ucast (of_nat (1 + hlen) + pl - ucast (h4_backupCnt s) :: u16)) len = (of_nat (min (length y) (length data)) :: u32)"
    "h4_store pPacket (min (length y) (length data)) s = Some s1"
    "h4_complete now (1 + hlen + unat pl) s1 = Some s2" "h4_taken s s2 pend y data"
    using h4_collect [OF pend data agree reads put True] by blast
  show ?thesis unfolding h4_backup_case_def Let_def c(1,2) bind.bind_lunit u c(3,4)
    using True c(5) by (simp add: h4_pend_cnt [OF pend])
next
  case False
  let ?k = "1 + hlen - length pend"
  have ld: "length data = unat len" using data by (rule rd_range_length)
  have len: "length pend + length y \<le> 255" "1 + hlen \<le> length pend + length y" using reads by (simp_all add: h4_reads_def)
  have k16: "unat (of_nat ?k :: u16) = ?k" using len by (intro unat_of_nat_small) simp
  have k32: "(ucast (of_nat ?k :: u16) :: u32) = of_nat ?k" using len by (intro u16_of_nat_up) simp
  have kc: "(of_nat (1 + hlen) :: u16) - of_nat (length pend) = of_nat ?k"
    using False by (intro of_nat_diff [symmetric]) simp
  have ge: "(of_nat (1 + hlen) :: u32) \<le> of_nat (length pend) + len \<longleftrightarrow> ?k \<le> unat len"
  proof -
    have "unat (of_nat (length pend) + len :: u32) = length pend + unat len"
      using small len by (subst unat_word_add_no_wrap) (simp_all add: unat_of_nat)
    moreover have "unat (of_nat (1 + hlen) :: u32) = 1 + hlen" using len by (intro unat_of_nat_small) simp
    ultimately show ?thesis using False unfolding word_le_nat_alt by linarith
  qed
  have n1: "\<not> unat (h4_backupCnt s) \<ge> 1 + hlen" using False by (simp add: h4_pend_cnt [OF pend])
  show ?thesis
  proof (cases "?k \<le> unat len")
    case True
    obtain pl s1 s2 s3 where c: "h4_store pPacket ?k s = Some s1" "param (h4_backup s1) = Some pl"
      "min (ucast (of_nat (1 + hlen) + pl - ucast (h4_backupCnt s1) :: u16)) (len - of_nat ?k)
         = (of_nat (min (length (drop ?k y)) (length (drop ?k data))) :: u32)"
      "h4_store (pPacket + ?k) (min (length (drop ?k y)) (length (drop ?k data))) s1 = Some s2"
      "h4_complete now (1 + hlen + unat pl) s2 = Some s3" "h4_taken s s3 pend y data"
      using h4_collect_split [OF pend data agree reads put refl _ True] False unfolding not_le by blast
    have m: "unat (of_nat (min (length (drop ?k y)) (length (drop ?k data))) :: u32) = min (length (drop ?k y)) (length (drop ?k data))"
      using len by (intro unat_of_nat_small) simp
    have r: "ucast (of_nat ?k + ucast (of_nat (min (length (drop ?k y)) (length (drop ?k data))) :: u32) :: u16)
        = (of_nat (min (length y) (length data)) :: u32)"
      using len True ld by (intro h4_split_result) simp_all
    show ?thesis unfolding h4_backup_case_def Let_def h4_pend_cnt(2,3) [OF pend] kc k16 c(1) bind.bind_lunit k32 c(2,3) m c(4,5) r
      using n1 ge True c(6) by simp
  next
    case F2: False
    then have "length pend + unat len \<le> 255" using len by linarith
    then obtain s1 where s1: "h4_store pPacket (unat len) s = Some s1"
        "h4_pend s1 (pend @ data)" "h4_rx s1 = h4_rx s" "h4_hciRx s1 = h4_hciRx s" "h4_dma s1 = h4_dma s"
      using h4_store_ok [OF pend data] by blast
    have "\<not> length y \<le> length data" using F2 len ld by linarith
    then have "h4_taken s (HCI_Tr_H4TimerEnable now s1) pend y data"
      using s1 by (simp add: h4_taken_def h4_timers h4_pend_def)
    moreover have "min (length y) (length data) = unat len" using F2 len ld by simp
    ultimately show ?thesis unfolding h4_backup_case_def Let_def h4_pend_cnt(2,3) [OF pend] s1(1) bind.bind_lunit
      using n1 ge F2 by simp
  qed
qed

lemma BYTES_TO_UINT16_low: "i + 1 < length b \<Longrightarrow> b ! (i + 1) = 0 \<Longrightarrow> BYTES_TO_UINT16 b i = Some (ucast (b ! i))"
  by (simp add: BYTES_TO_UINT16_def rd8_def)

lemma nth_take_eq: "take n a = take n b \<Longrightarrow> i < n \<Longrightarrow> a ! i = b ! i"
  by (metis nth_take)

lemma h4_frame_reads:
  assumes "h4_frame q"
  shows "if q ! 0 = HCI_TR_TYPE_CMD then h4_reads (\<lambda>b. map_option ucast (rd8 b 3)) HCI_CMD_HEAD_LEN q
         else (q ! 0 = HCI_TR_TYPE_ACL \<or> q ! 0 = HCI_TR_TYPE_ISO) \<and> h4_reads (\<lambda>b. BYTES_TO_UINT16 b 3) HCI_ACL_HEAD_LEN q"
proof (cases "q ! 0 = HCI_TR_TYPE_CMD")
  case True
  then have q: "4 \<le> length q" "length q \<le> 255" "length q - 4 = unat (q ! 3)" using assms by (auto simp: h4_frame_def h4_types)
  have "map_option ucast (rd8 b 3) = Some (of_nat (length q - 4) :: u16)" if "4 \<le> length b" "take 4 b = take 4 q" for b
    using that(1) nth_take_eq [OF that(2), of 3] q(3) by (simp add: rd8_def)
  with q(1,2) have "h4_reads (\<lambda>b. map_option ucast (rd8 b 3)) HCI_CMD_HEAD_LEN q"
    unfolding h4_reads_def h4_heads by (auto simp del: of_nat_diff)
  with True show ?thesis by simp
next
  case False
  then have q: "5 \<le> length q" "length q \<le> 255" "length q - 5 = unat (q ! 3)" "q ! 4 = 0"
      "q ! 0 = HCI_TR_TYPE_ACL \<or> q ! 0 = HCI_TR_TYPE_ISO" using assms by (auto simp: h4_frame_def)
  have "BYTES_TO_UINT16 b 3 = Some (of_nat (length q - 5))" if "5 \<le> length b" "take 5 b = take 5 q" for b
    using that(1) q(3,4) nth_take_eq [OF that(2), of 3] nth_take_eq [OF that(2), of 4] BYTES_TO_UINT16_low [of 3 b] by simp
  with q(1,2) have "h4_reads (\<lambda>b. BYTES_TO_UINT16 b 3) HCI_ACL_HEAD_LEN q"
    unfolding h4_reads_def h4_heads by (auto simp del: of_nat_diff)
  with False q(5) show ?thesis by simp
qed

text \<open>The handler on a buffer that holds the beginning of a packet.\<close>

lemma h4_backup_continue:
  assumes pend: "h4_pend s pend" "pend \<noteq> []" and data: "rd_range (hf_p (h4_rx s)) pPacket (unat len) = Some data"
    and agree: "take (length y) data = take (length data) y" and frame: "h4_frame (pend @ y)"
    and put: "length y \<le> length data \<Longrightarrow> h4_put (h4_hciRx s) (pend @ y) \<noteq> None"
    and small: "unat len < 2 ^ 31"
  shows "\<exists>s'. HCI_Tr_H4BackUpHandler now pPacket len s = Some (of_nat (min (length y) (length data)), s')
     \<and> h4_taken s s' pend y data"
proof -
  have ne: "h4_backupCnt s \<noteq> 0" using h4_pend_empty_iff [OF pend(1)] pend(2) by simp
  have "h4_backup s ! 0 = take (length pend) (h4_backup s) ! 0" using pend(2) by simp
  also have "\<dots> = (pend @ y) ! 0" using pend by (simp add: h4_pend_def nth_append)
  finally have ty: "rd8 (h4_backup s) 0 = Some ((pend @ y) ! 0)"
    using pend(1) by (simp add: h4_pend_def h4_sizes)
  note case_ok = h4_backup_case_ok [OF pend(1) data agree _ put small, of _ _ now]
  show ?thesis unfolding HCI_Tr_H4BackUpHandler_def ty bind.bind_lunit h4_backup_cmd_def h4_backup_acl_def
    using h4_frame_reads [OF frame] case_ok ne by (simp split: if_splits)
qed

text \<open>The handler on an empty buffer.\<close>

lemma h4_backup_start:
  assumes "h4_pend s []" "rd_range (hf_p (h4_rx s)) pPacket (unat len) = Some data" "unat len \<le> 255"
  shows "\<exists>s'. HCI_Tr_H4BackUpHandler now pPacket len s = Some (len, s') \<and> h4_pend s' data
     \<and> h4_rx s' = h4_rx s \<and> h4_hciRx s' = h4_hciRx s \<and> h4_dma s' = h4_dma s"
proof -
  have ld: "length data = unat len" using assms(2) by (rule rd_range_length)
  obtain b where b: "wr_range (h4_backup s) 0 data = Some b"
    using assms ld by (auto simp: wr_range_def h4_pend_def h4_sizes)
  have "unat (ucast len :: u8) = unat len" using assms(3) by (simp add: unsigned_ucast_eq take_bit_nat_eq_self)
  moreover have "take (length data) b = data" "length b = length (h4_backup s)"
    using b by (auto simp: wr_range_def split: if_splits)
  ultimately show ?thesis using assms b ld h4_pend_empty_iff [OF assms(1)]
    by (auto simp: HCI_Tr_H4BackUpHandler_def h4_timers h4_pend_def)
qed

section \<open>The receive loop\<close>

lemma rd8_rd_range: "rd_range b i n = Some d \<Longrightarrow> k < n \<Longrightarrow> rd8 b (i + k) = Some (d ! k)"
  by (auto simp: rd_range_def rd8_def split: if_splits)

lemma rd_range_append:
  assumes "rd_range b i n = Some (x @ y)"
  shows "rd_range b i (length x) = Some x" "rd_range b (i + length x) (length y) = Some y"
proof -
  have n: "i + n \<le> length b" "take n (drop i b) = x @ y" using assms by (auto simp: rd_range_def split: if_splits)
  have l: "n = length x + length y" using rd_range_length [OF assms] by simp
  have "x = take (length x) (take n (drop i b))" "y = drop (length x) (take n (drop i b))" by (simp_all add: n(2))
  then show "rd_range b i (length x) = Some x" "rd_range b (i + length x) (length y) = Some y"
    using n(1) unfolding l by (auto simp: rd_range_def drop_take add.commute)
qed

lemma uint16_rd_range:
  assumes "rd_range b i n = Some d" "k + 1 < n"
  shows "BYTES_TO_UINT16 b (i + k) = BYTES_TO_UINT16 d k"
proof -
  have "rd8 b (i + (k + 1)) = Some (d ! (k + 1))" "rd8 b (i + k) = Some (d ! k)"
    using rd8_rd_range [OF assms(1), of "k + 1"] rd8_rd_range [OF assms(1), of k] assms(2) by simp_all
  moreover have "length d = n" using assms(1) by (rule rd_range_length)
  ultimately show ?thesis using assms(2) by (simp add: BYTES_TO_UINT16_def rd8_def add.assoc)
qed

lemma u8_and_3ff: "(ucast (w :: u8) :: u16) AND 0x03ff = ucast w"
proof -
  have m: "(0x03ff :: u16) = mask 10" by (simp add: mask_eq_exp_minus_1)
  show ?thesis unfolding m by (rule bit_word_eqI) (auto simp: bit_simps dest: bit_u8_less)
qed

definition h4_head_len :: "bytes \<Rightarrow> nat" where
  "h4_head_len q = (if q ! 0 = HCI_TR_TYPE_CMD then 4 else 5)"

lemma u16_pktlen:
  assumes "n \<le> 255" "h \<le> n"
  shows "(of_nat h :: u16) + of_nat (n - h) = of_nat n" "unat (of_nat n :: u16) = n" "(ucast (of_nat n :: u16) :: u32) = of_nat n"
  using assms by (simp_all add: unat_of_nat u16_of_nat_up flip: of_nat_add)

lemma h4_rx_parse_eq:
  assumes data: "rd_range (hf_p (h4_rx s)) pPacket (unat len) = Some data" "data \<noteq> []"
    and agree: "take (length q) data = take (length data) q" and frame: "h4_frame q"
  shows "h4_rx_parse now pPacket len s =
     (if length data < h4_head_len q
      then do { (_, s1) \<leftarrow> HCI_Tr_H4BackUpHandler now pPacket len s; Some (Loop pPacket 0 s1) }
      else h4_rx_packet now pPacket len (of_nat (length q)) s)"
proof -
  have ld: "length data = unat len" using data(1) by (rule rd_range_length)
  have nth: "data ! i = q ! i" if "i < length data" "i < length q" for i
    using that by (metis agree nth_take)
  have q4: "4 \<le> length q" using frame by (rule h4_frame_nonempty)
  have ty: "rd8 (hf_p (h4_rx s)) pPacket = Some (q ! 0)"
    using rd8_rd_range [OF data(1), of 0] data(2) ld nth [of 0] q4 by (metis add_0_right gr0I length_0_conv not_numeral_le_zero)
  have lt: "len < 4 \<longleftrightarrow> length data < 4" "len < 5 \<longleftrightarrow> length data < 5" by (simp_all add: ld word_less_nat_alt)
  show ?thesis
  proof (cases "q ! 0 = HCI_TR_TYPE_CMD")
    case True
    then have q: "length q \<le> 255" "length q = 4 + unat (q ! 3)" using frame by (auto simp: h4_frame_def h4_types)
    have "4 + ucast (q ! 3) = (of_nat (length q) :: u16)" using q(2) by simp
    moreover have "rd8 (hf_p (h4_rx s)) (pPacket + 3) = Some (q ! 3)" if "\<not> length data < 4"
      using that rd8_rd_range [OF data(1), of 3] ld nth [of 3] q4 by simp
    ultimately show ?thesis using True lt(1)
      unfolding h4_rx_parse_def Let_def ty bind.bind_lunit h4_heads h4_head_len_def
      by (cases "length data < 4") (simp_all del: rd8_Some_iff)
  next
    case False
    then have q: "length q \<le> 255" "5 \<le> length q" "length q = 5 + unat (q ! 3)" "q ! 4 = 0"
        "q ! 0 = HCI_TR_TYPE_ACL \<or> q ! 0 = HCI_TR_TYPE_ISO" using frame by (auto simp: h4_frame_def)
    have "5 + ucast (q ! 3) = (of_nat (length q) :: u16)" using q(3) by simp
    moreover have "BYTES_TO_UINT16 (hf_p (h4_rx s)) (pPacket + 3) = Some (ucast (q ! 3))" if "\<not> length data < 5"
      using that uint16_rd_range [OF data(1), of 3] ld nth [of 3] nth [of 4] q BYTES_TO_UINT16_low [of 3 data] by simp
    ultimately show ?thesis using False lt(2) q(5)
      unfolding h4_rx_parse_def Let_def ty bind.bind_lunit h4_heads h4_head_len_def by (auto simp: u8_and_3ff)
  qed
qed

lemma h4_parse_packet:
  assumes data: "rd_range (hf_p (h4_rx s)) pPacket (unat len) = Some (q @ data)" and frame: "h4_frame q"
    and put: "h4_put (h4_hciRx s) q = Some f"
    and room: "unat (hf_wptr (h4_hciRx s) - hf_rptr (h4_hciRx s)) < unat (hf_num (h4_hciRx s))"
  shows "h4_rx_parse now pPacket len s = Some (Loop (pPacket + length q) (len - of_nat (length q)) (s\<lparr>h4_hciRx := f\<rparr>))"
    "rd_range (hf_p (h4_rx s)) (pPacket + length q) (unat (len - of_nat (length q))) = Some data"
proof -
  have ld: "length q + length data = unat len" using rd_range_length [OF data] by simp
  have q: "4 \<le> length q" "length q \<le> 255" "h4_head_len q \<le> length q" using frame by (auto simp: h4_frame_def h4_head_len_def)
  have n32: "unat (of_nat (length q) :: u32) = length q" using q by (intro unat_of_nat_small) simp
  have le: "of_nat (length q) \<le> len" using ld n32 by (simp add: word_le_nat_alt)
  note rd_range_append(1) [OF data]
  moreover have "(of_nat (length q) :: u16) \<noteq> 0" using u16_pktlen(2) [of "length q" 0] q by (metis unat_0 not_numeral_le_zero le0)
  ultimately have "h4_rx_packet now pPacket len (of_nat (length q)) s
      = Some (Loop (pPacket + length q) (len - of_nat (length q)) (s\<lparr>h4_hciRx := f\<rparr>))"
    using q le put room by (simp add: h4_rx_packet_def u16_pktlen [of "length q" 0])
  moreover have "q @ data \<noteq> []" "take (length q) (q @ data) = take (length (q @ data)) q" "\<not> length (q @ data) < h4_head_len q"
    using q by auto
  ultimately show "h4_rx_parse now pPacket len s = Some (Loop (pPacket + length q) (len - of_nat (length q)) (s\<lparr>h4_hciRx := f\<rparr>))"
    using h4_rx_parse_eq [OF data _ _ frame, of now] by simp
  have "unat (len - of_nat (length q)) = length data" using ld n32 le by (simp add: unat_sub)
  then show "rd_range (hf_p (h4_rx s)) (pPacket + length q) (unat (len - of_nat (length q))) = Some data"
    using rd_range_append(2) [OF data] by simp
qed

lemma h4_parse_partial:
  assumes pend: "h4_pend s []" and data: "rd_range (hf_p (h4_rx s)) pPacket (unat len) = Some data" "data \<noteq> []"
    and frame: "h4_frame (data @ r)" "r \<noteq> []"
  shows "\<exists>s'. h4_rx_parse now pPacket len s = Some (Loop pPacket 0 s') \<and> h4_pend s' data
     \<and> h4_rx s' = h4_rx s \<and> h4_hciRx s' = h4_hciRx s \<and> h4_dma s' = h4_dma s"
proof -
  have ld: "length data = unat len" using data(1) by (rule rd_range_length)
  have q: "4 \<le> length (data @ r)" "length (data @ r) \<le> 255" using frame h4_frame_nonempty by blast+
  have "unat len \<le> 255" using q ld by simp
  then obtain s' where s': "HCI_Tr_H4BackUpHandler now pPacket len s = Some (len, s')" "h4_pend s' data"
      "h4_rx s' = h4_rx s" "h4_hciRx s' = h4_hciRx s" "h4_dma s' = h4_dma s"
    using h4_backup_start [OF pend data(1)] by blast
  have "unat (of_nat (length (data @ r)) :: u32) = length (data @ r)" using q by (intro unat_of_nat_small) simp
  then have "len < of_nat (length (data @ r))" unfolding word_less_nat_alt using ld frame(2) by simp
  moreover have "(of_nat (length (data @ r)) :: u16) \<noteq> 0" using u16_pktlen(2) [of "length (data @ r)" 0] q by (metis unat_0 not_numeral_le_zero le0)
  ultimately have "h4_rx_packet now pPacket len (of_nat (length (data @ r))) s = Some (Loop pPacket 0 s')"
    using s'(1) leD [of "of_nat (length (data @ r))" len] unfolding h4_rx_packet_def u16_pktlen(3) [OF q(2) le0]
    by (auto simp del: length_append)
  moreover have "take (length (data @ r)) data = take (length data) (data @ r)" by simp
  ultimately have "h4_rx_parse now pPacket len s = Some (Loop pPacket 0 s')"
    using h4_rx_parse_eq [OF data _ frame(1), of now] s'(1) by simp
  with s' show ?thesis by blast
qed

text \<open>
  The situation inside the loop: \<open>pend\<close> is buffered, \<open>data\<close> is left in the chunk, and together they are
  the packets \<open>ps\<close> followed by a proper beginning \<open>rest\<close> of a packet \<open>rest @ r\<close>.
\<close>

definition h4_due ::
    "HciH4TrCb_t \<Rightarrow> bytes \<Rightarrow> nat \<Rightarrow> u32 \<Rightarrow> bytes \<Rightarrow> bytes list \<Rightarrow> bytes \<Rightarrow> bytes \<Rightarrow> bool" where
  "h4_due s pend pPacket len data ps rest r \<longleftrightarrow>
     hf_ok (h4_hciRx s) \<and> h4_pend s pend \<and> rd_range (hf_p (h4_rx s)) pPacket (unat len) = Some data \<and> unat len < 2 ^ 31
     \<and> pend @ data = concat ps @ rest \<and> (\<forall>p\<in>set ps. h4_frame p \<and> length p \<le> unat (hf_size (h4_hciRx s)))
     \<and> h4_frame (rest @ r) \<and> r \<noteq> [] \<and> length pend < length (hd (ps @ [rest @ r]))
     \<and> (pend \<noteq> [] \<and> data \<noteq> [] \<longrightarrow> length (hf_view (h4_hciRx s)) < unat (hf_num (h4_hciRx s)))"

lemma h4_dueD:
  assumes "h4_due s pend pPacket len data ps rest r"
  shows "hf_ok (h4_hciRx s)" "h4_pend s pend" "rd_range (hf_p (h4_rx s)) pPacket (unat len) = Some data" "unat len < 2 ^ 31"
    "pend @ data = concat ps @ rest" "\<forall>p\<in>set ps. h4_frame p \<and> length p \<le> unat (hf_size (h4_hciRx s))"
    "h4_frame (rest @ r)" "r \<noteq> []" "length pend < length (hd (ps @ [rest @ r]))"
    "pend \<noteq> [] \<Longrightarrow> data \<noteq> [] \<Longrightarrow> length (hf_view (h4_hciRx s)) < unat (hf_num (h4_hciRx s))" "length data = unat len"
  using assms rd_range_length by (auto simp: h4_due_def)

lemma h4_due_first:
  assumes "h4_due s pend pPacket len data (p # ps) rest r"
  shows "\<exists>y data'. p = pend @ y \<and> data = y @ data' \<and> data' = concat ps @ rest \<and> y \<noteq> []"
proof -
  have e: "pend @ data = p @ (concat ps @ rest)" "length pend < length p" using h4_dueD(5,9) [OF assms] by simp_all
  then obtain y where "p = pend @ y" "data = y @ (concat ps @ rest)" by (auto simp: append_eq_append_conv2)
  with e(2) show ?thesis by auto
qed

lemma h4_due_put:
  assumes "h4_due s pend pPacket len data (p # ps) rest r" "length (hf_view (h4_hciRx s)) < unat (hf_num (h4_hciRx s))"
  shows "\<exists>f. h4_put (h4_hciRx s) p = Some f \<and> hf_put (h4_hciRx s) p = Some f \<and> hf_ok f \<and> hf_num f = hf_num (h4_hciRx s)
     \<and> hf_size f = hf_size (h4_hciRx s) \<and> length (hf_view f) = Suc (length (hf_view (h4_hciRx s)))"
  using h4_dueD(1,6) [OF assms(1)] assms(2) hf_put_ok [of "h4_hciRx s" p] h4_put_eq [of "h4_hciRx s" p] by fastforce

lemma h4_due_next:
  assumes due: "h4_due s pend pPacket len data (p # ps) rest r" and data: "data = y @ data'" "p = pend @ y"
    and room: "length (hf_view (h4_hciRx s)) < unat (hf_num (h4_hciRx s))"
    and s': "hf_put (h4_hciRx s) p = Some (h4_hciRx s')" "h4_pend s' []" "h4_rx s' = h4_rx s"
  shows "h4_due s' [] (pPacket + length y) (len - of_nat (length y)) data' ps rest r"
proof -
  note d = h4_dueD [OF due]
  have ld: "unat len = length y + length data'" using d(11) data by simp
  have y: "unat (of_nat (length y) :: u32) = length y" using ld by (metis le_add1 unat_of_nat_small le_less_trans unsigned_less)
  then have l: "unat (len - of_nat (length y)) = length data'" using ld by (simp add: unat_sub word_le_nat_alt)
  have "rd_range (hf_p (h4_rx s')) (pPacket + length y) (unat (len - of_nat (length y))) = Some data'"
    using rd_range_append(2) [OF d(3) [unfolded data(1)]] l s'(3) by simp
  moreover have "data' = concat ps @ rest" using d(5) data by simp
  moreover have "0 < length (hd (ps @ [rest @ r]))" using d(6,8) h4_frame_nonempty(1) by (cases ps) auto
  ultimately show ?thesis using h4_due_put [OF due room] s' d l ld by (auto simp: h4_due_def)
qed

lemma hf_put_seq_append: "hf.put_seq f (xs @ ys) = Option.bind (hf.put_seq f xs) (\<lambda>f'. hf.put_seq f' ys)"
  by (induction xs arbitrary: f) (simp_all add: Option.bind_assoc)

text \<open>What one pass over the chunk achieves: it goes on with less data, or it gives up on a full FIFO.\<close>

definition h4_progress ::
    "HciH4TrCb_t \<Rightarrow> bytes \<Rightarrow> bytes list \<Rightarrow> bytes \<Rightarrow> bytes \<Rightarrow> h4_next option \<Rightarrow> bool" where
  "h4_progress s data ps rest r res \<longleftrightarrow>
     (\<exists>s'. res = Some (Return s') \<and> h4_rx s' = h4_rx s \<and> unat (hf_num (h4_hciRx s)) < length (hf_view (h4_hciRx s)) + length ps)
     \<or> (\<exists>pPacket' len' s' pend' data' ps1 ps2. res = Some (Loop pPacket' len' s') \<and> ps = ps1 @ ps2
        \<and> hf.put_seq (h4_hciRx s) ps1 = Some (h4_hciRx s') \<and> h4_due s' pend' pPacket' len' data' ps2 rest r
        \<and> length data' < length data \<and> h4_rx s' = h4_rx s \<and> h4_dma s' = h4_dma s
        \<and> length (hf_view (h4_hciRx s')) = length (hf_view (h4_hciRx s)) + length ps1
        \<and> hf_num (h4_hciRx s') = hf_num (h4_hciRx s))"

lemma h4_progressI:
  "res = Some (Loop pPacket' len' s') \<Longrightarrow> ps = ps1 @ ps2 \<Longrightarrow> hf.put_seq (h4_hciRx s) ps1 = Some (h4_hciRx s') \<Longrightarrow>
     h4_due s' pend' pPacket' len' data' ps2 rest r \<Longrightarrow> length data' < length data \<Longrightarrow> h4_rx s' = h4_rx s \<Longrightarrow>
     h4_dma s' = h4_dma s \<Longrightarrow> length (hf_view (h4_hciRx s')) = length (hf_view (h4_hciRx s)) + length ps1 \<Longrightarrow>
     hf_num (h4_hciRx s') = hf_num (h4_hciRx s) \<Longrightarrow> h4_progress s data ps rest r res"
  unfolding h4_progress_def by blast

lemma h4_parse_full:
  assumes due: "h4_due s [] pPacket len data (p # ps) rest r"
    and full: "unat (hf_num (h4_hciRx s)) \<le> length (hf_view (h4_hciRx s))"
  shows "h4_rx_parse now pPacket len s = Some (Return s)"
proof -
  note d = h4_dueD [OF due]
  obtain data' where dp: "data = p @ data'" using h4_due_first [OF due] by auto
  have p: "h4_frame p" using d(6) by simp
  have q: "4 \<le> length p" "length p \<le> 255" "h4_head_len p \<le> length p" using p by (auto simp: h4_frame_def h4_head_len_def)
  have "unat (of_nat (length p) :: u32) = length p" using q by (intro unat_of_nat_small) simp
  then have "of_nat (length p) \<le> len" using d(11) dp by (simp add: word_le_nat_alt)
  moreover have "(of_nat (length p) :: u16) \<noteq> 0" using u16_pktlen(2) [of "length p" 0] q by (metis unat_0 not_numeral_le_zero le0)
  ultimately have "h4_rx_packet now pPacket len (of_nat (length p)) s = Some (Return s)"
    using q full by (simp add: h4_rx_packet_def u16_pktlen [of "length p" 0] hf_view_length)
  moreover have "data \<noteq> []" "take (length p) data = take (length data) p" "\<not> length data < h4_head_len p" using q dp by auto
  ultimately show ?thesis using h4_rx_parse_eq [OF d(3) _ _ p, of now] by simp
qed

lemma h4_due_end:
  assumes due: "h4_due s pend pPacket len data [] rest r" and s': "h4_pend s' rest" "h4_rx s' = h4_rx s" "h4_hciRx s' = h4_hciRx s"
    and k: "k \<le> unat len"
  shows "h4_due s' rest (pPacket + k) 0 [] [] rest r"
  using h4_dueD [OF due] s' k by (auto simp: h4_due_def rd_range_def split: if_splits)

lemma h4_parse_step:
  assumes due: "h4_due s [] pPacket len data ps rest r" and ne: "data \<noteq> []"
  shows "h4_progress s data ps rest r (h4_rx_parse now pPacket len s)"
proof (cases ps)
  case Nil
  note d = h4_dueD [OF due]
  have dr: "data = rest" using d(5) Nil by simp
  from h4_parse_partial [OF d(2,3) ne, of r now] d(7,8) dr obtain s' where
    s': "h4_rx_parse now pPacket len s = Some (Loop pPacket 0 s')" "h4_pend s' rest"
      "h4_rx s' = h4_rx s" "h4_hciRx s' = h4_hciRx s" "h4_dma s' = h4_dma s" by auto
  have "h4_due s' rest (pPacket + 0) 0 [] [] rest r" using due [unfolded Nil] s'(2-4) by (rule h4_due_end) simp
  then show ?thesis using s' Nil ne by (intro h4_progressI [of _ pPacket 0 s' _ "[]" "[]" _ rest "[]"]) simp_all
next
  case (Cons p ps')
  note d = h4_dueD [OF due]
  obtain data' where dp: "data = p @ data'" "p \<noteq> []" using h4_due_first [OF due [unfolded Cons]] by auto
  show ?thesis
  proof (cases "length (hf_view (h4_hciRx s)) < unat (hf_num (h4_hciRx s))")
    case False
    with h4_parse_full [OF due [unfolded Cons], of now] Cons show ?thesis by (simp add: h4_progress_def)
  next
    case room: True
    obtain f where f: "h4_put (h4_hciRx s) p = Some f" "hf_put (h4_hciRx s) p = Some f" "hf_num f = hf_num (h4_hciRx s)"
        "length (hf_view f) = Suc (length (hf_view (h4_hciRx s)))"
      using h4_due_put [OF due [unfolded Cons] room] by auto
  have "h4_frame p" "unat (hf_wptr (h4_hciRx s) - hf_rptr (h4_hciRx s)) < unat (hf_num (h4_hciRx s))"
    using d(6) room Cons by (auto simp: hf_view_length)
  from h4_parse_packet(1) [OF d(3) [unfolded dp(1)] this(1) f(1) this(2)]
  have "h4_rx_parse now pPacket len s = Some (Loop (pPacket + length p) (len - of_nat (length p)) (s\<lparr>h4_hciRx := f\<rparr>))" .
  moreover have "h4_due (s\<lparr>h4_hciRx := f\<rparr>) [] (pPacket + length p) (len - of_nat (length p)) data' ps' rest r"
    using d(2) f(2) by (intro h4_due_next [OF due [unfolded Cons] dp(1) _ room]) (simp_all add: h4_pend_def)
  ultimately show ?thesis using f Cons dp
    by (intro h4_progressI [of _ "pPacket + length p" "len - of_nat (length p)" "s\<lparr>h4_hciRx := f\<rparr>" _ "[p]" ps' _ "[]" data']) simp_all
  qed
qed


lemma ucast_u8_small: "n \<le> 255 \<Longrightarrow> unat (ucast (of_nat n :: u32) :: u8) = n" "n \<le> 255 \<Longrightarrow> ucast (ucast (of_nat n :: u32) :: u8) = (of_nat n :: u32)"
proof -
  assume n: "n \<le> 255"
  then show u: "unat (ucast (of_nat n :: u32) :: u8) = n"
    by (simp add: unsigned_ucast_eq unat_of_nat take_bit_nat_eq_self)
  then show "ucast (ucast (of_nat n :: u32) :: u8) = (of_nat n :: u32)" by (metis of_nat_unat)
qed

lemma h4_step_partial:
  assumes due: "h4_due s pend pPacket len data [] rest r" and ne: "data \<noteq> []" "pend \<noteq> []"
  shows "h4_progress s data [] rest r (h4_rx_step now pPacket len s)"
proof -
  note d = h4_dueD [OF due]
  have e: "pend @ data = rest" using d(5) by simp
  have q: "h4_frame (pend @ data @ r)" using d(7) by (simp flip: e)
  then have n: "length data \<le> 255" using h4_frame_nonempty(3) by fastforce
  have "\<exists>s'. HCI_Tr_H4BackUpHandler now pPacket len s = Some (of_nat (min (length (data @ r)) (length data)), s')
     \<and> h4_taken s s' pend (data @ r) data"
    using d(8) by (intro h4_backup_continue [OF d(2) ne(2) d(3) _ q _ d(4)]) simp_all
  then obtain s' where s': "HCI_Tr_H4BackUpHandler now pPacket len s = Some (of_nat (length data), s')"
      "h4_taken s s' pend (data @ r) data" by auto
  have t: "h4_pend s' rest" "h4_hciRx s' = h4_hciRx s" "h4_rx s' = h4_rx s" "h4_dma s' = h4_dma s"
    using s'(2) d(8) e by (auto simp: h4_taken_def)
  have lw: "len - of_nat (length data) = 0" using d(11) by simp
  have "h4_rx_step now pPacket len s = Some (Loop (pPacket + length data) 0 s')"
    using h4_pend_empty_iff [OF d(2)] ne(2) lw
    unfolding h4_rx_step_def s'(1) bind.bind_lunit prod.case Let_def ucast_u8_small [OF n] by simp
  moreover have "h4_due s' rest (pPacket + length data) 0 [] [] rest r"
    using t d(11) by (intro h4_due_end [OF due]) simp_all
  ultimately show ?thesis using t ne by (intro h4_progressI [of _ _ 0 s' _ "[]" "[]" _ rest "[]"]) simp_all
qed

lemma h4_step_complete:
  assumes due: "h4_due s pend pPacket len data (p # ps) rest r" and ne: "pend \<noteq> []"
  shows "h4_progress s data (p # ps) rest r (h4_rx_step now pPacket len s)"
proof -
  note d = h4_dueD [OF due]
  obtain y data' where y: "p = pend @ y" "data = y @ data'" "y \<noteq> []" using h4_due_first [OF due] by auto
  have room: "length (hf_view (h4_hciRx s)) < unat (hf_num (h4_hciRx s))" using d(10) ne y by simp
  obtain f where f: "h4_put (h4_hciRx s) p = Some f" "hf_put (h4_hciRx s) p = Some f"
      "length (hf_view f) = Suc (length (hf_view (h4_hciRx s)))" "hf_num f = hf_num (h4_hciRx s)"
    using h4_due_put [OF due room] by auto
  have q: "h4_frame (pend @ y)" using d(6) y(1) by simp
  then have n: "length y \<le> 255" using h4_frame_nonempty(3) by fastforce
  obtain s' where s': "HCI_Tr_H4BackUpHandler now pPacket len s = Some (of_nat (min (length y) (length data)), s')"
      "h4_taken s s' pend y data"
    using h4_backup_continue [OF d(2) ne d(3) _ q _ d(4), of now] y f(1) by auto
  have t: "h4_pend s' []" "h4_hciRx s' = f" "h4_rx s' = h4_rx s" "h4_dma s' = h4_dma s"
    using s'(2) y f(1) by (auto simp: h4_taken_def)
  have due': "h4_due s' [] (pPacket + length y) (len - of_nat (length y)) data' ps rest r"
    using f(2) t by (intro h4_due_next [OF due y(2,1) room]) simp_all
  note d' = h4_dueD [OF due']
  have ps: "hf.put_seq (h4_hciRx s) (p # us) = hf.put_seq (h4_hciRx s') us" for us using f(2) t(2) by simp
  have step: "h4_rx_step now pPacket len s =
      (if len - of_nat (length y) = 0 then Some (Loop (pPacket + length y) (len - of_nat (length y)) s')
       else h4_rx_parse now (pPacket + length y) (len - of_nat (length y)) s')"
    using h4_pend_empty_iff [OF d(2)] ne n y(2) unfolding h4_rx_step_def s'(1) by (simp add: ucast_u8_small Let_def)
  show ?thesis
  proof (cases "data' = []")
    case True
    then have "len - of_nat (length y) = 0" using d'(11) by (simp add: unat_eq_0)
    then show ?thesis using step due' t f(3,4) ps [of "[]"] y(2,3) True
      by (intro h4_progressI [of _ "pPacket + length y" 0 s' _ "[p]" ps _ "[]" data']) simp_all
  next
    case False
    then have "len - of_nat (length y) \<noteq> 0" using d'(11) by (auto simp: unat_eq_0)
    then have "h4_rx_step now pPacket len s = h4_rx_parse now (pPacket + length y) (len - of_nat (length y)) s'" using step by simp
    moreover note h4_parse_step [OF due' False, of now]
    ultimately show ?thesis unfolding h4_progress_def
    proof (elim disjE exE conjE, goal_cases)
      case (1 s2)
      with f t show ?case by (intro disjI1) simp
    next
      case (2 p2 l2 s2 pend2 d2 ps1 ps2)
      with t f(3,4) y(2) ps [of ps1] show ?case
        by (intro disjI2 exI [of _ p2] exI [of _ l2] exI [of _ s2] exI [of _ pend2] exI [of _ d2] exI [of _ "p # ps1"] exI [of _ ps2]) simp
    qed
  qed
qed

lemma h4_step_ok:
  assumes "h4_due s pend pPacket len data ps rest r" "data \<noteq> []"
  shows "h4_progress s data ps rest r (h4_rx_step now pPacket len s)"
proof (cases "pend = []")
  case True
  then have "h4_rx_step now pPacket len s = h4_rx_parse now pPacket len s"
    using h4_pend_empty_iff [OF h4_dueD(2) [OF assms(1)]] by (simp add: h4_rx_step_def)
  with True assms h4_parse_step show ?thesis by simp
next
  case False
  with assms h4_step_partial h4_step_complete show ?thesis by (cases ps) simp_all
qed

lemma h4_rx_loop_ok:
  assumes "h4_due s pend pPacket len data ps rest r"
  shows "\<exists>fin s'. h4_rx_loop now pPacket len s = Some (fin, s') \<and> h4_rx s' = h4_rx s
     \<and> fin = (length (hf_view (h4_hciRx s)) + length ps \<le> unat (hf_num (h4_hciRx s)))
     \<and> (fin \<longrightarrow> h4_pend s' rest \<and> h4_dma s' = h4_dma s
          \<and> hf.put_seq (h4_hciRx s) ps = Some (h4_hciRx s') \<and> hf_ok (h4_hciRx s'))"
  using assms
proof (induction "length data" arbitrary: s pend pPacket len data ps rule: less_induct)
  case less
  note d = h4_dueD [OF less.prems]
  show ?case
  proof (cases "data = []")
    case True
    then have "len = 0" using d(11) by (simp add: unat_eq_0)
    moreover have "ps = []" using d(5,6,9) True h4_frame_nonempty(1) by (cases ps) auto
    moreover have "length (hf_view (h4_hciRx s)) \<le> unat (hf_num (h4_hciRx s))"
      using d(1) by (simp add: hf_ok_def pf_ok_def hf_view_length)
    ultimately show ?thesis using d(1,2,5) True by (intro exI [of _ True] exI [of _ s]) (simp add: h4_rx_loop.simps)
  next
    case False
    then have l: "len \<noteq> 0" using d(11) by auto
    from h4_step_ok [OF less.prems False, of now] show ?thesis unfolding h4_progress_def
    proof (elim disjE exE conjE, goal_cases)
      case (1 s2)
      with l show ?case by (intro exI [of _ False] exI [of _ s2]) (simp add: h4_rx_loop.simps)
    next
      case (2 p2 l2 s2 pend2 d2 ps1 ps2)
      from less.hyps [OF 2(5,4)] l 2 show ?case by (subst h4_rx_loop.simps) (auto simp: hf_put_seq_append)
    qed
  qed
qed

section \<open>Receiving a stream\<close>

text \<open>
  The chunks \<open>cs\<close> wait in the receive FIFO, each behind its length, and the UART fills the slot of the
  write index.
\<close>

definition dma_chunk :: "nat \<Rightarrow> bytes \<Rightarrow> bytes \<Rightarrow> bool" where
  "dma_chunk sz c slot \<longleftrightarrow> take (4 + length c) slot = UINT32_TO_BSTREAM (of_nat (length c)) @ c \<and> 4 + length c \<le> sz \<and> c \<noteq> []
     \<and> length slot = sz"

abbreviation h4_chunk :: "bytes \<Rightarrow> bytes \<Rightarrow> bool" where
  "h4_chunk \<equiv> dma_chunk 608"

definition h4_inv :: "HciH4TrCb_t \<Rightarrow> bytes \<Rightarrow> bytes list \<Rightarrow> bool" where
  "h4_inv s pend cs \<longleftrightarrow> hf_ok (h4_rx s) \<and> hf_size (h4_rx s) = 608 \<and> hf_num (h4_rx s) = 4 \<and> hf_ok (h4_hciRx s)
     \<and> h4_pend s pend \<and> list_all2 h4_chunk cs (hf_view (h4_rx s))
     \<and> h4_dma s = (hf_slot (h4_rx s) (hf_wptr (h4_rx s)) + 4, 604)"

lemma h4_invD:
  assumes "h4_inv s pend cs"
  shows "hf_ok (h4_rx s)" "hf_size (h4_rx s) = 608" "hf_num (h4_rx s) = 4" "hf_ok (h4_hciRx s)" "h4_pend s pend"
    "list_all2 h4_chunk cs (hf_view (h4_rx s))" "h4_dma s = (hf_slot (h4_rx s) (hf_wptr (h4_rx s)) + 4, 604)"
    "length cs = length (hf_view (h4_rx s))"
  using assms list_all2_lengthD by (auto simp: h4_inv_def)

lemma hf_put_slot_length:
  assumes "hf_ok f" "hf_put f d = Some f'" "length (hf_view f) < unat (hf_num f)" "length d \<le> unat (hf_size f)"
  shows "\<exists>slot. hf_view f' = hf_view f @ [slot] \<and> take (length d) slot = d \<and> length slot = unat (hf_size f)"
proof -
  have pf: "pf_ok (unat (hf_size f)) (unat (hf_num f)) (hf_p f) (hf_rptr f) (hf_wptr f)" using assms(1) by (simp add: hf_ok_def)
  from pf_put [OF pf, of d] assms(2-4) show ?thesis
    by (auto simp: hf_put_def hf_slot_eq [OF assms(1)] hf_view_def)
qed

lemma uint32_at: "take 4 (drop i b) = UINT32_TO_BSTREAM n \<Longrightarrow> i + 4 \<le> length b \<Longrightarrow> BYTES_TO_UINT32 b i = Some n"
  using uint32_roundtrip [of "take i b" n "drop (i + 4) b"]
  by (metis append_take_drop_id add_leD1 drop_drop add.commute length_take min_absorb2)

text \<open>A receive interrupt appends a chunk and hands the next slot to the UART.\<close>

lemma h4_irq_ok:
  assumes inv: "h4_inv s pend cs" and room: "length cs < 4" and c: "c \<noteq> []" "length c \<le> 604"
  shows "\<exists>s'. ext_hci_irq_handler c s = Some s' \<and> h4_inv s' pend (cs @ [c]) \<and> h4_hciRx s' = h4_hciRx s
     \<and> h4_flushTimer s' = h4_flushTimer s"
proof -
  note d = h4_invD [OF inv]
  let ?f = "h4_rx s" let ?o = "hf_slot (h4_rx s) (hf_wptr (h4_rx s))"
  let ?h = "UINT32_TO_BSTREAM (of_nat (length c))"
  have n: "length (hf_view ?f) < unat (hf_num ?f)" "length (?h @ c) \<le> unat (hf_size ?f)" using d(2,3,8) room c by simp_all
  obtain f' where f': "hf_put ?f (?h @ c) = Some f'" "hf_ok f'" "hf_num f' = hf_num ?f" "hf_size f' = hf_size ?f"
    using hf_put_ok [OF d(1) n] by auto
  from hf_put_slot_length [OF d(1) f'(1) n] obtain slot where
    slot: "hf_view f' = hf_view ?f @ [slot]" "take (length (?h @ c)) slot = ?h @ c" "length slot = 608" using d(2) by auto
  obtain p where p: "wr_range (hf_p ?f) ?o (?h @ c) = Some p" "f' = ?f\<lparr>hf_p := p, hf_wptr := hf_wptr ?f + 1\<rparr>"
    using f'(1) by (auto simp: hf_put_def bind_eq_Some_conv)
  have w: "\<exists>p1. wr_range (hf_p ?f) (?o + 4) c = Some p1 \<and> wr_range p1 ?o ?h = Some p"
    using p(1) by (auto simp: wr_range_def add.assoc split: if_splits)
  have "BYTES_TO_UINT32 p ?o = Some (of_nat (length c))"
    using p(1) uint32_roundtrip [of "take ?o (hf_p ?f)" "of_nat (length c)" "c @ drop (?o + length (?h @ c)) (hf_p ?f)"]
    by (auto simp: wr_range_def split: if_splits)
  moreover have "(of_nat (length c) :: u32) \<noteq> 0"
    using c unat_of_nat_small [where 'a = 32, of "length c"] by (auto simp del: unat_of_nat of_nat_eq_0_iff)
  moreover have "unat (hf_wptr ?f - hf_rptr ?f) < 4" using n(1) d(3) by (simp add: hf_view_length)
  moreover obtain p1 where "wr_range (hf_p ?f) (?o + 4) c = Some p1" "wr_range p1 ?o ?h = Some p" using w by blast
  moreover have "hf_slot (?f\<lparr>hf_p := p\<rparr>) i = hf_slot ?f i" "hf_slot f' i = hf_slot ?f i" for i by (simp_all add: hf_slot_def p(2))
  ultimately have "ext_hci_irq_handler c s = Some (s\<lparr>h4_rx := f', h4_dma := (hf_slot ?f (hf_wptr ?f + 1) + 4, 604)\<rparr>)"
    using d(2,3,7) c by (simp add: ext_hci_irq_handler_def HCI_Tr_H4UartRxIRQHandler_def ext_hci_uartReceData_def Let_def p(2) not_le)
  moreover have "h4_chunk c slot" using slot c by (simp add: dma_chunk_def)
  ultimately show ?thesis using d f' slot(1) p(2)
    by (auto simp: h4_inv_def h4_pend_def hf_slot_def intro!: list_all2_appendI)
qed

text \<open>The handler takes the oldest chunk.\<close>

definition h4_idle :: "u32 \<Rightarrow> HciH4TrCb_t \<Rightarrow> bool" where
  "h4_idle now s \<longleftrightarrow> h4_flushTimer s \<noteq> 0 \<and> clock_time_exceed now (h4_flushTimer s) (HCI_H4_FLUSH_TO * 1000)"

lemma dma_front_chunk:
  assumes ok: "hf_ok f" and view: "list_all2 (dma_chunk (unat (hf_size f))) (c # cs) (hf_view f)" and sz: "unat (hf_size f) < 2 ^ 31"
  defines "off \<equiv> hf_slot f (hf_rptr f)"
  shows "hf_wptr f \<noteq> hf_rptr f" "BYTES_TO_UINT32 (hf_p f) off = Some (of_nat (length c))"
    "rd_range (hf_p f) (off + 4) (unat (of_nat (length c) :: u32)) = Some c" "c \<noteq> []" "4 + length c \<le> unat (hf_size f)"
    "hf_ok (hf_pop f)" "list_all2 (dma_chunk (unat (hf_size f))) cs (hf_view (hf_pop f))"
proof -
  obtain slot slots where v: "hf_view f = slot # slots" "dma_chunk (unat (hf_size f)) c slot"
      "list_all2 (dma_chunk (unat (hf_size f))) cs slots"
    using view by (auto simp: list_all2_Cons1)
  have slot: "rd_range (hf_p f) off (unat (hf_size f)) = Some slot" and ne: "hf_wptr f \<noteq> hf_rptr f"
    and pop: "hf_ok (hf_pop f)" "hf_view (hf_pop f) = slots"
    using hf_pop_ok [OF ok v(1)] by (auto simp: off_def hf_front_def split: if_splits)
  have sl: "slot = (UINT32_TO_BSTREAM (of_nat (length c)) @ c) @ drop (4 + length c) slot" "4 + length c \<le> unat (hf_size f)" "c \<noteq> []"
    using v(2) by (metis dma_chunk_def append_take_drop_id)+
  have "rd_range (hf_p f) off (length (UINT32_TO_BSTREAM (of_nat (length c)) @ c)) = Some (UINT32_TO_BSTREAM (of_nat (length c)) @ c)"
    using slot sl(1) rd_range_append(1) by metis
  from rd_range_append [OF this] have
    h: "rd_range (hf_p f) off 4 = Some (UINT32_TO_BSTREAM (of_nat (length c)))" and
    cd: "rd_range (hf_p f) (off + 4) (length c) = Some c" by simp_all
  have u: "unat (of_nat (length c) :: u32) = length c" using sl(2) sz by (intro unat_of_nat_small) simp
  show "BYTES_TO_UINT32 (hf_p f) off = Some (of_nat (length c))"
    using h by (intro uint32_at) (auto simp: rd_range_def split: if_splits)
  show "rd_range (hf_p f) (off + 4) (unat (of_nat (length c) :: u32)) = Some c" using cd u by simp
  show "c \<noteq> []" "4 + length c \<le> unat (hf_size f)" "hf_ok (hf_pop f)"
    "list_all2 (dma_chunk (unat (hf_size f))) cs (hf_view (hf_pop f))" "hf_wptr f \<noteq> hf_rptr f"
    using sl pop v(3) ne by simp_all
qed

lemma h4_front_chunk:
  assumes inv: "h4_inv s pend (c # cs)"
  defines "off \<equiv> hf_slot (h4_rx s) (hf_rptr (h4_rx s))"
  shows "hf_wptr (h4_rx s) \<noteq> hf_rptr (h4_rx s)" "BYTES_TO_UINT32 (hf_p (h4_rx s)) off = Some (of_nat (length c))"
    "rd_range (hf_p (h4_rx s)) (off + 4) (unat (of_nat (length c) :: u32)) = Some c" "c \<noteq> []" "length c \<le> 604"
    "hf_ok (hf_pop (h4_rx s))" "list_all2 h4_chunk cs (hf_view (hf_pop (h4_rx s)))"
  using dma_front_chunk [of "h4_rx s" c cs] h4_invD(1,2,6) [OF inv] by (simp_all add: off_def)

lemma h4_rx_handler_eq:
  assumes "h4_inv s pend (c # cs)" "\<not> h4_idle now s"
  shows "HCI_Tr_H4RxHandler now s =
    do { (fin, s1) \<leftarrow> h4_rx_loop now (hf_slot (h4_rx s) (hf_rptr (h4_rx s)) + 4) (of_nat (length c)) s;
         Some (if fin then s1\<lparr>h4_rx := hf_pop (h4_rx s1)\<rparr> else s1) }"
proof -
  have "HCI_Tr_H4FlushHandler now s = s" using assms(2) by (auto simp: HCI_Tr_H4FlushHandler_def h4_idle_def)
  then show ?thesis using h4_front_chunk(1,2) [OF assms(1)] by (simp add: HCI_Tr_H4RxHandler_def Let_def)
qed

lemma h4_rx_handler_ok:
  assumes inv: "h4_inv s pend (c # cs)" and idle: "\<not> h4_idle now s"
    and packets: "pend @ c = concat ps @ rest" "\<forall>p\<in>set ps. h4_frame p \<and> length p \<le> unat (hf_size (h4_hciRx s))"
    and rest: "h4_frame (rest @ r)" "r \<noteq> []" "length pend < length (hd (ps @ [rest @ r]))"
    and room: "length (hf_view (h4_hciRx s)) < unat (hf_num (h4_hciRx s))"
  shows "\<exists>fin s'. HCI_Tr_H4RxHandler now s = Some s'
     \<and> fin = (length (hf_view (h4_hciRx s)) + length ps \<le> unat (hf_num (h4_hciRx s)))
     \<and> hf_rptr (h4_rx s') = hf_rptr (h4_rx s) + (if fin then 1 else 0)
     \<and> (fin \<longrightarrow> h4_inv s' rest cs \<and> hf.put_seq (h4_hciRx s) ps = Some (h4_hciRx s'))"
proof -
  note d = h4_invD [OF inv] note c = h4_front_chunk [OF inv]
  let ?o = "hf_slot (h4_rx s) (hf_rptr (h4_rx s))"
  have u: "unat (of_nat (length c) :: u32) = length c" using c(5) by (intro unat_of_nat_small) simp
  have "h4_due s pend (?o + 4) (of_nat (length c)) c ps rest r"
    using d c(3,4,5) u packets rest room by (simp add: h4_due_def)
  from h4_rx_loop_ok [OF this, of now] obtain fin s1 where loop:
    "h4_rx_loop now (?o + 4) (of_nat (length c)) s = Some (fin, s1)" "h4_rx s1 = h4_rx s"
    "fin = (length (hf_view (h4_hciRx s)) + length ps \<le> unat (hf_num (h4_hciRx s)))"
    "fin \<longrightarrow> h4_pend s1 rest \<and> h4_dma s1 = h4_dma s \<and> hf.put_seq (h4_hciRx s) ps = Some (h4_hciRx s1) \<and> hf_ok (h4_hciRx s1)"
    by blast
  have "HCI_Tr_H4RxHandler now s = Some (if fin then s1\<lparr>h4_rx := hf_pop (h4_rx s1)\<rparr> else s1)"
    using loop(1) by (simp add: h4_rx_handler_eq [OF inv idle])
  moreover have "h4_inv (s1\<lparr>h4_rx := hf_pop (h4_rx s1)\<rparr>) rest cs" if "fin"
    using that d loop c(6,7) by (simp add: h4_inv_def h4_pend_def hf_pop_def hf_slot_def)
  ultimately show ?thesis using loop
    by (intro exI [of _ "fin"] exI [of _ "if fin then s1\<lparr>h4_rx := hf_pop (h4_rx s1)\<rparr> else s1"]) (simp add: hf_pop_def)
qed



lemma h4_frame_reset: "h4_frame [1, 3, 12, 0]"
  by (simp add: h4_frame_def h4_types numeral_3_eq_3)







section \<open>Properties\<close>


lemma h4_init_inv:
  assumes "hf_ok f" "h4_rx s = h4TrRxFifo"
  shows "h4_inv (HCI_Tr_H4Init f s) [] []" "h4_flushTimer (HCI_Tr_H4Init f s) = 0" "h4_hciRx (HCI_Tr_H4Init f s) = f"
proof -
  have "hf_ok (h4TrRxFifo\<lparr>hf_p := replicate (608 * 4) 0\<rparr>)"
    by (auto simp: h4TrRxFifo_def hf_ok_def pf_ok_def h4_sizes intro!: exI [of _ 2])
  moreover have "hf_view (h4TrRxFifo\<lparr>hf_p := replicate (608 * 4) 0\<rparr>) = []" by (simp add: hf_view_empty_iff h4TrRxFifo_def)
  ultimately show "h4_inv (HCI_Tr_H4Init f s) [] []"
    using assms by (simp add: h4_inv_def HCI_Tr_H4Init_def ext_hci_uartReceData_def h4_pend_def h4_sizes h4TrRxFifo_def hf_slot_def)
qed (simp_all add: HCI_Tr_H4Init_def ext_hci_uartReceData_def)

definition h4_example :: HciH4TrCb_t where
  "h4_example = HCI_Tr_H4Init hci_fifo_example
     \<lparr>h4_hciRx = hci_fifo_example, h4_rx = h4TrRxFifo, h4_backup = [], h4_flushTimer = 0, h4_backupCnt = 0, h4_dma = (0, 0)\<rparr>"

lemma h4_example_ok:
  "h4_inv h4_example [] []" "h4_flushTimer h4_example = 0" "h4_hciRx h4_example = hci_fifo_example"
  using h4_init_inv [OF hci_fifo_example_ok(1)] by (simp_all add: h4_example_def)


lemma h4_rx_loop_stuck:
  assumes step: "h4_rx_step now p n s = Some (Loop p n s)" and ne: "n \<noteq> 0"
  shows "h4_rx_loop now p n s = None"
proof -
  have "h4_rx_loop now' p' n' s' = Some res \<Longrightarrow> now' = now \<and> p' = p \<and> n' = n \<and> s' = s \<Longrightarrow> False" for now' p' n' s' res
  proof (induction rule: h4_rx_loop.raw_induct [rotated, consumes 1])
    case (1 loop now' p' n' s' res)
    then show ?case using step ne by (auto simp: 1(2))
  qed
  then show ?thesis by (metis not_None_eq)
qed

text \<open>
  C33.  An ACL header whose length field is 0xFFFB makes the 16-bit packet length zero: an iteration of the
  receive loop then changes nothing and the handler does not return.
\<close>

theorem h4_zero_length_hangs:
  assumes inv: "h4_inv s [] (c # cs)" and idle: "\<not> h4_idle now s"
    and c: "5 \<le> length c" "c ! 0 = HCI_TR_TYPE_ACL" "c ! 3 = 0xFB" "c ! 4 = 0xFF"
  shows "h4_rx_step now (hf_slot (h4_rx s) (hf_rptr (h4_rx s)) + 4) (of_nat (length c)) s
       = Some (Loop (hf_slot (h4_rx s) (hf_rptr (h4_rx s)) + 4) (of_nat (length c)) s)
     \<and> HCI_Tr_H4RxHandler now s = None"
proof -
  note f = h4_front_chunk [OF inv]
  let ?o = "hf_slot (h4_rx s) (hf_rptr (h4_rx s)) + 4"
  have u: "unat (of_nat (length c) :: u32) = length c" using f(5) by (intro unat_of_nat_small) simp
  then have l: "\<not> (of_nat (length c) :: u32) < 5" using c(1) by (simp add: word_less_nat_alt)
  have ty: "rd8 (hf_p (h4_rx s)) ?o = Some HCI_TR_TYPE_ACL"
    using rd8_rd_range [OF f(3), of 0] c(1,2) u f(4) by (simp del: rd8_Some_iff)
  have "rd8 c 3 = Some 0xFB" "rd8 c 4 = Some 0xFF" using c by simp_all
  then have "BYTES_TO_UINT16 c 3 = Some 0xFFFB" by (simp add: BYTES_TO_UINT16_def del: rd8_Some_iff)
  then have pl: "BYTES_TO_UINT16 (hf_p (h4_rx s)) (?o + 3) = Some 0xFFFB"
    using uint16_rd_range [OF f(3), of 3] c(1) u by simp
  have "h4_backupCnt s = 0" using h4_pend_empty_iff [OF h4_invD(5) [OF inv]] by simp
  then have step: "h4_rx_step now ?o (of_nat (length c)) s = Some (Loop ?o (of_nat (length c)) s)"
    using l unfolding h4_rx_step_def h4_rx_parse_def Let_def ty pl bind.bind_lunit h4_heads
    by (simp add: h4_types h4_rx_packet_def)
  have ne: "(of_nat (length c) :: u32) \<noteq> 0" using l by auto
  from h4_rx_loop_stuck [OF step ne] have "h4_rx_loop now ?o (of_nat (length c)) s = None" .
  then show ?thesis using step by (simp add: h4_rx_handler_eq [OF inv idle])
qed

lemma h4_example_chunk:
  assumes "c \<noteq> []" "length c \<le> 604"
  shows "\<exists>s. h4_inv s [] [c] \<and> h4_hciRx s = hci_fifo_example \<and> h4_flushTimer s = 0"
  using h4_irq_ok [OF h4_example_ok(1) _ assms] h4_example_ok(2,3) by auto

theorem h4_zero_length_hangs_witness:
  "\<exists>s. h4_inv s [] [[2, 0, 0, 0xFB, 0xFF]] \<and> HCI_Tr_H4RxHandler 7 s = None"
proof -
  obtain s where s: "h4_inv s [] [[2, 0, 0, 0xFB, 0xFF]]" "h4_flushTimer s = 0"
    using h4_example_chunk [of "[2, 0, 0, 0xFB, 0xFF]"] by auto
  then have "\<not> h4_idle 7 s" by (simp add: h4_idle_def)
  with h4_zero_length_hangs [OF s(1), of 7] s(1) show ?thesis by (auto simp: h4_types numeral_3_eq_3 numeral_eq_Suc)
qed

text \<open>
  The buffered count has eight bits.  A fragmented ACL or ISO packet of 256 bytes or more, its header
  buffered, is never delivered: whatever the handler is called with, the HCI FIFO stays as it is.
\<close>

theorem h4_long_fragment_lost:
  assumes "5 \<le> unat (h4_backupCnt s)" "rd8 (h4_backup s) 0 = Some HCI_TR_TYPE_ACL \<or> rd8 (h4_backup s) 0 = Some HCI_TR_TYPE_ISO"
    and "BYTES_TO_UINT16 (h4_backup s) 3 = Some paramLen" "256 \<le> 5 + unat paramLen"
    and "HCI_Tr_H4BackUpHandler now pPacket len s = Some (r, s')"
  shows "h4_hciRx s' = h4_hciRx s"
proof -
  have wait: "h4_complete now (5 + unat paramLen) t = Some (HCI_Tr_H4TimerEnable now t)" for t
    using assms(4) unat_u8_less [of "h4_backupCnt t"] by (auto simp: h4_complete_def)
  have c: "h4_backupCnt s \<noteq> 0" using assms(1) by auto
  have "h4_backup_acl now pPacket len s = Some (r, s')"
    using assms(2,5) c by (auto simp: HCI_Tr_H4BackUpHandler_def h4_types bind_eq_Some_conv split: if_splits)
  then show ?thesis using assms(1,3) wait
    by (auto simp: h4_backup_acl_def h4_backup_case_def h4_heads Let_def bind_eq_Some_conv h4_store_def h4_timers)
qed

theorem h4_long_fragment_lost_witness:
  "\<exists>r s'. HCI_Tr_H4BackUpHandler 0 4 251
       (h4_example\<lparr>h4_backup := [2, 0, 0, 251, 0] @ replicate 603 0, h4_backupCnt := 5\<rparr>) = Some (r, s')
     \<and> h4_hciRx s' = hci_fifo_example"
proof -
  let ?s = "h4_example\<lparr>h4_backup := [2, 0, 0, 251, 0] @ replicate 603 0, h4_backupCnt := 5\<rparr>"
  have p: "h4_rx h4_example = h4TrRxFifo\<lparr>hf_p := replicate 2432 0\<rparr>"
    by (simp add: h4_example_def HCI_Tr_H4Init_def ext_hci_uartReceData_def h4_sizes)
  have t: "rd8 (h4_backup ?s) 0 = Some 2" by simp
  have b: "BYTES_TO_UINT16 (h4_backup ?s) 3 = Some 251"
    by (simp add: BYTES_TO_UINT16_def rd8_def)
  have "HCI_Tr_H4BackUpHandler 0 4 251 ?s \<noteq> None"
    unfolding HCI_Tr_H4BackUpHandler_def t b h4_backup_acl_def h4_backup_case_def bind.bind_lunit Let_def h4_heads
    by (simp add: p h4_types h4_store_def rd_range_def wr_range_def h4_complete_def)
  then obtain r s' where r: "HCI_Tr_H4BackUpHandler 0 4 251 ?s = Some (r, s')" by auto
  have "h4_hciRx s' = h4_hciRx ?s"
    by (rule h4_long_fragment_lost [OF _ _ b _ r]) (simp_all add: h4_types)
  with r show ?thesis using h4_example_ok(3) by auto
qed

lemma h4_first_call_keeps_chunk:
  assumes inv: "h4_inv s [] ((p @ q) # cs)" and idle: "\<not> h4_idle now s"
    and frames: "h4_frame p" "h4_frame q" "length p \<le> unat (hf_size (h4_hciRx s))" "length q \<le> unat (hf_size (h4_hciRx s))"
    and room: "length (hf_view (h4_hciRx s)) + 1 = unat (hf_num (h4_hciRx s))"
  shows "\<exists>f1 rest. HCI_Tr_H4RxHandler now s = Some (s\<lparr>h4_hciRx := f1\<rparr>) \<and> hf_view f1 = hf_view (h4_hciRx s) @ [p @ rest]
     \<and> hf_ok f1 \<and> hf_num f1 = hf_num (h4_hciRx s) \<and> hf_size f1 = hf_size (h4_hciRx s) \<and> h4_inv (s\<lparr>h4_hciRx := f1\<rparr>) [] ((p @ q) # cs)"
proof -
  note f = h4_front_chunk [OF inv] note d = h4_invD [OF inv]
  let ?o = "hf_slot (h4_rx s) (hf_rptr (h4_rx s)) + 4" let ?n = "of_nat (length (p @ q)) :: u32"
  have "unat (of_nat (length p) + of_nat (length q) :: u32) = length p + length q"
    using unat_of_nat_small [where 'a = 32, of "length (p @ q)"] f(5) by simp
  then have due: "h4_due s [] ?o ?n (p @ q) [p, q] [] [1, 3, 12, 0]"
    using d f(3,5) frames h4_frame_reset h4_frame_nonempty by (auto simp: h4_due_def)
  have fits: "length (hf_view (h4_hciRx s)) < unat (hf_num (h4_hciRx s))" using room by simp
  obtain f1 rest where f1: "hf_put (h4_hciRx s) p = Some f1" "hf_ok f1" "hf_num f1 = hf_num (h4_hciRx s)"
      "hf_view f1 = hf_view (h4_hciRx s) @ [p @ rest]" "hf_size f1 = hf_size (h4_hciRx s)"
    using hf_put_ok [OF d(4) fits frames(3)] by auto
  let ?s1 = "s\<lparr>h4_hciRx := f1\<rparr>"
  have put: "h4_put (h4_hciRx s) p = Some f1" using f1(1) h4_put_eq [OF d(4)] by simp
  let ?o1 = "?o + length p" let ?n1 = "?n - of_nat (length p)"
  have st: "h4_rx_parse now ?o ?n s = Some (Loop ?o1 ?n1 ?s1)"
    using fits by (intro h4_parse_packet(1) [OF f(3) frames(1) put]) (simp add: hf_view_length)
  have due1: "h4_due ?s1 [] ?o1 ?n1 q [q] [] [1, 3, 12, 0]"
    using d(5) f1(1) by (intro h4_due_next [OF due refl _ fits]) (simp_all add: h4_pend_def)
  have st1: "h4_rx_parse now ?o1 ?n1 ?s1 = Some (Return ?s1)"
    using f1(3,4) room by (intro h4_parse_full [OF due1]) simp
  have ne: "?n \<noteq> 0" "?n1 \<noteq> 0"
    using h4_dueD(11) [OF due] h4_dueD(11) [OF due1] h4_frame_nonempty(1) [OF frames(2)]
    by (metis length_0_conv append_is_Nil_conv unat_0)+
  have b: "h4_backupCnt s = 0" using h4_pend_empty_iff [OF d(5)] by simp
  have "h4_rx_loop now ?o1 ?n1 ?s1 = Some (False, ?s1)"
    using b by (simp only: h4_rx_loop.simps [of now ?o1] ne(2) h4_rx_step_def) (simp only: st1, simp)
  then have "h4_rx_loop now ?o ?n s = Some (False, ?s1)"
    using b by (simp only: h4_rx_loop.simps [of now ?o] ne(1) h4_rx_step_def) (simp only: st, simp)
  then have "HCI_Tr_H4RxHandler now s = Some ?s1" by (simp add: h4_rx_handler_eq [OF inv idle])
  moreover have "h4_inv ?s1 [] ((p @ q) # cs)" using inv f1(2) by (simp add: h4_inv_def h4_pend_def)
  ultimately show ?thesis using f1 by auto
qed

lemma hf_pops:
  assumes "hf_ok f" "k \<le> length (hf_view f)"
  shows "hf_ok ((hf_pop ^^ k) f) \<and> hf_view ((hf_pop ^^ k) f) = drop k (hf_view f) \<and> hf_num ((hf_pop ^^ k) f) = hf_num f
     \<and> hf_size ((hf_pop ^^ k) f) = hf_size f"
  using assms(2)
proof (induction k)
  case (Suc k)
  then have ih: "hf_ok ((hf_pop ^^ k) f)" "hf_view ((hf_pop ^^ k) f) = hf_view f ! k # drop (Suc k) (hf_view f)"
      "hf_num ((hf_pop ^^ k) f) = hf_num f" "hf_size ((hf_pop ^^ k) f) = hf_size f"
    by (simp_all add: Cons_nth_drop_Suc)
  have "hf_num (hf_pop g) = hf_num g" "hf_size (hf_pop g) = hf_size g" for g by (simp_all add: hf_pop_def)
  then show ?case using hf_pop_ok [OF ih(1,2)] ih(3,4) by simp
qed (use assms(1) in simp)

lemma h4_two_delivered:
  assumes inv: "h4_inv s [] ((p @ q) # cs)" and idle: "\<not> h4_idle now s"
    and frames: "h4_frame p" "h4_frame q" "length p \<le> unat (hf_size (h4_hciRx s))" "length q \<le> unat (hf_size (h4_hciRx s))"
    and room: "length (hf_view (h4_hciRx s)) + 2 \<le> unat (hf_num (h4_hciRx s))"
  shows "\<exists>s' r1 r2. HCI_Tr_H4RxHandler now s = Some s' \<and> hf_view (h4_hciRx s') = hf_view (h4_hciRx s) @ [p @ r1, q @ r2] \<and> h4_inv s' [] cs"
proof -
  have "\<exists>fin s'. HCI_Tr_H4RxHandler now s = Some s' \<and> fin = (length (hf_view (h4_hciRx s)) + length [p, q] \<le> unat (hf_num (h4_hciRx s)))
     \<and> hf_rptr (h4_rx s') = hf_rptr (h4_rx s) + (if fin then 1 else 0)
     \<and> (fin \<longrightarrow> h4_inv s' [] cs \<and> hf.put_seq (h4_hciRx s) [p, q] = Some (h4_hciRx s'))"
    by (rule h4_rx_handler_ok [OF inv idle, of _ _ "[1, 3, 12, 0]"])
      (use frames h4_frame_reset h4_frame_nonempty(1) [OF frames(1)] room in auto)
  then obtain s' where s': "HCI_Tr_H4RxHandler now s = Some s'" "h4_inv s' [] cs" "hf.put_seq (h4_hciRx s) [p, q] = Some (h4_hciRx s')"
    using room by auto
  have ok: "hf_ok (h4_hciRx s)" using h4_invD(4) [OF inv] .
  obtain f1 r1 where f1: "hf_put (h4_hciRx s) p = Some f1" "hf_ok f1" "hf_num f1 = hf_num (h4_hciRx s)" "hf_size f1 = hf_size (h4_hciRx s)"
      "hf_view f1 = hf_view (h4_hciRx s) @ [p @ r1]"
    using hf_put_ok [OF ok _ frames(3)] room by auto
  obtain f2 r2 where f2: "hf_put f1 q = Some f2" "hf_view f2 = hf_view f1 @ [q @ r2]"
    using hf_put_ok [OF f1(2), of q] f1(3-5) room frames(4) by auto
  have "h4_hciRx s' = f2" using s'(3) f1(1) f2(1) by simp
  then show ?thesis using s'(1,2) f1(5) f2(2) by auto
qed

text \<open>
  C34.  When, before the flush timeout, the HCI FIFO fills up in the middle of a chunk of two packets the handler stops but keeps the whole chunk: once the stack
  has taken packets from the FIFO (at least two, so that there is room), the next call parses the chunk from its
  beginning and delivers the first packet again, so that the stack gets \<open>p\<close>, \<open>p\<close>, \<open>q\<close> for the bytes of \<open>p\<close> and \<open>q\<close>.
\<close>

theorem h4_overflow_redelivers:
  assumes inv: "h4_inv s [] ((p @ q) # cs)" and idle: "\<not> h4_idle now s"
    and frames: "h4_frame p" "h4_frame q" "length p \<le> unat (hf_size (h4_hciRx s))" "length q \<le> unat (hf_size (h4_hciRx s))"
    and room: "length (hf_view (h4_hciRx s)) + 1 = unat (hf_num (h4_hciRx s))"
    and again: "\<not> h4_idle now' s" "2 \<le> k" "k \<le> unat (hf_num (h4_hciRx s))"
  shows "\<exists>s1 s2 a b c. HCI_Tr_H4RxHandler now s = Some s1 \<and> hf_view (h4_hciRx s1) = hf_view (h4_hciRx s) @ [p @ a]
     \<and> h4_inv s1 [] ((p @ q) # cs)
     \<and> HCI_Tr_H4RxHandler now' (s1\<lparr>h4_hciRx := (hf_pop ^^ k) (h4_hciRx s1)\<rparr>) = Some s2 \<and> h4_inv s2 [] cs
     \<and> take k (hf_view (h4_hciRx s1)) @ hf_view (h4_hciRx s2) = hf_view (h4_hciRx s) @ [p @ a, p @ b, q @ c]"
proof -
  obtain f1 a where f1: "HCI_Tr_H4RxHandler now s = Some (s\<lparr>h4_hciRx := f1\<rparr>)" "hf_view f1 = hf_view (h4_hciRx s) @ [p @ a]"
      "hf_ok f1" "hf_num f1 = hf_num (h4_hciRx s)" "hf_size f1 = hf_size (h4_hciRx s)" "h4_inv (s\<lparr>h4_hciRx := f1\<rparr>) [] ((p @ q) # cs)"
    using h4_first_call_keeps_chunk [OF inv idle frames room] by blast
  have k: "k \<le> length (hf_view f1)" using f1(2) room again(3) by simp
  note pops = hf_pops [OF f1(3) k]
  let ?t = "s\<lparr>h4_hciRx := (hf_pop ^^ k) f1\<rparr>"
  have t: "h4_inv ?t [] ((p @ q) # cs)" "\<not> h4_idle now' ?t" using f1(6) pops again(1) by (simp_all add: h4_inv_def h4_pend_def h4_idle_def)
  have l: "length (hf_view ((hf_pop ^^ k) f1)) + 2 \<le> unat (hf_num (h4_hciRx s))" using pops k f1(2) room again(2) by simp
  obtain s2 b c where s2: "HCI_Tr_H4RxHandler now' ?t = Some s2" "h4_inv s2 [] cs"
      "hf_view (h4_hciRx s2) = hf_view ((hf_pop ^^ k) f1) @ [p @ b, q @ c]"
    using h4_two_delivered [OF t frames(1,2)] frames(3,4) f1(4,5) pops l by auto
  have "take k (hf_view f1) @ hf_view (h4_hciRx s2) = hf_view (h4_hciRx s) @ [p @ a, p @ b, q @ c]"
    using s2(3) pops f1(2) append_take_drop_id [of k "hf_view f1"] by (metis append.assoc append_Cons append_Nil)
  then show ?thesis using f1(1,2,6) s2(1,2) by (intro exI [of _ "s\<lparr>h4_hciRx := f1\<rparr>"] exI [of _ s2] exI [of _ a] exI [of _ b] exI [of _ c]) simp
qed

theorem h4_overflow_redelivers_witness:
  "\<exists>s s1 s2 x a b c. h4_inv s [] [[1, 3, 12, 0, 1, 3, 12, 0]] \<and> HCI_Tr_H4RxHandler 0 s = Some s1
     \<and> HCI_Tr_H4RxHandler 0 (s1\<lparr>h4_hciRx := (hf_pop ^^ 2) (h4_hciRx s1)\<rparr>) = Some s2
     \<and> hf_view (h4_hciRx s1) = [x, [1, 3, 12, 0] @ a] \<and> hf_view (h4_hciRx s2) = [[1, 3, 12, 0] @ b, [1, 3, 12, 0] @ c]"
proof -
  obtain f rest where f: "hf_put hci_fifo_example [7] = Some f" "hf_ok f" "hf_num f = 2" "hf_size f = 16" "hf_view f = [[7] @ rest]"
    using hf_put_ok [OF hci_fifo_example_ok(1), of "[7]"] hci_fifo_example_ok(2) by (auto simp: hci_fifo_example_def)
  obtain s0 where s0: "h4_inv s0 [] [[1, 3, 12, 0, 1, 3, 12, 0]]" "h4_flushTimer s0 = 0"
    using h4_example_chunk [of "[1, 3, 12, 0, 1, 3, 12, 0]"] by auto
  let ?s = "s0\<lparr>h4_hciRx := f\<rparr>" and ?p = "[1, 3, 12, 0] :: bytes"
  have i: "h4_inv ?s [] [?p @ ?p]" using s0(1) f(2) by (simp add: h4_inv_def h4_pend_def)
  have n: "\<not> h4_idle 0 ?s" using s0(2) by (simp add: h4_idle_def)
  have z: "length ?p \<le> unat (hf_size (h4_hciRx ?s))" "length (hf_view (h4_hciRx ?s)) + 1 = unat (hf_num (h4_hciRx ?s))"
      "(2 :: nat) \<le> 2" "2 \<le> unat (hf_num (h4_hciRx ?s))"
    using f by simp_all
  obtain s1 s2 a b c where r: "HCI_Tr_H4RxHandler 0 ?s = Some s1" "hf_view (h4_hciRx s1) = [[7] @ rest, ?p @ a]"
      "HCI_Tr_H4RxHandler 0 (s1\<lparr>h4_hciRx := (hf_pop ^^ 2) (h4_hciRx s1)\<rparr>) = Some s2"
      "take 2 (hf_view (h4_hciRx s1)) @ hf_view (h4_hciRx s2) = [[7] @ rest, ?p @ a, ?p @ b, ?p @ c]"
    using h4_overflow_redelivers [OF i n h4_frame_reset h4_frame_reset z(1,1,2) n z(3,4)] f(5) by auto
  then have "hf_view (h4_hciRx s2) = [?p @ b, ?p @ c]" by simp
  with i r show ?thesis by auto
qed

end
