(* ===== verification/Hci_Tr_H5.thy ===== *)
theory Hci_Tr_H5
  imports Hci_H5 Hci_Tr_H4
begin

unbundle bit_operations_syntax

text \<open>
  The H5 receiver of \<^verbatim>\<open>hci_transport/hci_tr_h5.c\<close>: it finds the SLIP frames in the chunks the UART has
  written into \<open>h5t_rx\<close> and hands them to the registered handler.  A frame that is not complete at the
  end of a chunk waits in the backup buffer.

  The handler is the function value \<open>h5t_handler\<close>; it works on the state \<open>h5t_up\<close> of the layers above
  and returns \<open>None\<close> when these leave their buffers.  As in \<open>Hci_Tr_H4\<close> a pointer into a chunk is an offset
  into the memory of \<open>h5t_rx\<close>, and \<open>h5t_dma\<close> is the buffer the UART was last told to fill.
\<close>

section \<open>Data\<close>

definition HCI_H5_TR_RX_BUF_SIZE :: nat where
  "HCI_H5_TR_RX_BUF_SIZE = MEM_SIZE_ALIGN16 (4 + 2 + (HCI_H5_HEAD_LEN + HCI_TR_RX_BUF_SIZE + HCI_H5_CRC_LEN) * 2) * 2"
definition HCI_H5_TR_RX_BUF_NUM :: nat where "HCI_H5_TR_RX_BUF_NUM = 4"
definition HCI_H5_FLUSH_TO :: u32 where "HCI_H5_FLUSH_TO = 1000"

record 'u HciH5TrCb_t =
  h5t_rx :: hci_fifo_t
  h5t_handler :: "bytes \<Rightarrow> 'u \<Rightarrow> 'u option"
  h5t_up :: 'u
  h5t_backup :: bytes
  h5t_flushTimer :: u32
  h5t_backupCnt :: u8
  h5t_dma :: "nat \<times> u32"

definition h5TrRxFifo :: hci_fifo_t where
  "h5TrRxFifo = \<lparr>hf_size = of_nat HCI_H5_TR_RX_BUF_SIZE, hf_num = of_nat HCI_H5_TR_RX_BUF_NUM,
     hf_mask = of_nat (HCI_H5_TR_RX_BUF_NUM - 1), hf_wptr = 0, hf_rptr = 0,
     hf_p = replicate (HCI_H5_TR_RX_BUF_SIZE * HCI_H5_TR_RX_BUF_NUM) 0\<rparr>"

definition HCI_Tr_DefaultSlipHandler :: "bytes \<Rightarrow> 'u \<Rightarrow> 'u option" where
  "HCI_Tr_DefaultSlipHandler pkt u = Some u"

section \<open>Initialization and timers\<close>

definition HCI_Tr_H5Init :: "'u HciH5TrCb_t \<Rightarrow> 'u HciH5TrCb_t" where
  "HCI_Tr_H5Init s = s\<lparr>h5t_backupCnt := 0, h5t_flushTimer := 0, h5t_handler := HCI_Tr_DefaultSlipHandler,
     h5t_dma := (4, hf_size (h5t_rx s) - 4)\<rparr>"

definition HCI_Tr_H5RegisterSlipHandler :: "(bytes \<Rightarrow> 'u \<Rightarrow> 'u option) \<Rightarrow> 'u HciH5TrCb_t \<Rightarrow> 'u HciH5TrCb_t" where
  "HCI_Tr_H5RegisterSlipHandler func s = s\<lparr>h5t_handler := func\<rparr>"

definition HCI_Tr_H5TimerEnable :: "u32 \<Rightarrow> 'u HciH5TrCb_t \<Rightarrow> 'u HciH5TrCb_t" where
  "HCI_Tr_H5TimerEnable now s = s\<lparr>h5t_flushTimer := now OR 1\<rparr>"

definition HCI_Tr_H5TimerDisable :: "'u HciH5TrCb_t \<Rightarrow> 'u HciH5TrCb_t" where
  "HCI_Tr_H5TimerDisable s = s\<lparr>h5t_flushTimer := 0\<rparr>"

definition HCI_Tr_H5FlushHandler :: "u32 \<Rightarrow> 'u HciH5TrCb_t \<Rightarrow> 'u HciH5TrCb_t" where
  "HCI_Tr_H5FlushHandler now s =
     (if h5t_flushTimer s \<noteq> 0 \<and> clock_time_exceed now (h5t_flushTimer s) (HCI_H5_FLUSH_TO * 1000)
      then s\<lparr>h5t_flushTimer := 0, h5t_backupCnt := 0\<rparr> else s)"

section \<open>Finding frames\<close>

text \<open>The position of the delimiter, or no position; \<open>None\<close> when the search leaves the buffer.\<close>

fun HCI_Tr_H5FindSlipHeadFlag :: "bytes \<Rightarrow> nat \<Rightarrow> nat \<Rightarrow> nat option option" where
  "HCI_Tr_H5FindSlipHeadFlag b pBuf 0 = Some None"
| "HCI_Tr_H5FindSlipHeadFlag b pBuf (Suc n) =
     do { x \<leftarrow> rd8 b pBuf;
          y \<leftarrow> (if Suc n \<ge> 2 \<and> x = SLIP_DELIMITER then rd8 b (pBuf + 1) else Some 0);
          if x = SLIP_DELIMITER \<and> (Suc n \<ge> 2 \<longrightarrow> y \<noteq> SLIP_DELIMITER) then Some (Some pBuf)
          else HCI_Tr_H5FindSlipHeadFlag b (pBuf + 1) n }"

fun HCI_Tr_H5FindSlipFlag :: "bytes \<Rightarrow> nat \<Rightarrow> nat \<Rightarrow> nat option option" where
  "HCI_Tr_H5FindSlipFlag b pBuf 0 = Some None"
| "HCI_Tr_H5FindSlipFlag b pBuf (Suc n) =
     do { slipFlag \<leftarrow> rd8 b pBuf;
          if slipFlag \<noteq> SLIP_DELIMITER then HCI_Tr_H5FindSlipFlag b (pBuf + 1) n else Some (Some pBuf) }"

section \<open>The backup buffer\<close>

text \<open>A call of the registered handler on bytes of a buffer.\<close>

definition h5t_deliver :: "bytes \<Rightarrow> nat \<Rightarrow> nat \<Rightarrow> 'u HciH5TrCb_t \<Rightarrow> 'u HciH5TrCb_t option" where
  "h5t_deliver b i n s =
     do { d \<leftarrow> rd_range b i n;
          u \<leftarrow> h5t_handler s d (h5t_up s);
          Some (s\<lparr>h5t_up := u\<rparr>) }"

text \<open>One byte is appended to the backup buffer; the count has eight bits.\<close>

definition h5t_store :: "u8 \<Rightarrow> 'u HciH5TrCb_t \<Rightarrow> 'u HciH5TrCb_t option" where
  "h5t_store x s =
     do { b \<leftarrow> wr8 (h5t_backup s) (unat (h5t_backupCnt s)) x;
          Some (s\<lparr>h5t_backup := b, h5t_backupCnt := h5t_backupCnt s + 1\<rparr>) }"

fun h5t_backup_loop :: "u32 \<Rightarrow> nat \<Rightarrow> nat \<Rightarrow> u16 \<Rightarrow> 'u HciH5TrCb_t \<Rightarrow> (u16 \<times> 'u HciH5TrCb_t) option" where
  "h5t_backup_loop now pPacket 0 cnt s = Some (cnt, s)"
| "h5t_backup_loop now pPacket (Suc n) cnt s =
     do { x \<leftarrow> rd8 (hf_p (h5t_rx s)) pPacket;
          if unat (h5t_backupCnt s) + 1 > HCI_H5_TR_RX_BUF_SIZE
          then Some (cnt, HCI_Tr_H5TimerDisable (s\<lparr>h5t_backupCnt := 0\<rparr>))
          else if x = SLIP_DELIMITER
          then if h5t_backupCnt s = 1 then h5t_backup_loop now (pPacket + 1) n (cnt + 1) s
               else do { s1 \<leftarrow> h5t_store x s;
                         s2 \<leftarrow> h5t_deliver (h5t_backup s1) 0 (unat (h5t_backupCnt s1)) s1;
                         Some (cnt + 1, HCI_Tr_H5TimerDisable (s2\<lparr>h5t_backupCnt := 0\<rparr>)) }
          else do { s1 \<leftarrow> h5t_store x s;
                    h5t_backup_loop now (pPacket + 1) n (cnt + 1) (HCI_Tr_H5TimerEnable now s1) } }"

definition HCI_Tr_H5BackupHandler :: "u32 \<Rightarrow> nat \<Rightarrow> u32 \<Rightarrow> 'u HciH5TrCb_t \<Rightarrow> (u32 \<times> 'u HciH5TrCb_t) option" where
  "HCI_Tr_H5BackupHandler now pPacket len s =
     (if h5t_backupCnt s = 0
      then do { d \<leftarrow> rd_range (hf_p (h5t_rx s)) pPacket (unat len);
                b \<leftarrow> wr_range (h5t_backup s) 0 d;
                Some (len, HCI_Tr_H5TimerEnable now (s\<lparr>h5t_backup := b, h5t_backupCnt := h5t_backupCnt s + ucast len\<rparr>)) }
      else do { (cnt, s1) \<leftarrow> h5t_backup_loop now pPacket (unat len) 0 s;
                Some (ucast cnt, s1) })"

section \<open>The receive handler\<close>

text \<open>
  The search for the next frame: the new position and remaining length.  When no frame head is found the
  code computes a length from a null pointer and then sets the length to zero.
\<close>

definition h5t_rx_scan :: "u32 \<Rightarrow> nat \<Rightarrow> u32 \<Rightarrow> 'u HciH5TrCb_t \<Rightarrow> (nat \<times> u32 \<times> 'u HciH5TrCb_t) option" where
  "h5t_rx_scan now pPacket len s =
     (let b = hf_p (h5t_rx s) in
      do { head \<leftarrow> HCI_Tr_H5FindSlipHeadFlag b pPacket (unat len);
           case head of
             None \<Rightarrow> Some (pPacket, 0, s)
           | Some pBuf \<Rightarrow>
               (let len1 = len - of_nat (pBuf - pPacket) in
                do { flag \<leftarrow> HCI_Tr_H5FindSlipFlag b (pBuf + 1) (unat (len1 - 1));
                     case flag of
                       None \<Rightarrow> do { (_, s1) \<leftarrow> HCI_Tr_H5BackupHandler now pBuf len1 s; Some (pBuf, 0, s1) }
                     | Some pBuf2 \<Rightarrow>
                         if len1 = 1
                         then do { (_, s1) \<leftarrow> HCI_Tr_H5BackupHandler now pBuf len1 s; Some (pBuf, 0, s1) }
                         else let slipLen = (of_nat (pBuf2 + 1 - pBuf) :: u16) in
                           if slipLen < 6 then Some (pBuf + unat slipLen, len1 - ucast slipLen, s)
                           else do { s1 \<leftarrow> h5t_deliver b pBuf (unat slipLen) s;
                                     Some (pBuf + unat slipLen, len1 - ucast slipLen, s1) } }) })"

text \<open>One iteration over a chunk; the number of bytes the backup handler took is kept in eight bits.\<close>

definition h5t_rx_step :: "u32 \<Rightarrow> nat \<Rightarrow> u32 \<Rightarrow> 'u HciH5TrCb_t \<Rightarrow> (nat \<times> u32 \<times> 'u HciH5TrCb_t) option" where
  "h5t_rx_step now pPacket len s =
     (if h5t_backupCnt s \<noteq> 0
      then do { (r, s1) \<leftarrow> HCI_Tr_H5BackupHandler now pPacket len s;
                let res = (ucast r :: u8) in
                h5t_rx_scan now (pPacket + unat res) (len - ucast res) s1 }
      else h5t_rx_scan now pPacket len s)"

partial_function (option) h5t_rx_chunk :: "u32 \<Rightarrow> nat \<Rightarrow> u32 \<Rightarrow> 'u HciH5TrCb_t \<Rightarrow> 'u HciH5TrCb_t option" where
  "h5t_rx_chunk now pPacket len s =
     (if len = 0 then Some s
      else do { (p', len', s') \<leftarrow> h5t_rx_step now pPacket len s; h5t_rx_chunk now p' len' s' })"

partial_function (option) h5t_rx_all :: "u32 \<Rightarrow> 'u HciH5TrCb_t \<Rightarrow> 'u HciH5TrCb_t option" where
  "h5t_rx_all now s =
     (let f = h5t_rx s in
      if hf_wptr f = hf_rptr f then Some s
      else let pPacket = hf_slot f (hf_rptr f) in
        do { len \<leftarrow> BYTES_TO_UINT32 (hf_p f) pPacket;
             s1 \<leftarrow> h5t_rx_chunk now (pPacket + 4) len s;
             h5t_rx_all now (s1\<lparr>h5t_rx := hf_pop (h5t_rx s1)\<rparr>) })"

definition HCI_Tr_H5RxHandler :: "u32 \<Rightarrow> 'u HciH5TrCb_t \<Rightarrow> 'u HciH5TrCb_t option" where
  "HCI_Tr_H5RxHandler now s = h5t_rx_all now (HCI_Tr_H5FlushHandler now s)"

section \<open>Interrupts\<close>

definition HCI_Tr_H5UartRxIRQHandler :: "'u HciH5TrCb_t \<Rightarrow> 'u HciH5TrCb_t option" where
  "HCI_Tr_H5UartRxIRQHandler s =
     (let f = h5t_rx s; p = hf_slot f (hf_wptr f) in
      if unat (hf_wptr f - hf_rptr f) \<ge> unat (hf_num f)
      then Some (s\<lparr>h5t_dma := (p + 4, hf_size f - 4)\<rparr>)
      else do { rxLen \<leftarrow> BYTES_TO_UINT32 (hf_p f) p;
                let f' = (if rxLen \<noteq> 0 then f\<lparr>hf_wptr := hf_wptr f + 1\<rparr> else f) in
                Some (s\<lparr>h5t_rx := f', h5t_dma := (hf_slot f' (hf_wptr f') + 4, hf_size f' - 4)\<rparr>) })"

section \<open>Frames\<close>

text \<open>A SLIP frame of 6 to 255 bytes.\<close>

definition h5t_frame :: "bytes \<Rightarrow> bool" where
  "h5t_frame f \<longleftrightarrow> 6 \<le> length f \<and> length f \<le> 255 \<and> f ! 0 = SLIP_DELIMITER \<and> last f = SLIP_DELIMITER
     \<and> SLIP_DELIMITER \<notin> set (butlast (tl f))"

lemma h5t_frame_parts:
  assumes "h5t_frame f"
  obtains b where "f = SLIP_DELIMITER # b @ [SLIP_DELIMITER]" "SLIP_DELIMITER \<notin> set b" "4 \<le> length b" "length b \<le> 253"
proof -
  obtain x g where f: "f = x # g" using assms by (cases f) (auto simp: h5t_frame_def)
  have "g \<noteq> []" using assms f by (auto simp: h5t_frame_def)
  moreover have "last g = SLIP_DELIMITER" using assms f calculation by (simp add: h5t_frame_def)
  ultimately have "g = butlast g @ [SLIP_DELIMITER]" by (metis append_butlast_last_id)
  with f assms show ?thesis by (intro that [of "butlast g"]) (auto simp: h5t_frame_def)
qed

definition h5t_pend :: "'u HciH5TrCb_t \<Rightarrow> bytes \<Rightarrow> bool" where
  "h5t_pend s pend \<longleftrightarrow> length (h5t_backup s) = HCI_H5_TR_RX_BUF_SIZE \<and> unat (h5t_backupCnt s) = length pend
     \<and> take (length pend) (h5t_backup s) = pend"

lemmas h5t_sizes = HCI_H5_TR_RX_BUF_SIZE_def HCI_H5_TR_RX_BUF_NUM_def MEM_SIZE_ALIGN16_def HCI_H5_HEAD_LEN_def
  HCI_TR_RX_BUF_SIZE_def HCI_H5_CRC_LEN_def
lemmas h5t_timers = HCI_Tr_H5TimerEnable_def HCI_Tr_H5TimerDisable_def

lemma h5t_pend_empty_iff: "h5t_pend s pend \<Longrightarrow> h5t_backupCnt s = 0 \<longleftrightarrow> pend = []"
  by (auto simp: h5t_pend_def unat_eq_0)

lemma find_flag_skip:
  "rd_range b i (length x + n) = Some (x @ y) \<Longrightarrow> SLIP_DELIMITER \<notin> set x \<Longrightarrow>
     HCI_Tr_H5FindSlipFlag b i (length x + n) = HCI_Tr_H5FindSlipFlag b (i + length x) n"
proof (induction x arbitrary: i)
  case (Cons a x)
  have "rd8 b i = Some a" using rd8_rd_range [OF Cons.prems(1), of 0] by (simp del: rd8_Some_iff)
  moreover have "rd_range b (i + 1) (length x + n) = Some (x @ y)"
    using rd_range_append(2) [of b i _ "[a]" "x @ y"] Cons.prems(1) rd_range_length [OF Cons.prems(1)] by simp
  ultimately show ?case using Cons.IH [of "i + 1"] Cons.prems(2) by (auto simp del: rd8_Some_iff)
qed simp

lemma find_flag_at:
  assumes "rd_range b i n = Some (x @ SLIP_DELIMITER # y)" "SLIP_DELIMITER \<notin> set x"
  shows "HCI_Tr_H5FindSlipFlag b i n = Some (Some (i + length x))"
proof -
  have n: "n = length x + Suc (length y)" using rd_range_length [OF assms(1)] by simp
  have "rd8 b (i + length x) = Some SLIP_DELIMITER" using rd8_rd_range [OF assms(1), of "length x"] n by (simp del: rd8_Some_iff)
  then show ?thesis using find_flag_skip [of b i x "Suc (length y)"] assms n by (simp del: rd8_Some_iff)
qed

lemma find_flag_none:
  assumes "rd_range b i n = Some x" "SLIP_DELIMITER \<notin> set x"
  shows "HCI_Tr_H5FindSlipFlag b i n = Some None"
  using find_flag_skip [of b i x 0 "[]"] assms rd_range_length [OF assms(1)] by simp

lemma find_head_at:
  assumes "rd_range b i n = Some (SLIP_DELIMITER # y)" "y \<noteq> [] \<Longrightarrow> hd y \<noteq> SLIP_DELIMITER"
  shows "HCI_Tr_H5FindSlipHeadFlag b i n = Some (Some i)"
proof -
  have n: "n = Suc (length y)" using rd_range_length [OF assms(1)] by simp
  have "rd8 b i = Some SLIP_DELIMITER" using rd8_rd_range [OF assms(1), of 0] n by (simp del: rd8_Some_iff)
  moreover have "rd8 b (i + 1) = Some (hd y)" if "y \<noteq> []"
    using rd8_rd_range [OF assms(1), of 1] n that by (simp add: hd_conv_nth del: rd8_Some_iff)
  ultimately show ?thesis using assms(2) n by (cases y) (auto simp del: rd8_Some_iff)
qed

section \<open>The backup handler\<close>

lemma h5t_store_ok:
  assumes "h5t_pend s pend" "length pend < 255"
  shows "\<exists>s'. h5t_store x s = Some s' \<and> h5t_pend s' (pend @ [x]) \<and> h5t_rx s' = h5t_rx s \<and> h5t_up s' = h5t_up s
     \<and> h5t_handler s' = h5t_handler s \<and> h5t_dma s' = h5t_dma s"
proof -
  have "unat (h5t_backupCnt s + 1) = length pend + 1"
    using assms by (subst unat_word_add_no_wrap) (simp_all add: h5t_pend_def)
  moreover have "take (Suc (length pend)) ((h5t_backup s)[length pend := x]) = pend @ [x]"
    using assms by (simp add: h5t_pend_def h5t_sizes take_Suc_conv_app_nth)
  ultimately show ?thesis using assms by (auto simp: h5t_store_def h5t_pend_def wr8_def h5t_sizes)
qed

text \<open>Bytes without a delimiter are collected.\<close>

lemma h5t_backup_collect:
  "h5t_pend s pend \<Longrightarrow> pend \<noteq> [] \<Longrightarrow> rd_range (hf_p (h5t_rx s)) i (length x + n) = Some (x @ y) \<Longrightarrow> SLIP_DELIMITER \<notin> set x \<Longrightarrow>
     length pend + length x \<le> 254 \<Longrightarrow>
   \<exists>s'. h5t_backup_loop now i (length x + n) cnt s = h5t_backup_loop now (i + length x) n (cnt + of_nat (length x)) s'
     \<and> h5t_pend s' (pend @ x) \<and> h5t_rx s' = h5t_rx s \<and> h5t_up s' = h5t_up s \<and> h5t_handler s' = h5t_handler s
     \<and> h5t_dma s' = h5t_dma s"
proof (induction x arbitrary: i s pend cnt)
  case (Cons a x)
  have x0: "rd8 (hf_p (h5t_rx s)) i = Some a" using rd8_rd_range [OF Cons.prems(3), of 0] by (simp del: rd8_Some_iff)
  have x1: "rd_range (hf_p (h5t_rx s)) (i + 1) (length x + n) = Some (x @ y)"
    using rd_range_append(2) [of _ i _ "[a]" "x @ y"] Cons.prems(3) rd_range_length [OF Cons.prems(3)] by simp
  obtain s1 where s1: "h5t_store a s = Some s1" "h5t_pend s1 (pend @ [a])" "h5t_rx s1 = h5t_rx s" "h5t_up s1 = h5t_up s"
      "h5t_handler s1 = h5t_handler s" "h5t_dma s1 = h5t_dma s"
    using h5t_store_ok [OF Cons.prems(1), of a] Cons.prems(5) by auto
  have c: "\<not> unat (h5t_backupCnt s) + 1 > HCI_H5_TR_RX_BUF_SIZE" "a \<noteq> SLIP_DELIMITER"
    using unat_u8_less [of "h5t_backupCnt s"] Cons.prems(4) by (auto simp: h5t_sizes)
  have "h5t_pend (HCI_Tr_H5TimerEnable now s1) (pend @ [a])" using s1(2) by (simp add: h5t_pend_def h5t_timers)
  from Cons.IH [OF this, of "i + 1" "cnt + 1"] x1 Cons.prems(4,5) s1 obtain s' where
    "h5t_backup_loop now (i + 1) (length x + n) (cnt + 1) (HCI_Tr_H5TimerEnable now s1)
       = h5t_backup_loop now (i + 1 + length x) n (cnt + 1 + of_nat (length x)) s'"
    "h5t_pend s' ((pend @ [a]) @ x)" "h5t_rx s' = h5t_rx s" "h5t_up s' = h5t_up s" "h5t_handler s' = h5t_handler s" "h5t_dma s' = h5t_dma s"
    by (auto simp: h5t_timers)
  then show ?case using x0 c s1(1) by (auto simp: add.assoc simp del: rd8_Some_iff)
qed auto


text \<open>The closing delimiter delivers the frame.\<close>

lemma h5t_backup_close:
  assumes pend: "h5t_pend s pend" "2 \<le> length pend" "length pend \<le> 254"
    and x: "rd8 (hf_p (h5t_rx s)) i = Some SLIP_DELIMITER"
    and h: "h5t_handler s (pend @ [SLIP_DELIMITER]) (h5t_up s) = Some u"
  shows "\<exists>s'. h5t_backup_loop now i (Suc n) cnt s = Some (cnt + 1, s') \<and> h5t_pend s' [] \<and> h5t_rx s' = h5t_rx s \<and> h5t_up s' = u
     \<and> h5t_handler s' = h5t_handler s \<and> h5t_dma s' = h5t_dma s"
proof -
  obtain s1 where s1: "h5t_store SLIP_DELIMITER s = Some s1" "h5t_pend s1 (pend @ [SLIP_DELIMITER])" "h5t_rx s1 = h5t_rx s"
      "h5t_up s1 = h5t_up s" "h5t_handler s1 = h5t_handler s" "h5t_dma s1 = h5t_dma s"
    using h5t_store_ok [OF pend(1)] pend(3) by fastforce
  have c: "\<not> unat (h5t_backupCnt s) + 1 > HCI_H5_TR_RX_BUF_SIZE" "h5t_backupCnt s \<noteq> 1"
    using unat_u8_less [of "h5t_backupCnt s"] pend(1,2) by (auto simp: h5t_sizes h5t_pend_def)
  have "rd_range (h5t_backup s1) 0 (unat (h5t_backupCnt s1)) = Some (pend @ [SLIP_DELIMITER])"
    using s1(2) pend(3) by (simp add: h5t_pend_def rd_range_def h5t_sizes)
  then have "h5t_deliver (h5t_backup s1) 0 (unat (h5t_backupCnt s1)) s1 = Some (s1\<lparr>h5t_up := u\<rparr>)"
    using h s1 by (simp add: h5t_deliver_def)
  then show ?thesis using x c s1 by (auto simp: h5t_timers h5t_pend_def simp del: rd8_Some_iff)
qed

lemma h5t_backup_frame:
  assumes pend: "h5t_pend s pend" "pend \<noteq> []" and data: "rd_range (hf_p (h5t_rx s)) i (unat len) = Some (y @ data)"
    and frame: "h5t_frame (pend @ y)" "y \<noteq> []" and h: "h5t_handler s (pend @ y) (h5t_up s) = Some u"
  shows "\<exists>s'. HCI_Tr_H5BackupHandler now i len s = Some (of_nat (length y), s') \<and> h5t_pend s' [] \<and> h5t_rx s' = h5t_rx s
     \<and> h5t_up s' = u \<and> h5t_handler s' = h5t_handler s \<and> h5t_dma s' = h5t_dma s"
proof -
  obtain b where b: "pend @ y = SLIP_DELIMITER # b @ [SLIP_DELIMITER]" "SLIP_DELIMITER \<notin> set b" "4 \<le> length b" "length b \<le> 253"
    using frame(1) by (rule h5t_frame_parts)
  obtain x where y: "y = x @ [SLIP_DELIMITER]" using b(1) frame(2) by (metis append_butlast_last_id last_appendR last_ConsR append_is_Nil_conv last_snoc list.distinct(1))
  have bx: "SLIP_DELIMITER \<notin> set x" "length pend + length x = length b + 1"
    using b y pend(2) by (auto simp: Cons_eq_append_conv append_eq_Cons_conv)
  have n: "unat len = length x + Suc (length data)" using rd_range_length [OF data] y by simp
  have r: "rd_range (hf_p (h5t_rx s)) i (length x + Suc (length data)) = Some (x @ SLIP_DELIMITER # data)" using data y n by simp
  have le: "length pend + length x \<le> 254" using bx(2) b(4) by simp
  obtain s1 where s1: "h5t_backup_loop now i (length x + Suc (length data)) 0 s
        = h5t_backup_loop now (i + length x) (Suc (length data)) (0 + of_nat (length x)) s1"
      "h5t_pend s1 (pend @ x)" "h5t_rx s1 = h5t_rx s" "h5t_up s1 = h5t_up s" "h5t_handler s1 = h5t_handler s" "h5t_dma s1 = h5t_dma s"
    using h5t_backup_collect [OF pend r bx(1) le] by blast
  have "rd8 (hf_p (h5t_rx s1)) (i + length x) = Some SLIP_DELIMITER"
    using rd8_rd_range [OF r, of "length x"] s1(3) by (simp del: rd8_Some_iff)
  moreover have "h5t_handler s1 ((pend @ x) @ [SLIP_DELIMITER]) (h5t_up s1) = Some u" using h s1 y by simp
  moreover have "2 \<le> length (pend @ x)" "length (pend @ x) \<le> 254" using bx(2) b(3,4) by simp_all
  ultimately obtain s' where s': "h5t_backup_loop now (i + length x) (Suc (length data)) (of_nat (length x)) s1 = Some (of_nat (length x) + 1, s')"
      "h5t_pend s' []" "h5t_rx s' = h5t_rx s1" "h5t_up s' = u" "h5t_handler s' = h5t_handler s1" "h5t_dma s' = h5t_dma s1"
    using h5t_backup_close [OF s1(2)] by blast
  have "(ucast (of_nat (length x) + 1 :: u16) :: u32) = of_nat (length y)"
    using u16_of_nat_up [of "length y"] le y by (simp add: add.commute)
  then have "HCI_Tr_H5BackupHandler now i len s = Some (of_nat (length y), s')"
    using h5t_pend_empty_iff [OF pend(1)] pend(2) s1(1) s'(1) unfolding HCI_Tr_H5BackupHandler_def n by simp
  then show ?thesis using s' s1 by auto
qed

lemma h5t_backup_more:
  assumes pend: "h5t_pend s pend" "pend \<noteq> []" and data: "rd_range (hf_p (h5t_rx s)) i (unat len) = Some data"
    and frame: "h5t_frame (pend @ data @ r)" "r \<noteq> []"
  shows "\<exists>s'. HCI_Tr_H5BackupHandler now i len s = Some (len, s') \<and> h5t_pend s' (pend @ data) \<and> h5t_rx s' = h5t_rx s
     \<and> h5t_up s' = h5t_up s \<and> h5t_handler s' = h5t_handler s \<and> h5t_dma s' = h5t_dma s"
proof -
  obtain b where b: "pend @ data @ r = SLIP_DELIMITER # b @ [SLIP_DELIMITER]" "SLIP_DELIMITER \<notin> set b" "length b \<le> 253"
    using frame(1) by (rule h5t_frame_parts)
  have bl: "length pend + length data + length r = length b + 2" using arg_cong [OF b(1), of length] by simp
  have nd: "SLIP_DELIMITER \<notin> set data"
  proof -
    have "butlast (tl (pend @ data @ r)) = tl pend @ data @ butlast r" using pend(2) frame(2) by (simp add: butlast_append)
    then show ?thesis using b(1,2) by simp
  qed
  have n: "unat len = length data" using rd_range_length [OF data] by simp
  have le: "length pend + length data \<le> 254" using bl b(3) frame(2) by (cases r) auto
  have "rd_range (hf_p (h5t_rx s)) i (length data + 0) = Some (data @ [])" using data n by simp
  from h5t_backup_collect [OF pend this nd le, of now 0] obtain s1 where s1: "h5t_backup_loop now i (length data) 0 s = Some (of_nat (length data), s1)"
      "h5t_pend s1 (pend @ data)" "h5t_rx s1 = h5t_rx s" "h5t_up s1 = h5t_up s" "h5t_handler s1 = h5t_handler s" "h5t_dma s1 = h5t_dma s"
    by auto
  have "of_nat (length data) = len" by (simp flip: n)
  then have "(ucast (of_nat (length data) :: u16) :: u32) = len" using u16_of_nat_up [of "length data"] le by simp
  then have "HCI_Tr_H5BackupHandler now i len s = Some (len, s1)"
    using h5t_pend_empty_iff [OF pend(1)] pend(2) s1(1) unfolding HCI_Tr_H5BackupHandler_def n by simp
  then show ?thesis using s1 by auto
qed

section \<open>The receive loop\<close>

primrec h5t_feed :: "(bytes \<Rightarrow> 'u \<Rightarrow> 'u option) \<Rightarrow> bytes list \<Rightarrow> 'u \<Rightarrow> 'u option" where
  "h5t_feed h [] u = Some u"
| "h5t_feed h (f # fs) u = Option.bind (h f u) (h5t_feed h fs)"

text \<open>
  \<open>pend\<close> is buffered and \<open>data\<close> left in the chunk; together they are the frames \<open>fs\<close> and a proper beginning
  \<open>rest\<close> of a frame.  Handing \<open>fs\<close> to the handler takes the layers above to \<open>u\<close>.
\<close>

definition h5t_due ::
    "'u HciH5TrCb_t \<Rightarrow> bytes \<Rightarrow> nat \<Rightarrow> u32 \<Rightarrow> bytes \<Rightarrow> bytes list \<Rightarrow> bytes \<Rightarrow> bytes \<Rightarrow> 'u \<Rightarrow> bool" where
  "h5t_due s pend i len data fs rest r u \<longleftrightarrow>
     h5t_pend s pend \<and> rd_range (hf_p (h5t_rx s)) i (unat len) = Some data \<and> pend @ data = concat fs @ rest
     \<and> (\<forall>f\<in>set fs. h5t_frame f) \<and> h5t_frame (rest @ r) \<and> r \<noteq> [] \<and> length pend < length (hd (fs @ [rest @ r]))
     \<and> h5t_feed (h5t_handler s) fs (h5t_up s) = Some u"

lemma h5t_dueD:
  assumes "h5t_due s pend i len data fs rest r u"
  shows "h5t_pend s pend" "rd_range (hf_p (h5t_rx s)) i (unat len) = Some data" "pend @ data = concat fs @ rest"
    "\<forall>f\<in>set fs. h5t_frame f" "h5t_frame (rest @ r)" "r \<noteq> []" "length pend < length (hd (fs @ [rest @ r]))"
    "h5t_feed (h5t_handler s) fs (h5t_up s) = Some u" "length data = unat len"
  using assms rd_range_length by (auto simp: h5t_due_def)

definition h5t_same :: "'u HciH5TrCb_t \<Rightarrow> 'u HciH5TrCb_t \<Rightarrow> bool" where
  "h5t_same s s' \<longleftrightarrow> h5t_rx s' = h5t_rx s \<and> h5t_handler s' = h5t_handler s \<and> h5t_dma s' = h5t_dma s"

lemma h5t_frame_nonempty: "h5t_frame f \<Longrightarrow> f \<noteq> []" "h5t_frame f \<Longrightarrow> length f \<le> 255" "h5t_frame f \<Longrightarrow> 6 \<le> length f"
  by (auto simp: h5t_frame_def)

lemma h5t_due_done: "h5t_due s pend i len [] fs rest r u \<Longrightarrow> fs = [] \<and> rest = pend \<and> u = h5t_up s"
  using h5t_dueD(3,7,8) [of s pend i len "[]" fs rest r u] by (cases fs) auto

lemma h5t_due_next:
  assumes due: "h5t_due s pend i len (y @ data) ((pend @ y) # fs) rest r u"
    and s': "h5t_pend s' []" "h5t_same s s'" "h5t_handler s (pend @ y) (h5t_up s) = Some (h5t_up s')"
  shows "h5t_due s' [] (i + length y) (len - of_nat (length y)) data fs rest r u"
proof -
  note d = h5t_dueD [OF due]
  have y: "unat (of_nat (length y) :: u32) = length y" using d(9) by (metis le_add1 length_append unat_of_nat_small le_less_trans unsigned_less)
  then have l: "unat (len - of_nat (length y)) = length data" using d(9) by (simp flip: d(9) add: unat_sub word_le_nat_alt)
  have "rd_range (hf_p (h5t_rx s')) (i + length y) (unat (len - of_nat (length y))) = Some data"
    using rd_range_append(2) [OF d(2)] l s'(2) by (simp add: h5t_same_def)
  moreover have "0 < length (hd (fs @ [rest @ r]))" using d(4,6) h5t_frame_nonempty(1) by (cases fs) auto
  ultimately show ?thesis using d s' by (auto simp: h5t_due_def h5t_same_def)
qed

lemma h5t_backup_start:
  assumes "h5t_pend s []" "rd_range (hf_p (h5t_rx s)) i (unat len) = Some data" "length data \<le> 255"
  shows "\<exists>s'. HCI_Tr_H5BackupHandler now i len s = Some (len, s') \<and> h5t_pend s' data \<and> h5t_same s s' \<and> h5t_up s' = h5t_up s"
proof -
  have ld: "length data = unat len" using assms(2) by (rule rd_range_length)
  obtain b where b: "wr_range (h5t_backup s) 0 data = Some b"
    using assms by (auto simp: wr_range_def h5t_pend_def h5t_sizes)
  have "unat (ucast len :: u8) = unat len" using assms(3) ld by (simp add: unsigned_ucast_eq take_bit_nat_eq_self)
  moreover have "take (length data) b = data" "length b = length (h5t_backup s)"
    using b by (auto simp: wr_range_def split: if_splits)
  ultimately show ?thesis using assms b ld h5t_pend_empty_iff [OF assms(1)]
    by (auto simp: HCI_Tr_H5BackupHandler_def h5t_timers h5t_pend_def h5t_same_def)
qed

lemma h5t_scan_partial:
  assumes due: "h5t_due s [] i len data [] rest r u" and ne: "data \<noteq> []"
  shows "\<exists>s'. h5t_rx_scan now i len s = Some (i, 0, s') \<and> h5t_pend s' rest \<and> h5t_same s s' \<and> h5t_up s' = h5t_up s"
proof -
  note d = h5t_dueD [OF due]
  obtain b where b: "rest @ r = SLIP_DELIMITER # b @ [SLIP_DELIMITER]" "SLIP_DELIMITER \<notin> set b" "length b \<le> 253"
    using d(5) by (rule h5t_frame_parts)
  have dr: "data = rest" using d(3) by simp
  obtain x where x: "data = SLIP_DELIMITER # x" using b(1) ne dr by (cases data) auto
  have "SLIP_DELIMITER \<notin> set x"
  proof -
    have "butlast (tl (rest @ r)) = x @ butlast r" using x dr d(6) by (simp add: butlast_append)
    then show ?thesis using b(1,2) by simp
  qed
  note nx = this
  have head: "HCI_Tr_H5FindSlipHeadFlag (hf_p (h5t_rx s)) i (unat len) = Some (Some i)"
    using d(2) nx unfolding x by (intro find_head_at) (auto simp: neq_Nil_conv)
  have "len \<noteq> 0" using d(9) x by auto
  then have l1: "unat (len - 1) = length x" using d(9) x by (simp add: unat_minus_one)
  have "rd_range (hf_p (h5t_rx s)) (i + length [SLIP_DELIMITER]) (length x) = Some x"
    using d(2) x by (intro rd_range_append(2) [of _ _ "unat len"]) simp
  then have flag: "HCI_Tr_H5FindSlipFlag (hf_p (h5t_rx s)) (i + 1) (unat (len - 1)) = Some None"
    using nx l1 by (intro find_flag_none) simp_all
  have "length data \<le> 255" using arg_cong [OF b(1), of length] b(3) dr by simp
  then obtain s' where "HCI_Tr_H5BackupHandler now i len s = Some (len, s')" "h5t_pend s' data" "h5t_same s s'" "h5t_up s' = h5t_up s"
    using h5t_backup_start [OF d(1,2)] by blast
  then show ?thesis using head flag dr by (simp add: h5t_rx_scan_def Let_def)
qed

lemma h5t_scan_frame:
  assumes due: "h5t_due s [] i len (f @ data) (f # fs) rest r u"
  shows "\<exists>s'. h5t_rx_scan now i len s = Some (i + length f, len - of_nat (length f), s') \<and> h5t_pend s' [] \<and> h5t_same s s'
     \<and> h5t_handler s f (h5t_up s) = Some (h5t_up s')"
proof -
  note d = h5t_dueD [OF due]
  have ff: "h5t_frame f" using d(4) by simp
  obtain b where b: "f = SLIP_DELIMITER # b @ [SLIP_DELIMITER]" "SLIP_DELIMITER \<notin> set b" "4 \<le> length b" "length b \<le> 253"
    using ff by (rule h5t_frame_parts)
  obtain u1 where u1: "h5t_handler s f (h5t_up s) = Some u1" using d(8) by (auto simp: bind_eq_Some_conv)
  have "rd_range (hf_p (h5t_rx s)) i (unat len) = Some (SLIP_DELIMITER # (b @ SLIP_DELIMITER # data))" using d(2) b(1) by simp
  then have head: "HCI_Tr_H5FindSlipHeadFlag (hf_p (h5t_rx s)) i (unat len) = Some (Some i)"
    by (rule find_head_at) (use b(2,3) in \<open>cases b; auto\<close>)
  have len: "unat len = length b + length data + 2" using d(9) b(1) by simp
  then have ne: "len \<noteq> 0" "len \<noteq> 1" by auto
  then have l1: "unat (len - 1) = length (b @ SLIP_DELIMITER # data)" using len by (simp add: unat_minus_one)
  have "rd_range (hf_p (h5t_rx s)) (i + length [SLIP_DELIMITER]) (length (b @ SLIP_DELIMITER # data)) = Some (b @ SLIP_DELIMITER # data)"
    using d(2) b(1) by (intro rd_range_append(2) [of _ _ "unat len"]) simp
  then have flag: "HCI_Tr_H5FindSlipFlag (hf_p (h5t_rx s)) (i + 1) (unat (len - 1)) = Some (Some (i + 1 + length b))"
    using b(2) l1 by (intro find_flag_at) simp_all
  have sl: "i + 1 + length b + 1 - i = length f" using b(1) by simp
  have n16: "unat (of_nat (length f) :: u16) = length f" "(ucast (of_nat (length f) :: u16) :: u32) = of_nat (length f)"
    using u16_pktlen [of "length f" 0] h5t_frame_nonempty(2) [OF ff] by simp_all
  then have "\<not> (of_nat (length f) :: u16) < 6" using h5t_frame_nonempty(3) [OF ff] by (simp add: word_less_nat_alt)
  moreover have "h5t_deliver (hf_p (h5t_rx s)) i (length f) s = Some (s\<lparr>h5t_up := u1\<rparr>)"
    using rd_range_append(1) [OF d(2)] u1 by (simp add: h5t_deliver_def)
  ultimately have "h5t_rx_scan now i len s = Some (i + length f, len - of_nat (length f), s\<lparr>h5t_up := u1\<rparr>)"
    using ne unfolding h5t_rx_scan_def Let_def head bind.bind_lunit option.case diff_self_eq_0 semiring_1_class.of_nat_0 diff_0_right flag sl n16
    by simp
  then show ?thesis using d(1) u1 by (auto simp: h5t_pend_def h5t_same_def)
qed


text \<open>One pass over the chunk goes on with less data in the same situation.\<close>

definition h5t_progress ::
    "'u HciH5TrCb_t \<Rightarrow> bytes \<Rightarrow> bytes \<Rightarrow> bytes \<Rightarrow> 'u \<Rightarrow> (nat \<times> u32 \<times> 'u HciH5TrCb_t) option \<Rightarrow> bool" where
  "h5t_progress s data rest r u res \<longleftrightarrow>
     (\<exists>i' len' s' pend' data' fs'. res = Some (i', len', s') \<and> h5t_due s' pend' i' len' data' fs' rest r u
        \<and> (data \<noteq> [] \<longrightarrow> length data' < length data) \<and> (data = [] \<longrightarrow> data' = []) \<and> h5t_same s s')"

lemma h5t_progressI:
  "res = Some (i', len', s') \<Longrightarrow> h5t_due s' pend' i' len' data' fs' rest r u \<Longrightarrow>
     (data \<noteq> [] \<Longrightarrow> length data' < length data) \<Longrightarrow> (data = [] \<Longrightarrow> data' = []) \<Longrightarrow> h5t_same s s' \<Longrightarrow> h5t_progress s data rest r u res"
  unfolding h5t_progress_def by blast

lemma h5t_due_end:
  assumes due: "h5t_due s pend i len data [] rest r u" and s': "h5t_pend s' rest" "h5t_same s s'" "h5t_up s' = h5t_up s"
    and k: "k \<le> unat len"
  shows "h5t_due s' rest (i + k) 0 [] [] rest r u"
  using h5t_dueD [OF due] s' k by (auto simp: h5t_due_def h5t_same_def rd_range_def split: if_splits)

lemma h5t_scan_ok:
  assumes due: "h5t_due s [] i len data fs rest r u"
  shows "h5t_progress s data rest r u (h5t_rx_scan now i len s)"
proof (cases "data = []")
  case True
  then have "h5t_rx_scan now i len s = Some (i, 0, s)" "len = 0"
    using h5t_dueD(9) [OF due] by (simp_all add: h5t_rx_scan_def unat_eq_0)
  with True due show ?thesis by (intro h5t_progressI [of _ i 0 s "[]" "[]" fs]) (simp_all add: h5t_same_def)
next
  case ne: False
  show ?thesis
  proof (cases fs)
    case Nil
    obtain s' where s': "h5t_rx_scan now i len s = Some (i, 0, s')" "h5t_pend s' rest" "h5t_same s s'" "h5t_up s' = h5t_up s"
      using h5t_scan_partial [OF due [unfolded Nil] ne] by blast
    have "h5t_due s' rest (i + 0) 0 [] [] rest r u" by (rule h5t_due_end [OF due [unfolded Nil] s'(2-4)]) simp
    with s' ne show ?thesis by (intro h5t_progressI [of _ i 0 s' rest "[]" "[]"]) simp_all
  next
    case (Cons f fs')
    obtain data' where dd: "data = f @ data'" using h5t_dueD(3) [OF due] Cons by auto
    obtain s' where s': "h5t_rx_scan now i len s = Some (i + length f, len - of_nat (length f), s')" "h5t_pend s' []" "h5t_same s s'"
        "h5t_handler s f (h5t_up s) = Some (h5t_up s')"
      using h5t_scan_frame [of s i len f data' fs'] due Cons dd by blast
    have "h5t_due s' [] (i + length f) (len - of_nat (length f)) data' fs' rest r u"
      using due Cons dd s' by (intro h5t_due_next [of s "[]"]) simp_all
    with s' dd h5t_frame_nonempty(1) [of f] h5t_dueD(4) [OF due] Cons show ?thesis
      by (intro h5t_progressI [of _ "i + length f" "len - of_nat (length f)" s' "[]" data' fs']) simp_all
  qed
qed

lemma h5t_step_ok:
  assumes due: "h5t_due s pend i len data fs rest r u" and ne: "data \<noteq> []"
  shows "h5t_progress s data rest r u (h5t_rx_step now i len s)"
proof (cases "pend = []")
  case True
  then have "h5t_rx_step now i len s = h5t_rx_scan now i len s"
    using h5t_pend_empty_iff [OF h5t_dueD(1) [OF due]] by (simp add: h5t_rx_step_def)
  with True due h5t_scan_ok show ?thesis by metis
next
  case pe: False
  note d = h5t_dueD [OF due]
  have c: "h5t_backupCnt s \<noteq> 0" using h5t_pend_empty_iff [OF d(1)] pe by simp
  have "\<exists>n s1 fs1 pend1. n \<le> length data \<and> 0 < n \<and> n \<le> 255 \<and> HCI_Tr_H5BackupHandler now i len s = Some (of_nat n, s1)
      \<and> h5t_due s1 pend1 (i + n) (len - of_nat n) (drop n data) fs1 rest r u \<and> h5t_same s s1 \<and> (pend1 = [] \<or> n = length data)"
  proof (cases fs)
    case Nil
    have e: "pend @ data = rest" using d(3) Nil by simp
    have fr: "h5t_frame (pend @ data @ r)" using d(5) by (simp flip: e)
    obtain s1 where s1: "HCI_Tr_H5BackupHandler now i len s = Some (len, s1)" "h5t_pend s1 (pend @ data)" "h5t_same s s1" "h5t_up s1 = h5t_up s"
      using h5t_backup_more [OF d(1) pe d(2) fr d(6)] by (auto simp: h5t_same_def)
    have "h5t_due s1 rest (i + length data) 0 [] [] rest r u"
      using s1 e d(9) by (intro h5t_due_end [OF due [unfolded Nil]]) simp_all
    moreover have lw: "of_nat (length data) = len" using d(9) by simp
    moreover have "length data \<le> 255" using h5t_frame_nonempty(2) [OF fr] by simp
    ultimately show ?thesis using s1 ne
      by (intro exI [of _ "length data"] exI [of _ s1] exI [of _ "[]"] exI [of _ rest]) simp
  next
    case (Cons f fs')
    have "pend @ data = f @ (concat fs' @ rest)" "length pend < length f" using d(3,7) Cons by simp_all
    then obtain y where y: "f = pend @ y" "data = y @ (concat fs' @ rest)" by (auto simp: append_eq_append_conv2)
    have fr: "h5t_frame (pend @ y)" "y \<noteq> []" using d(4) Cons y \<open>length pend < length f\<close> by auto
    obtain u1 where u1: "h5t_handler s (pend @ y) (h5t_up s) = Some u1" using d(8) Cons y by (auto simp: bind_eq_Some_conv)
    obtain s1 where s1: "HCI_Tr_H5BackupHandler now i len s = Some (of_nat (length y), s1)" "h5t_pend s1 []" "h5t_same s s1" "h5t_up s1 = u1"
      using h5t_backup_frame [OF d(1) pe d(2) [unfolded y(2)] fr u1] by (auto simp: h5t_same_def)
    have "h5t_due s1 [] (i + length y) (len - of_nat (length y)) (concat fs' @ rest) fs' rest r u"
      using due Cons y s1 u1 by (intro h5t_due_next [of s pend]) simp_all
    moreover have "length y \<le> 255" using h5t_frame_nonempty(2) [OF fr(1)] by simp
    ultimately show ?thesis using s1 fr(2) y(2)
      by (intro exI [of _ "length y"] exI [of _ s1] exI [of _ fs'] exI [of _ "[]"]) simp
  qed
  then obtain n s1 fs1 pend1 where n: "n \<le> length data" "0 < n" "n \<le> 255" "HCI_Tr_H5BackupHandler now i len s = Some (of_nat n, s1)"
      "h5t_due s1 pend1 (i + n) (len - of_nat n) (drop n data) fs1 rest r u" "h5t_same s s1" "pend1 = [] \<or> n = length data" by blast
  have st: "h5t_rx_step now i len s = h5t_rx_scan now (i + n) (len - of_nat n) s1"
    using c n(4) ucast_u8_small [OF n(3)] by (simp add: h5t_rx_step_def Let_def)
  have "h5t_progress s1 (drop n data) rest r u (h5t_rx_scan now (i + n) (len - of_nat n) s1)"
  proof (cases "pend1 = []")
    case True
    with n(5) h5t_scan_ok show ?thesis by metis
  next
    case False
    then have e: "drop n data = []" using n(7) by simp
    then have "len - of_nat n = 0" using h5t_dueD(9) [OF n(5)] by (simp add: unat_eq_0)
    then have "h5t_rx_scan now (i + n) (len - of_nat n) s1 = Some (i + n, 0, s1)" by (simp add: h5t_rx_scan_def)
    then show ?thesis using n(5) e \<open>len - of_nat n = 0\<close>
      by (intro h5t_progressI [of _ "i + n" 0 s1 pend1 "[]" fs1]) (simp_all add: h5t_same_def)
  qed
  then show ?thesis using st n(1,2,6) ne unfolding h5t_progress_def h5t_same_def by (fastforce)
qed

lemma h5t_rx_chunk_ok:
  assumes "h5t_due s pend i len data fs rest r u"
  shows "\<exists>s'. h5t_rx_chunk now i len s = Some s' \<and> h5t_pend s' rest \<and> h5t_up s' = u \<and> h5t_same s s'"
  using assms
proof (induction "length data" arbitrary: s pend i len data fs rule: less_induct)
  case less
  note d = h5t_dueD [OF less.prems]
  show ?case
  proof (cases "data = []")
    case True
    then have "len = 0" using d(9) by (simp add: unat_eq_0)
    then show ?thesis using h5t_due_done [of s pend i len fs rest r u] less.prems d(1) True
      by (simp add: h5t_rx_chunk.simps h5t_same_def)
  next
    case False
    then have l: "len \<noteq> 0" using d(9) by auto
    obtain i' len' s' pend' data' fs' where n: "h5t_rx_step now i len s = Some (i', len', s')"
        "h5t_due s' pend' i' len' data' fs' rest r u" "length data' < length data" "h5t_same s s'"
      using h5t_step_ok [OF less.prems False, of now] False unfolding h5t_progress_def by blast
    from less.hyps [OF n(3,2)] l n show ?thesis by (subst h5t_rx_chunk.simps) (auto simp: h5t_same_def)
  qed
qed

section \<open>All waiting chunks\<close>

definition h5t_inv :: "'u HciH5TrCb_t \<Rightarrow> bytes \<Rightarrow> bytes list \<Rightarrow> bool" where
  "h5t_inv s pend cs \<longleftrightarrow> hf_ok (h5t_rx s) \<and> hf_size (h5t_rx s) = 1248 \<and> hf_num (h5t_rx s) = 4 \<and> h5t_pend s pend
     \<and> list_all2 (dma_chunk 1248) cs (hf_view (h5t_rx s))
     \<and> h5t_dma s = (hf_slot (h5t_rx s) (hf_wptr (h5t_rx s)) + 4, 1244)"

lemma h5t_feed_append: "h5t_feed h (xs @ ys) u = Option.bind (h5t_feed h xs u) (h5t_feed h ys)"
proof (induction xs arbitrary: u)
  case (Cons x xs)
  then show ?case by (cases "h x u") simp_all
qed simp

text \<open>Cutting a sequence of frames at a chunk boundary.\<close>

lemma stream_cut:
  "x @ z = concat fs @ rest \<Longrightarrow> r \<noteq> [] \<Longrightarrow>
     \<exists>fs1 fs2 rest1 r1. fs = fs1 @ fs2 \<and> x = concat fs1 @ rest1 \<and> r1 \<noteq> [] \<and> rest1 @ r1 = hd (fs2 @ [rest @ r])
       \<and> rest1 @ z = concat fs2 @ rest"
proof (induction fs arbitrary: x)
  case Nil
  then show ?case by (intro exI [of _ "[]"] exI [of _ "[]"] exI [of _ x] exI [of _ "z @ r"]) (auto simp flip: append_assoc)
next
  case (Cons f fs)
  show ?case
  proof (cases "length x < length f")
    case True
    with Cons.prems(1) obtain y where "f = x @ y" "y \<noteq> []" by (auto simp: append_eq_append_conv2)
    then show ?thesis using Cons.prems(1)
      by (intro exI [of _ "[]"] exI [of _ "f # fs"] exI [of _ x] exI [of _ y]) auto
  next
    case False
    obtain us where "x = f @ us \<and> us @ z = concat fs @ rest \<or> x @ us = f \<and> z = us @ concat fs @ rest"
      using Cons.prems(1) unfolding concat.simps append_assoc append_eq_append_conv2 by blast
    with False obtain x' where x': "x = f @ x'" "x' @ z = concat fs @ rest" by fastforce
    from Cons.IH [OF x'(2) Cons.prems(2)] obtain fs1 fs2 rest1 r1 where
      "fs = fs1 @ fs2" "x' = concat fs1 @ rest1" "r1 \<noteq> []" "rest1 @ r1 = hd (fs2 @ [rest @ r])" "rest1 @ z = concat fs2 @ rest" by blast
    then show ?thesis using x'(1) by (intro exI [of _ "f # fs1"] exI [of _ fs2] exI [of _ rest1] exI [of _ r1]) simp
  qed
qed

lemma h5t_rx_all_ok:
  assumes "h5t_inv s pend cs" "pend @ concat cs = concat fs @ rest" "\<forall>f\<in>set fs. h5t_frame f" "h5t_frame (rest @ r)" "r \<noteq> []"
    and "length pend < length (hd (fs @ [rest @ r]))" "h5t_feed (h5t_handler s) fs (h5t_up s) = Some u"
  shows "\<exists>s'. h5t_rx_all now s = Some s' \<and> h5t_inv s' rest [] \<and> h5t_up s' = u \<and> h5t_handler s' = h5t_handler s"
  using assms
proof (induction cs arbitrary: s pend fs)
  case Nil
  then have "hf_wptr (h5t_rx s) = hf_rptr (h5t_rx s)" by (simp add: h5t_inv_def hf_view_empty_iff)
  moreover have "fs = []" "pend = rest" using Nil.prems(2,6) by (cases fs; simp)+
  ultimately show ?case using Nil.prems by (simp add: h5t_rx_all.simps)
next
  case (Cons c cs)
  have inv: "hf_ok (h5t_rx s)" "hf_size (h5t_rx s) = 1248" "h5t_pend s pend"
      "list_all2 (dma_chunk (unat (hf_size (h5t_rx s)))) (c # cs) (hf_view (h5t_rx s))"
    using Cons.prems(1) by (simp_all add: h5t_inv_def)
  note f = dma_front_chunk [OF inv(1,4)]
  let ?o = "hf_slot (h5t_rx s) (hf_rptr (h5t_rx s))"
  have e: "(pend @ c) @ concat cs = concat fs @ rest" using Cons.prems(2) by simp
  obtain fs1 fs2 rest1 r1 where cut: "fs = fs1 @ fs2" "pend @ c = concat fs1 @ rest1" "r1 \<noteq> []"
      "rest1 @ r1 = hd (fs2 @ [rest @ r])" "rest1 @ concat cs = concat fs2 @ rest"
    using stream_cut [OF e Cons.prems(5)] by blast
  obtain u1 where u1: "h5t_feed (h5t_handler s) fs1 (h5t_up s) = Some u1" "h5t_feed (h5t_handler s) fs2 u1 = Some u"
    using Cons.prems(7) cut(1) by (auto simp: h5t_feed_append bind_eq_Some_conv)
  have fr: "h5t_frame (rest1 @ r1)" using cut(1,4) Cons.prems(3,4) by (cases fs2) auto
  have hdp: "length pend < length (hd (fs1 @ [rest1 @ r1]))" using cut(1,4) Cons.prems(6) by (cases fs1) auto
  have "h5t_due s pend (?o + 4) (of_nat (length c)) c fs1 rest1 r1 u1"
    using f(3) inv(2,3) cut fr hdp u1(1) Cons.prems(3) by (simp add: h5t_due_def)
  from h5t_rx_chunk_ok [OF this, of now] obtain s1 where
    s1: "h5t_rx_chunk now (?o + 4) (of_nat (length c)) s = Some s1" "h5t_pend s1 rest1" "h5t_up s1 = u1" "h5t_same s s1" by blast
  let ?s2 = "s1\<lparr>h5t_rx := hf_pop (h5t_rx s1)\<rparr>"
  have "h5t_inv ?s2 rest1 cs"
    using s1 f(6,7) inv(2) Cons.prems(1) by (simp add: h5t_inv_def h5t_same_def h5t_pend_def hf_pop_def hf_slot_def)
  moreover have "h5t_feed (h5t_handler ?s2) fs2 (h5t_up ?s2) = Some u" using u1(2) s1(3,4) by (simp add: h5t_same_def)
  moreover have "length rest1 < length (hd (fs2 @ [rest @ r]))" using cut(3,4) by (metis length_append length_greater_0_conv less_add_same_cancel1)
  moreover have "\<forall>f\<in>set fs2. h5t_frame f" using Cons.prems(3) cut(1) by simp
  ultimately obtain s' where "h5t_rx_all now ?s2 = Some s'" "h5t_inv s' rest []" "h5t_up s' = u" "h5t_handler s' = h5t_handler ?s2"
    using Cons.IH [of ?s2 rest1 fs2] cut(5) Cons.prems(4,5) by blast
  moreover have "h5t_rx_all now s = h5t_rx_all now ?s2"
    using f(1,2) inv(2) s1(1) by (subst h5t_rx_all.simps) (simp add: Let_def)
  ultimately show ?case using s1(4) by (auto simp: h5t_same_def)
qed

lemma h5t_irq_ok:
  assumes inv: "h5t_inv s pend cs" and room: "length cs < 4" and c: "c \<noteq> []" "length c \<le> 1244"
    and dma: "wr_range (hf_p (h5t_rx s)) (fst (h5t_dma s) - 4) (UINT32_TO_BSTREAM (of_nat (length c)) @ c) = Some p"
  shows "\<exists>s'. HCI_Tr_H5UartRxIRQHandler (s\<lparr>h5t_rx := (h5t_rx s)\<lparr>hf_p := p\<rparr>\<rparr>) = Some s' \<and> h5t_inv s' pend (cs @ [c])
     \<and> h5t_up s' = h5t_up s \<and> h5t_handler s' = h5t_handler s"
proof -
  let ?f = "h5t_rx s" let ?o = "hf_slot ?f (hf_wptr ?f)" let ?h = "UINT32_TO_BSTREAM (of_nat (length c))"
  have d: "hf_ok ?f" "hf_size ?f = 1248" "hf_num ?f = 4" "h5t_pend s pend" "list_all2 (dma_chunk 1248) cs (hf_view ?f)"
      "h5t_dma s = (?o + 4, 1244)" using inv by (simp_all add: h5t_inv_def)
  have n: "length (hf_view ?f) < unat (hf_num ?f)" "length (?h @ c) \<le> unat (hf_size ?f)"
    using d(2,3) list_all2_lengthD [OF d(5)] room c by simp_all
  have w: "wr_range (hf_p ?f) ?o (?h @ c) = Some p" using dma d(6) by simp
  then have f': "hf_put ?f (?h @ c) = Some (?f\<lparr>hf_p := p, hf_wptr := hf_wptr ?f + 1\<rparr>)" by (simp add: hf_put_def)
  let ?f' = "?f\<lparr>hf_p := p, hf_wptr := hf_wptr ?f + 1\<rparr>"
  have ok: "hf_ok ?f'" using hf_put_ok [OF d(1) n] f' by auto
  obtain slot where slot: "hf_view ?f' = hf_view ?f @ [slot]" "take (length (?h @ c)) slot = ?h @ c" "length slot = 1248"
    using hf_put_slot_length [OF d(1) f' n] d(2) by auto
  have "BYTES_TO_UINT32 p ?o = Some (of_nat (length c))"
    using w uint32_roundtrip [of "take ?o (hf_p ?f)" "of_nat (length c)" "c @ drop (?o + length (?h @ c)) (hf_p ?f)"]
    by (auto simp: wr_range_def split: if_splits)
  moreover have "(of_nat (length c) :: u32) \<noteq> 0"
    using c unat_of_nat_small [where 'a = 32, of "length c"] by (auto simp del: unat_of_nat of_nat_eq_0_iff)
  moreover have "unat (hf_wptr ?f - hf_rptr ?f) < 4" using n(1) d(3) by (simp add: hf_view_length)
  ultimately have "HCI_Tr_H5UartRxIRQHandler (s\<lparr>h5t_rx := ?f\<lparr>hf_p := p\<rparr>\<rparr>)
      = Some (s\<lparr>h5t_rx := ?f', h5t_dma := (hf_slot ?f (hf_wptr ?f + 1) + 4, 1244)\<rparr>)"
    using d(2,3) by (simp add: HCI_Tr_H5UartRxIRQHandler_def Let_def not_le hf_slot_def)
  moreover have "dma_chunk 1248 c slot" using slot c by (simp add: dma_chunk_def)
  ultimately show ?thesis using d ok slot(1)
    by (auto simp: h5t_inv_def h5t_pend_def hf_slot_def intro!: list_all2_appendI)
qed

section \<open>Properties\<close>

text \<open>
  The waiting chunks continue the buffered beginning of a frame and carry, cut in any way, complete SLIP
  frames of 6 to 255 bytes and the beginning of another one.  A call of the receive handler returns,
  hands exactly these frames to the registered handler, in order and each once, leaves no chunk waiting
  and keeps the beginning of the last frame.
\<close>

theorem h5_frames_reassembled:
  assumes "h5t_inv s pend cs" "pend @ concat cs = concat fs @ rest" "\<forall>f\<in>set fs. h5t_frame f" "h5t_frame (rest @ r)" "r \<noteq> []"
    and "length pend < length (hd (fs @ [rest @ r]))" "h5t_feed (h5t_handler s) fs (h5t_up s) = Some u"
    and "h5t_flushTimer s = 0 \<or> \<not> clock_time_exceed now (h5t_flushTimer s) (HCI_H5_FLUSH_TO * 1000)"
  shows "\<exists>s'. HCI_Tr_H5RxHandler now s = Some s' \<and> h5t_inv s' rest [] \<and> h5t_up s' = u"
proof -
  have "HCI_Tr_H5FlushHandler now s = s" using assms(8) by (auto simp: HCI_Tr_H5FlushHandler_def)
  then show ?thesis using h5t_rx_all_ok [OF assms(1-7), of now] by (auto simp: HCI_Tr_H5RxHandler_def)
qed

text \<open>A receiver after initialization and registration of a handler.\<close>

definition h5t_fresh :: "(bytes \<Rightarrow> 'u \<Rightarrow> 'u option) \<Rightarrow> 'u \<Rightarrow> 'u HciH5TrCb_t" where
  "h5t_fresh h u = HCI_Tr_H5RegisterSlipHandler h (HCI_Tr_H5Init
     \<lparr>h5t_rx = h5TrRxFifo, h5t_handler = HCI_Tr_DefaultSlipHandler, h5t_up = u,
      h5t_backup = replicate HCI_H5_TR_RX_BUF_SIZE 0, h5t_flushTimer = 0, h5t_backupCnt = 0, h5t_dma = (0, 0)\<rparr>)"

lemma h5t_fresh_inv: "h5t_inv (h5t_fresh h u) [] []" "h5t_up (h5t_fresh h u) = u" "h5t_handler (h5t_fresh h u) = h"
  "h5t_flushTimer (h5t_fresh h u) = 0"
proof -
  have "hf_ok h5TrRxFifo" by (auto simp: h5TrRxFifo_def hf_ok_def pf_ok_def h5t_sizes intro!: exI [of _ 2])
  moreover have "hf_view h5TrRxFifo = []" by (simp add: hf_view_empty_iff h5TrRxFifo_def)
  ultimately show "h5t_inv (h5t_fresh h u) [] []"
    by (simp add: h5t_inv_def h5t_fresh_def HCI_Tr_H5Init_def HCI_Tr_H5RegisterSlipHandler_def h5t_pend_def h5t_sizes
          h5TrRxFifo_def hf_slot_def)
qed (simp_all add: h5t_fresh_def HCI_Tr_H5Init_def HCI_Tr_H5RegisterSlipHandler_def)

lemma h5t_fresh_chunk:
  assumes "c \<noteq> []" "length c \<le> 1244"
  shows "\<exists>s. h5t_inv s [] [c] \<and> h5t_up s = u \<and> h5t_handler s = h \<and> h5t_flushTimer s = 0"
proof -
  let ?e = "h5t_fresh h u"
  have "\<exists>p. wr_range (hf_p (h5t_rx ?e)) (fst (h5t_dma ?e) - 4) (UINT32_TO_BSTREAM (of_nat (length c)) @ c) = Some p"
    using assms(2)
    by (simp add: wr_range_def h5t_fresh_def HCI_Tr_H5RegisterSlipHandler_def HCI_Tr_H5Init_def h5TrRxFifo_def h5t_sizes)
  then obtain p where p: "wr_range (hf_p (h5t_rx ?e)) (fst (h5t_dma ?e) - 4) (UINT32_TO_BSTREAM (of_nat (length c)) @ c) = Some p" by blast
  obtain s where s: "HCI_Tr_H5UartRxIRQHandler (?e\<lparr>h5t_rx := (h5t_rx ?e)\<lparr>hf_p := p\<rparr>\<rparr>) = Some s"
      "h5t_inv s [] [c]" "h5t_up s = u" "h5t_handler s = h"
    using h5t_irq_ok [OF h5t_fresh_inv(1) _ assms p] h5t_fresh_inv(2,3) [of h u] by auto
  have "h5t_flushTimer s = 0" using s(1) h5t_fresh_inv(4) [of h u]
    by (auto simp: HCI_Tr_H5UartRxIRQHandler_def Let_def bind_eq_Some_conv split: if_splits)
  with s show ?thesis by blast
qed

theorem h5_frames_reassembled_witness:
  "\<exists>s s'. h5t_inv s [] [[0xC0, 1, 2, 3, 4, 0xC0, 0xC0, 9]] \<and> h5t_handler s = (\<lambda>f log. Some (log @ [f]))
     \<and> HCI_Tr_H5RxHandler 0 s = Some s' \<and> h5t_up s' = [[0xC0, 1, 2, 3, 4, 0xC0]] \<and> h5t_inv s' [0xC0, 9] []"
proof -
  obtain s where s: "h5t_inv s [] [[0xC0, 1, 2, 3, 4, 0xC0, 0xC0, 9]]" "h5t_up s = []"
      "h5t_handler s = (\<lambda>f log. Some (log @ [f]))" "h5t_flushTimer s = 0"
    using h5t_fresh_chunk [of "[0xC0, 1, 2, 3, 4, 0xC0, 0xC0, 9]" "[]" "\<lambda>f log. Some (log @ [f])"] by auto
  have fr: "h5t_frame [0xC0, 1, 2, 3, 4, 0xC0]" "h5t_frame ([0xC0, 9] @ [1, 1, 1, 0xC0])"
    by (simp_all add: h5t_frame_def SLIP_DELIMITER_def)
  from h5_frames_reassembled [OF s(1), of "[[0xC0, 1, 2, 3, 4, 0xC0]]" "[0xC0, 9]" "[1, 1, 1, 0xC0]" "[[0xC0, 1, 2, 3, 4, 0xC0]]" 0]
  show ?thesis using s fr by auto
qed

end
