(* ===== verification/Hci_Tr.thy ===== *)
theory Hci_Tr
  imports Hci_Tr_H4 Hci_Tr_H5
begin

unbundle bit_operations_syntax

text \<open>
  The HCI transport of \<^verbatim>\<open>hci_transport/hci_tr.c\<close>: initialization, main loop and the hand-over between
  the HCI FIFOs, the UART and the controller, for both settings of \<^verbatim>\<open>HCI_TR_MODE\<close> (the repository builds H4).

  The controller's packet handler \<^verbatim>\<open>blc_hci_handler\<close> is the parameter \<open>hci\<close>: it gets the slot of the
  packet and may put packets into the outgoing FIFOs.  The UART is the record \<open>uart_env\<close> of \<open>Hci_Slip\<close>.
\<close>

section \<open>Data\<close>


record hci_tr_state =
  tr_h4 :: HciH4TrCb_t
  bltHci_txfifo :: hci_fifo_t
  bltHci_outIsofifo :: hci_fifo_t
  uartTxBuf :: bytes
  tr_wire :: "bytes list"

section \<open>H4\<close>

definition HCI_TransportInit :: "hci_tr_state \<Rightarrow> hci_tr_state" where
  "HCI_TransportInit s = s\<lparr>tr_h4 := HCI_Tr_H4Init (h4_hciRx (tr_h4 s)) (tr_h4 s)\<rparr>"


text \<open>The packet at the front of \<open>f\<close> is copied into the transmit buffer and given to the UART.\<close>

definition hci_tx_send :: "uart_env \<Rightarrow> hci_fifo_t \<Rightarrow> hci_tr_state \<Rightarrow> (bool \<times> hci_tr_state) option" where
  "hci_tx_send env f s =
     (let off = hf_slot f (hf_rptr f) in
      do { len \<leftarrow> BYTES_TO_UINT16 (hf_p f) off;
           d \<leftarrow> rd_range (hf_p f) (off + 2) (unat len);
           buf \<leftarrow> wr_range (uartTxBuf s) 0 d;
           out \<leftarrow> rd_range buf 0 (unat len);
           if ue_sendRes env \<noteq> 0 then Some (True, s\<lparr>uartTxBuf := buf, tr_wire := tr_wire s @ [out]\<rparr>)
           else Some (False, s\<lparr>uartTxBuf := buf\<rparr>) })"

definition HCI_TxHandler :: "uart_env \<Rightarrow> hci_tr_state \<Rightarrow> hci_tr_state option" where
  "HCI_TxHandler env s =
     (if \<not> ue_txDone env then Some s
      else let iso = bltHci_outIsofifo s; tx = bltHci_txfifo s in
        if hf_wptr iso \<noteq> hf_rptr iso
        then do { (ok, s1) \<leftarrow> hci_tx_send env iso s; Some (if ok then s1\<lparr>bltHci_outIsofifo := hf_pop iso\<rparr> else s1) }
        else if hf_wptr tx \<noteq> hf_rptr tx
        then do { (ok, s1) \<leftarrow> hci_tx_send env tx s; Some (if ok then s1\<lparr>bltHci_txfifo := hf_pop tx\<rparr> else s1) }
        else Some s)"



section \<open>H5\<close>

text \<open>
  The layers above the receiver together with the reading of the system timer that they see.  The SLIP
  layer registers its decoder as the frame handler.
\<close>

definition h5_slip_handler :: "uart \<Rightarrow> bytes \<Rightarrow> u32 \<times> h5_state \<Rightarrow> (u32 \<times> h5_state) option" where
  "h5_slip_handler env fr u = map_option (Pair (fst u)) (h5_receive env (fst u) fr (snd u))"

definition HCI_TransportInit_H5 ::
    "uart \<Rightarrow> u32 \<Rightarrow> hci_fifo_t \<Rightarrow> hci_fifo_t \<Rightarrow> (u32 \<times> h5_state) HciH5TrCb_t \<Rightarrow> (u32 \<times> h5_state) HciH5TrCb_t" where
  "HCI_TransportInit_H5 env now rxf txf s =
     (let s1 = HCI_Tr_H5RegisterSlipHandler (h5_slip_handler env) (HCI_Tr_H5Init s);
          h = snd (h5t_up s1)
      in s1\<lparr>h5t_up := (now, HCI_H5_Init now rxf txf (h\<lparr>slip := HCI_Slip_Init (slip h)\<rparr>))\<rparr>)"

definition HCI_RxHandler_H5 :: "(bytes \<Rightarrow> hci_fifo_t \<Rightarrow> hci_fifo_t) \<Rightarrow> h5_state \<Rightarrow> h5_state option" where
  "HCI_RxHandler_H5 hci h =
     (let f = pHciRxFifo h in
      if hf_wptr f = hf_rptr f then Some h
      else do { p \<leftarrow> rd_range (hf_p f) (hf_slot f (hf_rptr f)) (unat (hf_size f));
                Some (h\<lparr>pHciRxFifo := hf_pop f, pHciTxFifo := hci p (pHciTxFifo h)\<rparr>) })"

definition HCI_TransportPoll_H5 ::
    "(bytes \<Rightarrow> hci_fifo_t \<Rightarrow> hci_fifo_t) \<Rightarrow> uart \<Rightarrow> u32 \<Rightarrow> (u32 \<times> h5_state) HciH5TrCb_t \<Rightarrow> (u32 \<times> h5_state) HciH5TrCb_t option" where
  "HCI_TransportPoll_H5 hci env now s =
     do { s1 \<leftarrow> HCI_Tr_H5RxHandler now (s\<lparr>h5t_up := (now, snd (h5t_up s))\<rparr>);
          h1 \<leftarrow> HCI_H5_Poll env now (snd (h5t_up s1));
          h2 \<leftarrow> HCI_RxHandler_H5 hci h1;
          Some (s1\<lparr>h5t_up := (now, h2)\<rparr>) }"

section \<open>Transmission\<close>

text \<open>A packet as the writers of the outgoing FIFOs store it: its length and its bytes.\<close>

definition hci_tx_packet :: "bytes \<Rightarrow> bytes \<Rightarrow> bool" where
  "hci_tx_packet pkt slot \<longleftrightarrow> take (2 + length pkt) slot = UINT16_TO_BSTREAM (of_nat (length pkt)) @ pkt
     \<and> 2 + length pkt \<le> length slot \<and> length pkt \<le> 304"

lemma uint16_at: "take 2 (drop i b) = UINT16_TO_BSTREAM n \<Longrightarrow> i + 2 \<le> length b \<Longrightarrow> BYTES_TO_UINT16 b i = Some n"
  using uint16_roundtrip [of "take i b" n "drop (i + 2) b"]
  by (metis append_take_drop_id add_leD1 drop_drop add.commute length_take min_absorb2)

lemma hci_tx_send_ok:
  assumes f: "hf_ok f" "hf_view f = slot # slots" "hci_tx_packet pkt slot" and buf: "length (uartTxBuf s) = 304"
  shows "\<exists>b. length b = 304 \<and> hci_tx_send env f s =
     (if ue_sendRes env \<noteq> 0 then Some (True, s\<lparr>uartTxBuf := b, tr_wire := tr_wire s @ [pkt]\<rparr>)
      else Some (False, s\<lparr>uartTxBuf := b\<rparr>))"
proof -
  let ?o = "hf_slot f (hf_rptr f)" let ?h = "UINT16_TO_BSTREAM (of_nat (length pkt))"
  have slot: "rd_range (hf_p f) ?o (unat (hf_size f)) = Some slot"
    using hf_pop_ok [OF f(1,2)] by (auto simp: hf_front_def split: if_splits)
  have sl: "slot = (?h @ pkt) @ drop (2 + length pkt) slot" "length pkt \<le> 304"
    using f(3) by (metis hci_tx_packet_def append_take_drop_id)+
  have "rd_range (hf_p f) ?o (length (?h @ pkt)) = Some (?h @ pkt)" using slot sl(1) rd_range_append(1) by metis
  from rd_range_append [OF this] have h: "rd_range (hf_p f) ?o 2 = Some ?h" and d: "rd_range (hf_p f) (?o + 2) (length pkt) = Some pkt"
    by simp_all
  have l: "BYTES_TO_UINT16 (hf_p f) ?o = Some (of_nat (length pkt))"
    using h by (intro uint16_at) (auto simp: rd_range_def split: if_splits)
  have u: "unat (of_nat (length pkt) :: u16) = length pkt" using sl(2) by (intro unat_of_nat_small) simp
  obtain b where b: "wr_range (uartTxBuf s) 0 pkt = Some b" using sl(2) buf by (auto simp: wr_range_def)
  have "rd_range b 0 (length pkt) = Some pkt" using rd_wr_range_same [OF b] .
  then show ?thesis using l u d b wr_range_length [OF b] buf
    by (intro exI [of _ b]) (simp add: hci_tx_send_def Let_def del: unat_of_nat)
qed

lemma hf_view_Cons_ne: "hf_view f = x # xs \<Longrightarrow> hf_wptr f \<noteq> hf_rptr f"
  by (metis hf_view_empty_iff list.distinct(1))

section \<open>Properties\<close>

text \<open>
  Transmission takes the packets of each outgoing FIFO in order, isochronous data first.  When the UART
  is idle and accepts, exactly the oldest packet of the chosen FIFO goes to the UART and is removed; when
  the UART is busy or refuses, no packet is lost and nothing is sent.
\<close>

theorem hci_tx_handler_sends_front:
  assumes tx: "hf_ok (bltHci_txfifo s)" "hf_view (bltHci_txfifo s) = slot # slots" "hci_tx_packet pkt slot"
    and iso: "hf_ok (bltHci_outIsofifo s)" "list_all2 hci_tx_packet ipkts (hf_view (bltHci_outIsofifo s))"
    and buf: "length (uartTxBuf s) = 304"
  shows "\<exists>s'. HCI_TxHandler env s = Some s' \<and> length (uartTxBuf s') = 304 \<and> tr_h4 s' = tr_h4 s \<and>
     (if \<not> ue_txDone env \<or> ue_sendRes env = 0
      then tr_wire s' = tr_wire s \<and> bltHci_txfifo s' = bltHci_txfifo s \<and> bltHci_outIsofifo s' = bltHci_outIsofifo s
      else case ipkts of
             [] \<Rightarrow> tr_wire s' = tr_wire s @ [pkt] \<and> hf_ok (bltHci_txfifo s') \<and> hf_view (bltHci_txfifo s') = slots
                   \<and> bltHci_outIsofifo s' = bltHci_outIsofifo s
           | i # rs \<Rightarrow> tr_wire s' = tr_wire s @ [i] \<and> bltHci_txfifo s' = bltHci_txfifo s \<and> hf_ok (bltHci_outIsofifo s')
                   \<and> list_all2 hci_tx_packet rs (hf_view (bltHci_outIsofifo s')))"
proof (cases ipkts)
  case Nil
  then have e: "hf_wptr (bltHci_outIsofifo s) = hf_rptr (bltHci_outIsofifo s)" using iso(2) by (simp add: hf_view_empty_iff)
  have ne: "hf_wptr (bltHci_txfifo s) \<noteq> hf_rptr (bltHci_txfifo s)" using tx(2) by (rule hf_view_Cons_ne)
  obtain b where "length b = 304" "hci_tx_send env (bltHci_txfifo s) s =
     (if ue_sendRes env \<noteq> 0 then Some (True, s\<lparr>uartTxBuf := b, tr_wire := tr_wire s @ [pkt]\<rparr>)
      else Some (False, s\<lparr>uartTxBuf := b\<rparr>))" using hci_tx_send_ok [OF tx buf] by blast
  then show ?thesis using e ne Nil buf hf_pop_ok [OF tx(1,2)] by (simp add: HCI_TxHandler_def Let_def)
next
  case (Cons i rs)
  obtain islot islots where v: "hf_view (bltHci_outIsofifo s) = islot # islots" "hci_tx_packet i islot" "list_all2 hci_tx_packet rs islots"
    using iso(2) Cons by (auto simp: list_all2_Cons1)
  have ne: "hf_wptr (bltHci_outIsofifo s) \<noteq> hf_rptr (bltHci_outIsofifo s)" using v(1) by (rule hf_view_Cons_ne)
  obtain b where "length b = 304" "hci_tx_send env (bltHci_outIsofifo s) s =
     (if ue_sendRes env \<noteq> 0 then Some (True, s\<lparr>uartTxBuf := b, tr_wire := tr_wire s @ [i]\<rparr>)
      else Some (False, s\<lparr>uartTxBuf := b\<rparr>))" using hci_tx_send_ok [OF iso(1) v(1,2) buf] by blast
  then show ?thesis using ne Cons buf v(3) hf_pop_ok [OF iso(1) v(1)] by (simp add: HCI_TxHandler_def Let_def)
qed


definition hci_tr_example :: hci_tr_state where
  "hci_tr_example = \<lparr>tr_h4 = h4_example, bltHci_txfifo = hci_fifo_example, bltHci_outIsofifo = hci_fifo_example,
     uartTxBuf = replicate 304 0, tr_wire = []\<rparr>"

lemma hci_tx_packet_prefix:
  "length pkt \<le> 304 \<Longrightarrow> hci_tx_packet pkt ((UINT16_TO_BSTREAM (of_nat (length pkt)) @ pkt) @ rest)"
  by (simp add: hci_tx_packet_def)

theorem hci_tx_handler_sends_front_witness:
  "\<exists>f s'. HCI_TxHandler \<lparr>ue_txDone = True, ue_sendRes = 1\<rparr> (hci_tr_example\<lparr>bltHci_txfifo := f\<rparr>) = Some s'
     \<and> tr_wire s' = [[4, 0x0E, 4, 1, 3, 0x0C, 0]] \<and> hf_view (bltHci_txfifo s') = []"
proof -
  let ?p = "[4, 0x0E, 4, 1, 3, 0x0C, 0] :: bytes"
  obtain f rest where f: "hf_put hci_fifo_example (UINT16_TO_BSTREAM (of_nat (length ?p)) @ ?p) = Some f" "hf_ok f"
      "hf_view f = [(UINT16_TO_BSTREAM (of_nat (length ?p)) @ ?p) @ rest]"
    using hf_put_ok [OF hci_fifo_example_ok(1), of "UINT16_TO_BSTREAM (of_nat (length ?p)) @ ?p"] hci_fifo_example_ok(2)
    by (auto simp: hci_fifo_example_def)
  let ?s = "hci_tr_example\<lparr>bltHci_txfifo := f\<rparr>"
  have "hci_tx_packet ?p ((UINT16_TO_BSTREAM (of_nat (length ?p)) @ ?p) @ rest)" by (rule hci_tx_packet_prefix) simp
  from hci_tx_handler_sends_front [of ?s, OF _ _ this, of "[]" "[]" "\<lparr>ue_txDone = True, ue_sendRes = 1\<rparr>"] f
  show ?thesis by (auto simp: hci_tr_example_def hci_fifo_example_ok intro!: exI [of _ f])
qed



end
