(* ===== verification/Tl_String.thy ===== *)
theory Tl_String
  imports Telink_Prelude
begin

unbundle bit_operations_syntax

text \<open>
  The memory routines of \<^verbatim>\<open>common/tl_string.c\<close>.  Source and destination may be parts of one object and
  their alignment matters, so the memory is one byte list \<open>m\<close> and pointers are indices into it.
  A 32-bit access at an address that is not a multiple of four and an access outside the memory are
  \<open>None\<close>.  The build has \<^verbatim>\<open>DEBUG_MEM_VIOLATION\<close> and \<^verbatim>\<open>TRAP_DEBUG_ENABLE\<close> off.
\<close>

section \<open>Word access\<close>

definition rd32 :: "bytes \<Rightarrow> nat \<Rightarrow> bytes option" where
  "rd32 m a = (if a mod 4 = 0 then rd_range m a 4 else None)"

definition wr32 :: "bytes \<Rightarrow> nat \<Rightarrow> bytes \<Rightarrow> bytes option" where
  "wr32 m a w = (if a mod 4 = 0 then wr_range m a w else None)"

section \<open>Operations\<close>

text \<open>The string length, \<open>None\<close> for the null pointer; at most \<open>0xFFFFF\<close>.\<close>

function tstrlen_loop :: "bytes \<Rightarrow> nat \<Rightarrow> nat \<Rightarrow> nat option" where
  "tstrlen_loop m pStr len =
     do { c \<leftarrow> rd8 m pStr;
          if c = 0 then Some len
          else if len + 1 \<ge> 0xFFFFF then Some (len + 1)
          else tstrlen_loop m (pStr + 1) (len + 1) }"
  by pat_completeness auto
termination by (relation "measure (\<lambda>(m, p, len). 0xFFFFF - len)") auto

definition tstrlen :: "bytes \<Rightarrow> nat option \<Rightarrow> nat option" where
  "tstrlen m pStr = (case pStr of None \<Rightarrow> Some 0 | Some p \<Rightarrow> tstrlen_loop m p 0)"

fun tmemcmp_loop :: "bytes \<Rightarrow> nat \<Rightarrow> nat \<Rightarrow> nat \<Rightarrow> int option" where
  "tmemcmp_loop m st1 st2 0 = Some 0"
| "tmemcmp_loop m st1 st2 (Suc n) =
     do { a \<leftarrow> rd8 m st1;
          b \<leftarrow> rd8 m st2;
          if a \<noteq> b then Some (int (unat a) - int (unat b)) else tmemcmp_loop m (st1 + 1) (st2 + 1) n }"

definition tmemcmp :: "bytes \<Rightarrow> nat \<Rightarrow> nat \<Rightarrow> u32 \<Rightarrow> int option" where
  "tmemcmp m m1 m2 len = tmemcmp_loop m m1 m2 (unat len)"

fun tmemcmp4_loop :: "bytes \<Rightarrow> nat \<Rightarrow> nat \<Rightarrow> nat \<Rightarrow> int option" where
  "tmemcmp4_loop m st1 st2 0 = Some 0"
| "tmemcmp4_loop m st1 st2 (Suc n) =
     do { a \<leftarrow> rd32 m st1;
          b \<leftarrow> rd32 m st2;
          if a \<noteq> b then Some 1 else tmemcmp4_loop m (st1 + 4) (st2 + 4) n }"

definition tmemcmp4 :: "bytes \<Rightarrow> nat \<Rightarrow> nat \<Rightarrow> u32 \<Rightarrow> int option" where
  "tmemcmp4 m m1 m2 len = tmemcmp4_loop m m1 m2 (unat (drop_bit 2 len))"

fun tmemset_loop :: "bytes \<Rightarrow> nat \<Rightarrow> u8 \<Rightarrow> nat \<Rightarrow> bytes option" where
  "tmemset_loop m ptr v 0 = Some m"
| "tmemset_loop m ptr v (Suc n) = do { m' \<leftarrow> wr8 m ptr v; tmemset_loop m' (ptr + 1) v n }"

definition tmemset :: "bytes \<Rightarrow> nat \<Rightarrow> u32 \<Rightarrow> u32 \<Rightarrow> bytes option" where
  "tmemset m dest val len = tmemset_loop m dest (ucast val) (unat len)"

fun tmemset4_loop :: "bytes \<Rightarrow> nat \<Rightarrow> u32 \<Rightarrow> nat \<Rightarrow> bytes option" where
  "tmemset4_loop m ptr v 0 = Some m"
| "tmemset4_loop m ptr v (Suc n) = do { m' \<leftarrow> wr32 m ptr (UINT32_TO_BSTREAM v); tmemset4_loop m' (ptr + 4) v n }"

definition tmemset4 :: "bytes \<Rightarrow> nat \<Rightarrow> u32 \<Rightarrow> u32 \<Rightarrow> bytes option" where
  "tmemset4 m dest val len = tmemset4_loop m dest val (unat (drop_bit 2 len))"

fun copy_bytes :: "bytes \<Rightarrow> nat \<Rightarrow> nat \<Rightarrow> nat \<Rightarrow> bytes option" where
  "copy_bytes m d s 0 = Some m"
| "copy_bytes m d s (Suc n) =
     do { x \<leftarrow> rd8 m s;
          m' \<leftarrow> wr8 m d x;
          copy_bytes m' (d + 1) (s + 1) n }"

fun copy_words :: "bytes \<Rightarrow> nat \<Rightarrow> nat \<Rightarrow> nat \<Rightarrow> bytes option" where
  "copy_words m d s 0 = Some m"
| "copy_words m d s (Suc n) =
     do { x \<leftarrow> rd32 m s;
          m' \<leftarrow> wr32 m d x;
          copy_words m' (d + 4) (s + 4) n }"

definition tmemcpy1 :: "bytes \<Rightarrow> nat \<Rightarrow> nat \<Rightarrow> u32 \<Rightarrow> bytes option" where
  "tmemcpy1 m out inp len = copy_bytes m out inp (unat len)"

definition tmemcpy4 :: "bytes \<Rightarrow> nat \<Rightarrow> nat \<Rightarrow> u32 \<Rightarrow> bytes option" where
  "tmemcpy4 m d s len =
     (let int_length = unat len div 4; char_length = unat len mod 4 in
      do { m1 \<leftarrow> copy_words m d s int_length;
           copy_bytes m1 (d + 4 * int_length) (s + 4 * int_length) char_length })"

definition tmemcpy :: "bytes \<Rightarrow> nat \<Rightarrow> nat \<Rightarrow> u32 \<Rightarrow> bytes option" where
  "tmemcpy m d s len =
     (let n = unat len; d_align_offset = d mod 4; s_align_offset = s mod 4 in
      if d_align_offset = s_align_offset
      then let prefix_len = (4 - s_align_offset) mod 4;
               copy_prefix = (if n > prefix_len then prefix_len else n);
               n1 = n - copy_prefix;
               words_num = n1 div 4
           in do { m1 \<leftarrow> copy_bytes m d s copy_prefix;
                   m2 \<leftarrow> copy_words m1 (d + copy_prefix) (s + copy_prefix) words_num;
                   copy_bytes m2 (d + copy_prefix + words_num * 4) (s + copy_prefix + words_num * 4) (n1 - words_num * 4) }
      else copy_bytes m d s n)"

section \<open>Copying\<close>

text \<open>The reference: the \<open>n\<close> bytes at \<open>s\<close>, all read first, replace those at \<open>d\<close>.\<close>

definition move :: "bytes \<Rightarrow> nat \<Rightarrow> nat \<Rightarrow> nat \<Rightarrow> bytes option" where
  "move m d s n = do { x \<leftarrow> rd_range m s n; wr_range m d x }"

text \<open>
  Copying upwards is right when the destination does not start inside the source: it starts at or
  below it, or behind it.
\<close>

definition copy_ok :: "bytes \<Rightarrow> nat \<Rightarrow> nat \<Rightarrow> nat \<Rightarrow> bool" where
  "copy_ok m d s n \<longleftrightarrow> d + n \<le> length m \<and> s + n \<le> length m \<and> (d \<le> s \<or> s + n \<le> d)"

lemma move_0: "copy_ok m d s 0 \<Longrightarrow> move m d s 0 = Some m"
  by (simp add: move_def copy_ok_def rd_range_def wr_range_def)

lemma move_step:
  assumes "copy_ok m d s (k + n)"
  shows "\<exists>m1. move m d s k = Some m1 \<and> copy_ok m1 (d + k) (s + k) n \<and> move m d s (k + n) = move m1 (d + k) (s + k) n"
proof -
  have b: "d + (k + n) \<le> length m" "s + (k + n) \<le> length m" "d \<le> s \<or> s + (k + n) \<le> d" using assms by (auto simp: copy_ok_def)
  let ?x = "take k (drop s m)" let ?y = "take n (drop (s + k) m)"
  have x: "rd_range m s k = Some ?x" "length ?x = k" using b by (auto simp: rd_range_def)
  obtain m1 where m1: "wr_range m d ?x = Some m1" using b x(2) by (auto simp: wr_range_def)
  have l1: "length m1 = length m" using wr_range_length [OF m1] .
  have "rd_range m1 (s + k) n = rd_range m (s + k) n"
    using b x(2) by (intro rd_wr_range_disjoint [OF m1]) auto
  then have y: "rd_range m1 (s + k) n = Some ?y" using b by (simp add: rd_range_def)
  have "take (k + n) (drop s m) = ?x @ ?y" by (simp add: take_add add.commute)
  then have xy: "rd_range m s (k + n) = Some (?x @ ?y)" using b(2) by (simp add: rd_range_def)
  have "move m d s (k + n) = wr_range m d (?x @ ?y)" unfolding move_def xy by simp
  also have "\<dots> = wr_range m1 (d + k) ?y" using wr_range_append [OF m1, of ?y] x(2) by simp
  also have "\<dots> = move m1 (d + k) (s + k) n" unfolding move_def y by simp
  finally have "move m d s (k + n) = move m1 (d + k) (s + k) n" .
  moreover have "move m d s k = Some m1" unfolding move_def x(1) using m1 by simp
  moreover have "copy_ok m1 (d + k) (s + k) n" using b l1 by (auto simp: copy_ok_def)
  ultimately show ?thesis by blast
qed

lemma copy_bytes_move: "copy_ok m d s n \<Longrightarrow> copy_bytes m d s n = move m d s n"
proof (induction n arbitrary: m d s)
  case 0
  then show ?case by (simp add: move_0)
next
  case (Suc n)
  obtain m1 where m1: "move m d s 1 = Some m1" "copy_ok m1 (d + 1) (s + 1) n" "move m d s (Suc n) = move m1 (d + 1) (s + 1) n"
    using move_step [of m d s 1 n] Suc.prems by auto
  have "s < length m" using Suc.prems by (simp add: copy_ok_def)
  then have "wr8 m d (m ! s) = Some m1" using m1(1) by (simp add: move_def rd_range_def wr8_as_range take_Suc_conv_app_nth Cons_nth_drop_Suc [symmetric])
  then show ?case using Suc.IH [OF m1(2)] m1(3) \<open>s < length m\<close> by (simp add: rd8_def)
qed

lemma copy_words_move:
  "copy_ok m d s (4 * n) \<Longrightarrow> d mod 4 = 0 \<Longrightarrow> s mod 4 = 0 \<Longrightarrow> copy_words m d s n = move m d s (4 * n)"
proof (induction n arbitrary: m d s)
  case 0
  then show ?case by (simp add: move_0)
next
  case (Suc n)
  obtain m1 where m1: "move m d s 4 = Some m1" "copy_ok m1 (d + 4) (s + 4) (4 * n)" "move m d s (4 * Suc n) = move m1 (d + 4) (s + 4) (4 * n)"
    using move_step [of m d s 4 "4 * n"] Suc.prems(1) by auto
  have "(d + 4) mod 4 = 0" "(s + 4) mod 4 = 0" using Suc.prems by simp_all
  then show ?case using Suc.IH [OF m1(2)] m1(1,3) Suc.prems by (auto simp: rd32_def wr32_def move_def bind_eq_Some_conv)
qed


lemma copy_words_move_prefix:
  assumes "copy_ok m d s (4 * k + n)" "d mod 4 = 0" "s mod 4 = 0"
  shows "\<exists>m1. copy_words m d s k = Some m1 \<and> copy_ok m1 (d + 4 * k) (s + 4 * k) n
     \<and> move m d s (4 * k + n) = move m1 (d + 4 * k) (s + 4 * k) n"
proof -
  have "copy_ok m d s (4 * k)" using assms(1) by (auto simp: copy_ok_def)
  then show ?thesis using move_step [OF assms(1)] copy_words_move [of m d s k] assms(2,3) by auto
qed

text \<open>The prefix length brings an address to the next multiple of four.\<close>

lemma align_up: "(s + (4 - s mod 4) mod 4) mod 4 = (0::nat)"
proof -
  define q r where "q = s div 4" and "r = s mod 4"
  have "r < 4" "s = 4 * q + r" by (simp_all add: q_def r_def)
  then have "s + (4 - r) = 4 * (q + 1)" by simp
  then have "s + (4 - s mod 4) = 4 * (s div 4 + 1)" unfolding q_def r_def .
  then have "(s + (4 - s mod 4)) mod 4 = 0" by (metis mod_mult_self1_is_0)
  then show ?thesis by (simp only: mod_add_right_eq)
qed

section \<open>Comparing and filling\<close>

lemma tmemcmp_loop_spec:
  "st1 + n \<le> length m \<Longrightarrow> st2 + n \<le> length m \<Longrightarrow>
     \<exists>r. tmemcmp_loop m st1 st2 n = Some r \<and> (r = 0 \<longleftrightarrow> take n (drop st1 m) = take n (drop st2 m))"
proof (induction n arbitrary: st1 st2)
  case (Suc n)
  obtain r where r: "tmemcmp_loop m (st1 + 1) (st2 + 1) n = Some r" "r = 0 \<longleftrightarrow> take n (drop (st1 + 1) m) = take n (drop (st2 + 1) m)"
    using Suc.IH [of "st1 + 1" "st2 + 1"] Suc.prems by auto
  have "drop st1 m = m ! st1 # drop (st1 + 1) m" "drop st2 m = m ! st2 # drop (st2 + 1) m"
    using Suc.prems Cons_nth_drop_Suc [of st1 m] Cons_nth_drop_Suc [of st2 m] by simp_all
  then show ?case using r Suc.prems by (auto simp: rd8_def word_uint_eq_iff)
qed simp

lemma tmemset_loop_spec: "p + n \<le> length m \<Longrightarrow> tmemset_loop m p v n = wr_range m p (replicate n v)"
proof (induction n arbitrary: m p)
  case 0
  then show ?case by (simp add: wr_range_def)
next
  case (Suc n)
  then obtain m1 where m1: "wr_range m p [v] = Some m1" by (auto simp: wr_range_def)
  then have "tmemset_loop m1 (p + 1) v n = wr_range m1 (p + 1) (replicate n v)"
    using Suc wr_range_length [OF m1] by simp
  then show ?case using m1 wr_range_append [OF m1, of "replicate n v"] by (simp add: wr8_as_range)
qed

lemma tmemset4_loop_spec:
  "p + 4 * n \<le> length m \<Longrightarrow> p mod 4 = 0 \<Longrightarrow> tmemset4_loop m p v n = wr_range m p (concat (replicate n (UINT32_TO_BSTREAM v)))"
proof (induction n arbitrary: m p)
  case 0
  then show ?case by (simp add: wr_range_def)
next
  case (Suc n)
  then obtain m1 where m1: "wr_range m p (UINT32_TO_BSTREAM v) = Some m1" by (auto simp: wr_range_def)
  moreover have "(p + 4) mod 4 = 0" using Suc.prems(2) by simp
  ultimately have "tmemset4_loop m1 (p + 4) v n = wr_range m1 (p + 4) (concat (replicate n (UINT32_TO_BSTREAM v)))"
    using Suc wr_range_length [OF m1] by simp
  then show ?case using m1 wr_range_append [OF m1, of "concat (replicate n (UINT32_TO_BSTREAM v))"] Suc.prems(2) by (simp add: wr32_def)
qed

section \<open>Properties\<close>

text \<open>
  C30.  The optimised copy, whatever the alignment of its arguments and the length, does what the byte loop
  does and what copying the whole range at once does, as long as the destination does not start inside
  the source; it never makes a misaligned word access.
\<close>

theorem tmemcpy_equivalent:
  assumes "copy_ok m d s (unat len)"
  shows "tmemcpy m d s len = tmemcpy1 m d s len
     \<and> tmemcpy m d s len = do { x \<leftarrow> rd_range m s (unat len); wr_range m d x }"
proof -
  let ?n = "unat len"
  have "tmemcpy m d s len = move m d s ?n"
  proof (cases "d mod 4 = s mod 4")
    case False
    then show ?thesis using copy_bytes_move [OF assms] by (simp add: tmemcpy_def Let_def)
  next
    case True
    define p where "p = (if ?n > (4 - s mod 4) mod 4 then (4 - s mod 4) mod 4 else ?n)"
    define w where "w = (?n - p) div 4"
    have pn: "p \<le> ?n" by (simp add: p_def)
    have n1: "?n - p = 4 * w + (?n - p - w * 4)" by (simp add: w_def)
    obtain m1 where m1: "move m d s p = Some m1" "copy_ok m1 (d + p) (s + p) (?n - p)" "move m d s ?n = move m1 (d + p) (s + p) (?n - p)"
      using move_step [of m d s p "?n - p"] assms pn by auto
    have cb: "copy_bytes m d s p = Some m1"
      using copy_bytes_move [of m d s p] m1(1) assms pn by (auto simp: copy_ok_def)
    have al: "w = 0 \<or> (d + p) mod 4 = 0 \<and> (s + p) mod 4 = 0"
    proof (cases "?n > (4 - s mod 4) mod 4")
      case True2: True
      note align_up [of s]
      moreover have "(d + (4 - s mod 4) mod 4) mod 4 = (s + (4 - s mod 4) mod 4) mod 4" using True by (metis mod_add_left_eq)
      ultimately show ?thesis using True2 by (simp add: p_def)
    qed (simp add: p_def w_def)
    have "\<exists>m2. copy_words m1 (d + p) (s + p) w = Some m2 \<and> copy_ok m2 (d + p + 4 * w) (s + p + 4 * w) (?n - p - w * 4)
        \<and> move m1 (d + p) (s + p) (?n - p) = move m2 (d + p + 4 * w) (s + p + 4 * w) (?n - p - w * 4)"
      using al
    proof
      assume "w = 0"
      then show ?thesis using m1(2) by simp
    next
      assume "(d + p) mod 4 = 0 \<and> (s + p) mod 4 = 0"
      then show ?thesis using copy_words_move_prefix [of m1 "d + p" "s + p" w "?n - p - w * 4"] m1(2) n1 by metis
    qed
    then obtain m2 where m2: "copy_words m1 (d + p) (s + p) w = Some m2" "copy_ok m2 (d + p + 4 * w) (s + p + 4 * w) (?n - p - w * 4)"
        "move m1 (d + p) (s + p) (?n - p) = move m2 (d + p + 4 * w) (s + p + 4 * w) (?n - p - w * 4)" by blast
    have "tmemcpy m d s len = copy_bytes m2 (d + p + w * 4) (s + p + w * 4) (?n - p - w * 4)"
      using True cb m2(1) by (simp add: tmemcpy_def Let_def p_def [symmetric] w_def [symmetric])
    then show ?thesis using copy_bytes_move [OF m2(2)] m1(3) m2(3) by (simp add: mult.commute)
  qed
  then show ?thesis using copy_bytes_move [OF assms] by (simp add: tmemcpy1_def move_def)
qed

theorem tmemcpy_equivalent_witness:
  "tmemcpy [1, 2, 3, 4, 5, 6, 7, 8, 9, 10] 1 5 5 = Some [1, 6, 7, 8, 9, 10, 7, 8, 9, 10]"
  using conjunct2 [OF tmemcpy_equivalent [of "[1, 2, 3, 4, 5, 6, 7, 8, 9, 10]" 1 5 5]]
  by (simp add: copy_ok_def rd_range_def wr_range_def)

text \<open>
  The word copy agrees with the byte loop when both addresses are aligned, for every length: the bytes
  left over after the last whole word are copied as well.
\<close>

theorem tmemcpy4_equivalent:
  assumes "copy_ok m d s (unat len)" "d mod 4 = 0" "s mod 4 = 0"
  shows "tmemcpy4 m d s len = tmemcpy1 m d s len"
proof -
  let ?k = "unat len div 4" and ?r = "unat len mod 4"
  have n: "unat len = 4 * ?k + ?r" by simp
  obtain m1 where m1: "copy_words m d s ?k = Some m1" "copy_ok m1 (d + 4 * ?k) (s + 4 * ?k) ?r"
      "move m d s (4 * ?k + ?r) = move m1 (d + 4 * ?k) (s + 4 * ?k) ?r"
    using copy_words_move_prefix [of m d s ?k ?r] assms n by metis
  have "tmemcpy4 m d s len = move m1 (d + 4 * ?k) (s + 4 * ?k) ?r"
    using m1(1) copy_bytes_move [OF m1(2)] by (simp add: tmemcpy4_def Let_def)
  then show ?thesis using m1(3) copy_bytes_move [OF assms(1)] by (simp add: tmemcpy1_def)
qed

theorem tmemcpy4_equivalent_witness:
  "tmemcpy4 [1, 2, 3, 4, 5, 6, 7, 8, 9, 10] 0 4 5 = tmemcpy1 [1, 2, 3, 4, 5, 6, 7, 8, 9, 10] 0 4 5"
  by (rule tmemcpy4_equivalent) (simp_all add: copy_ok_def)

text \<open>
  Comparison returns zero exactly on equal ranges; filling sets every byte of the range and nothing else.
\<close>

theorem tmemcmp_tmemset_correct:
  assumes "a + unat len \<le> length m" "b + unat len \<le> length m"
  shows "(tmemcmp m a b len = Some 0 \<longleftrightarrow> take (unat len) (drop a m) = take (unat len) (drop b m))
     \<and> tmemcmp m a b len \<noteq> None
     \<and> tmemset m a val len = Some (take a m @ replicate (unat len) (ucast val) @ drop (a + unat len) m)"
  using tmemcmp_loop_spec [OF assms] tmemset_loop_spec [OF assms(1), of "ucast val"] assms
  by (auto simp: tmemcmp_def tmemset_def wr_range_def)

theorem tmemcmp_tmemset_correct_witness:
  "tmemcmp [1, 2, 1, 3] 0 2 2 \<noteq> Some 0 \<and> tmemset [1, 2, 1, 3] 0 0x1FF 2 = Some [0xFF, 0xFF, 1, 3]"
proof -
  have "replicate 2 x = [x, x]" for x :: u8 by (simp add: numeral_2_eq_2)
  then show ?thesis using tmemcmp_tmemset_correct [of 0 2 "[1, 2, 1, 3]" 2 "0x1FF"] by simp
qed


text \<open>
  The string length of a terminated string shorter than the limit is the position of its terminator,
  also when the string is followed by other data.
\<close>

lemma tstrlen_loop_string:
  "0 \<notin> set str \<Longrightarrow> len + length str < 0xFFFFF \<Longrightarrow> tstrlen_loop (pre @ str @ 0 # post) (length pre) len = Some (len + length str)"
proof (induction str arbitrary: pre len)
  case Nil
  then show ?case by (subst tstrlen_loop.simps) (simp add: rd8_def)
next
  case (Cons c str)
  have "tstrlen_loop ((pre @ [c]) @ str @ 0 # post) (length (pre @ [c])) (len + 1) = Some (len + 1 + length str)"
    using Cons by (intro Cons.IH) simp_all
  then show ?case using Cons.prems by (subst tstrlen_loop.simps) (simp add: rd8_def del: tstrlen_loop.simps)
qed

theorem tstrlen_correct:
  assumes "0 \<notin> set str" "length str < 0xFFFFF"
  shows "tstrlen (pre @ str @ 0 # post) (Some (length pre)) = Some (length str)"
  using tstrlen_loop_string [OF assms(1), of 0 pre post] assms(2) by (simp add: tstrlen_def del: tstrlen_loop.simps)

theorem tstrlen_correct_witness: "tstrlen [9, 0x61, 0x62, 0, 0x63] (Some 1) = Some 2"
  using tstrlen_correct [of "[0x61, 0x62]" "[9]" "[0x63]"] by (simp del: tstrlen_loop.simps)

text \<open>
  The word comparison looks at whole words only: bytes behind the last whole word do not count.
\<close>

theorem tmemcmp4_ignores_tail: "tmemcmp4 [1, 2, 3, 4, 5, 0, 0, 0, 1, 2, 3, 4, 6, 0, 0, 0] 0 8 5 = Some 0"
proof -
  have "unat (drop_bit 2 5 :: u32) = Suc 0" by simp
  then show ?thesis unfolding tmemcmp4_def by (simp add: rd32_def rd_range_def)
qed

end
