(* ===== verification/Flash_Area.thy ===== *)
theory Flash_Area
  imports Nor_Flash
begin

unbundle bit_operations_syntax

text \<open>
  The clients of the flash driver own areas of the flash.  What is read from an area is a list of bytes, and
  the driver's operations inside it are operations on that list: a write clears bits (\<open>nor_prog\<close>), the erasure
  of a sector sets bytes (\<open>nor_fill\<close>), a read takes a part.  The lemmas are proved in the locale \<open>nor_flash\<close>
  and used by the clients through its interpretation \<open>flash\<close>.
\<close>

section \<open>Programming and erasing on lists\<close>

definition nor_prog :: "nat \<Rightarrow> bytes \<Rightarrow> bytes \<Rightarrow> bytes" where
  "nor_prog off d xs =
     map (\<lambda>i. if off \<le> i \<and> i < off + length d then xs ! i AND d ! (i - off) else xs ! i) [0..<length xs]"

definition nor_fill :: "nat \<Rightarrow> nat \<Rightarrow> bytes \<Rightarrow> bytes" where
  "nor_fill off n xs = map (\<lambda>i. if off \<le> i \<and> i < off + n then 0xFF else xs ! i) [0..<length xs]"

lemma length_nor_prog [simp]: "length (nor_prog off d xs) = length xs"
  by (simp add: nor_prog_def)

lemma length_nor_fill [simp]: "length (nor_fill off n xs) = length xs"
  by (simp add: nor_fill_def)

lemma nth_nor_prog:
  "i < length xs \<Longrightarrow> nor_prog off d xs ! i =
     (if off \<le> i \<and> i < off + length d then xs ! i AND d ! (i - off) else xs ! i)"
  by (simp add: nor_prog_def)

lemma nth_nor_fill:
  "i < length xs \<Longrightarrow> nor_fill off n xs ! i = (if off \<le> i \<and> i < off + n then 0xFF else xs ! i)"
  by (simp add: nor_fill_def)

text \<open>Programming after erasing, or over erased bytes, is a plain store.\<close>

lemma nor_prog_erased:
  assumes "off + length d \<le> length xs" "\<And>i. off \<le> i \<Longrightarrow> i < off + length d \<Longrightarrow> xs ! i = 0xFF"
  shows "nor_prog off d xs = take off xs @ d @ drop (off + length d) xs"
  using assms by (intro nth_equalityI) (auto simp: nth_nor_prog nth_append and_FF_u8)

lemma nor_prog_fill:
  assumes "off + n \<le> length xs" "length d \<le> n"
  shows "nor_prog off d (nor_fill off n xs) = take off xs @ d @ replicate (n - length d) 0xFF @ drop (off + n) xs"
  using assms by (intro nth_equalityI) (auto simp: nth_nor_prog nth_nor_fill nth_append and_FF_u8)

section \<open>The driver on an area\<close>

lemma area_index:
  assumes "i < n" "n \<le> 2 ^ 24" "off + k \<le> n"
  shows "unat ((of_nat i :: 24 word) - of_nat off) < k \<longleftrightarrow> off \<le> i \<and> i < off + k"
    and "off \<le> i \<Longrightarrow> unat ((of_nat i :: 24 word) - of_nat off) = i - off"
proof -
  have u: "unat (of_nat i :: 24 word) = i" "unat (of_nat off :: 24 word) = off \<or> k = 0"
    using assms by (auto simp: unat_of_nat)
  have le: "unat ((of_nat i :: 24 word) - of_nat off) = i - off" if "off \<le> i"
  proof -
    have "(of_nat i :: 24 word) - of_nat off = of_nat (i - off)" using that by simp
    then show ?thesis using assms(1,2) by (simp add: unat_of_nat)
  qed
  then show "off \<le> i \<Longrightarrow> unat ((of_nat i :: 24 word) - of_nat off) = i - off" .
  show "unat ((of_nat i :: 24 word) - of_nat off) < k \<longleftrightarrow> off \<le> i \<and> i < off + k"
  proof (cases "off \<le> i")
    case True
    then show ?thesis using le by auto
  next
    case False
    have "\<not> unat ((of_nat i :: 24 word) - of_nat off) < k"
    proof
      let ?w = "(of_nat i :: 24 word) - of_nat off"
      assume k: "unat ?w < k"
      then have off: "unat (of_nat off :: 24 word) = off" using assms by (auto simp: unat_of_nat)
      have "unat (of_nat off + ?w) = off + unat ?w"
        using k assms off by (subst unat_word_add_no_wrap) auto
      then show False using False u(1) by simp
    qed
    then show ?thesis using False by simp
  qed
qed

context nor_flash
begin

lemma area_rd:
  assumes "off + k \<le> n"
  shows "rd (a + of_nat off) k m = take k (drop off (rd a n m))"
  using assms by (intro nth_equalityI) (auto simp: rd_nth ucast_add_24 ucast_of_nat_24 add.assoc)

lemma area_wr:
  assumes "off + length d \<le> n" "n \<le> 2 ^ 24"
  shows "rd a n (wr (a + of_nat off) d m) = nor_prog off d (rd a n m)"
proof (rule nth_equalityI)
  fix i assume "i < length (rd a n (wr (a + of_nat off) d m))"
  then have i: "i < n" by simp
  have "unat ((ucast a + of_nat i) - ucast (a + of_nat off) :: 24 word) = unat ((of_nat i :: 24 word) - of_nat off)"
    by (simp add: ucast_add_24 ucast_of_nat_24)
  then show "rd a n (wr (a + of_nat off) d m) ! i = nor_prog off d (rd a n m) ! i"
    using i assms area_index [OF i assms(2,1)] by (auto simp: rd_nth nth_nor_prog cell_wr)
qed simp

text \<open>Cells outside the area are not touched.\<close>

lemma area_wr_frame:
  assumes "off + length d \<le> n" "n \<le> 2 ^ 24" "n \<le> unat (x - ucast a)"
  shows "cell (wr (a + of_nat off) d m) x = cell m x"
proof -
  have x: "x = ucast a + of_nat (unat (x - ucast a))" by simp
  have lt: "unat (x - ucast a) < 2 ^ 24" using unsigned_less [of "x - ucast a"] by simp
  have e: "x - ucast (a + of_nat off) = (of_nat (unat (x - ucast a)) :: 24 word) - of_nat off"
    by (simp add: ucast_add_24 ucast_of_nat_24)
  have "\<not> unat (x - ucast (a + of_nat off)) < length d"
    unfolding e using area_index(1) [OF lt order.refl, of off "length d"] assms by linarith
  then show ?thesis using assms(1,2) cell_wr [of d "a + of_nat off" m x] by (simp only: if_False)
qed

lemma area_er:
  assumes "a AND 0xFFF = 0" "off mod 0x1000 = 0" "off + 0x1000 \<le> n" "n \<le> 2 ^ 24"
  shows "rd a n (er (a + of_nat off) m) = nor_fill off 0x1000 (rd a n m)"
proof (rule nth_equalityI)
  fix i assume "i < length (rd a n (er (a + of_nat off) m))"
  then have i: "i < n" by simp
  have "unat ((ucast a + of_nat i) - ucast a :: 24 word) = i" using i assms(4) by (simp add: unat_of_nat)
  then have "drop_bit 12 (ucast a + of_nat i :: 24 word) = drop_bit 12 (ucast a + of_nat off)
      \<longleftrightarrow> off \<le> i \<and> i < off + 0x1000"
    using sector_index [OF aligned_24 [OF assms(1)] assms(2), of "ucast a + of_nat i"] assms(3,4) by simp
  then show "rd a n (er (a + of_nat off) m) ! i = nor_fill off 0x1000 (rd a n m) ! i"
    using i by (simp add: rd_nth nth_nor_fill cell_er ucast_add_24 ucast_of_nat_24)
qed simp

lemma area_er_frame:
  assumes "a AND 0xFFF = 0" "off mod 0x1000 = 0" "off + 0x1000 \<le> n" "n \<le> 2 ^ 24" "n \<le> unat (x - ucast a)"
  shows "cell (er (a + of_nat off) m) x = cell m x"
  using sector_index [OF aligned_24 [OF assms(1)] assms(2), of x] assms(3-5)
  by (simp add: cell_er ucast_add_24 ucast_of_nat_24)

end

end
