(* ===== verification/Simple_Sdp.thy ===== *)
theory Simple_Sdp
  imports Device_Manage Flash_Area Packet_Fifo
begin

unbundle bit_operations_syntax

text \<open>
  The simple service discovery client of \<^verbatim>\<open>vendor/common/simple_sdp.c\<close>: the table of attribute handles
  of known peers that it keeps in the flash, and the lookups in the discovered characteristics.

  The flash table has units of 32 bytes (\<^verbatim>\<open>dev_att_t\<close>).  A unit is free while its mark is \<open>0xFF\<close>, bonded
  when the mark is \<^verbatim>\<open>ATT_BOND_MARK\<close> and deleted when it is \<^verbatim>\<open>ATT_ERASE_MARK\<close>; as programming only clears bits
  it is used once.  \<open>sec\<close> is the address \<^verbatim>\<open>flash_sector_simple_sdp_att\<close> of the table, and the application's
  \<^verbatim>\<open>sdp_info_store_cb\<close> is a function on the flash.  The loops are partial functions: \<open>None\<close> is a loop that
  does not end.  \<^verbatim>\<open>PEER_SLAVE_USE_RPA_EN\<close> is off.
\<close>

section \<open>Data\<close>

definition CHAR_HANDLE_MAX :: nat where "CHAR_HANDLE_MAX = 8"
definition FLASH_SDP_ATT_MAX_SIZE :: u32 where "FLASH_SDP_ATT_MAX_SIZE = 2 * 4096"
definition ATT_BOND_MARK :: u8 where "ATT_BOND_MARK = 0x5A"
definition ATT_ERASE_MARK :: u8 where "ATT_ERASE_MARK = 0"

record dev_att_t =
  da_flag :: u8
  da_adr_type :: u8
  da_addr :: bytes
  da_rsvd :: bytes
  da_char_handle :: "u16 list"

text \<open>The structure in memory: its size, and the view of 32 bytes as one.\<close>

definition sizeof_dev_att :: nat where "sizeof_dev_att = 32"
definition OFFSETOF_adr_type :: nat where "OFFSETOF_adr_type = 1"
definition OFFSETOF_char_handle :: nat where "OFFSETOF_char_handle = 16"

definition u16_at :: "bytes \<Rightarrow> nat \<Rightarrow> u16" where
  "u16_at b i = ucast (b ! i) + push_bit 8 (ucast (b ! (i + 1)))"

definition dev_att_of :: "bytes \<Rightarrow> dev_att_t" where
  "dev_att_of b = \<lparr>da_flag = b ! 0, da_adr_type = b ! 1, da_addr = take 6 (drop 2 b), da_rsvd = take 8 (drop 8 b),
     da_char_handle = map (\<lambda>j. u16_at b (OFFSETOF_char_handle + 2 * j)) [0..<CHAR_HANDLE_MAX]\<rparr>"

record att_db_uuid16_t =
  a16_num :: u8
  a16_property :: u8
  a16_handle :: u16
  a16_uuid :: u16
  a16_ref :: u16

record att_db_uuid128_t =
  a128_num :: u8
  a128_property :: u8
  a128_handle :: u16
  a128_uuid :: bytes

section \<open>Lookups in the discovered characteristics\<close>

text \<open>\<open>None\<close> is a read beyond the array.\<close>

function find16_loop :: "att_db_uuid16_t list \<Rightarrow> nat \<Rightarrow> nat \<Rightarrow> u16 \<Rightarrow> u16 \<Rightarrow> u16 option" where
  "find16_loop p i num uuid ref =
     (if i < num
      then if i < length p
           then if a16_uuid (p ! i) = uuid \<and> a16_ref (p ! i) = ref then Some (a16_handle (p ! i))
                else find16_loop p (i + 1) num uuid ref
           else None
      else Some 0)"
  by pat_completeness auto
termination by (relation "measure (\<lambda>(p, i, num, _, _). num - i)") auto

declare find16_loop.simps [simp del]

definition blm_att_findHandleOfUuid16 :: "att_db_uuid16_t list \<Rightarrow> u16 \<Rightarrow> u16 \<Rightarrow> u16 option" where
  "blm_att_findHandleOfUuid16 p uuid ref =
     (if p = [] then None else find16_loop p 0 (unat (a16_num (p ! 0))) uuid ref)"

function find128_loop :: "att_db_uuid128_t list \<Rightarrow> nat \<Rightarrow> nat \<Rightarrow> bytes \<Rightarrow> u16 option" where
  "find128_loop p i num uuid =
     (if i < num
      then if i < length p
           then if a128_uuid (p ! i) = uuid then Some (a128_handle (p ! i)) else find128_loop p (i + 1) num uuid
           else None
      else Some 0)"
  by pat_completeness auto
termination by (relation "measure (\<lambda>(p, i, num, _). num - i)") auto

declare find128_loop.simps [simp del]

definition blm_att_findHandleOfUuid128 :: "att_db_uuid128_t list \<Rightarrow> bytes \<Rightarrow> u16 option" where
  "blm_att_findHandleOfUuid128 p uuid =
     (if p = [] then None else find128_loop p 0 (unat (a128_num (p ! 0))) uuid)"

section \<open>The handles of a connected peer\<close>

definition dev_char_info_add_peer_att_handle :: "dev_char_info_t \<Rightarrow> dev_table \<Rightarrow> int \<times> dev_table" where
  "dev_char_info_add_peer_att_handle d s =
     (case find (\<lambda>i. conn_handle (conn_dev_list s ! i) = conn_handle d) [0..<unat (acl_conn_central_num s)] of
        Some i \<Rightarrow> (0, s\<lparr>conn_dev_list := (conn_dev_list s)[i := (conn_dev_list s ! i)
                      \<lparr>char_handle := take CHAR_HANDLE_MAX (char_handle d), char_handle_valid := 1\<rparr>]\<rparr>)
      | None \<Rightarrow> (1, s))"

section \<open>The table in the flash\<close>

type_synonym sdp_info_store_cb_t = "u32 \<Rightarrow> dev_char_info_t \<Rightarrow> flash_mem \<Rightarrow> flash_mem"

text \<open>What is written into a free unit at \<open>cur\<close>; the mark is written last.\<close>

definition sdp_write_handle :: "u32 \<Rightarrow> nat \<Rightarrow> dev_char_info_t \<Rightarrow> flash_mem \<Rightarrow> flash_mem" where
  "sdp_write_handle cur j d =
     flash_page_program (cur + of_nat OFFSETOF_char_handle + of_nat j * 2) (UINT16_TO_BSTREAM (char_handle d ! j))"

definition sdp_write_unit ::
    "sdp_info_store_cb_t option \<Rightarrow> dev_char_info_t \<Rightarrow> u32 \<Rightarrow> flash_mem \<Rightarrow> flash_mem" where
  "sdp_write_unit cb d cur m =
     (let m1 = flash_page_program (cur + of_nat OFFSETOF_adr_type) (peer_adrType d # peer_addr d) m;
          m2 = sdp_write_handle cur 2 d m1;
          m3 = sdp_write_handle cur 3 d m2;
          m4 = sdp_write_handle cur 4 d m3;
          m5 = sdp_write_handle cur 5 d m4;
          m6 = (case cb of None \<Rightarrow> m5 | Some f \<Rightarrow> f cur d m5)
      in flash_page_program cur [ATT_BOND_MARK] m6)"

partial_function (option) sdp_store_loop ::
    "sdp_info_store_cb_t option \<Rightarrow> dev_char_info_t \<Rightarrow> u32 \<Rightarrow> u32 \<Rightarrow> flash_mem \<Rightarrow> (u32 \<times> flash_mem) option" where
  "sdp_store_loop cb d lim cur m =
     (if cur < lim
      then if flash_dread cur 1 m = [0xFF] then Some (cur, sdp_write_unit cb d cur m)
           else sdp_store_loop cb d lim (cur + of_nat sizeof_dev_att) m
      else Some (0, m))"

definition dev_char_info_store_peer_att_handle ::
    "u32 \<Rightarrow> sdp_info_store_cb_t option \<Rightarrow> dev_char_info_t \<Rightarrow> flash_mem \<Rightarrow> (u32 \<times> flash_mem) option" where
  "dev_char_info_store_peer_att_handle sec cb d m = sdp_store_loop cb d (sec + FLASH_SDP_ATT_MAX_SIZE) sec m"

text \<open>\<open>out\<close> is the caller's \<^verbatim>\<open>dev_att_t\<close>, overwritten by every bonded unit that is read.\<close>

partial_function (option) sdp_search_loop ::
    "u8 \<Rightarrow> bytes \<Rightarrow> u32 \<Rightarrow> u32 \<Rightarrow> dev_att_t \<Rightarrow> flash_mem \<Rightarrow> (u32 \<times> dev_att_t) option" where
  "sdp_search_loop adr_type addr lim cur out m =
     (if cur < lim
      then let mark = flash_dread cur 1 m ! 0; next = cur + of_nat sizeof_dev_att in
        if mark = 0xFF then Some (0, out)
        else if mark = ATT_ERASE_MARK then sdp_search_loop adr_type addr lim next out m
        else if mark = ATT_BOND_MARK
        then let out' = dev_att_of (flash_dread cur sizeof_dev_att m) in
             if adr_type = da_adr_type out' \<and> addr = da_addr out' then Some (cur, out')
             else sdp_search_loop adr_type addr lim next out' m
        else sdp_search_loop adr_type addr lim next out m
      else Some (0, out))"

definition dev_char_info_search_peer_att_handle_by_peer_mac ::
    "u32 \<Rightarrow> u8 \<Rightarrow> bytes \<Rightarrow> dev_att_t \<Rightarrow> flash_mem \<Rightarrow> (u32 \<times> dev_att_t) option" where
  "dev_char_info_search_peer_att_handle_by_peer_mac sec adr_type addr out m =
     sdp_search_loop adr_type addr (sec + FLASH_SDP_ATT_MAX_SIZE) sec out m"

text \<open>The deletion reads the first eight bytes of a bonded unit.\<close>

partial_function (option) sdp_delete_loop ::
    "u8 \<Rightarrow> bytes \<Rightarrow> u32 \<Rightarrow> u32 \<Rightarrow> flash_mem \<Rightarrow> (int \<times> flash_mem) option" where
  "sdp_delete_loop addrType addr lim cur m =
     (if cur < lim
      then let flag = flash_dread cur 1 m ! 0; next = cur + of_nat sizeof_dev_att in
        if flag = 0xFF then Some (1, m)
        else if flag = ATT_BOND_MARK
        then let dev_info = flash_dread cur 8 m in
             if dev_info ! 1 = addrType \<and> take 6 (drop 2 dev_info) = addr
             then Some (0, flash_page_program cur [ATT_ERASE_MARK] m)
             else sdp_delete_loop addrType addr lim next m
        else sdp_delete_loop addrType addr lim next m
      else Some (1, m))"

definition dev_char_info_delete_peer_att_handle_by_peer_mac ::
    "u32 \<Rightarrow> u8 \<Rightarrow> bytes \<Rightarrow> flash_mem \<Rightarrow> (int \<times> flash_mem) option" where
  "dev_char_info_delete_peer_att_handle_by_peer_mac sec addrType addr m =
     sdp_delete_loop addrType addr (sec + FLASH_SDP_ATT_MAX_SIZE) sec m"

section \<open>The units of the table\<close>

definition sdp_sector :: "u32 \<Rightarrow> bool" where
  "sdp_sector sec \<longleftrightarrow> 0 < unat sec \<and> unat sec + 8192 \<le> 2 ^ 24"

definition sdp_units :: "u32 \<Rightarrow> flash_mem \<Rightarrow> bytes list" where
  "sdp_units sec m = slots_of 32 256 (flash_dread sec 8192 m)"

definition sdp_at :: "u32 \<Rightarrow> nat \<Rightarrow> u32" where
  "sdp_at sec k = sec + of_nat (32 * k)"

lemma length_sdp_units [simp]: "length (sdp_units sec m) = 256"
  by (simp add: sdp_units_def)

lemma sdp_at_next: "sdp_at sec k + of_nat sizeof_dev_att = sdp_at sec (Suc k)"
  by (simp add: sdp_at_def sizeof_dev_att_def)

lemma sdp_at_0 [simp]: "sdp_at sec 0 = sec"
  by (simp add: sdp_at_def)

lemma unat_sdp_at: "sdp_sector sec \<Longrightarrow> k \<le> 256 \<Longrightarrow> unat (sdp_at sec k) = unat sec + 32 * k"
proof -
  assume "sdp_sector sec" "k \<le> 256"
  moreover have "unat (of_nat (32 * k) :: u32) = 32 * k" if "k \<le> 256"
    unfolding unat_of_nat using that by simp
  ultimately show ?thesis unfolding sdp_at_def sdp_sector_def by (subst unat_word_add_no_wrap) auto
qed

lemma sdp_at_less:
  assumes "sdp_sector sec" "k \<le> 256"
  shows "sdp_at sec k < sec + FLASH_SDP_ATT_MAX_SIZE \<longleftrightarrow> k < 256"
proof -
  have "sec + FLASH_SDP_ATT_MAX_SIZE = sdp_at sec 256" by (simp add: sdp_at_def FLASH_SDP_ATT_MAX_SIZE_def)
  then show ?thesis using unat_sdp_at [OF assms] unat_sdp_at [OF assms(1), of 256] by (simp add: word_less_nat_alt)
qed

lemma sdp_at_nonzero: "sdp_sector sec \<Longrightarrow> k \<le> 256 \<Longrightarrow> sdp_at sec k \<noteq> 0"
  using unat_sdp_at [of sec k] by (auto simp: sdp_sector_def)

lemma sdp_read:
  assumes "k < 256" "n \<le> 32"
  shows "flash_dread (sdp_at sec k) n m = take n (sdp_units sec m ! k)"
  using flash.area_rd [of "32 * k" n 8192 sec m] assms
  by (simp add: sdp_at_def sdp_units_def slots_of_def mult.commute)

lemma length_sdp_unit: "k < 256 \<Longrightarrow> length (sdp_units sec m ! k) = 32"
  using sdp_read [of k 32 sec m] flash.rd_length [of "sdp_at sec k" 32 m] by (simp add: sdp_units_def slots_of_def)

lemma sdp_mark: "k < 256 \<Longrightarrow> flash_dread (sdp_at sec k) 1 m = [sdp_units sec m ! k ! 0]"
  using sdp_read [of k 1 sec m] length_sdp_unit [of k sec m] by (simp add: take_Suc_conv_app_nth)

section \<open>The loops on the list of units\<close>

definition sdp_log :: "bytes list \<Rightarrow> bytes list" where
  "sdp_log us = takeWhile (\<lambda>u. u ! 0 \<noteq> 0xFF) us"

definition sdp_peer :: "bytes \<Rightarrow> u8 \<times> bytes" where
  "sdp_peer u = (u ! 1, take 6 (drop 2 u))"

definition sdp_bonded :: "bytes \<Rightarrow> bool" where
  "sdp_bonded u \<longleftrightarrow> u ! 0 = ATT_BOND_MARK"

definition sdp_handles :: "bytes \<Rightarrow> u16 list" where
  "sdp_handles u = map (\<lambda>j. u16_at u (16 + 2 * j)) [2..<6]"

fun sdp_find :: "u8 \<times> bytes \<Rightarrow> bytes list \<Rightarrow> nat option" where
  "sdp_find p [] = None"
| "sdp_find p (u # us) =
     (if u ! 0 = 0xFF then None
      else if sdp_bonded u \<and> sdp_peer u = p then Some 0
      else map_option Suc (sdp_find p us))"

lemmas sdp_marks = ATT_BOND_MARK_def ATT_ERASE_MARK_def sdp_bonded_def

lemma sdp_store_loop_units:
  assumes "sdp_sector sec" "k \<le> 256"
  shows "sdp_store_loop cb d (sec + FLASH_SDP_ATT_MAX_SIZE) (sdp_at sec k) m =
     (let n = k + length (sdp_log (drop k (sdp_units sec m))) in
      Some (if n < 256 then (sdp_at sec n, sdp_write_unit cb d (sdp_at sec n) m) else (0, m)))"
  using assms(2)
proof (induction k rule: inc_induct)
  case base
  then show ?case using sdp_at_less [OF assms(1), of 256]
    by (subst sdp_store_loop.simps) (simp add: sdp_log_def)
next
  case (step k)
  have "drop k (sdp_units sec m) = sdp_units sec m ! k # drop (Suc k) (sdp_units sec m)"
    using step(2) by (simp add: Cons_nth_drop_Suc)
  then show ?case using step sdp_at_less [OF assms(1), of k] sdp_mark [OF step(2), of sec m]
    by (subst sdp_store_loop.simps) (simp add: sdp_log_def sdp_at_next Let_def)
qed

lemma dev_att_of_peer: "(da_adr_type (dev_att_of u), da_addr (dev_att_of u)) = sdp_peer u"
  by (simp add: dev_att_of_def sdp_peer_def)

lemma sdp_search_loop_units:
  assumes "sdp_sector sec" "k \<le> 256"
  shows "\<exists>out'. sdp_search_loop ty addr (sec + FLASH_SDP_ATT_MAX_SIZE) (sdp_at sec k) out m =
     Some (case sdp_find (ty, addr) (drop k (sdp_units sec m)) of None \<Rightarrow> (0, out')
       | Some i \<Rightarrow> (sdp_at sec (k + i), dev_att_of (sdp_units sec m ! (k + i))))"
  using assms(2)
proof (induction k arbitrary: out rule: inc_induct)
  case base
  then show ?case using sdp_at_less [OF assms(1), of 256] by (subst sdp_search_loop.simps) simp
next
  case (step k)
  let ?u = "sdp_units sec m ! k"
  have d: "drop k (sdp_units sec m) = ?u # drop (Suc k) (sdp_units sec m)"
    using step(2) by (simp add: Cons_nth_drop_Suc)
  have r: "flash_dread (sdp_at sec k) sizeof_dev_att m = ?u"
    using sdp_read [OF step(2), of 32 sec m] length_sdp_unit [OF step(2)] by (simp add: sizeof_dev_att_def)
  have p: "ty = da_adr_type (dev_att_of ?u) \<and> addr = da_addr (dev_att_of ?u) \<longleftrightarrow> sdp_peer ?u = (ty, addr)"
    using dev_att_of_peer [of ?u] by auto
  show ?case using step(2) step(3) [of out] step(3) [of "dev_att_of ?u"] sdp_at_less [OF assms(1), of k]
      sdp_mark [OF step(2), of sec m] r
    by (subst sdp_search_loop.simps, cases "sdp_find (ty, addr) (drop (Suc k) (sdp_units sec m))") (auto simp: d p sdp_at_next Let_def sdp_marks)
qed

lemma sdp_delete_loop_units:
  assumes "sdp_sector sec" "k \<le> 256"
  shows "sdp_delete_loop ty addr (sec + FLASH_SDP_ATT_MAX_SIZE) (sdp_at sec k) m =
     Some (case sdp_find (ty, addr) (drop k (sdp_units sec m)) of None \<Rightarrow> (1, m)
       | Some i \<Rightarrow> (0, flash_page_program (sdp_at sec (k + i)) [ATT_ERASE_MARK] m))"
  using assms(2)
proof (induction k rule: inc_induct)
  case base
  then show ?case using sdp_at_less [OF assms(1), of 256] by (subst sdp_delete_loop.simps) simp
next
  case (step k)
  let ?u = "sdp_units sec m ! k"
  have d: "drop k (sdp_units sec m) = ?u # drop (Suc k) (sdp_units sec m)"
    using step(2) by (simp add: Cons_nth_drop_Suc)
  have p: "sdp_peer ?u = (ty, addr) \<longleftrightarrow> ?u ! Suc 0 = ty \<and> drop 2 (take 8 ?u) = addr"
    by (auto simp: sdp_peer_def drop_take)
  show ?case using step(2,3) sdp_at_less [OF assms(1), of k] sdp_mark [OF step(2), of sec m] sdp_read [OF step(2), of 8 sec m]
    by (subst sdp_delete_loop.simps, cases "sdp_find (ty, addr) (drop (Suc k) (sdp_units sec m))") (auto simp: d p sdp_at_next Let_def sdp_marks)
qed

section \<open>What a write does to the units\<close>

lemma slots_of_local:
  assumes len: "length A = sz * n" "length B = sz * n" and k: "k < n"
    and same: "\<And>i. i < sz * n \<Longrightarrow> \<not> (sz * k \<le> i \<and> i < sz * k + sz) \<Longrightarrow> B ! i = A ! i"
  shows "slots_of sz n B = (slots_of sz n A)[k := take sz (drop (sz * k) B)]"
proof (rule nth_equalityI)
  fix j assume "j < length (slots_of sz n B)"
  then have j: "j < n" by simp
  show "slots_of sz n B ! j = (slots_of sz n A)[k := take sz (drop (sz * k) B)] ! j"
  proof (cases "j = k")
    case False
    have fits: "sz * j + sz \<le> sz * n" using j mult_le_mono2 [of "Suc j" n sz] by simp
    have apart: "\<not> (sz * k \<le> sz * j + i \<and> sz * j + i < sz * k + sz)" if "i < sz" for i
    proof (cases "j < k")
      case True
      then show ?thesis using mult_le_mono2 [of "Suc j" k sz] that by auto
    next
      case False
      then show ?thesis using \<open>j \<noteq> k\<close> mult_le_mono2 [of "Suc k" j sz] by auto
    qed
    have "take sz (drop (sz * j) B) = take sz (drop (sz * j) A)"
    proof (rule nth_equalityI)
      fix i assume "i < length (take sz (drop (sz * j) B))"
      then have "i < sz" by simp
      then show "take sz (drop (sz * j) B) ! i = take sz (drop (sz * j) A) ! i"
        using fits same [of "sz * j + i"] apart [of i] j by (simp add: len)
    qed (simp add: len)
    then show ?thesis using j False by (simp add: slots_of_def mult.commute)
  qed (simp add: slots_of_def mult.commute k)
qed simp

text \<open>The area after \<open>d\<close> has been written at offset \<open>j\<close> of unit \<open>k\<close>.\<close>

lemma sdp_area_wr:
  assumes "k < 256" "j + length d \<le> 32"
  shows "flash_dread sec 8192 (flash_page_program (sdp_at sec k + of_nat j) d m)
     = nor_prog (32 * k + j) d (flash_dread sec 8192 m)"
proof -
  have e: "sdp_at sec k + of_nat j = sec + of_nat (32 * k + j)" by (simp add: sdp_at_def)
  show ?thesis unfolding e by (rule flash.area_wr) (use assms in simp_all)
qed

definition sdp_cb_ok :: "u32 \<Rightarrow> sdp_info_store_cb_t option \<Rightarrow> bool" where
  "sdp_cb_ok sec cb \<longleftrightarrow> (\<forall>f k d m i. cb = Some f \<and> k < 256 \<and> i < 8192
      \<and> \<not> (32 * k + 8 \<le> i \<and> i < 32 * k + 20) \<and> \<not> (32 * k + 28 \<le> i \<and> i < 32 * k + 32)
      \<longrightarrow> flash_dread sec 8192 (f (sdp_at sec k) d m) ! i = flash_dread sec 8192 m ! i)"

lemma sdp_cb_okD:
  assumes "sdp_cb_ok sec cb" "k < 256" "i < 8192"
    "\<not> (32 * k + 8 \<le> i \<and> i < 32 * k + 20)" "\<not> (32 * k + 28 \<le> i \<and> i < 32 * k + 32)"
  shows "flash_dread sec 8192 (case cb of None \<Rightarrow> m | Some f \<Rightarrow> f (sdp_at sec k) d m) ! i = flash_dread sec 8192 m ! i"
  using assms by (cases cb) (auto simp: sdp_cb_ok_def)

definition sdp_dev_ok :: "dev_char_info_t \<Rightarrow> bool" where
  "sdp_dev_ok d \<longleftrightarrow> length (peer_addr d) = 6 \<and> length (char_handle d) = CHAR_HANDLE_MAX"

lemma sdp_write_handle_area:
  assumes "k < 256" "j < 8"
  shows "flash_dread sec 8192 (sdp_write_handle (sdp_at sec k) j d m)
     = nor_prog (32 * k + (16 + 2 * j)) (UINT16_TO_BSTREAM (char_handle d ! j)) (flash_dread sec 8192 m)"
  using sdp_area_wr [of k "16 + 2 * j" "UINT16_TO_BSTREAM (char_handle d ! j)" sec m] assms
  by (simp add: sdp_write_handle_def OFFSETOF_char_handle_def ac_simps)

text \<open>The bytes of the area that storing a device determines.\<close>

definition sdp_image :: "dev_char_info_t \<Rightarrow> nat \<Rightarrow> u8" where
  "sdp_image d j = (if j = 0 then ATT_BOND_MARK else if j = 1 then peer_adrType d
     else if j < 8 then peer_addr d ! (j - 2)
     else UINT16_TO_BSTREAM (char_handle d ! ((j - 16) div 2)) ! (j mod 2))"

lemma sdp_write_unit_bytes:
  assumes cb: "sdp_cb_ok sec cb" and d: "sdp_dev_ok d" and k: "k < 256" and i: "i < 8192"
    and free: "\<not> (32 * k + 8 \<le> i \<and> i < 32 * k + 20)" "\<not> (32 * k + 28 \<le> i \<and> i < 32 * k + 32)"
  shows "flash_dread sec 8192 (sdp_write_unit cb d (sdp_at sec k) m) ! i =
     (if 32 * k \<le> i \<and> i < 32 * k + 32 then flash_dread sec 8192 m ! i AND sdp_image d (i - 32 * k)
      else flash_dread sec 8192 m ! i)"
proof -
  let ?A = "flash_dread sec 8192 m"
  let ?h = "\<lambda>j. nor_prog (32 * k + (16 + 2 * j)) (UINT16_TO_BSTREAM (char_handle d ! j))"
  let ?p = "nor_prog (32 * k + 1) (peer_adrType d # peer_addr d)"
  have len: "length (peer_addr d) = 6" using d by (simp add: sdp_dev_ok_def)
  have h: "?h 5 (?h 4 (?h 3 (?h 2 (?p ?A)))) ! i =
      (if 32 * k + 1 \<le> i \<and> i < 32 * k + 32 then ?A ! i AND sdp_image d (i - 32 * k) else ?A ! i)"
  proof (cases "32 * k \<le> i \<and> i < 32 * k + 32")
    case False
    then show ?thesis using i len by (auto simp: nth_nor_prog)
  next
    case True
    then obtain j where j: "i = 32 * k + j" "j < 32" by (metis add_less_cancel_left le_add_diff_inverse)
    then have "j \<in> {0,1,2,3,4,5,6,7,20,21,22,23,24,25,26,27}" using free by auto
    then show ?thesis using j i len by (auto simp: nth_nor_prog sdp_image_def nth_Cons')
  qed
  show ?thesis
    using sdp_area_wr [OF k, of 0 "[ATT_BOND_MARK]" sec] sdp_area_wr [OF k, of 1 "peer_adrType d # peer_addr d" sec m]
      sdp_cb_okD [OF cb k i free] h i len
    by (auto simp: sdp_write_unit_def Let_def sdp_write_handle_area k nth_nor_prog OFFSETOF_adr_type_def sdp_image_def
        simp del: upt_conv_Cons)
qed

lemma sdp_unit_nth: "k < 256 \<Longrightarrow> j < 32 \<Longrightarrow> sdp_units sec m ! k ! j = flash_dread sec 8192 m ! (32 * k + j)"
  by (simp add: sdp_units_def slots_of_def mult.commute)

lemma u16_at_image:
  assumes "\<And>i. i \<in> {16 + 2 * j, 17 + 2 * j} \<Longrightarrow> u ! i = sdp_image d i"
  shows "u16_at u (16 + 2 * j) = char_handle d ! j"
  using assms [of "16 + 2 * j"] assms [of "17 + 2 * j"]
  by (simp add: u16_at_def sdp_image_def UINT16_TO_BSTREAM_def u16_bytes_inv)

lemma sdp_units_store:
  assumes "sdp_cb_ok sec cb" "sdp_dev_ok d" "k < 256" "sdp_units sec m ! k = replicate 32 0xFF"
  shows "\<exists>u. sdp_units sec (sdp_write_unit cb d (sdp_at sec k) m) = (sdp_units sec m)[k := u]
     \<and> sdp_bonded u \<and> sdp_peer u = (peer_adrType d, peer_addr d) \<and> sdp_handles u = map ((!) (char_handle d)) [2..<6]"
proof -
  let ?m = "sdp_write_unit cb d (sdp_at sec k) m"
  let ?A = "flash_dread sec 8192 m" and ?B = "flash_dread sec 8192 ?m"
  define u where "u = take 32 (drop (32 * k) ?B)"
  have byte: "u ! j = sdp_image d j" if "j < 8 \<or> 20 \<le> j \<and> j < 28" for j
  proof -
    have "?A ! (32 * k + j) = 0xFF" using sdp_unit_nth [OF assms(3), of j sec m] assms(4) that by auto
    then show ?thesis using sdp_write_unit_bytes [OF assms(1-3), of "32 * k + j" m] that assms(3)
      by (auto simp: u_def and_FF_u8)
  qed
  have "sdp_units sec ?m = (sdp_units sec m)[k := u]"
    unfolding sdp_units_def u_def
    by (rule slots_of_local) (use assms(3) sdp_write_unit_bytes [OF assms(1-3)] in auto)
  moreover have "sdp_bonded u" "u ! 1 = peer_adrType d" using byte [of 0] byte [of 1] by (simp_all add: sdp_bonded_def sdp_image_def)
  moreover have "take 6 (drop 2 u) = peer_addr d"
  proof (rule nth_equalityI)
    show "length (take 6 (drop 2 u)) = length (peer_addr d)" using assms(2,3) by (simp add: u_def sdp_dev_ok_def)
    fix i assume "i < length (take 6 (drop 2 u))"
    then have i: "i < 6" "i + 2 < length u" by auto
    then show "take 6 (drop 2 u) ! i = peer_addr d ! i" using byte [of "i + 2"] by (simp add: sdp_image_def)
  qed
  moreover have "sdp_handles u = map ((!) (char_handle d)) [2..<6]"
    unfolding sdp_handles_def by (intro map_cong refl u16_at_image) (auto intro!: byte)
  ultimately show ?thesis by (intro exI [of _ u]) (simp add: sdp_peer_def)
qed

lemma sdp_units_delete:
  assumes "k < 256"
  shows "sdp_units sec (flash_page_program (sdp_at sec k) [ATT_ERASE_MARK] m) = (sdp_units sec m)[k := (sdp_units sec m ! k)[0 := 0]]"
proof -
  let ?A = "flash_dread sec 8192 m"
  have B: "flash_dread sec 8192 (flash_page_program (sdp_at sec k) [ATT_ERASE_MARK] m) = nor_prog (32 * k) [0] ?A"
    using sdp_area_wr [OF assms, of 0 "[ATT_ERASE_MARK]" sec m] by (simp add: ATT_ERASE_MARK_def)
  have "take 32 (drop (32 * k) (nor_prog (32 * k) [0] ?A)) = (sdp_units sec m ! k)[0 := 0]"
    using assms length_sdp_unit [OF assms, of sec m]
    by (intro nth_equalityI) (auto simp: nth_nor_prog nth_list_update sdp_unit_nth)
  then show ?thesis unfolding sdp_units_def B
    by (subst slots_of_local [of ?A 32 256 _ k]) (use assms in \<open>auto simp: nth_nor_prog sdp_units_def\<close>)
qed

section \<open>The map of known peers\<close>

definition sdp_map :: "bytes list \<Rightarrow> (u8 \<times> bytes) \<rightharpoonup> u16 list" where
  "sdp_map us = map_of (map (\<lambda>u. (sdp_peer u, sdp_handles u)) (filter sdp_bonded (sdp_log us)))"

definition sdp_wf :: "bytes list \<Rightarrow> bool" where
  "sdp_wf us \<longleftrightarrow> (\<exists>n. us = sdp_log us @ replicate n (replicate 32 0xFF))
     \<and> distinct (map sdp_peer (filter sdp_bonded (sdp_log us)))"

lemma sdp_find_map:
  "case sdp_find p us of None \<Rightarrow> sdp_map us p = None
   | Some i \<Rightarrow> i < length (sdp_log us) \<and> sdp_bonded (us ! i) \<and> sdp_peer (us ! i) = p \<and> sdp_map us p = Some (sdp_handles (us ! i))"
  by (induction us) (auto simp: sdp_map_def sdp_log_def split: option.splits)

lemma sdp_log_append: "(\<And>u. u \<in> set us \<Longrightarrow> u ! 0 \<noteq> 0xFF) \<Longrightarrow> sdp_log (us @ replicate n (replicate 32 0xFF)) = us"
  by (cases n) (simp_all add: sdp_log_def takeWhile_append2)

lemma sdp_log_marks: "u \<in> set (sdp_log us) \<Longrightarrow> u ! 0 \<noteq> 0xFF"
  by (auto simp: sdp_log_def dest: set_takeWhileD)

lemma sdp_wf_store:
  assumes "sdp_wf us" "length (sdp_log us) < length us" "sdp_bonded u" "sdp_map us (sdp_peer u) = None"
  shows "us ! length (sdp_log us) = replicate 32 0xFF \<and> sdp_wf (us[length (sdp_log us) := u])
     \<and> sdp_map (us[length (sdp_log us) := u]) = (sdp_map us)(sdp_peer u \<mapsto> sdp_handles u)
     \<and> length (sdp_log (us[length (sdp_log us) := u])) = Suc (length (sdp_log us))"
proof -
  let ?l = "sdp_log us"
  obtain n where n: "us = ?l @ replicate n (replicate 32 0xFF)" using assms(1) by (auto simp: sdp_wf_def)
  then obtain n' where n': "n = Suc n'" using assms(2) by (cases n) auto
  have us': "us[length ?l := u] = (?l @ [u]) @ replicate n' (replicate 32 0xFF)"
    by (subst n) (simp add: n' list_update_append)
  have log: "sdp_log (us[length ?l := u]) = ?l @ [u]"
    unfolding us' using assms(3) by (intro sdp_log_append) (auto simp: sdp_marks dest: sdp_log_marks)
  have fresh: "sdp_peer u \<notin> sdp_peer ` set (filter sdp_bonded ?l)"
    using assms(4) by (simp add: sdp_map_def map_of_eq_None_iff image_image)
  have "us ! length ?l = replicate 32 0xFF" by (subst n) (simp add: n' nth_append)
  moreover have "sdp_wf (us[length ?l := u])"
    unfolding sdp_wf_def log using us' assms(1,3) fresh by (auto simp: sdp_wf_def)
  moreover have "sdp_map (us[length ?l := u]) = (sdp_map us)(sdp_peer u \<mapsto> sdp_handles u)"
    unfolding sdp_map_def log using assms(3,4) by (auto simp: sdp_map_def map_add_def fun_eq_iff split: option.splits)
  ultimately show ?thesis using log by simp
qed

lemma map_of_remove:
  "k \<notin> fst ` set (xs @ ys) \<Longrightarrow> map_of (xs @ ys) = (map_of (xs @ (k, v) # ys))(k := None)"
  by (induction xs) (auto simp: fun_eq_iff map_of_eq_None_iff)

lemma sdp_wf_delete:
  assumes "sdp_wf us" "i < length (sdp_log us)" "sdp_bonded (us ! i)" "length (us ! i) = 32"
  shows "sdp_wf (us[i := (us ! i)[0 := 0]]) \<and> sdp_map (us[i := (us ! i)[0 := 0]]) = (sdp_map us)(sdp_peer (us ! i) := None)
     \<and> length (sdp_log (us[i := (us ! i)[0 := 0]])) = length (sdp_log us)"
proof -
  let ?l = "sdp_log us" and ?u = "us ! i"
  obtain n where n: "us = ?l @ replicate n (replicate 32 0xFF)" using assms(1) by (auto simp: sdp_wf_def)
  have u: "?u = ?l ! i" by (subst n) (use assms(2) in \<open>simp add: nth_append\<close>)
  define xs ys where "xs = take i ?l" and "ys = drop (Suc i) ?l"
  have l: "?l = xs @ ?u # ys" unfolding xs_def ys_def u using assms(2) by (rule id_take_nth_drop)
  have i: "i = length xs" using assms(2) by (simp add: xs_def)
  have us': "us[i := ?u[0 := 0]] = (xs @ ?u[0 := 0] # ys) @ replicate n (replicate 32 0xFF)"
    by (subst n, subst l) (simp add: i list_update_append)
  have log: "sdp_log (us[i := ?u[0 := 0]]) = xs @ ?u[0 := 0] # ys"
    unfolding us' using sdp_log_marks [of _ us] assms(4) unfolding l by (intro sdp_log_append) auto
  have nb: "\<not> sdp_bonded (?u[0 := 0])" using assms(4) by (simp add: sdp_marks nth_list_update)
  have dist: "distinct (map sdp_peer (filter sdp_bonded (xs @ ?u # ys)))" using assms(1) l by (simp add: sdp_wf_def)
  have "sdp_wf (us[i := ?u[0 := 0]])"
    unfolding sdp_wf_def log using us' nb dist assms(3) by auto
  moreover have "sdp_map (us[i := ?u[0 := 0]]) = (sdp_map us)(sdp_peer ?u := None)"
    unfolding sdp_map_def log l using nb dist assms(3)
      map_of_remove [of "sdp_peer ?u" "map (\<lambda>u. (sdp_peer u, sdp_handles u)) (filter sdp_bonded xs)"
        "map (\<lambda>u. (sdp_peer u, sdp_handles u)) (filter sdp_bonded ys)" "sdp_handles ?u"]
    by (simp add: image_image image_Un)
  ultimately show ?thesis using log l by simp
qed

lemma sdp_wf_free:
  assumes "sdp_wf us" "length (sdp_log us) < length us"
  shows "us ! length (sdp_log us) = replicate 32 0xFF"
proof -
  obtain n where n: "us = sdp_log us @ replicate n (replicate 32 0xFF)" using assms(1) by (auto simp: sdp_wf_def)
  moreover have "0 < n" using n assms(2) by (cases n) auto
  ultimately show ?thesis by (metis append_Nil2 nth_append_length_plus nth_replicate add.right_neutral)
qed

section \<open>The contract of the table\<close>

text \<open>
  What a client relies on: \<open>store\<close> adds a peer that is not known yet, \<open>del\<close> removes one, \<open>search\<close> returns
  the handles.  \<open>room\<close> is the number of further entries the store can take; deleted ones are not reclaimed.
\<close>

datatype ('p, 'd) sdp_op = Sdp_Store 'd | Sdp_Delete 'p

fun sdp_run ::
    "('d \<Rightarrow> 's \<Rightarrow> (u32 \<times> 's) option) \<Rightarrow> ('p \<Rightarrow> 's \<Rightarrow> (int \<times> 's) option) \<Rightarrow> ('p, 'd) sdp_op list \<Rightarrow> 's \<Rightarrow> 's option" where
  "sdp_run store del [] s = Some s"
| "sdp_run store del (Sdp_Store d # ops) s = Option.bind (store d s) (\<lambda>(_, s'). sdp_run store del ops s')"
| "sdp_run store del (Sdp_Delete p # ops) s = Option.bind (del p s) (\<lambda>(_, s'). sdp_run store del ops s')"

text \<open>The meaning of such a sequence for the map of peers; storing a known peer has none.\<close>

fun sdp_spec ::
    "('d \<Rightarrow> 'p) \<Rightarrow> ('d \<Rightarrow> 'h) \<Rightarrow> ('p, 'd) sdp_op list \<Rightarrow> ('p \<rightharpoonup> 'h) \<Rightarrow> ('p \<rightharpoonup> 'h) option" where
  "sdp_spec key val [] f = Some f"
| "sdp_spec key val (Sdp_Store d # ops) f =
     (if f (key d) = None then sdp_spec key val ops (f(key d \<mapsto> val d)) else None)"
| "sdp_spec key val (Sdp_Delete p # ops) f = sdp_spec key val ops (f(p := None))"

fun sdp_stores :: "('p, 'd) sdp_op list \<Rightarrow> nat" where
  "sdp_stores [] = 0"
| "sdp_stores (Sdp_Store d # ops) = Suc (sdp_stores ops)"
| "sdp_stores (Sdp_Delete p # ops) = sdp_stores ops"

locale peer_store =
  fixes inv :: "'s \<Rightarrow> bool" and ok :: "'d \<Rightarrow> bool" and room :: "'s \<Rightarrow> nat"
    and store :: "'d \<Rightarrow> 's \<Rightarrow> (u32 \<times> 's) option" and del :: "'p \<Rightarrow> 's \<Rightarrow> (int \<times> 's) option"
    and view :: "'s \<Rightarrow> 'p \<rightharpoonup> 'h" and key :: "'d \<Rightarrow> 'p" and val :: "'d \<Rightarrow> 'h"
  assumes store_ok: "inv s \<Longrightarrow> ok d \<Longrightarrow> 0 < room s \<Longrightarrow> view s (key d) = None \<Longrightarrow>
      \<exists>a s'. store d s = Some (a, s') \<and> a \<noteq> 0 \<and> inv s' \<and> view s' = (view s)(key d \<mapsto> val d) \<and> room s = Suc (room s')"
    and store_full: "inv s \<Longrightarrow> room s = 0 \<Longrightarrow> store d s = Some (0, s)"
    and del_ok: "inv s \<Longrightarrow> \<exists>r s'. del p s = Some (r, s') \<and> inv s' \<and> view s' = (view s)(p := None)
      \<and> room s' = room s \<and> (r = 0 \<longleftrightarrow> view s p \<noteq> None)"
begin

lemma run_ok:
  assumes "inv s" "sdp_stores ops \<le> room s" "\<And>d. Sdp_Store d \<in> set ops \<Longrightarrow> ok d"
    "sdp_spec key val ops (view s) = Some f"
  shows "\<exists>s'. sdp_run store del ops s = Some s' \<and> inv s' \<and> view s' = f"
  using assms
proof (induction ops arbitrary: s)
  case Nil
  then show ?case by simp
next
  case (Cons op ops)
  show ?case
  proof (cases op)
    case (Sdp_Store d)
    then have "view s (key d) = None" "0 < room s" "ok d" using Cons.prems by (auto split: if_splits)
    then obtain a s' where s': "store d s = Some (a, s')" "inv s'" "view s' = (view s)(key d \<mapsto> val d)" "room s = Suc (room s')"
      using store_ok [OF Cons.prems(1)] by blast
    moreover have "sdp_spec key val ops (view s') = Some f" using s'(3) Cons.prems(4) Sdp_Store by (simp split: if_splits)
    moreover have "sdp_stores ops \<le> room s'" using s'(4) Cons.prems(2) Sdp_Store by simp
    ultimately have "\<exists>s''. sdp_run store del ops s' = Some s'' \<and> inv s'' \<and> view s'' = f"
      using Cons.IH Cons.prems(3) by (metis list.set_intros(2))
    then show ?thesis using s'(1) Sdp_Store by simp
  next
    case (Sdp_Delete p)
    obtain r s' where s': "del p s = Some (r, s')" "inv s'" "view s' = (view s)(p := None)" "room s' = room s"
      using del_ok [OF Cons.prems(1)] by blast
    moreover have "sdp_spec key val ops (view s') = Some f" "sdp_stores ops \<le> room s'"
      using s'(3,4) Cons.prems(2,4) Sdp_Delete by simp_all
    ultimately have "\<exists>s''. sdp_run store del ops s' = Some s'' \<and> inv s'' \<and> view s'' = f"
      using Cons.IH Cons.prems(3) by (metis list.set_intros(2))
    then show ?thesis using s'(1) Sdp_Delete by simp
  qed
qed

end

text \<open>The state is the flash; the area and the callback are fixed by the application.\<close>

definition sdp_inv :: "u32 \<Rightarrow> sdp_info_store_cb_t option \<Rightarrow> flash_mem \<Rightarrow> bool" where
  "sdp_inv sec cb m \<longleftrightarrow> sdp_sector sec \<and> sdp_cb_ok sec cb \<and> sdp_wf (sdp_units sec m)"

definition sdp_room :: "u32 \<Rightarrow> flash_mem \<Rightarrow> nat" where
  "sdp_room sec m = 256 - length (sdp_log (sdp_units sec m))"

lemma sdp_log_le: "length (sdp_log (sdp_units sec m)) \<le> 256"
  using length_takeWhile_le [of _ "sdp_units sec m"] by (simp add: sdp_log_def)

interpretation sdp: peer_store "sdp_inv sec cb" sdp_dev_ok "sdp_room sec" "dev_char_info_store_peer_att_handle sec cb"
  "\<lambda>(ty, addr). dev_char_info_delete_peer_att_handle_by_peer_mac sec ty addr" "\<lambda>m. sdp_map (sdp_units sec m)"
  "\<lambda>d. (peer_adrType d, peer_addr d)" "\<lambda>d. map ((!) (char_handle d)) [2..<6]" for sec cb
proof unfold_locales
  fix s d assume inv: "sdp_inv sec cb s" and d: "sdp_dev_ok d" and room: "0 < sdp_room sec s"
    and new: "sdp_map (sdp_units sec s) (peer_adrType d, peer_addr d) = None"
  let ?us = "sdp_units sec s" and ?k = "length (sdp_log (sdp_units sec s))"
  have k: "?k < 256" using room by (simp add: sdp_room_def)
  have sec: "sdp_sector sec" and cb: "sdp_cb_ok sec cb" and wf: "sdp_wf ?us" using inv by (simp_all add: sdp_inv_def)
  have st: "dev_char_info_store_peer_att_handle sec cb d s = Some (sdp_at sec ?k, sdp_write_unit cb d (sdp_at sec ?k) s)"
    using sdp_store_loop_units [OF sec, of 0 cb d s] k by (simp add: dev_char_info_store_peer_att_handle_def Let_def)
  have "?us ! ?k = replicate 32 0xFF" by (rule sdp_wf_free [OF wf]) (simp add: k)
  then obtain u where u: "sdp_units sec (sdp_write_unit cb d (sdp_at sec ?k) s) = ?us[?k := u]" "sdp_bonded u"
      "sdp_peer u = (peer_adrType d, peer_addr d)" "sdp_handles u = map ((!) (char_handle d)) [2..<6]"
    using sdp_units_store [OF cb d k] by blast
  have "sdp_map ?us (sdp_peer u) = None" using new u(3) by simp
  then show "\<exists>a s'. dev_char_info_store_peer_att_handle sec cb d s = Some (a, s') \<and> a \<noteq> 0 \<and> sdp_inv sec cb s'
      \<and> sdp_map (sdp_units sec s') = (sdp_map ?us)((peer_adrType d, peer_addr d) \<mapsto> map ((!) (char_handle d)) [2..<6])
      \<and> sdp_room sec s = Suc (sdp_room sec s')"
    using st sdp_wf_store [OF wf _ u(2)] u k sdp_at_nonzero [OF sec, of ?k] inv
    by (simp add: sdp_inv_def sdp_room_def del: upt_conv_Cons)
next
  fix s d assume "sdp_inv sec cb s" "sdp_room sec s = 0"
  then show "dev_char_info_store_peer_att_handle sec cb d s = Some (0, s)"
    using sdp_store_loop_units [of sec 0 cb d s]
    by (simp add: dev_char_info_store_peer_att_handle_def sdp_inv_def sdp_room_def Let_def)
next
  fix s and p :: "u8 \<times> bytes" assume inv: "sdp_inv sec cb s"
  obtain ty addr where p: "p = (ty, addr)" by force
  let ?us = "sdp_units sec s"
  have sec: "sdp_sector sec" and wf: "sdp_wf ?us" using inv by (simp_all add: sdp_inv_def)
  show "\<exists>r s'. (case p of (ty, addr) \<Rightarrow> dev_char_info_delete_peer_att_handle_by_peer_mac sec ty addr) s = Some (r, s')
      \<and> sdp_inv sec cb s' \<and> sdp_map (sdp_units sec s') = (sdp_map ?us)(p := None) \<and> sdp_room sec s' = sdp_room sec s
      \<and> (r = 0 \<longleftrightarrow> sdp_map ?us p \<noteq> None)"
  proof (cases "sdp_find p ?us")
    case None
    then have "sdp_map ?us p = None" using sdp_find_map [of ?us p] by simp
    then show ?thesis using sdp_delete_loop_units [OF sec, of 0 ty addr s] None inv
      by (simp add: dev_char_info_delete_peer_att_handle_by_peer_mac_def p fun_upd_idem)
  next
    case (Some i)
    then have i: "i < length (sdp_log ?us)" "sdp_bonded (?us ! i)" "sdp_peer (?us ! i) = p" "sdp_map ?us p \<noteq> None"
      using sdp_find_map [of ?us p] by auto
    have lt: "i < 256" using i(1) sdp_log_le [of sec s] by linarith
    show ?thesis using sdp_delete_loop_units [OF sec, of 0 ty addr s] Some i inv sdp_units_delete [OF lt, of sec s]
        sdp_wf_delete [OF wf i(1,2) length_sdp_unit [OF lt]]
      by (simp add: dev_char_info_delete_peer_att_handle_by_peer_mac_def p sdp_inv_def sdp_room_def)
  qed
qed

section \<open>Properties\<close>

lemma sdp_handles_of: "map ((!) (da_char_handle (dev_att_of u))) [2..<6] = sdp_handles u"
  by (simp add: dev_att_of_def sdp_handles_def CHAR_HANDLE_MAX_def OFFSETOF_char_handle_def)

lemma sdp_search_map:
  assumes "sdp_sector sec"
  shows "\<exists>a out'. dev_char_info_search_peer_att_handle_by_peer_mac sec ty addr out m = Some (a, out')
     \<and> (a = 0 \<longleftrightarrow> sdp_map (sdp_units sec m) (ty, addr) = None)
     \<and> (\<forall>hs. sdp_map (sdp_units sec m) (ty, addr) = Some hs \<longrightarrow> map ((!) (da_char_handle out')) [2..<6] = hs)"
proof -
  let ?us = "sdp_units sec m"
  obtain out' where o: "dev_char_info_search_peer_att_handle_by_peer_mac sec ty addr out m =
      Some (case sdp_find (ty, addr) ?us of None \<Rightarrow> (0, out') | Some i \<Rightarrow> (sdp_at sec i, dev_att_of (?us ! i)))"
    using sdp_search_loop_units [OF assms, of 0 ty addr out m]
    unfolding dev_char_info_search_peer_att_handle_by_peer_mac_def sdp_at_0 drop0 add_0 by blast
  show ?thesis
  proof (cases "sdp_find (ty, addr) ?us")
    case None
    then show ?thesis using o sdp_find_map [of ?us "(ty, addr)"] by simp
  next
    case (Some i)
    then have "i < 256" using sdp_find_map [of ?us "(ty, addr)"] sdp_log_le [of sec m] by auto
    then show ?thesis using Some o sdp_find_map [of ?us "(ty, addr)"] sdp_at_nonzero [OF assms, of i] sdp_handles_of
      by simp
  qed
qed

lemma sdp_units_erased:
  assumes "flash_dread sec 8192 m = replicate 8192 0xFF"
  shows "sdp_units sec m = replicate 256 (replicate 32 0xFF)"
  unfolding sdp_units_def assms by (rule nth_equalityI) (auto simp: slots_of_def)

lemma sdp_log_erased: "sdp_log (replicate n (replicate 32 0xFF)) = []"
  by (cases n) (simp_all add: sdp_log_def)

text \<open>
  C23.  The table of peers in the flash is a map.  On an erased table, after any sequence of at most 256
  stores of unknown peers and of deletions, every operation has returned and a search finds exactly the
  peers the sequence leaves, with the four handles stored for them.  Storing a peer that is already known is excluded.
\<close>

theorem sdp_table_refines_map:
  assumes "sdp_sector sec" "sdp_cb_ok sec cb" "flash_dread sec 8192 m = replicate 8192 0xFF"
    and "sdp_stores ops \<le> 256" "\<forall>d. Sdp_Store d \<in> set ops \<longrightarrow> sdp_dev_ok d"
    and "sdp_spec (\<lambda>d. (peer_adrType d, peer_addr d)) (\<lambda>d. map ((!) (char_handle d)) [2..<6]) ops Map.empty = Some f"
  shows "\<exists>m'. sdp_run (dev_char_info_store_peer_att_handle sec cb)
        (\<lambda>(ty, addr). dev_char_info_delete_peer_att_handle_by_peer_mac sec ty addr) ops m = Some m'
     \<and> (\<forall>ty addr out. \<exists>a out'. dev_char_info_search_peer_att_handle_by_peer_mac sec ty addr out m' = Some (a, out')
        \<and> (a = 0 \<longleftrightarrow> f (ty, addr) = None)
        \<and> (\<forall>hs. f (ty, addr) = Some hs \<longrightarrow> map ((!) (da_char_handle out')) [2..<6] = hs))"
proof -
  have us: "sdp_units sec m = replicate 256 (replicate 32 0xFF)" by (rule sdp_units_erased [OF assms(3)])
  have init: "sdp_inv sec cb m" "sdp_room sec m = 256" "sdp_map (sdp_units sec m) = Map.empty"
    unfolding sdp_inv_def sdp_room_def sdp_map_def sdp_wf_def us sdp_log_erased using assms(1,2) by auto
  obtain m' where "sdp_run (dev_char_info_store_peer_att_handle sec cb)
        (\<lambda>(ty, addr). dev_char_info_delete_peer_att_handle_by_peer_mac sec ty addr) ops m = Some m'"
      "sdp_map (sdp_units sec m') = f"
    using sdp.run_ok [OF init(1), of ops f] assms(4-6) init(2,3) by (metis (no_types, lifting))
  then show ?thesis using sdp_search_map [OF assms(1)] by blast
qed

definition sdp_example :: dev_char_info_t where
  "sdp_example = dev_zero\<lparr>peer_adrType := 1, peer_addr := [1, 2, 3, 4, 5, 6], char_handle := [0, 0, 21, 30, 31, 32, 0, 0]\<rparr>"

theorem sdp_table_refines_map_witness:
  "\<exists>s a out'. dev_char_info_store_peer_att_handle 0x1FA000 None sdp_example (\<lambda>_. 0xFF) = Some s
     \<and> dev_char_info_search_peer_att_handle_by_peer_mac 0x1FA000 1 [1, 2, 3, 4, 5, 6] (dev_att_of []) (snd s) = Some (a, out')
     \<and> a \<noteq> 0 \<and> map ((!) (da_char_handle out')) [2..<6] = [21, 30, 31, 32]"
proof -
  let ?d = sdp_example
  let ?f = "[(peer_adrType ?d, peer_addr ?d) \<mapsto> map ((!) (char_handle ?d)) [2..<6]]"
  have "sdp_sector 0x1FA000" "sdp_cb_ok 0x1FA000 None" by (simp_all add: sdp_sector_def sdp_cb_ok_def)
  moreover have "flash_dread 0x1FA000 8192 (\<lambda>_. 0xFF) = replicate 8192 0xFF"
    by (intro nth_equalityI) (simp_all add: flash.rd_nth)
  ultimately obtain m' where m': "sdp_run (dev_char_info_store_peer_att_handle 0x1FA000 None)
        (\<lambda>(ty, addr). dev_char_info_delete_peer_att_handle_by_peer_mac 0x1FA000 ty addr) [Sdp_Store ?d] (\<lambda>_. 0xFF) = Some m'"
      "\<forall>ty addr out. \<exists>a out'. dev_char_info_search_peer_att_handle_by_peer_mac 0x1FA000 ty addr out m' = Some (a, out')
        \<and> (a = 0 \<longleftrightarrow> ?f (ty, addr) = None)
        \<and> (\<forall>hs. ?f (ty, addr) = Some hs \<longrightarrow> map ((!) (da_char_handle out')) [2..<6] = hs)"
    using sdp_table_refines_map [where sec = "0x1FA000" and cb = None and m = "\<lambda>_. 0xFF" and ops = "[Sdp_Store ?d]" and f = ?f]
    by (auto simp: sdp_dev_ok_def sdp_example_def CHAR_HANDLE_MAX_def)
  moreover obtain s where "dev_char_info_store_peer_att_handle 0x1FA000 None ?d (\<lambda>_. 0xFF) = Some s" "snd s = m'"
    using m'(1) by (auto split: Option.bind_splits)
  moreover obtain a out' where "dev_char_info_search_peer_att_handle_by_peer_mac 0x1FA000 1 [1, 2, 3, 4, 5, 6] (dev_att_of []) m' = Some (a, out')"
      "a \<noteq> 0" "map ((!) (da_char_handle out')) [2..<6] = [21, 30, 31, 32]"
    using m'(2) [rule_format, of 1 "[1, 2, 3, 4, 5, 6]" "dev_att_of []"] by (auto simp: sdp_example_def)
  ultimately show ?thesis by (intro exI [of _ s] exI [of _ a] exI [of _ out']) (simp del: upt_conv_Cons)
qed

text \<open>
  The discovered handles of a connected peer can be lost: the search for its connection only looks at
  as many slots as there are central connections, while a disconnection leaves a hole in the table.  Two
  peers connect, the first disconnects, and the handles of the second are not recorded.
\<close>

theorem sdp_add_handle_misses:
  "let e = (\<lambda>h. Direct (dev_zero\<lparr>conn_handle := h, conn_role := ACL_ROLE_CENTRAL\<rparr>));
       s = snd (conn_run conn_insert dev_char_info_delete_by_connhandle [Connect (e 0x40), Connect (e 0x41), Disconnect 0x40] dev_table_init);
       d = dev_zero\<lparr>conn_handle := 0x41, char_handle := [0, 0, 21, 30, 31, 32, 0, 0]\<rparr>
   in dev_lookup s 0x41 \<noteq> None \<and> dev_char_info_add_peer_att_handle d s = (1, s)"
  by code_simp

end
