(* ===== verification/Usb_Port.thy ===== *)
theory Usb_Port
  imports Telink_Prelude
begin

unbundle bit_operations_syntax

text \<open>
  The USB device stack of \<^verbatim>\<open>common/tl_usb\<close>: its data and the port layer \<^verbatim>\<open>port/tl322x_usb.c\<close> through which
  the core and the class drivers reach the controller.

  Calls into the controller driver and into the application are recorded, newest last, in \<open>usb_log\<close>.  A
  write hands over the bytes that the DMA reads from the given object; a read arms the DMA with a target
  object (\<open>usb_buf\<close>) and a length, and the bytes arrive later (\<open>usb_out_data\<close>).  \<open>None\<close> is a fault: a DMA range
  or an access outside an object, or a call through a null pointer.  There is one bus
  (\<^verbatim>\<open>USBD_BUS_NUM\<close> 1).
\<close>

section \<open>Data\<close>

definition USBD_SUPPORT_DRIVER_MAX :: nat where "USBD_SUPPORT_DRIVER_MAX = 16"
definition USBD_SUPPORT_INTERFACE_MAX :: nat where "USBD_SUPPORT_INTERFACE_MAX = 16"
definition USBD_SUPPORT_ENDPOINT_MAX :: nat where "USBD_SUPPORT_ENDPOINT_MAX = 8"
definition USBD_ENDPOINT_DIRECTION :: nat where "USBD_ENDPOINT_DIRECTION = 2"
definition USBD_HID_INTERFACE_NUM :: nat where "USBD_HID_INTERFACE_NUM = 4"
definition USBD_CDC_INTERFACE_NUM :: nat where "USBD_CDC_INTERFACE_NUM = 1"
definition USBD_AUDIO_INTERFACE_NUM :: nat where "USBD_AUDIO_INTERFACE_NUM = 2"

record usb_control_request_t =
  bmRequestType :: u8
  bRequest :: u8
  wValue :: u16
  wIndex :: u16
  wLength :: u16

text \<open>The bit-field view \<^verbatim>\<open>bmRequestType_bit\<close>.\<close>

definition recipient :: "usb_control_request_t \<Rightarrow> u8" where
  "recipient r = bmRequestType r AND 0x1F"

definition req_type :: "usb_control_request_t \<Rightarrow> u8" where
  "req_type r = drop_bit 5 (bmRequestType r) AND 3"

definition direction :: "usb_control_request_t \<Rightarrow> u8" where
  "direction r = drop_bit 7 (bmRequestType r)"

definition U16_LOW_BYTE :: "u16 \<Rightarrow> u8" where "U16_LOW_BYTE x = ucast (x AND 0xFF)"
definition U16_HIGH_BYTE :: "u16 \<Rightarrow> u8" where "U16_HIGH_BYTE x = ucast (drop_bit 8 x AND 0xFF)"

definition USB_DIR_OUT :: nat where "USB_DIR_OUT = 0"
definition USB_DIR_IN :: nat where "USB_DIR_IN = 1"
definition USB_DIR_IN_MASK :: u8 where "USB_DIR_IN_MASK = 0x80"

definition usb_get_ep_dir :: "u8 \<Rightarrow> nat" where
  "usb_get_ep_dir addr = (if addr AND USB_DIR_IN_MASK \<noteq> 0 then USB_DIR_IN else USB_DIR_OUT)"

definition usb_get_ep_number :: "u8 \<Rightarrow> u8" where
  "usb_get_ep_number addr = addr AND NOT USB_DIR_IN_MASK"

text \<open>The request handlers of the class drivers and the endpoint callbacks, as the function pointers stored in the tables.\<close>

datatype usbd_request_handler = Hid_Handler | Cdc_Handler | Audio_Handler

datatype usbd_endpoint_callback = Ep0_In_Complete | Ep0_Out_Complete | App_Endpoint nat

record usbd_driver_t =
  usbd_driver_handler :: usbd_request_handler
  driver_num :: u8

record usbd_hid_interface_t =
  idle_rate :: u8
  protocol_mode :: u8
  hid_report :: u8
  reg_data :: bytes

record cdc_line_coding_t =
  bit_rate :: u32
  stop_bits :: u8
  parity :: u8
  data_bits :: u8

record usbd_cdc_interface_t =
  dtr :: bool
  rts :: bool
  line_coding :: cdc_line_coding_t

text \<open>The objects a received data stage can be written to.\<close>

datatype usb_buf = Buf_Ep0 | Buf_HidReg nat | Buf_CdcLine nat | Buf_AudioCur

datatype usb_ev =
    Ev_EpOpen u8 nat u8 u16
  | Ev_Write u8 bytes
  | Ev_Read u8 usb_buf nat
  | Ev_StallIn u8 | Ev_StallOut u8 | Ev_ClearStallIn u8 | Ev_ClearStallOut u8
  | Ev_SetAddress u8 | Ev_TestMode u8 | Ev_HwReset
  | Ev_ClearDoepint u8 u32 | Ev_ClearDiepint u8 u32 | Ev_ClearGintsts u32
  | App_SetConfiguration u8 | App_StatusSet u32 | App_StatusClear u32 | App_BusResetInit
  | App_SetReport u8 u8 u8 bytes | App_AudioOpen u8 | App_AudioClose u8
  | App_EpComplete nat u8 u32 | App_EnumDone | App_Sof | App_Reset

record usbd_t =
  usb_setup :: usb_control_request_t
  usb_address :: u8
  config_value :: u8
  test_mode :: bool
  device_status :: u16
  usb_driver :: "usbd_driver_t option list"
  itf2drv :: "u8 list"
  ep2drv :: "u8 list list"
  ep_status :: "u16 list list"
  epin_cb :: "usbd_endpoint_callback option list"
  epout_cb :: "usbd_endpoint_callback option list"

record usb_state =
  usbd_info :: usbd_t
  remote_wakeup :: u8
  usbd_hid :: "usbd_hid_interface_t list"
  usbd_cdc :: "usbd_cdc_interface_t list"
  usbd_audio :: "bytes list"
  ep0_out_data :: bytes
  ep0_target :: "(usb_buf \<times> nat) option"
  sof_cnt :: u8
  sof_masked :: bool
  usb_log :: "usb_ev list"

text \<open>What the application provides: the descriptors, and the weak callback of the audio class.\<close>

record usb_app =
  usbd_get_device_descriptor :: "bytes option"
  usbd_get_config_descriptor :: "bytes option"
  usbd_get_string_descriptor :: "u8 \<Rightarrow> bytes option"
  usbd_get_device_qualifier_descriptor :: "bytes option"
  usbd_get_other_speed_configuration_descriptor :: "u8 \<Rightarrow> bytes option"
  usbd_hid_get_report_descriptor :: "u8 \<Rightarrow> (bytes \<times> u16) option"
  usbd_set_configuration_callback :: bool
  usbd_audio_interface_cb :: "(usb_control_request_t \<Rightarrow> usb_state \<Rightarrow> (bool \<times> usb_state) option) option"
  tl_usb_enum_done_cb :: bool
  tl_usb_sof_cb :: bool
  tl_usb_reset_cb :: bool

section \<open>The line coding in memory\<close>

definition cdc_bytes :: "cdc_line_coding_t \<Rightarrow> bytes" where
  "cdc_bytes c = UINT32_TO_BSTREAM (bit_rate c) @ [stop_bits c, parity c, data_bits c]"

definition cdc_of_bytes :: "bytes \<Rightarrow> cdc_line_coding_t" where
  "cdc_of_bytes b = \<lparr>bit_rate = ucast (b ! 0) + push_bit 8 (ucast (b ! 1)) + push_bit 16 (ucast (b ! 2)) + push_bit 24 (ucast (b ! 3)),
     stop_bits = b ! 4, parity = b ! 5, data_bits = b ! 6\<rparr>"

section \<open>The port layer\<close>

definition usb_emit :: "usb_ev \<Rightarrow> usb_state \<Rightarrow> usb_state" where
  "usb_emit e s = s\<lparr>usb_log := usb_log s @ [e]\<rparr>"

text \<open>An endpoint descriptor inside the configuration descriptor \<open>d\<close> at offset \<open>i\<close>.\<close>

definition usbd_ep_open :: "bytes \<Rightarrow> nat \<Rightarrow> usb_state \<Rightarrow> usb_state option" where
  "usbd_ep_open d i s =
     do { adr \<leftarrow> rd8 d (i + 2); att \<leftarrow> rd8 d (i + 3); mps \<leftarrow> BYTES_TO_UINT16 d (i + 4);
          Some (usb_emit (Ev_EpOpen (usb_get_ep_number adr) (usb_get_ep_dir adr) (att AND 3) mps) s) }"

definition usbd_ep_write :: "u8 \<Rightarrow> bytes \<Rightarrow> nat \<Rightarrow> usb_state \<Rightarrow> usb_state option" where
  "usbd_ep_write ep_addr buf len s =
     do { d \<leftarrow> rd_range buf 0 len; Some (usb_emit (Ev_Write (usb_get_ep_number ep_addr) d) s) }"

definition buf_size :: "usb_buf \<Rightarrow> usb_state \<Rightarrow> nat" where
  "buf_size b s = (case b of Buf_Ep0 \<Rightarrow> length (ep0_out_data s)
     | Buf_HidReg i \<Rightarrow> if i < length (usbd_hid s) then length (reg_data (usbd_hid s ! i)) else 0
     | Buf_CdcLine i \<Rightarrow> if i < length (usbd_cdc s) then 7 else 0
     | Buf_AudioCur \<Rightarrow> (case usbd_audio s of [] \<Rightarrow> 0 | c # _ \<Rightarrow> length c))"

definition usbd_ep_read :: "u8 \<Rightarrow> usb_buf \<Rightarrow> nat \<Rightarrow> usb_state \<Rightarrow> usb_state option" where
  "usbd_ep_read ep_addr buf len s =
     (if len \<le> buf_size buf s
      then Some (usb_emit (Ev_Read (usb_get_ep_number ep_addr) buf len)
                  (if usb_get_ep_number ep_addr = 0 then s\<lparr>ep0_target := Some (buf, len)\<rparr> else s))
      else None)"

text \<open>The controller writes a received packet to the armed target.\<close>

definition usb_out_data :: "bytes \<Rightarrow> usb_state \<Rightarrow> usb_state option" where
  "usb_out_data d s =
     (case ep0_target s of None \<Rightarrow> None
      | Some (b, n) \<Rightarrow>
          if n < length d then None
          else (case b of
              Buf_Ep0 \<Rightarrow> map_option (\<lambda>x. s\<lparr>ep0_out_data := x\<rparr>) (wr_range (ep0_out_data s) 0 d)
            | Buf_HidReg i \<Rightarrow> if i < length (usbd_hid s)
                then map_option (\<lambda>x. s\<lparr>usbd_hid := (usbd_hid s)[i := (usbd_hid s ! i)\<lparr>reg_data := x\<rparr>]\<rparr>)
                       (wr_range (reg_data (usbd_hid s ! i)) 0 d)
                else None
            | Buf_CdcLine i \<Rightarrow> if i < length (usbd_cdc s)
                then map_option (\<lambda>x. s\<lparr>usbd_cdc := (usbd_cdc s)[i := (usbd_cdc s ! i)\<lparr>line_coding := cdc_of_bytes x\<rparr>]\<rparr>)
                       (wr_range (cdc_bytes (line_coding (usbd_cdc s ! i))) 0 d)
                else None
            | Buf_AudioCur \<Rightarrow> (case usbd_audio s of [] \<Rightarrow> None
                | c # cs \<Rightarrow> map_option (\<lambda>x. s\<lparr>usbd_audio := x # cs\<rparr>) (wr_range c 0 d))))"

definition usbd_ep_stall :: "u8 \<Rightarrow> usb_state \<Rightarrow> usb_state option" where
  "usbd_ep_stall ep_addr s =
     (let ep_num = usb_get_ep_number ep_addr;
          s1 = usb_emit (if usb_get_ep_dir ep_addr = USB_DIR_IN then Ev_StallIn ep_num else Ev_StallOut ep_num) s
      in if ep_num = 0 then usbd_ep_read 0 Buf_Ep0 64 s1 else Some s1)"

definition usbd_ep_clear_stall :: "u8 \<Rightarrow> usb_state \<Rightarrow> usb_state" where
  "usbd_ep_clear_stall ep_addr s =
     (let ep_num = usb_get_ep_number ep_addr
      in usb_emit (if usb_get_ep_dir ep_addr = USB_DIR_IN then Ev_ClearStallIn ep_num else Ev_ClearStallOut ep_num) s)"

definition usbd_set_address :: "u8 \<Rightarrow> usb_state \<Rightarrow> usb_state option" where
  "usbd_set_address address s = usbd_ep_write 0 [] 0 (usb_emit (Ev_SetAddress address) s)"

definition usbd_test_mode :: "u8 \<Rightarrow> usb_state \<Rightarrow> usb_state" where
  "usbd_test_mode m s = usb_emit (Ev_TestMode m) s"

end
