(* ===== verification/Usbd_Class.thy ===== *)
theory Usbd_Class
  imports Usb_Port
begin

unbundle bit_operations_syntax

text \<open>
  The class drivers of the USB device stack: HID (\<^verbatim>\<open>class/hid/usbd_hid.c\<close>), CDC (\<^verbatim>\<open>class/cdc/usbd_cdc.c\<close>)
  and audio (\<^verbatim>\<open>class/audio/usbd_audio.c\<close>), with the endpoint status table of the core that they use.
  A handler answers whether it accepted the request; \<open>setup_stage\<close> is true in the setup stage and false in
  the status stage of a control transfer.  The weak functions are the default ones of the same files.
\<close>

section \<open>Codes\<close>

definition USB_REQ_GET_STATUS :: u8 where "USB_REQ_GET_STATUS = 0"
definition USB_REQ_CLEAR_FEATURE :: u8 where "USB_REQ_CLEAR_FEATURE = 1"
definition USB_REQ_SET_FEATURE :: u8 where "USB_REQ_SET_FEATURE = 3"
definition USB_REQ_SET_ADDRESS :: u8 where "USB_REQ_SET_ADDRESS = 5"
definition USB_REQ_GET_DESCRIPTOR :: u8 where "USB_REQ_GET_DESCRIPTOR = 6"
definition USB_REQ_GET_CONFIGURATION :: u8 where "USB_REQ_GET_CONFIGURATION = 8"
definition USB_REQ_SET_CONFIGURATION :: u8 where "USB_REQ_SET_CONFIGURATION = 9"
definition USB_REQ_SET_INTERFACE :: u8 where "USB_REQ_SET_INTERFACE = 11"
definition USB_REQ_FEATURE_EDPT_HALT :: u16 where "USB_REQ_FEATURE_EDPT_HALT = 0"
definition USB_REQ_FEATURE_REMOTE_WAKEUP :: u16 where "USB_REQ_FEATURE_REMOTE_WAKEUP = 1"
definition USB_REQ_FEATURE_TEST_MODE :: u16 where "USB_REQ_FEATURE_TEST_MODE = 2"

definition HID_DESC_TYPE_HID :: u8 where "HID_DESC_TYPE_HID = 0x21"
definition HID_DESC_TYPE_REPORT :: u8 where "HID_DESC_TYPE_REPORT = 0x22"
definition HID_REQ_CONTROL_GET_IDLE :: u8 where "HID_REQ_CONTROL_GET_IDLE = 2"
definition HID_REQ_CONTROL_GET_PROTOCOL :: u8 where "HID_REQ_CONTROL_GET_PROTOCOL = 3"
definition HID_REQ_CONTROL_SET_REPORT :: u8 where "HID_REQ_CONTROL_SET_REPORT = 9"
definition HID_REQ_CONTROL_SET_IDLE :: u8 where "HID_REQ_CONTROL_SET_IDLE = 10"
definition HID_REQ_CONTROL_SET_PROTOCOL :: u8 where "HID_REQ_CONTROL_SET_PROTOCOL = 11"
definition IDLE_SET_FLAG_APP :: u32 where "IDLE_SET_FLAG_APP = 4"
definition BIOS_MODE_FLAG_APP :: u32 where "BIOS_MODE_FLAG_APP = 8"
definition REPORT_SET_FLAG_APP :: u32 where "REPORT_SET_FLAG_APP = 0x10"

definition CDC_REQUEST_SET_LINE_CODING :: u8 where "CDC_REQUEST_SET_LINE_CODING = 0x20"
definition CDC_REQUEST_GET_LINE_CODING :: u8 where "CDC_REQUEST_GET_LINE_CODING = 0x21"
definition CDC_REQUEST_SET_CONTROL_LINE_STATE :: u8 where "CDC_REQUEST_SET_CONTROL_LINE_STATE = 0x22"

lemmas usb_codes = USB_REQ_GET_STATUS_def USB_REQ_CLEAR_FEATURE_def USB_REQ_SET_FEATURE_def USB_REQ_SET_ADDRESS_def
  USB_REQ_GET_DESCRIPTOR_def USB_REQ_GET_CONFIGURATION_def USB_REQ_SET_CONFIGURATION_def USB_REQ_SET_INTERFACE_def
  USB_REQ_FEATURE_EDPT_HALT_def USB_REQ_FEATURE_REMOTE_WAKEUP_def USB_REQ_FEATURE_TEST_MODE_def
  HID_DESC_TYPE_HID_def HID_DESC_TYPE_REPORT_def HID_REQ_CONTROL_GET_IDLE_def HID_REQ_CONTROL_GET_PROTOCOL_def
  HID_REQ_CONTROL_SET_REPORT_def HID_REQ_CONTROL_SET_IDLE_def HID_REQ_CONTROL_SET_PROTOCOL_def
  CDC_REQUEST_SET_LINE_CODING_def CDC_REQUEST_GET_LINE_CODING_def CDC_REQUEST_SET_CONTROL_LINE_STATE_def

section \<open>Endpoint status\<close>

definition usbd_endpoint_set_status :: "u8 \<Rightarrow> u16 \<Rightarrow> usb_state \<Rightarrow> usb_state option" where
  "usbd_endpoint_set_status ep_addr st s =
     (let dir = usb_get_ep_dir ep_addr; i = unat (usb_get_ep_number ep_addr); t = ep_status (usbd_info s) in
      if i < length t \<and> dir < length (t ! i)
      then Some (s\<lparr>usbd_info := (usbd_info s)\<lparr>ep_status := t[i := (t ! i)[dir := st]]\<rparr>\<rparr>)
      else None)"

definition usbd_endpoint_get_status :: "u8 \<Rightarrow> usb_state \<Rightarrow> u16 option" where
  "usbd_endpoint_get_status ep_addr s =
     (let dir = usb_get_ep_dir ep_addr; i = unat (usb_get_ep_number ep_addr); t = ep_status (usbd_info s) in
      if i < length t \<and> dir < length (t ! i) then Some (t ! i ! dir) else None)"

section \<open>HID\<close>

definition usbd_hid_reset_interface_data :: "usb_state \<Rightarrow> usb_state" where
  "usbd_hid_reset_interface_data s = s\<lparr>usbd_hid := map (\<lambda>h. h\<lparr>protocol_mode := 1\<rparr>) (usbd_hid s)\<rparr>"

text \<open>A descriptor of non-zero length moves the walk forward.\<close>

lemma desc_step:
  assumes "\<not> length d \<le> i" "d ! i \<noteq> (0 :: u8)"
  shows "length d - (i + unat (d ! i)) < length d - i"
proof -
  have "0 < unat (d ! i)" using assms(2) unat_gt_0 by blast
  then show ?thesis using assms(1) by linarith
qed

text \<open>The walk over the configuration descriptor \<open>d\<close> in search of the HID descriptor of an interface.\<close>

function hid_desc_loop :: "bytes \<Rightarrow> usb_control_request_t \<Rightarrow> nat \<Rightarrow> u16 \<Rightarrow> u8 \<Rightarrow> usb_state \<Rightarrow> usb_state option" where
  "hid_desc_loop d setup i cur cur_iface s =
     (if length d \<le> i then None
      else if d ! i = 0 then Some s
      else do {
        ty \<leftarrow> rd8 d (i + 1);
        iface \<leftarrow> (if ty = 4 then rd8 d (i + 2) else Some cur_iface);
        s1 \<leftarrow> (if ty = 0x21 \<and> iface = U16_LOW_BYTE (wIndex setup)
               then usbd_ep_write 0 (drop i d) (min (unat (wLength setup)) (unat (d ! i))) s else Some s);
        l \<leftarrow> rd8 d (i + unat (d ! i));
        if cur + ucast l \<ge> ucast (d ! 2) OR push_bit 8 (ucast (d ! 3)) then Some s1
        else hid_desc_loop d setup (i + unat (d ! i)) (cur + ucast l) iface s1 })"
  by pat_completeness auto
termination
  by (relation "measure (\<lambda>(d, _, i, _). length d - i)") (simp_all add: desc_step)

declare hid_desc_loop.simps [simp del]

definition usbd_hid_request_descriptor :: "usb_app \<Rightarrow> usb_control_request_t \<Rightarrow> usb_state \<Rightarrow> (bool \<times> usb_state) option" where
  "usbd_hid_request_descriptor app setup s =
     (let hid_desc = U16_HIGH_BYTE (wValue setup) in
      if hid_desc = HID_DESC_TYPE_HID
      then do { d \<leftarrow> usbd_get_config_descriptor app;
                _ \<leftarrow> rd8 d 3;
                s1 \<leftarrow> hid_desc_loop d setup 0 0 0xFF s;
                Some (True, s1) }
      else if hid_desc = HID_DESC_TYPE_REPORT
      then (case usbd_hid_get_report_descriptor app (ucast (wIndex setup)) of
              None \<Rightarrow> Some (True, s)
            | Some (d, len) \<Rightarrow>
                map_option (Pair True) (usbd_ep_write 0 d (min (unat (wLength setup)) (unat len)) s))
      else Some (False, s))"

definition usbd_hid_set_report :: "u8 \<Rightarrow> u8 \<Rightarrow> u8 \<Rightarrow> bytes \<Rightarrow> u16 \<Rightarrow> usb_state \<Rightarrow> usb_state option" where
  "usbd_hid_set_report hid_itf report_id report_type report report_len s =
     do { d \<leftarrow> rd_range report 0 (unat report_len);
          Some (usb_emit (App_SetReport hid_itf report_id report_type d) (usb_emit (App_StatusSet REPORT_SET_FLAG_APP) s)) }"

definition hid_standard_request ::
    "usb_app \<Rightarrow> usb_control_request_t \<Rightarrow> usb_state \<Rightarrow> (bool \<times> usb_state) option" where
  "hid_standard_request app setup s =
     (let ep = U16_LOW_BYTE (wIndex setup) in
      if bRequest setup = USB_REQ_GET_STATUS
      then do { st \<leftarrow> usbd_endpoint_get_status ep s;
                s1 \<leftarrow> usbd_ep_write 0 (UINT16_TO_BSTREAM st) 2 s;
                Some (True, s1) }
      else if bRequest setup = USB_REQ_CLEAR_FEATURE
      then if recipient setup = 2 \<and> wValue setup = USB_REQ_FEATURE_EDPT_HALT
           then do { s1 \<leftarrow> usbd_endpoint_set_status ep 0 s;
                     s2 \<leftarrow> usbd_ep_write 0 [] 0 (usbd_ep_clear_stall ep s1);
                     Some (True, s2) }
           else Some (False, s)
      else if bRequest setup = USB_REQ_SET_FEATURE
      then if recipient setup = 2 \<and> wValue setup = USB_REQ_FEATURE_EDPT_HALT
           then do { s1 \<leftarrow> usbd_endpoint_set_status ep 1 s;
                     s2 \<leftarrow> usbd_ep_stall ep s1;
                     s3 \<leftarrow> usbd_ep_write 0 [] 0 s2;
                     Some (True, s3) }
           else Some (False, s)
      else if bRequest setup = USB_REQ_GET_DESCRIPTOR
      then do { (_, s1) \<leftarrow> usbd_hid_request_descriptor app setup s; Some (True, s1) }
      else Some (False, s))"

definition hid_class_request ::
    "usb_control_request_t \<Rightarrow> bool \<Rightarrow> usb_state \<Rightarrow> (bool \<times> usb_state) option" where
  "hid_class_request setup setup_stage s =
     (let itf = U16_LOW_BYTE (wIndex setup); i = unat itf; known = (i < length (usbd_hid s)); h = usbd_hid s ! i in
      if bRequest setup = HID_REQ_CONTROL_GET_IDLE
      then if known then map_option (Pair True) (usbd_ep_write 0 [idle_rate h] 1 s) else None
      else if bRequest setup = HID_REQ_CONTROL_GET_PROTOCOL
      then if known then map_option (Pair True) (usbd_ep_write 0 [protocol_mode h] 1 s) else None
      else if bRequest setup = HID_REQ_CONTROL_SET_REPORT
      then if setup_stage
           then map_option (Pair True) (usbd_ep_read 0 (Buf_HidReg i) (unat (wLength setup)) s)
           else if known
           then map_option (Pair True) (usbd_hid_set_report itf (U16_LOW_BYTE (wValue setup)) (U16_HIGH_BYTE (wValue setup))
                  (reg_data h) (wLength setup) s)
           else None
      else if bRequest setup = HID_REQ_CONTROL_SET_IDLE
      then if known
           then do { s1 \<leftarrow> usbd_ep_write 0 [] 0 (s\<lparr>usbd_hid := (usbd_hid s)[i := h\<lparr>idle_rate := U16_HIGH_BYTE (wValue setup)\<rparr>]\<rparr>);
                     Some (True, usb_emit (App_StatusSet IDLE_SET_FLAG_APP) s1) }
           else None
      else if bRequest setup = HID_REQ_CONTROL_SET_PROTOCOL
      then if known
           then map_option (Pair True) (usbd_ep_write 0 [] 0
                  (usb_emit (if wValue setup AND 1 \<noteq> 0 then App_StatusClear BIOS_MODE_FLAG_APP else App_StatusSet BIOS_MODE_FLAG_APP)
                    (s\<lparr>usbd_hid := (usbd_hid s)[i := h\<lparr>protocol_mode := U16_LOW_BYTE (wValue setup)\<rparr>]\<rparr>)))
           else None
      else Some (False, s))"

definition usbd_hid_interface_request_handler ::
    "usb_app \<Rightarrow> usb_control_request_t \<Rightarrow> bool \<Rightarrow> usb_state \<Rightarrow> (bool \<times> usb_state) option" where
  "usbd_hid_interface_request_handler app setup setup_stage s =
     (if req_type setup = 0 then hid_standard_request app setup s
      else if req_type setup = 1 then hid_class_request setup setup_stage s
      else Some (False, s))"

section \<open>CDC\<close>

definition usbd_cdc_get_line_coding :: "cdc_line_coding_t \<Rightarrow> cdc_line_coding_t" where
  "usbd_cdc_get_line_coding c =
     (if bit_rate c = 0 then c\<lparr>bit_rate := 115200, data_bits := 8, parity := 0, stop_bits := 0\<rparr> else c)"

definition usbd_cdc_interface_request_handler ::
    "usb_control_request_t \<Rightarrow> bool \<Rightarrow> usb_state \<Rightarrow> (bool \<times> usb_state) option" where
  "usbd_cdc_interface_request_handler setup setup_stage s =
     (let i = unat (U16_LOW_BYTE (wIndex setup)); known = (i < length (usbd_cdc s)); c = usbd_cdc s ! i in
      if req_type setup = 1
      then if bRequest setup = CDC_REQUEST_SET_LINE_CODING
           then if setup_stage
                then map_option (Pair True) (usbd_ep_read 0 (Buf_CdcLine i) (unat (wLength setup)) s)
                else Some (True, s)
           else if bRequest setup = CDC_REQUEST_GET_LINE_CODING
           then if known
                then let l = usbd_cdc_get_line_coding (line_coding c) in
                  map_option (Pair True) (usbd_ep_write 0 (cdc_bytes l) 7 (s\<lparr>usbd_cdc := (usbd_cdc s)[i := c\<lparr>line_coding := l\<rparr>]\<rparr>))
                else None
           else if bRequest setup = CDC_REQUEST_SET_CONTROL_LINE_STATE
           then if known
                then map_option (Pair True) (usbd_ep_write 0 [] 0
                       (s\<lparr>usbd_cdc := (usbd_cdc s)[i := c\<lparr>dtr := wValue setup AND 1 \<noteq> 0, rts := wValue setup AND 2 \<noteq> 0\<rparr>]\<rparr>))
                else None
           else Some (False, s)
      else Some (False, s))"

section \<open>Audio\<close>

definition audio_class_request ::
    "usb_app \<Rightarrow> usb_control_request_t \<Rightarrow> bool \<Rightarrow> usb_state \<Rightarrow> (bool \<times> usb_state) option" where
  "audio_class_request app setup setup_stage s =
     (if recipient setup = 1
      then if setup_stage
           then if wLength setup \<noteq> 0 \<and> direction setup = 0
                then map_option (Pair True) (usbd_ep_read 0 Buf_AudioCur (unat (wLength setup)) s)
                else (case usbd_audio_interface_cb app of None \<Rightarrow> Some (False, s) | Some cb \<Rightarrow> cb setup s)
           else Some (True, s)
      else if recipient setup = 2
      then if setup_stage
           then map_option (Pair True) (usbd_ep_read 0 Buf_AudioCur (unat (wLength setup)) s)
           else map_option (Pair True) (usbd_ep_write 0 [] 0 s)
      else Some (False, s))"

definition usbd_audio_interface_request_handler ::
    "usb_app \<Rightarrow> usb_control_request_t \<Rightarrow> bool \<Rightarrow> usb_state \<Rightarrow> (bool \<times> usb_state) option" where
  "usbd_audio_interface_request_handler app setup setup_stage s =
     (let audio_alt_itf = U16_LOW_BYTE (wValue setup); audio_itf = U16_LOW_BYTE (wIndex setup) in
      if req_type setup = 0
      then if bRequest setup = USB_REQ_SET_INTERFACE
           then map_option (Pair True) (usbd_ep_write 0 [] 0
                  (usb_emit (if audio_alt_itf \<noteq> 0 then App_AudioOpen audio_itf else App_AudioClose audio_itf) s))
           else Some (False, s)
      else if req_type setup = 1 then audio_class_request app setup setup_stage s
      else Some (False, s))"

end
