(* ===== verification/Usbd_Core.thy ===== *)
theory Usbd_Core
  imports Usbd_Class
begin

unbundle bit_operations_syntax

text \<open>
  The core of the USB device stack (\<^verbatim>\<open>core/usbd_core.c\<close>): control requests, the walk over the
  configuration descriptor, the driver and endpoint tables and the bus reset; and the interrupt handlers
  of the port (\<^verbatim>\<open>port/tl322x_usb.c\<close>) that drive it.  The interrupt registers that a handler reads are the
  argument \<open>regs\<close>.
\<close>

section \<open>Descriptors and configuration\<close>

definition USB_DESC_DEVICE :: u8 where "USB_DESC_DEVICE = 1"
definition USB_DESC_CONFIGURATION :: u8 where "USB_DESC_CONFIGURATION = 2"
definition USB_DESC_STRING :: u8 where "USB_DESC_STRING = 3"
definition USB_DESC_DEVICE_QUALIFIER :: u8 where "USB_DESC_DEVICE_QUALIFIER = 6"
definition USB_DESC_OTHER_SPEED_CONFIG :: u8 where "USB_DESC_OTHER_SPEED_CONFIG = 7"

text \<open>Sending a descriptor: its length is its first byte, or the total length in bytes 2 and 3.\<close>

definition send_desc :: "usb_control_request_t \<Rightarrow> bytes option \<Rightarrow> usb_state \<Rightarrow> (bool \<times> usb_state) option" where
  "send_desc setup desc s =
     (case desc of None \<Rightarrow> Some (False, s)
      | Some d \<Rightarrow> do { l \<leftarrow> rd8 d 0; s1 \<leftarrow> usbd_ep_write 0 d (min (unat l) (unat (wLength setup))) s; Some (True, s1) })"

definition send_total_desc :: "usb_control_request_t \<Rightarrow> bytes option \<Rightarrow> usb_state \<Rightarrow> (bool \<times> usb_state) option" where
  "send_total_desc setup desc s =
     (case desc of None \<Rightarrow> Some (False, s)
      | Some d \<Rightarrow> do { l \<leftarrow> BYTES_TO_UINT16 d 2; s1 \<leftarrow> usbd_ep_write 0 d (min (unat l) (unat (wLength setup))) s; Some (True, s1) })"

definition usbd_get_descriptor_process ::
    "usb_app \<Rightarrow> usb_control_request_t \<Rightarrow> usb_state \<Rightarrow> (bool \<times> usb_state) option" where
  "usbd_get_descriptor_process app setup s =
     (let desc_type = U16_HIGH_BYTE (wValue setup); idx = U16_LOW_BYTE (wValue setup) in
      if desc_type = USB_DESC_DEVICE then send_desc setup (usbd_get_device_descriptor app) s
      else if desc_type = USB_DESC_CONFIGURATION then send_total_desc setup (usbd_get_config_descriptor app) s
      else if desc_type = USB_DESC_STRING then send_desc setup (usbd_get_string_descriptor app idx) s
      else if desc_type = USB_DESC_DEVICE_QUALIFIER then send_desc setup (usbd_get_device_qualifier_descriptor app) s
      else if desc_type = USB_DESC_OTHER_SPEED_CONFIG
      then send_total_desc setup (usbd_get_other_speed_configuration_descriptor app idx) s
      else Some (False, s))"

function set_config_loop :: "bytes \<Rightarrow> nat \<Rightarrow> u16 \<Rightarrow> u16 \<Rightarrow> usb_state \<Rightarrow> usb_state option" where
  "set_config_loop d i cur tot s =
     (if length d \<le> i then None
      else if d ! i = 0 then Some s
      else do {
        ty \<leftarrow> rd8 d (i + 1);
        s1 \<leftarrow> (if ty = 5 then usbd_ep_open d i s else Some s);
        l \<leftarrow> rd8 d (i + unat (d ! i));
        if cur + ucast l \<ge> tot then Some s1
        else set_config_loop d (i + unat (d ! i)) (cur + ucast l) tot s1 })"
  by pat_completeness auto
termination
  by (relation "measure (\<lambda>(d, i, _). length d - i)") (simp_all add: desc_step)

declare set_config_loop.simps [simp del]

definition usbd_set_configuration :: "usb_app \<Rightarrow> usb_state \<Rightarrow> usb_state option" where
  "usbd_set_configuration app s =
     do { d \<leftarrow> usbd_get_config_descriptor app;
          tot \<leftarrow> BYTES_TO_UINT16 d 2;
          set_config_loop d 0 0 tot s }"

section \<open>Control requests\<close>

definition usbd_device_request ::
    "usb_app \<Rightarrow> usb_control_request_t \<Rightarrow> usb_state \<Rightarrow> (bool \<times> usb_state) option" where
  "usbd_device_request app setup s =
     (let info = usbd_info s in
      if bRequest setup = USB_REQ_SET_ADDRESS
      then map_option (Pair True) (usbd_set_address (U16_LOW_BYTE (wValue setup))
             (s\<lparr>usbd_info := info\<lparr>usb_address := U16_LOW_BYTE (wValue setup)\<rparr>\<rparr>))
      else if bRequest setup = USB_REQ_GET_DESCRIPTOR then usbd_get_descriptor_process app setup s
      else if bRequest setup = USB_REQ_GET_CONFIGURATION
      then map_option (Pair True) (usbd_ep_write 0 [config_value info] 1 s)
      else if bRequest setup = USB_REQ_SET_CONFIGURATION
      then let cfg = U16_LOW_BYTE (wValue setup); s0 = s\<lparr>usbd_info := info\<lparr>config_value := cfg\<rparr>\<rparr> in
           do { s1 \<leftarrow> (if cfg \<noteq> 0
                      then do { a \<leftarrow> usbd_set_configuration app s0;
                                Some (if usbd_set_configuration_callback app then usb_emit (App_SetConfiguration cfg) a else a) }
                      else Some s0);
                s2 \<leftarrow> usbd_ep_write 0 [] 0 s1;
                Some (True, s2) }
      else if bRequest setup = USB_REQ_GET_STATUS
      then map_option (Pair True) (usbd_ep_write 0 (UINT16_TO_BSTREAM (device_status info)) 2 s)
      else if bRequest setup = USB_REQ_CLEAR_FEATURE
      then if wValue setup = USB_REQ_FEATURE_REMOTE_WAKEUP
           then map_option (Pair True) (usbd_ep_write 0 [] 0
                  (s\<lparr>remote_wakeup := 0, usbd_info := info\<lparr>device_status := device_status info AND NOT 2\<rparr>\<rparr>))
           else Some (False, s)
      else if bRequest setup = USB_REQ_SET_FEATURE
      then if wValue setup = USB_REQ_FEATURE_REMOTE_WAKEUP
           then map_option (Pair True) (usbd_ep_write 0 [] 0
                  (s\<lparr>remote_wakeup := 1, usbd_info := info\<lparr>device_status := device_status info OR 2\<rparr>\<rparr>))
           else if wValue setup = USB_REQ_FEATURE_TEST_MODE
           then do { s1 \<leftarrow> usbd_ep_write 0 [] 0 s;
                     Some (True, s1\<lparr>usbd_info := (usbd_info s1)\<lparr>test_mode := True\<rparr>\<rparr>) }
           else Some (False, s)
      else Some (False, s))"

text \<open>The call through a driver table entry.\<close>

definition usbd_call_driver ::
    "usb_app \<Rightarrow> u8 \<Rightarrow> usb_control_request_t \<Rightarrow> bool \<Rightarrow> usb_state \<Rightarrow> (bool \<times> usb_state) option" where
  "usbd_call_driver app n setup setup_stage s =
     (if unat n < length (usb_driver (usbd_info s))
      then (case usb_driver (usbd_info s) ! unat n of None \<Rightarrow> None
            | Some drv \<Rightarrow> (case usbd_driver_handler drv of
                Hid_Handler \<Rightarrow> usbd_hid_interface_request_handler app setup setup_stage s
              | Cdc_Handler \<Rightarrow> usbd_cdc_interface_request_handler setup setup_stage s
              | Audio_Handler \<Rightarrow> usbd_audio_interface_request_handler app setup setup_stage s))
      else None)"

definition usbd_interface_request ::
    "usb_app \<Rightarrow> usb_control_request_t \<Rightarrow> bool \<Rightarrow> usb_state \<Rightarrow> (bool \<times> usb_state) option" where
  "usbd_interface_request app setup setup_stage s =
     (let i = unat (U16_LOW_BYTE (wIndex setup)) in
      if i < length (itf2drv (usbd_info s))
      then usbd_call_driver app (itf2drv (usbd_info s) ! i) setup setup_stage s
      else None)"

definition usbd_endpoint_request ::
    "usb_app \<Rightarrow> usb_control_request_t \<Rightarrow> bool \<Rightarrow> usb_state \<Rightarrow> (bool \<times> usb_state) option" where
  "usbd_endpoint_request app setup setup_stage s =
     (let dir = usb_get_ep_dir (U16_LOW_BYTE (wIndex setup)); i = unat (usb_get_ep_number (U16_LOW_BYTE (wIndex setup)));
          t = ep2drv (usbd_info s) in
      if i < length t \<and> dir < length (t ! i) then usbd_call_driver app (t ! i ! dir) setup setup_stage s else None)"

definition usbd_standard_request_process ::
    "usb_app \<Rightarrow> usb_control_request_t \<Rightarrow> bool \<Rightarrow> usb_state \<Rightarrow> (bool \<times> usb_state) option" where
  "usbd_standard_request_process app setup setup_stage s =
     (if recipient setup = 0 then usbd_device_request app setup s
      else if recipient setup = 1 then usbd_interface_request app setup setup_stage s
      else if recipient setup = 2 then usbd_endpoint_request app setup setup_stage s
      else Some (False, s))"

definition usbd_class_request_process ::
    "usb_app \<Rightarrow> usb_control_request_t \<Rightarrow> bool \<Rightarrow> usb_state \<Rightarrow> (bool \<times> usb_state) option" where
  "usbd_class_request_process app setup setup_stage s =
     (if recipient setup = 0 then Some (False, s)
      else if recipient setup = 1 then usbd_interface_request app setup setup_stage s
      else if recipient setup = 2 then usbd_endpoint_request app setup setup_stage s
      else Some (False, s))"

definition usbd_vendor_request_process :: "usb_state \<Rightarrow> (bool \<times> usb_state) option" where
  "usbd_vendor_request_process s = Some (False, s)"

definition usbd_control_request_process ::
    "usb_app \<Rightarrow> usb_control_request_t \<Rightarrow> bool \<Rightarrow> usb_state \<Rightarrow> (bool \<times> usb_state) option" where
  "usbd_control_request_process app setup setup_stage s =
     (let s0 = s\<lparr>usbd_info := (usbd_info s)\<lparr>usb_setup := setup\<rparr>\<rparr> in
      if req_type setup = 0 then usbd_standard_request_process app setup setup_stage s0
      else if req_type setup = 1 then usbd_class_request_process app setup setup_stage s0
      else if req_type setup = 2 then usbd_vendor_request_process s0
      else Some (False, s0))"

section \<open>Registration and endpoint events\<close>

definition usbd_driver_register :: "usbd_driver_t \<Rightarrow> u8 \<Rightarrow> u8 \<Rightarrow> usb_state \<Rightarrow> usb_state option" where
  "usbd_driver_register drv intf ep_addr s =
     (let dir = usb_get_ep_dir ep_addr; i = unat (usb_get_ep_number ep_addr); info = usbd_info s; t = ep2drv info in
      if i \<le> USBD_SUPPORT_ENDPOINT_MAX
      then if i < length t \<and> dir < length (t ! i) \<and> unat intf < length (itf2drv info) \<and> unat (driver_num drv) < length (usb_driver info)
           then Some (s\<lparr>usbd_info := info\<lparr>ep2drv := t[i := (t ! i)[dir := driver_num drv]],
                         itf2drv := (itf2drv info)[unat intf := driver_num drv],
                         usb_driver := (usb_driver info)[unat (driver_num drv) := Some drv]\<rparr>\<rparr>)
           else None
      else Some s)"

definition usbd_endpoint_register :: "u8 \<Rightarrow> usbd_endpoint_callback option \<Rightarrow> usb_state \<Rightarrow> usb_state option" where
  "usbd_endpoint_register ep_addr cb s =
     (let dir = usb_get_ep_dir ep_addr; i = unat (usb_get_ep_number ep_addr); info = usbd_info s in
      if i \<le> USBD_SUPPORT_ENDPOINT_MAX
      then if dir = USB_DIR_IN
           then if i < length (epin_cb info) then Some (s\<lparr>usbd_info := info\<lparr>epin_cb := (epin_cb info)[i := cb]\<rparr>\<rparr>) else None
           else if i < length (epout_cb info) then Some (s\<lparr>usbd_info := info\<lparr>epout_cb := (epout_cb info)[i := cb]\<rparr>\<rparr>) else None
      else Some s)"

definition usbd_ep0_in_complete_callback :: "usb_state \<Rightarrow> usb_state" where
  "usbd_ep0_in_complete_callback s =
     (if test_mode (usbd_info s)
      then usbd_test_mode (U16_HIGH_BYTE (wIndex (usb_setup (usbd_info s)))) (s\<lparr>usbd_info := (usbd_info s)\<lparr>test_mode := False\<rparr>\<rparr>)
      else s)"

fun usbd_run_callback :: "usbd_endpoint_callback option \<Rightarrow> u8 \<Rightarrow> u32 \<Rightarrow> usb_state \<Rightarrow> usb_state" where
  "usbd_run_callback None ep len s = s"
| "usbd_run_callback (Some Ep0_In_Complete) ep len s = usbd_ep0_in_complete_callback s"
| "usbd_run_callback (Some Ep0_Out_Complete) ep len s = s"
| "usbd_run_callback (Some (App_Endpoint n)) ep len s = usb_emit (App_EpComplete n ep len) s"

definition usbd_epin_complete_handler :: "u8 \<Rightarrow> u32 \<Rightarrow> usb_state \<Rightarrow> usb_state option" where
  "usbd_epin_complete_handler ep_index len s =
     (if unat ep_index < length (epin_cb (usbd_info s))
      then Some (usbd_run_callback (epin_cb (usbd_info s) ! unat ep_index) ep_index len s) else None)"

definition usbd_epout_complete_handler :: "u8 \<Rightarrow> u32 \<Rightarrow> usb_state \<Rightarrow> usb_state option" where
  "usbd_epout_complete_handler ep_index len s =
     (if unat ep_index < length (epout_cb (usbd_info s))
      then Some (usbd_run_callback (epout_cb (usbd_info s) ! unat ep_index) ep_index len s) else None)"

definition usbd_bus_reset :: "usb_state \<Rightarrow> usb_state" where
  "usbd_bus_reset s =
     usb_emit App_BusResetInit (s\<lparr>usbd_info := (usbd_info s)\<lparr>usb_address := 0, config_value := 0, device_status := 0,
       ep_status := map (map (\<lambda>_. 0)) (ep_status (usbd_info s)),
       epin_cb := (epin_cb (usbd_info s))[0 := Some Ep0_In_Complete],
       epout_cb := (epout_cb (usbd_info s))[0 := Some Ep0_Out_Complete]\<rparr>\<rparr>)"

section \<open>Interrupts\<close>

definition FLD_USB_DOEPINT_XFERCOMPL :: u32 where "FLD_USB_DOEPINT_XFERCOMPL = 1"
definition FLD_USB_DOEPINT_SETUP :: u32 where "FLD_USB_DOEPINT_SETUP = 8"
definition FLD_USB_DOEPINT_STSPHSERCVD :: u32 where "FLD_USB_DOEPINT_STSPHSERCVD = 0x20"
definition FLD_USB_DIEPINT_XFERCOMPL :: u32 where "FLD_USB_DIEPINT_XFERCOMPL = 1"
definition FLD_USB_GINTSTS_SOF :: u32 where "FLD_USB_GINTSTS_SOF = 8"
definition FLD_USB_GINTSTS_USBSUSP :: u32 where "FLD_USB_GINTSTS_USBSUSP = 0x800"
definition FLD_USB_GINTSTS_USBRST :: u32 where "FLD_USB_GINTSTS_USBRST = 0x1000"
definition FLD_USB_GINTSTS_ENUMDONE :: u32 where "FLD_USB_GINTSTS_ENUMDONE = 0x2000"
definition FLD_USB_GINTSTS_IEPINT :: u32 where "FLD_USB_GINTSTS_IEPINT = 0x40000"
definition FLD_USB_GINTSTS_OEPINT :: u32 where "FLD_USB_GINTSTS_OEPINT = 0x80000"
definition FLD_USB_GINTSTS_WKUPINT :: u32 where "FLD_USB_GINTSTS_WKUPINT = 0x80000000"

record usb_regs =
  usb0hw_get_daint :: u32
  usb0hw_get_doepint :: "nat \<Rightarrow> u32"
  usb0hw_get_epout_len :: "nat \<Rightarrow> u16"
  usb0hw_get_diepint :: "nat \<Rightarrow> u32"
  usb0hw_get_epin_len :: "nat \<Rightarrow> u16"

text \<open>The first eight bytes of \<^verbatim>\<open>ep0_out_data\<close> as a request.\<close>

definition setup_of_bytes :: "bytes \<Rightarrow> usb_control_request_t" where
  "setup_of_bytes b = \<lparr>bmRequestType = b ! 0, bRequest = b ! 1, wValue = ucast (b ! 2) + push_bit 8 (ucast (b ! 3)),
     wIndex = ucast (b ! 4) + push_bit 8 (ucast (b ! 5)), wLength = ucast (b ! 6) + push_bit 8 (ucast (b ! 7))\<rparr>"

definition usb_stall_ep0 :: "usb_state \<Rightarrow> usb_state option" where
  "usb_stall_ep0 s = do { a \<leftarrow> usbd_ep_stall 0 s; usbd_ep_stall (0 OR USB_DIR_IN_MASK) a }"

definition epout_xfercompl :: "usb_regs \<Rightarrow> nat \<Rightarrow> usb_state \<Rightarrow> usb_state option" where
  "epout_xfercompl regs epnum s =
     (let s0 = usb_emit (Ev_ClearDoepint (of_nat epnum) FLD_USB_DOEPINT_XFERCOMPL) s; len = usb0hw_get_epout_len regs epnum in
      if epnum = 0
      then if len = 0 then do { a \<leftarrow> usbd_ep_read 0 Buf_Ep0 64 s0; usbd_epout_complete_handler 0 0 a }
           else usbd_epout_complete_handler 0 (ucast len) s0
      else usbd_epout_complete_handler (of_nat epnum) (ucast len) s0)"

definition epout_setup :: "usb_app \<Rightarrow> nat \<Rightarrow> usb_state \<Rightarrow> usb_state option" where
  "epout_setup app epnum s =
     do { (ok, a) \<leftarrow> usbd_control_request_process app (setup_of_bytes (ep0_out_data s)) True
                       (usb_emit (Ev_ClearDoepint (of_nat epnum) FLD_USB_DOEPINT_SETUP) s);
          if ok then Some a else usb_stall_ep0 a }"

definition epout_status :: "usb_app \<Rightarrow> nat \<Rightarrow> usb_state \<Rightarrow> usb_state option" where
  "epout_status app epnum s =
     do { (ok, a) \<leftarrow> usbd_control_request_process app (setup_of_bytes (ep0_out_data s)) False
                       (usb_emit (Ev_ClearDoepint (of_nat epnum) FLD_USB_DOEPINT_STSPHSERCVD) s);
          if ok then usbd_ep_write 0 [] 0 a else usb_stall_ep0 a }"

fun usb_irq_handler_epout :: "usb_app \<Rightarrow> usb_regs \<Rightarrow> nat list \<Rightarrow> usb_state \<Rightarrow> usb_state option" where
  "usb_irq_handler_epout app regs [] s = Some s"
| "usb_irq_handler_epout app regs (epnum # eps) s =
     (if bit (drop_bit 16 (usb0hw_get_daint regs)) epnum
      then let doepint = usb0hw_get_doepint regs epnum in
        do { s1 \<leftarrow> (if doepint AND FLD_USB_DOEPINT_XFERCOMPL \<noteq> 0 then epout_xfercompl regs epnum s else Some s);
             s2 \<leftarrow> (if doepint AND FLD_USB_DOEPINT_SETUP \<noteq> 0 then epout_setup app epnum s1 else Some s1);
             s3 \<leftarrow> (if doepint AND FLD_USB_DOEPINT_STSPHSERCVD \<noteq> 0 then epout_status app epnum s2 else Some s2);
             usb_irq_handler_epout app regs eps s3 }
      else usb_irq_handler_epout app regs eps s)"

fun usb_irq_handler_epin :: "usb_regs \<Rightarrow> nat list \<Rightarrow> usb_state \<Rightarrow> usb_state option" where
  "usb_irq_handler_epin regs [] s = Some s"
| "usb_irq_handler_epin regs (epnum # eps) s =
     (if bit (usb0hw_get_daint regs) epnum \<and> usb0hw_get_diepint regs epnum AND FLD_USB_DIEPINT_XFERCOMPL \<noteq> 0
      then let s0 = usb_emit (Ev_ClearDiepint (of_nat epnum) FLD_USB_DIEPINT_XFERCOMPL) s; len = usb0hw_get_epin_len regs epnum in
        do { s1 \<leftarrow> (if epnum = 0
                   then do { a \<leftarrow> usbd_ep_read 0 Buf_Ep0 64 s0;
                             b \<leftarrow> usbd_epin_complete_handler 0 (ucast len) a;
                             Some (usb_emit (Ev_StallIn 0) b) }
                   else usbd_epin_complete_handler (of_nat epnum) (ucast len) s0);
             usb_irq_handler_epin regs eps s1 }
      else usb_irq_handler_epin regs eps s)"

definition usb_irq_handler_reset :: "usb_state \<Rightarrow> usb_state option" where
  "usb_irq_handler_reset s = usbd_ep_read 0 Buf_Ep0 64 (usb_emit Ev_HwReset s)"

definition usb_irq_sof :: "usb_app \<Rightarrow> usb_state \<Rightarrow> usb_state" where
  "usb_irq_sof app s =
     (let s0 = (usb_emit (Ev_ClearGintsts FLD_USB_GINTSTS_SOF) s)\<lparr>sof_cnt := sof_cnt s + 1\<rparr> in
      if sof_cnt s0 > 10
      then (if tl_usb_sof_cb app then usb_emit App_Sof s0 else s0)\<lparr>sof_masked := True\<rparr>
      else s0)"

definition usb_irq_reset :: "usb_app \<Rightarrow> usb_state \<Rightarrow> usb_state option" where
  "usb_irq_reset app s =
     do { a \<leftarrow> usb_irq_handler_reset (usb_emit (Ev_ClearGintsts FLD_USB_GINTSTS_USBRST) s);
          let b = usbd_bus_reset a; c = (if tl_usb_reset_cb app then usb_emit App_Reset b else b) in
          Some (c\<lparr>sof_cnt := 0, sof_masked := False\<rparr>) }"

text \<open>\<open>status\<close> is \<^verbatim>\<open>usb0hw_get_gintsts() & reg_usb_gintmsk\<close>.\<close>

definition usb0_irq_handler :: "usb_app \<Rightarrow> usb_regs \<Rightarrow> u32 \<Rightarrow> usb_state \<Rightarrow> usb_state option" where
  "usb0_irq_handler app regs status s =
     (let s1 = (if status AND FLD_USB_GINTSTS_ENUMDONE \<noteq> 0
                then let a = usb_emit (Ev_ClearGintsts FLD_USB_GINTSTS_ENUMDONE) s
                     in if tl_usb_enum_done_cb app then usb_emit App_EnumDone a else a
                else s) in
      do { s2 \<leftarrow> (if status AND FLD_USB_GINTSTS_OEPINT \<noteq> 0 then usb_irq_handler_epout app regs [0..<9] s1 else Some s1);
           s3 \<leftarrow> (if status AND FLD_USB_GINTSTS_IEPINT \<noteq> 0 then usb_irq_handler_epin regs [0..<9] s2 else Some s2);
           let s4 = (if status AND FLD_USB_GINTSTS_SOF \<noteq> 0 then usb_irq_sof app s3 else s3);
               s5 = (if status AND FLD_USB_GINTSTS_USBSUSP \<noteq> 0 then usb_emit (Ev_ClearGintsts FLD_USB_GINTSTS_USBSUSP) s4 else s4);
               s6 = (if status AND FLD_USB_GINTSTS_WKUPINT \<noteq> 0 then usb_emit (Ev_ClearGintsts FLD_USB_GINTSTS_WKUPINT) s5 else s5)
           in if status AND FLD_USB_GINTSTS_USBRST \<noteq> 0 then usb_irq_reset app s6 else Some s6 })"

section \<open>The port operations\<close>

lemma usb_emit_simps [simp]:
  "usbd_info (usb_emit e s) = usbd_info s" "remote_wakeup (usb_emit e s) = remote_wakeup s"
  "usbd_hid (usb_emit e s) = usbd_hid s" "usbd_cdc (usb_emit e s) = usbd_cdc s" "usbd_audio (usb_emit e s) = usbd_audio s"
  "ep0_out_data (usb_emit e s) = ep0_out_data s" "ep0_target (usb_emit e s) = ep0_target s"
  "sof_cnt (usb_emit e s) = sof_cnt s" "usb_log (usb_emit e s) = usb_log s @ [e]"
  by (simp_all add: usb_emit_def)

lemma usbd_ep_write_eq:
  "usbd_ep_write ep buf len s =
     (if len \<le> length buf then Some (usb_emit (Ev_Write (usb_get_ep_number ep) (take len buf)) s) else None)"
  by (simp add: usbd_ep_write_def rd_range_def)

lemma ep0_number [simp]: "usb_get_ep_number 0 = 0" "usb_get_ep_number (0 OR USB_DIR_IN_MASK) = 0" "usb_get_ep_number 0x80 = 0"
  "usb_get_ep_dir 0 = USB_DIR_OUT" "usb_get_ep_dir (0 OR USB_DIR_IN_MASK) = USB_DIR_IN" "usb_get_ep_dir 0x80 = USB_DIR_IN"
  by (simp_all add: usb_get_ep_number_def usb_get_ep_dir_def USB_DIR_IN_MASK_def USB_DIR_IN_def USB_DIR_OUT_def)

section \<open>What the requests leave alone\<close>

text \<open>The dimensions of the tables and buffers, and the tables a request never changes.\<close>

definition usb_dims :: "usb_state \<Rightarrow> nat list \<times> nat list \<times> nat list \<times> nat list" where
  "usb_dims s = ([length (epin_cb (usbd_info s)), length (epout_cb (usbd_info s)), length (usbd_cdc s), length (ep0_out_data s)],
     map length (ep_status (usbd_info s)), map (\<lambda>h. length (reg_data h)) (usbd_hid s), map length (usbd_audio s))"

definition usb_tables :: "usb_state \<Rightarrow> usbd_driver_t option list \<times> u8 list \<times> u8 list list" where
  "usb_tables s = (usb_driver (usbd_info s), itf2drv (usbd_info s), ep2drv (usbd_info s))"

definition usb_keeps :: "usb_state \<Rightarrow> usb_state \<Rightarrow> bool" where
  "usb_keeps s s' \<longleftrightarrow> usb_dims s' = usb_dims s \<and> usb_tables s' = usb_tables s"

text \<open>Address and configuration, the part of the state the host sees as the device state.\<close>

definition usb_visible :: "usb_state \<Rightarrow> u8 \<times> u8" where
  "usb_visible s = (usb_address (usbd_info s), config_value (usbd_info s))"

lemma usb_keeps_refl [simp]: "usb_keeps s s"
  by (simp add: usb_keeps_def)

lemma usb_keeps_trans: "usb_keeps s t \<Longrightarrow> usb_keeps t u \<Longrightarrow> usb_keeps s u"
  by (simp add: usb_keeps_def)

lemma usb_keeps_emit [simp]: "usb_keeps s (usb_emit e t) \<longleftrightarrow> usb_keeps s t" "usb_visible (usb_emit e t) = usb_visible t"
  by (simp_all add: usb_keeps_def usb_dims_def usb_tables_def usb_visible_def)

lemma map_upd_same: "f x = f (xs ! i) \<Longrightarrow> map f (xs[i := x]) = map f xs"
  by (cases "i < length xs") (simp_all add: map_update list_update_beyond list_update_same_conv)

lemmas usb_frame = usb_keeps_def usb_dims_def usb_tables_def usb_visible_def map_upd_same

lemma usbd_ep_write_frame: "usbd_ep_write ep buf len s = Some s' \<Longrightarrow> usb_keeps s s' \<and> usb_visible s' = usb_visible s"
  by (auto simp: usbd_ep_write_eq split: if_splits)

lemma usbd_ep_read_frame: "usbd_ep_read ep buf len s = Some s' \<Longrightarrow> usb_keeps s s' \<and> usb_visible s' = usb_visible s"
  by (auto simp: usbd_ep_read_def usb_frame split: if_splits)

lemma usbd_ep_stall_frame: "usbd_ep_stall ep s = Some s' \<Longrightarrow> usb_keeps s s' \<and> usb_visible s' = usb_visible s"
  unfolding usbd_ep_stall_def Let_def by (auto dest!: usbd_ep_read_frame simp: usb_keeps_def usb_dims_def usb_tables_def usb_visible_def split: if_splits)

lemma usbd_endpoint_set_status_frame:
  "usbd_endpoint_set_status ep st s = Some s' \<Longrightarrow> usb_keeps s s' \<and> usb_visible s' = usb_visible s"
  by (auto simp: usbd_endpoint_set_status_def Let_def usb_frame split: if_splits)

lemma hid_desc_loop_frame:
  "hid_desc_loop d r i cur itf s = Some s' \<Longrightarrow> usb_keeps s s' \<and> usb_visible s' = usb_visible s"
proof (induction "length d - i" arbitrary: i cur itf s rule: less_induct)
  case less
  have "s' = s \<or> (\<exists>s1 cur' itf'. \<not> length d \<le> i \<and> d ! i \<noteq> 0 \<and> usb_keeps s s1 \<and> usb_visible s1 = usb_visible s
      \<and> (s1 = s' \<or> hid_desc_loop d r (i + unat (d ! i)) cur' itf' s1 = Some s'))"
    using less.prems
    by (subst (asm) hid_desc_loop.simps) (auto split: if_splits Option.bind_splits dest!: usbd_ep_write_frame)
  then show ?case using less.hyps [OF desc_step] by (metis usb_keeps_refl usb_keeps_trans)
qed

lemma usbd_ep_open_frame: "usbd_ep_open d i s = Some s' \<Longrightarrow> usb_keeps s s' \<and> usb_visible s' = usb_visible s"
  by (auto simp: usbd_ep_open_def split: Option.bind_splits)

lemma set_config_loop_frame:
  "set_config_loop d i cur tot s = Some s' \<Longrightarrow> usb_keeps s s' \<and> usb_visible s' = usb_visible s"
proof (induction "length d - i" arbitrary: i cur s rule: less_induct)
  case less
  have "s' = s \<or> (\<exists>s1 cur'. \<not> length d \<le> i \<and> d ! i \<noteq> 0 \<and> usb_keeps s s1 \<and> usb_visible s1 = usb_visible s
      \<and> (s1 = s' \<or> set_config_loop d (i + unat (d ! i)) cur' tot s1 = Some s'))"
    using less.prems
    by (subst (asm) set_config_loop.simps) (auto split: if_splits Option.bind_splits dest!: usbd_ep_open_frame)
  then show ?case using less.hyps [OF desc_step] by (metis usb_keeps_refl usb_keeps_trans)
qed

definition usb_same :: "usb_state \<Rightarrow> usb_state \<Rightarrow> bool" where
  "usb_same s s' \<longleftrightarrow> usb_keeps s s' \<and> usb_visible s' = usb_visible s"

lemma usb_same_refl [simp]: "usb_same s s" and usb_same_emit [simp]: "usb_same s (usb_emit e t) \<longleftrightarrow> usb_same s t"
  by (simp_all add: usb_same_def)

lemma usb_same_trans: "usb_same s t \<Longrightarrow> usb_same t u \<Longrightarrow> usb_same s u"
  by (auto simp: usb_same_def intro: usb_keeps_trans)

lemmas port_frames =
  usbd_ep_write_frame [folded usb_same_def] usbd_ep_read_frame [folded usb_same_def] usbd_ep_stall_frame [folded usb_same_def]
  usbd_endpoint_set_status_frame [folded usb_same_def] hid_desc_loop_frame [folded usb_same_def]
  set_config_loop_frame [folded usb_same_def]

lemma usb_same_upd [simp]:
  "usb_same s (s\<lparr>usbd_hid := (usbd_hid s)[i := h]\<rparr>) \<longleftrightarrow> map (\<lambda>h. length (reg_data h)) ((usbd_hid s)[i := h]) = map (\<lambda>h. length (reg_data h)) (usbd_hid s)"
  "usb_same s (s\<lparr>usbd_cdc := (usbd_cdc s)[i := c]\<rparr>)"
  "usb_same s (s\<lparr>remote_wakeup := w, usbd_info := (usbd_info s)\<lparr>device_status := st\<rparr>\<rparr>)"
  "usb_same s (t\<lparr>usbd_info := (usbd_info t)\<lparr>test_mode := tm\<rparr>\<rparr>) \<longleftrightarrow> usb_same s t"
  "usb_same s (s\<lparr>usbd_info := (usbd_info s)\<lparr>usb_setup := r\<rparr>\<rparr>)"
  "usb_same s (usbd_ep_clear_stall ep t) \<longleftrightarrow> usb_same s t" "usb_same (usbd_ep_clear_stall ep t) s \<longleftrightarrow> usb_same t s"
  "usb_same (usb_emit e t) s \<longleftrightarrow> usb_same t s"
  by (auto simp: usb_same_def usb_frame usbd_ep_clear_stall_def Let_def)

definition usb_cb_ok :: "usb_app \<Rightarrow> bool" where
  "usb_cb_ok app \<longleftrightarrow> (\<forall>cb r s. usbd_audio_interface_cb app = Some cb \<longrightarrow> (\<exists>ok s'. cb r s = Some (ok, s') \<and> usb_same s s'))"

lemma hid_frame:
  "usbd_hid_interface_request_handler app r st s = Some (ok, s') \<Longrightarrow> usb_same s s'"
proof -
  assume a: "usbd_hid_interface_request_handler app r st s = Some (ok, s')"
  have d: "usb_same s s'" if "usbd_hid_request_descriptor app r s = Some (ok, s')" for ok
    using that by (auto simp: usbd_hid_request_descriptor_def Let_def split: if_splits option.splits Option.bind_splits dest!: port_frames)
  have std: "usb_same s s'" if "hid_standard_request app r s = Some (ok, s')"
    using that by (auto simp: hid_standard_request_def Let_def split: if_splits Option.bind_splits dest!: port_frames d
        intro: usb_same_trans)
  have cls: "usb_same s s'" if "hid_class_request r st s = Some (ok, s')"
    using that by (auto simp: hid_class_request_def Let_def usbd_hid_set_report_def map_upd_same
        split: if_splits Option.bind_splits dest!: port_frames elim!: usb_same_trans [rotated])
  show ?thesis using a std cls by (auto simp: usbd_hid_interface_request_handler_def split: if_splits)
qed

lemma cdc_frame: "usbd_cdc_interface_request_handler r st s = Some (ok, s') \<Longrightarrow> usb_same s s'"
  by (auto simp: usbd_cdc_interface_request_handler_def Let_def split: if_splits dest!: port_frames elim!: usb_same_trans [rotated])

lemma audio_frame:
  "usb_cb_ok app \<Longrightarrow> usbd_audio_interface_request_handler app r st s = Some (ok, s') \<Longrightarrow> usb_same s s'"
  by (auto simp: usbd_audio_interface_request_handler_def audio_class_request_def Let_def usb_cb_ok_def
      split: if_splits option.splits dest!: port_frames elim!: usb_same_trans [rotated]) (metis option.inject prod.inject)+

lemma driver_frame: "usb_cb_ok app \<Longrightarrow> usbd_call_driver app n r st s = Some (ok, s') \<Longrightarrow> usb_same s s'"
  by (auto simp: usbd_call_driver_def split: if_splits option.splits usbd_request_handler.splits
      dest: hid_frame cdc_frame audio_frame)

section \<open>Walking a configuration descriptor\<close>

text \<open>A configuration descriptor as the list of its descriptors, each of which starts with its length.\<close>

definition desc_ok :: "bytes \<Rightarrow> bool" where
  "desc_ok b \<longleftrightarrow> 2 \<le> length b \<and> length b = unat (b ! 0) \<and> (b ! 1 = 4 \<longrightarrow> 3 \<le> length b) \<and> (b ! 1 = 5 \<longrightarrow> 6 \<le> length b)"

definition config_ok :: "bytes list \<Rightarrow> bool" where
  "config_ok bs \<longleftrightarrow> bs \<noteq> [] \<and> (\<forall>b \<in> set bs. desc_ok b) \<and> 4 \<le> length (hd bs)
     \<and> length (concat bs) < 2 ^ 16 \<and> BYTES_TO_UINT16 (hd bs) 2 = Some (of_nat (length (concat bs)))"


lemma desc_ok_length: "desc_ok b \<Longrightarrow> length b < 256"
proof -
  assume "desc_ok b"
  moreover have "unat (b ! 0) < 2 ^ 8" by (rule order.strict_trans2 [OF unsigned_less]) simp
  ultimately show ?thesis by (simp add: desc_ok_def)
qed

definition ep_event :: "bytes \<Rightarrow> usb_ev" where
  "ep_event b = Ev_EpOpen (usb_get_ep_number (b ! 2)) (usb_get_ep_dir (b ! 2)) (b ! 3 AND 3)
     (ucast (b ! 4) + push_bit 8 (ucast (b ! 5)))"

definition ep_events :: "bytes list \<Rightarrow> usb_ev list" where
  "ep_events bs = map ep_event (filter (\<lambda>b. b ! 1 = 5) bs)"

definition head_len :: "bytes list \<Rightarrow> nat" where
  "head_len bs = (case bs of [] \<Rightarrow> 0 | b # _ \<Rightarrow> length b)"

lemma nth_block:
  "j < length b \<Longrightarrow> (p @ b @ t) ! (length p + j) = b ! j"
  by (simp add: nth_append)

lemma rd8_block: "j < length b \<Longrightarrow> rd8 (p @ b @ t) (length p + j) = Some (b ! j)"
  by (simp add: rd8_def nth_append)

lemma head_byte:
  "\<forall>b \<in> set ys. desc_ok b \<Longrightarrow> rd8 (p @ concat ys @ 0 # t) (length p) = Some (of_nat (head_len ys))"
proof (cases ys)
  case (Cons y zs)
  assume "\<forall>b \<in> set ys. desc_ok b"
  then have "0 < length y" "y ! 0 = of_nat (length y)" using Cons by (auto simp: desc_ok_def)
  then show ?thesis using rd8_block [of 0 y p "concat zs @ 0 # t"] Cons by (simp add: head_len_def)
qed (simp add: rd8_def head_len_def)

lemma usbd_ep_open_block:
  assumes "6 \<le> length b"
  shows "usbd_ep_open (p @ b @ t) (length p) s = Some (usb_emit (ep_event b) s)"
  using assms rd8_block [of 2 b p t] rd8_block [of 3 b p t] rd8_block [of 4 b p t] rd8_block [of 5 b p t]
  by (simp add: usbd_ep_open_def BYTES_TO_UINT16_def ep_event_def add.assoc add.commute [of 5] del: rd8_Some_iff)

lemma usb_emit_log: "(usb_emit e s)\<lparr>usb_log := usb_log s @ e # l\<rparr> = s\<lparr>usb_log := usb_log s @ e # l\<rparr>"
  by (simp add: usb_emit_def)

lemma set_config_loop_step:
  assumes "i < length d" "d ! i \<noteq> 0" "rd8 d (i + 1) = Some ty"
    and "(if ty = 5 then usbd_ep_open d i s else Some s) = Some s1"
    and "rd8 d (i + unat (d ! i)) = Some l" "\<not> tot \<le> cur + ucast l"
  shows "set_config_loop d i cur tot s = set_config_loop d (i + unat (d ! i)) (cur + ucast l) tot s1"
  by (subst set_config_loop.simps) (use assms in \<open>simp del: rd8_Some_iff\<close>)

lemma desc_ok_head:
  "desc_ok y \<Longrightarrow> 0 < length y \<and> 1 < length y \<and> y ! 0 \<noteq> 0 \<and> unat (y ! 0) = length y \<and> y ! 0 = of_nat (length y)
     \<and> (y ! 1 = 4 \<longrightarrow> 2 < length y)"
  by (auto simp: desc_ok_def)

text \<open>One descriptor \<open>y\<close> of the walk; \<open>h\<close> is the length of the next one.\<close>

lemma set_config_block:
  assumes y: "desc_ok y" and l: "rd8 (p @ y @ u) (length p + length y) = Some (of_nat h)"
    and h: "h < 256" "c + h = c'" "c' < n" "n < 2 ^ 16"
  shows "set_config_loop (p @ y @ u) (length p) (of_nat c) (of_nat n) s
     = set_config_loop (p @ y @ u) (length p + length y) (of_nat c') (of_nat n) (if y ! 1 = 5 then usb_emit (ep_event y) s else s)"
proof -
  let ?d = "p @ y @ u"
  have y': "0 < length y" "1 < length y" "y ! 0 \<noteq> 0" "unat (y ! 0) = length y" using desc_ok_head [OF y] by auto
  have i: "?d ! length p = y ! 0" using nth_block [OF y'(1), of p u] by simp
  have i1: "rd8 ?d (length p + 1) = Some (y ! 1)" by (rule rd8_block [OF y'(2)])
  have o: "(if y ! 1 = 5 then usbd_ep_open ?d (length p) s else Some s) = Some (if y ! 1 = 5 then usb_emit (ep_event y) s else s)"
  proof (cases "y ! 1 = 5")
    case True
    then have "6 \<le> length y" using y by (simp add: desc_ok_def)
    then show ?thesis using True by (simp add: usbd_ep_open_block)
  qed simp
  have cur: "(of_nat c :: u16) + ucast (of_nat h :: u8) = of_nat c'"
    using h(1) unfolding h(2) [symmetric]
    by (simp add: word_unat_eq_iff unsigned_ucast_eq unat_of_nat take_bit_eq_mod unat_word_ariths mod_simps)
  have less: "\<not> (of_nat n :: u16) \<le> of_nat c'"
    unfolding word_le_nat_alt unat_of_nat using h(3,4) by simp
  have "length p < length ?d" "?d ! length p \<noteq> 0" using y' i by auto
  then show ?thesis
    using set_config_loop_step [OF _ _ i1 o _ less [folded cur]] l unfolding i y'(4) cur by blast
qed

lemma set_config_loop_blocks:
  assumes "\<forall>b \<in> set ys. desc_ok b" "length p + length (concat ys) = n" "n < 2 ^ 16" "0 < k" "k \<le> length p + head_len ys"
  shows "set_config_loop (p @ concat ys @ 0 # t) (length p) (of_nat (length p + head_len ys - k)) (of_nat n) s
     = Some (s\<lparr>usb_log := usb_log s @ ep_events ys\<rparr>)"
  using assms
proof (induction ys arbitrary: p s)
  case Nil
  have "(p @ 0 # t) ! length p = 0" by simp
  then show ?case by (subst set_config_loop.simps) (simp add: ep_events_def)
next
  case (Cons y ys)
  let ?s = "if y ! 1 = 5 then usb_emit (ep_event y) s else s"
  have l: "rd8 (p @ y @ concat ys @ 0 # t) (length p + length y) = Some (of_nat (head_len ys))"
    using head_byte [of ys "p @ y" t] Cons.prems(1) by (simp del: rd8_Some_iff)
  have hl: "head_len ys < 256" "length p + length y + head_len ys \<le> n" "length p + length y - k + head_len ys < n"
    using Cons.prems by (auto simp: head_len_def desc_ok_length split: list.splits)
  have c: "length p + head_len (y # ys) - k + head_len ys = length (p @ y) + head_len ys - k"
    using Cons.prems(5) by (simp add: head_len_def)
  have "set_config_loop (p @ concat (y # ys) @ 0 # t) (length p) (of_nat (length p + head_len (y # ys) - k)) (of_nat n) s
      = set_config_loop ((p @ y) @ concat ys @ 0 # t) (length (p @ y)) (of_nat (length (p @ y) + head_len ys - k)) (of_nat n) ?s"
    using set_config_block [OF _ l hl(1) c _ Cons.prems(3)] Cons.prems(1) hl(3) c by (simp add: head_len_def)
  also have "\<dots> = Some (?s\<lparr>usb_log := usb_log ?s @ ep_events ys\<rparr>)"
    by (rule Cons.IH) (use Cons.prems in \<open>auto simp: head_len_def\<close>)
  also have "\<dots> = Some (s\<lparr>usb_log := usb_log s @ ep_events (y # ys)\<rparr>)"
    by (simp add: ep_events_def usb_emit_log)
  finally show ?case .
qed

lemma config_total:
  assumes "config_ok bs"
  shows "BYTES_TO_UINT16 (concat bs @ t) 2 = Some (of_nat (length (concat bs)))"
proof -
  obtain b cs where bs: "bs = b # cs" using assms by (cases bs) (auto simp: config_ok_def)
  have "4 \<le> length b" "BYTES_TO_UINT16 b 2 = Some (of_nat (length (concat bs)))" using assms bs by (auto simp: config_ok_def)
  then show ?thesis using bs by (simp add: BYTES_TO_UINT16_def rd8_def nth_append)
qed

lemma usbd_set_configuration_blocks:
  assumes "config_ok bs" "usbd_get_config_descriptor app = Some (concat bs @ 0 # t)"
  shows "usbd_set_configuration app s = Some (s\<lparr>usb_log := usb_log s @ ep_events bs\<rparr>)"
proof -
  have ne: "0 < head_len bs" using assms(1) by (cases bs) (auto simp: config_ok_def head_len_def)
  have bound: "length (concat bs) < 2 ^ 16" and ok: "\<forall>b \<in> set bs. desc_ok b" using assms(1) by (simp_all add: config_ok_def)
  show ?thesis
    using set_config_loop_blocks [OF ok, of "[]" "length (concat bs)" "head_len bs" t s] ne bound
      config_total [OF assms(1), of "0 # t"] assms(2)
    by (simp add: usbd_set_configuration_def)
qed

text \<open>The length byte that is fetched after the last descriptor lies outside the object when nothing follows it.\<close>

lemma set_config_loop_overrun:
  assumes "ys \<noteq> []" "\<forall>b \<in> set ys. desc_ok b" "length p + length (concat ys) = n" "n < 2 ^ 16" "0 < k" "k \<le> length p + head_len ys"
  shows "set_config_loop (p @ concat ys) (length p) (of_nat (length p + head_len ys - k)) (of_nat n) s = None"
  using assms
proof (induction ys arbitrary: p s)
  case (Cons y ys)
  have y: "desc_ok y" using Cons.prems(2) by simp
  show ?case
  proof (cases "ys = []")
    case True
    have "rd8 (p @ y) (length p + length y) = None" by simp
    moreover have "(p @ y) ! length p = y ! 0" "rd8 (p @ y) (length p + 1) = Some (y ! 1)"
      using nth_block [of 0 y p "[]"] rd8_block [of 1 y p "[]"] desc_ok_head [OF y] by auto
    ultimately show ?thesis using True desc_ok_head [OF y]
      by (subst set_config_loop.simps) (auto split: Option.bind_splits)
  next
    case False
    then obtain z zs where ys: "ys = z # zs" by (cases ys) auto
    have z: "desc_ok z" using Cons.prems(2) ys by simp
    have l: "rd8 (p @ y @ concat ys) (length p + length y) = Some (of_nat (head_len ys))"
      using rd8_block [of 0 z "p @ y" "concat zs"] desc_ok_head [OF z] ys by (simp add: head_len_def del: rd8_Some_iff)
    have hl: "head_len ys < 256" "length p + length y - k + head_len ys < n"
      using Cons.prems by (auto simp: head_len_def desc_ok_length split: list.splits)
    have c: "length p + head_len (y # ys) - k + head_len ys = length (p @ y) + head_len ys - k"
      using Cons.prems(6) by (simp add: head_len_def)
    have "set_config_loop (p @ concat (y # ys)) (length p) (of_nat (length p + head_len (y # ys) - k)) (of_nat n) s
        = set_config_loop ((p @ y) @ concat ys) (length (p @ y)) (of_nat (length (p @ y) + head_len ys - k)) (of_nat n)
            (if y ! 1 = 5 then usb_emit (ep_event y) s else s)"
      using set_config_block [OF y l hl(1) c _ Cons.prems(4)] hl(2) c by (simp add: head_len_def)
    also have "\<dots> = None"
      by (rule Cons.IH) (use Cons.prems False in \<open>auto simp: head_len_def\<close>)
    finally show ?thesis .
  qed
qed simp

section \<open>The requests\<close>

lemma usbd_device_request_frame:
  assumes "usbd_device_request app r s = Some (ok, s')"
  shows "usb_keeps s s' \<and> usb_visible s' =
     (if bRequest r = USB_REQ_SET_ADDRESS then (U16_LOW_BYTE (wValue r), config_value (usbd_info s))
      else if bRequest r = USB_REQ_SET_CONFIGURATION then (usb_address (usbd_info s), U16_LOW_BYTE (wValue r))
      else usb_visible s)"
proof -
  have keep: "usb_keeps (t\<lparr>usbd_info := (usbd_info t)\<lparr>usb_address := a\<rparr>\<rparr>) u \<longleftrightarrow> usb_keeps t u"
      "usb_keeps (t\<lparr>usbd_info := (usbd_info t)\<lparr>config_value := a\<rparr>\<rparr>) u \<longleftrightarrow> usb_keeps t u"
      "usb_keeps (usb_emit e t) u \<longleftrightarrow> usb_keeps t u" for a e t u
    by (simp_all add: usb_frame)
  have vis: "usb_visible (s\<lparr>usbd_info := (usbd_info s)\<lparr>usb_address := a\<rparr>\<rparr>) = (a, config_value (usbd_info s))"
      "usb_visible (s\<lparr>usbd_info := (usbd_info s)\<lparr>config_value := a\<rparr>\<rparr>) = (usb_address (usbd_info s), a)" for a
    by (simp_all add: usb_visible_def)
  have same: "usb_same s s'" if "bRequest r \<noteq> USB_REQ_SET_ADDRESS" "bRequest r \<noteq> USB_REQ_SET_CONFIGURATION"
    using assms that
    by (auto simp: usbd_device_request_def Let_def usbd_get_descriptor_process_def send_desc_def send_total_desc_def
        split: if_splits option.splits Option.bind_splits dest!: port_frames elim!: usb_same_trans [rotated])
  show ?thesis
  proof (cases "bRequest r = USB_REQ_SET_ADDRESS \<or> bRequest r = USB_REQ_SET_CONFIGURATION")
    case True
    then show ?thesis using assms
      by (auto simp: keep vis usbd_device_request_def usbd_set_address_def usbd_set_configuration_def Let_def usb_codes
          split: if_splits Option.bind_splits dest!: usbd_ep_write_frame set_config_loop_frame intro: usb_keeps_trans)
  next
    case False
    then show ?thesis using same by (simp add: usb_same_def)
  qed
qed

lemma usb_call_frame:
  assumes "usb_cb_ok app"
  shows "usbd_interface_request app r st s = Some (ok, s') \<Longrightarrow> usb_same s s'"
    and "usbd_endpoint_request app r st s = Some (ok, s') \<Longrightarrow> usb_same s s'"
  using assms by (auto simp: usbd_interface_request_def usbd_endpoint_request_def Let_def split: if_splits dest: driver_frame)

lemma usb_device_state_frame:
  assumes "usb_cb_ok app" "usbd_control_request_process app r st s = Some (ok, s')"
  shows "usb_keeps s s' \<and> usb_visible s' =
     (if req_type r = 0 \<and> recipient r = 0 \<and> bRequest r = USB_REQ_SET_ADDRESS
      then (U16_LOW_BYTE (wValue r), snd (usb_visible s))
      else if req_type r = 0 \<and> recipient r = 0 \<and> bRequest r = USB_REQ_SET_CONFIGURATION
      then (fst (usb_visible s), U16_LOW_BYTE (wValue r))
      else usb_visible s)"
proof -
  define s0 where "s0 = s\<lparr>usbd_info := (usbd_info s)\<lparr>usb_setup := r\<rparr>\<rparr>"
  have s0: "usb_keeps s s0" "usb_visible s0 = usb_visible s" by (simp_all add: s0_def usb_frame)
  have "usb_keeps s0 s' \<and> usb_visible s' =
     (if req_type r = 0 \<and> recipient r = 0 \<and> bRequest r = USB_REQ_SET_ADDRESS
      then (U16_LOW_BYTE (wValue r), snd (usb_visible s0))
      else if req_type r = 0 \<and> recipient r = 0 \<and> bRequest r = USB_REQ_SET_CONFIGURATION
      then (fst (usb_visible s0), U16_LOW_BYTE (wValue r))
      else usb_visible s0)"
    using assms(2) usbd_device_request_frame [of app r s0 ok s'] usb_call_frame [OF assms(1), of r st s0 ok s']
    by (auto simp: usbd_control_request_process_def usbd_standard_request_process_def usbd_class_request_process_def
        usbd_vendor_request_process_def Let_def s0_def [symmetric] usb_same_def usb_visible_def split: if_splits)
  then show ?thesis using s0 usb_keeps_trans by (simp add: s0(2))
qed

section \<open>Requests that are served without a fault\<close>

lemma hid_desc_loop_step:
  assumes "i < length d" "d ! i \<noteq> 0" "rd8 d (i + 1) = Some ty" "(if ty = 4 then rd8 d (i + 2) else Some itf) = Some itf'"
    and "(if ty = 0x21 \<and> itf' = U16_LOW_BYTE (wIndex r)
          then usbd_ep_write 0 (drop i d) (min (unat (wLength r)) n) s else Some s) = Some s1"
    and "rd8 d (i + n) = Some l" "unat (d ! i) = n"
  shows "hid_desc_loop d r i cur itf s =
     (if cur + ucast l \<ge> ucast (d ! 2) OR push_bit 8 (ucast (d ! 3)) then Some s1
      else hid_desc_loop d r (i + n) (cur + ucast l) itf' s1)"
  by (subst hid_desc_loop.simps) (simp only: assms Option.bind.simps linorder_not_le [THEN iffD2, OF assms(1)] if_False)

lemma hid_desc_loop_blocks:
  "\<forall>b \<in> set ys. desc_ok b \<Longrightarrow> \<exists>s'. hid_desc_loop (p @ concat ys @ 0 # t) r (length p) cur itf s = Some s'"
proof (induction ys arbitrary: p cur itf s)
  case Nil
  have "hid_desc_loop (p @ 0 # t) r (length p) cur itf s = Some s" by (subst hid_desc_loop.simps) simp
  then show ?case by simp
next
  case (Cons y ys)
  let ?d = "p @ y @ concat ys @ 0 # t"
  have y: "0 < length y" "1 < length y" "y ! 0 \<noteq> 0" "unat (y ! 0) = length y" "y ! 1 = 4 \<longrightarrow> 2 < length y"
    using desc_ok_head [of y] Cons.prems by (metis list.set_intros(1))+
  have i: "?d ! length p = y ! 0" using nth_block [OF y(1), of p] by simp
  have i1: "rd8 ?d (length p + 1) = Some (y ! 1)" by (rule rd8_block [OF y(2)])
  obtain itf' where o: "(if y ! 1 = 4 then rd8 ?d (length p + 2) else Some itf) = Some itf'"
    using rd8_block [of 2 y p] y(5) by (cases "y ! 1 = 4") (auto simp del: rd8_Some_iff)
  have "min (unat (wLength r)) (length y) \<le> length (drop (length p) ?d)" by simp
  then obtain s1 where w: "(if y ! 1 = 0x21 \<and> itf' = U16_LOW_BYTE (wIndex r)
      then usbd_ep_write 0 (drop (length p) ?d) (min (unat (wLength r)) (length y)) s else Some s) = Some s1"
    unfolding usbd_ep_write_eq by (simp only: if_True) (metis option.exhaust option.simps(3))
  have l: "rd8 ?d (length p + length y) = Some (of_nat (head_len ys))"
    using head_byte [of ys "p @ y" t] Cons.prems by (simp del: rd8_Some_iff)
  obtain s2 where "hid_desc_loop ((p @ y) @ concat ys @ 0 # t) r (length (p @ y)) (cur + ucast (of_nat (head_len ys) :: u8)) itf' s1 = Some s2"
    using Cons.IH [of "p @ y"] Cons.prems by (meson list.set_intros(2))
  then have "hid_desc_loop ?d r (length p + length y) (cur + ucast (of_nat (head_len ys) :: u8)) itf' s1 = Some s2" by simp
  moreover have "length p < length ?d" "?d ! length p \<noteq> 0" using y(1,3) i by auto
  moreover have "unat (?d ! length p) = length y" unfolding i by (rule y(4))
  ultimately have "\<exists>s'. hid_desc_loop ?d r (length p) cur itf s = Some s'"
    using hid_desc_loop_step [OF _ _ i1 o w l, of cur] by simp
  then show ?case by simp
qed

definition usb_wf :: "usb_state \<Rightarrow> bool" where
  "usb_wf s \<longleftrightarrow> usb_dims s = ([8, 8, USBD_CDC_INTERFACE_NUM, 64], replicate 8 2, replicate USBD_HID_INTERFACE_NUM 8, replicate USBD_AUDIO_INTERFACE_NUM 3)
     \<and> length (usb_driver (usbd_info s)) = USBD_SUPPORT_DRIVER_MAX \<and> length (itf2drv (usbd_info s)) = USBD_SUPPORT_INTERFACE_MAX
     \<and> map length (ep2drv (usbd_info s)) = replicate USBD_SUPPORT_ENDPOINT_MAX USBD_ENDPOINT_DIRECTION
     \<and> (\<forall>n \<in> set (itf2drv (usbd_info s)) \<union> set (concat (ep2drv (usbd_info s))).
          unat n < USBD_SUPPORT_DRIVER_MAX \<and> usb_driver (usbd_info s) ! unat n \<noteq> None)"

lemma usb_wf_keeps: "usb_wf s \<Longrightarrow> usb_keeps s s' \<Longrightarrow> usb_wf s'"
  by (simp add: usb_wf_def usb_keeps_def usb_tables_def)

text \<open>Descriptors of an application: every length field is within the object, and a zero byte ends the configuration.\<close>

definition short_desc_ok :: "bytes option \<Rightarrow> bool" where
  "short_desc_ok d = (case d of None \<Rightarrow> True | Some b \<Rightarrow> b \<noteq> [] \<and> unat (b ! 0) \<le> length b)"

definition usb_app_ok :: "usb_app \<Rightarrow> bool" where
  "usb_app_ok app \<longleftrightarrow> short_desc_ok (usbd_get_device_descriptor app) \<and> (\<forall>i. short_desc_ok (usbd_get_string_descriptor app i))
     \<and> short_desc_ok (usbd_get_device_qualifier_descriptor app)
     \<and> (\<exists>bs t. config_ok bs \<and> usbd_get_config_descriptor app = Some (concat bs @ 0 # t))
     \<and> (\<forall>i d. usbd_get_other_speed_configuration_descriptor app i = Some d \<longrightarrow> (\<exists>bs t. config_ok bs \<and> d = concat bs @ t))
     \<and> (\<forall>i d n. usbd_hid_get_report_descriptor app i = Some (d, n) \<longrightarrow> unat n \<le> length d) \<and> usb_cb_ok app"

text \<open>The handler a request to an interface or an endpoint is dispatched to.\<close>

definition addressed_driver :: "usb_control_request_t \<Rightarrow> usb_state \<Rightarrow> u8 option" where
  "addressed_driver r s =
     (let i = unat (U16_LOW_BYTE (wIndex r)); e = unat (usb_get_ep_number (U16_LOW_BYTE (wIndex r))); d = usb_get_ep_dir (U16_LOW_BYTE (wIndex r)) in
      if recipient r = 1 \<and> i < length (itf2drv (usbd_info s)) then Some (itf2drv (usbd_info s) ! i)
      else if recipient r = 2 \<and> e < length (ep2drv (usbd_info s)) then Some (ep2drv (usbd_info s) ! e ! d)
      else None)"

definition addressed_handler :: "usb_control_request_t \<Rightarrow> usb_state \<Rightarrow> usbd_request_handler option" where
  "addressed_handler r s =
     do { n \<leftarrow> addressed_driver r s;
          drv \<leftarrow> (if unat n < length (usb_driver (usbd_info s)) then usb_driver (usbd_info s) ! unat n else None);
          Some (usbd_driver_handler drv) }"

text \<open>Requests whose index and length fit the tables and buffers of the class driver that gets them.\<close>

fun class_req_ok :: "usbd_request_handler \<Rightarrow> usb_control_request_t \<Rightarrow> bool" where
  "class_req_ok Hid_Handler r \<longleftrightarrow>
     (req_type r = 0 \<and> bRequest r \<noteq> USB_REQ_GET_DESCRIPTOR \<longrightarrow> unat (usb_get_ep_number (U16_LOW_BYTE (wIndex r))) < 8)
     \<and> (req_type r = 1 \<longrightarrow> unat (U16_LOW_BYTE (wIndex r)) < 4 \<and> (bRequest r = HID_REQ_CONTROL_SET_REPORT \<longrightarrow> unat (wLength r) \<le> 8))"
| "class_req_ok Cdc_Handler r \<longleftrightarrow>
     (req_type r = 1 \<longrightarrow> unat (U16_LOW_BYTE (wIndex r)) < 1 \<and> (bRequest r = CDC_REQUEST_SET_LINE_CODING \<longrightarrow> unat (wLength r) \<le> 7))"
| "class_req_ok Audio_Handler r \<longleftrightarrow> (req_type r = 1 \<longrightarrow> recipient r = 1 \<and> direction r \<noteq> 0 \<or> unat (wLength r) \<le> 3)"

definition usb_req_ok :: "usb_control_request_t \<Rightarrow> bool" where
  "usb_req_ok r \<longleftrightarrow> (recipient r = 1 \<longrightarrow> unat (U16_LOW_BYTE (wIndex r)) < 16)
     \<and> (recipient r = 2 \<longrightarrow> unat (usb_get_ep_number (U16_LOW_BYTE (wIndex r))) < 8)"

lemma usb_dir_less: "usb_get_ep_dir a < 2"
  by (simp add: usb_get_ep_dir_def USB_DIR_IN_def USB_DIR_OUT_def)

lemma usb_wf_buffers:
  assumes "usb_wf s"
  shows "length (usbd_hid s) = 4" "i < 4 \<Longrightarrow> length (reg_data (usbd_hid s ! i)) = 8" "length (usbd_cdc s) = 1"
    "length (ep0_out_data s) = 64" "buf_size Buf_AudioCur s = 3" "length (ep_status (usbd_info s)) = 8"
    "i < 8 \<Longrightarrow> length (ep_status (usbd_info s) ! i) = 2"
proof -
  have d: "map (\<lambda>h. length (reg_data h)) (usbd_hid s) = replicate 4 8" "length (usbd_cdc s) = 1" "length (ep0_out_data s) = 64"
      "map length (usbd_audio s) = replicate 2 3" "map length (ep_status (usbd_info s)) = replicate 8 2"
    using assms by (simp_all add: usb_wf_def usb_dims_def USBD_HID_INTERFACE_NUM_def USBD_CDC_INTERFACE_NUM_def USBD_AUDIO_INTERFACE_NUM_def)
  show "length (usbd_cdc s) = 1" "length (ep0_out_data s) = 64" using d by simp_all
  show "length (usbd_hid s) = 4" using arg_cong [OF d(1), of length] by simp
  then show "i < 4 \<Longrightarrow> length (reg_data (usbd_hid s ! i)) = 8" using arg_cong [OF d(1), of "\<lambda>l. l ! i"] by simp
  show "length (ep_status (usbd_info s)) = 8" using arg_cong [OF d(5), of length] by simp
  then show "i < 8 \<Longrightarrow> length (ep_status (usbd_info s) ! i) = 2" using arg_cong [OF d(5), of "\<lambda>l. l ! i"] by simp
  show "buf_size Buf_AudioCur s = 3" using d(4) by (cases "usbd_audio s") (auto simp: buf_size_def numeral_2_eq_2)
qed

lemma usbd_ep_write_0 [simp]: "usbd_ep_write ep buf 0 s = Some (usb_emit (Ev_Write (usb_get_ep_number ep) []) s)"
  by (simp add: usbd_ep_write_eq)

lemma usb_wf_endpoint:
  assumes "usb_wf s" "unat (usb_get_ep_number a) < 8"
  shows "\<exists>s'. usbd_endpoint_set_status a st s = Some s' \<and> ep0_out_data s' = ep0_out_data s" "\<exists>x. usbd_endpoint_get_status a s = Some x"
  using assms usb_dir_less [of a] usb_wf_buffers(6,7) [OF assms(1)]
  by (simp_all add: usbd_endpoint_set_status_def usbd_endpoint_get_status_def Let_def)

lemma usbd_ep_stall_ok: "length (ep0_out_data s) = 64 \<Longrightarrow> \<exists>s'. usbd_ep_stall a s = Some s'"
  by (auto simp: usbd_ep_stall_def Let_def usbd_ep_read_def buf_size_def)

lemma hid_request_descriptor_ok:
  assumes "usb_app_ok app"
  shows "\<exists>ok s'. usbd_hid_request_descriptor app r s = Some (ok, s')"
proof -
  obtain bs t where c: "config_ok bs" "usbd_get_config_descriptor app = Some (concat bs @ 0 # t)"
    using assms by (auto simp: usb_app_ok_def)
  have "\<forall>b \<in> set bs. desc_ok b" using c(1) by (simp add: config_ok_def)
  then obtain s1 where s1: "hid_desc_loop (concat bs @ 0 # t) r 0 0 0xFF s = Some s1"
    using hid_desc_loop_blocks [of bs "[]" t r 0 "0xFF" s] by auto
  have len: "3 < length (concat bs @ 0 # t)"
    using c(1) by (cases bs) (auto simp: config_ok_def)
  have rep: "unat n \<le> length d" if "usbd_hid_get_report_descriptor app i = Some (d, n)" for i d n
    using assms that by (auto simp: usb_app_ok_def)
  show ?thesis using c(2) s1 len rep
    by (auto simp: usbd_hid_request_descriptor_def Let_def rd8_def usbd_ep_write_eq min.coboundedI2 split: option.splits)
qed

lemma hid_handler_ok:
  assumes "usb_wf s" "usb_app_ok app" "class_req_ok Hid_Handler r"
  shows "usbd_hid_interface_request_handler app r st s \<noteq> None"
proof -
  let ?ep = "U16_LOW_BYTE (wIndex r)"
  obtain ok s3 where desc: "usbd_hid_request_descriptor app r s = Some (ok, s3)"
    using hid_request_descriptor_ok [OF assms(2)] by blast
  have std: "hid_standard_request app r s \<noteq> None" if "req_type r = 0"
  proof (cases "bRequest r = USB_REQ_GET_DESCRIPTOR")
    case True
    then show ?thesis using desc by (simp add: hid_standard_request_def usb_codes)
  next
    case False
    then have ep: "unat (usb_get_ep_number ?ep) < 8" using assms(3) that by simp
    obtain x where "usbd_endpoint_get_status ?ep s = Some x" using usb_wf_endpoint [OF assms(1) ep] by blast
    moreover obtain s0 s1 where "usbd_endpoint_set_status ?ep 0 s = Some s0"
        "usbd_endpoint_set_status ?ep 1 s = Some s1" "ep0_out_data s1 = ep0_out_data s"
      using usb_wf_endpoint [OF assms(1) ep] by meson
    moreover obtain s2 where "usbd_ep_stall ?ep s1 = Some s2"
      using usbd_ep_stall_ok [of s1 ?ep] calculation(4) usb_wf_buffers(4) [OF assms(1)] by auto
    ultimately show ?thesis using desc by (simp add: hid_standard_request_def Let_def usbd_ep_write_eq del: not_None_eq)
  qed
  have cls: "hid_class_request r st s \<noteq> None" if "req_type r = 1"
    using assms(3) that usb_wf_buffers(1,2) [OF assms(1)]
    by (simp add: hid_class_request_def Let_def usbd_ep_write_eq usbd_ep_read_def buf_size_def usbd_hid_set_report_def rd_range_def
        del: not_None_eq)
  show ?thesis using std cls by (simp add: usbd_hid_interface_request_handler_def del: not_None_eq)
qed

lemma cdc_handler_ok:
  assumes "usb_wf s" "class_req_ok Cdc_Handler r"
  shows "usbd_cdc_interface_request_handler r st s \<noteq> None"
proof -
  define i where "i = unat (U16_LOW_BYTE (wIndex r))"
  show ?thesis using assms(2) usb_wf_buffers(3) [OF assms(1)]
    by (simp add: usbd_cdc_interface_request_handler_def Let_def usbd_ep_write_eq usbd_ep_read_def buf_size_def cdc_bytes_def
        i_def [symmetric] del: not_None_eq)
qed

lemma audio_handler_ok:
  assumes "usb_wf s" "usb_cb_ok app" "class_req_ok Audio_Handler r"
  shows "usbd_audio_interface_request_handler app r st s \<noteq> None"
proof -
  have "cb r s \<noteq> None" if "usbd_audio_interface_cb app = Some cb" for cb
    using assms(2) that unfolding usb_cb_ok_def by (metis option.simps(3))
  then have cb: "(case usbd_audio_interface_cb app of None \<Rightarrow> Some (False, s) | Some cb \<Rightarrow> cb r s) \<noteq> None"
    by (cases "usbd_audio_interface_cb app") (simp_all del: not_None_eq)
  show ?thesis using assms(3) usb_wf_buffers(5) [OF assms(1)] cb
    by (auto simp add: usbd_audio_interface_request_handler_def audio_class_request_def Let_def usbd_ep_write_eq usbd_ep_read_def
        simp del: not_None_eq)
qed

lemma driver_ok:
  assumes "usb_wf s" "usb_app_ok app" "addressed_driver r s = Some n" "\<And>h. addressed_handler r s = Some h \<Longrightarrow> class_req_ok h r"
    and "n \<in> set (itf2drv (usbd_info s)) \<union> set (concat (ep2drv (usbd_info s)))"
  shows "usbd_call_driver app n r st s \<noteq> None"
proof -
  obtain drv where "unat n < length (usb_driver (usbd_info s))" "usb_driver (usbd_info s) ! unat n = Some drv"
    using assms(1,5) unfolding usb_wf_def by fastforce
  moreover from this have "class_req_ok (usbd_driver_handler drv) r" using assms(3,4) by (simp add: addressed_handler_def)
  ultimately show ?thesis using hid_handler_ok [OF assms(1,2)] cdc_handler_ok [OF assms(1)] audio_handler_ok [OF assms(1)] assms(2)
    by (cases "usbd_driver_handler drv") (simp_all add: usbd_call_driver_def usb_app_ok_def del: not_None_eq)
qed


lemma usb_device_request_ok:
  assumes "usb_app_ok app"
  shows "usbd_device_request app r s \<noteq> None"
proof -
  obtain bs t where c: "config_ok bs" "usbd_get_config_descriptor app = Some (concat bs @ 0 # t)"
    using assms by (auto simp: usb_app_ok_def)
  have short: "send_desc r d s \<noteq> None" if "short_desc_ok d" for d
    using that by (cases d) (auto simp: send_desc_def short_desc_ok_def rd8_def usbd_ep_write_eq min.coboundedI1)
  have tot: "send_total_desc r d s \<noteq> None" if "\<And>x. d = Some x \<Longrightarrow> \<exists>bs t. config_ok bs \<and> x = concat bs @ t" for d
  proof (cases d)
    case (Some x)
    then obtain bs t where x: "config_ok bs" "x = concat bs @ t" using \<open>\<And>x. d = Some x \<Longrightarrow> _\<close> by blast
    then have "min (unat (of_nat (length (concat bs)) :: u16)) n \<le> length x" for n
      by (simp add: unat_of_nat config_ok_def min.coboundedI1)
    then show ?thesis using Some x config_total [OF x(1), of t] by (auto simp: send_total_desc_def usbd_ep_write_eq)
  qed (simp add: send_total_desc_def)
  have total: "send_total_desc r (usbd_get_config_descriptor app) s \<noteq> None" by (rule tot) (use c in auto)
  have other: "send_total_desc r (usbd_get_other_speed_configuration_descriptor app i) s \<noteq> None" for i
    by (rule tot) (use assms in \<open>auto simp: usb_app_ok_def\<close>)
  have shorts: "send_desc r (usbd_get_device_descriptor app) s \<noteq> None" "send_desc r (usbd_get_string_descriptor app i) s \<noteq> None"
      "send_desc r (usbd_get_device_qualifier_descriptor app) s \<noteq> None" for i
    using assms by (simp_all add: usb_app_ok_def short del: not_None_eq)
  have "usbd_get_descriptor_process app r s \<noteq> None"
    unfolding usbd_get_descriptor_process_def Let_def using total other shorts by (simp del: not_None_eq)
  then show ?thesis
    using usbd_set_configuration_blocks [OF c]
    by (auto simp add: usbd_device_request_def Let_def usbd_set_address_def usbd_ep_write_eq simp del: not_None_eq)
qed

end
