(* ===== verification/Usb_Requests.thy ===== *)
theory Usb_Requests
  imports Usbd_Core
begin

unbundle bit_operations_syntax

text \<open>
  The properties of the USB device stack: control transfers are memory safe on well-formed requests, the
  device state the host sees is an abstract state machine, configuration opens the endpoints of the
  descriptor, rejected requests stall, class data survives a write and a read, and a bus reset restores the
  default state.  The last section holds the bounds that the code does not check.
\<close>

section \<open>An example device\<close>

text \<open>A keyboard with one HID interface and one interrupt endpoint, used to instantiate the hypotheses below.\<close>

definition kb_config :: "bytes list" where
  "kb_config = [[9, 2, 25, 0, 1, 1, 0, 0x80, 50], [9, 4, 0, 0, 1, 3, 0, 0, 0], [7, 5, 0x81, 3, 8, 0, 1]]"

definition kb_app :: usb_app where
  "kb_app = \<lparr>usbd_get_device_descriptor = Some [2, 1], usbd_get_config_descriptor = Some (concat kb_config @ [0]),
     usbd_get_string_descriptor = (\<lambda>_. None), usbd_get_device_qualifier_descriptor = None,
     usbd_get_other_speed_configuration_descriptor = (\<lambda>_. None), usbd_hid_get_report_descriptor = (\<lambda>_. Some ([1, 2, 3], 3)),
     usbd_set_configuration_callback = False, usbd_audio_interface_cb = None, tl_usb_enum_done_cb = False,
     tl_usb_sof_cb = False, tl_usb_reset_cb = False\<rparr>"

definition kb_request :: "u8 \<Rightarrow> u8 \<Rightarrow> u16 \<Rightarrow> u16 \<Rightarrow> u16 \<Rightarrow> usb_control_request_t" where
  "kb_request t q v i l = \<lparr>bmRequestType = t, bRequest = q, wValue = v, wIndex = i, wLength = l\<rparr>"

definition kb_device :: usb_state where
  "kb_device = \<lparr>usbd_info = \<lparr>usb_setup = kb_request 0 0 0 0 0, usb_address = 0, config_value = 0, test_mode = False, device_status = 0,
       usb_driver = Some \<lparr>usbd_driver_handler = Hid_Handler, driver_num = 0\<rparr> # Some \<lparr>usbd_driver_handler = Cdc_Handler, driver_num = 1\<rparr> # replicate 14 None,
       itf2drv = 0 # 1 # replicate 14 0, ep2drv = replicate 8 [0, 0], ep_status = replicate 8 [0, 0],
       epin_cb = replicate 8 None, epout_cb = replicate 8 None\<rparr>,
     remote_wakeup = 0, usbd_hid = replicate 4 \<lparr>idle_rate = 0, protocol_mode = 0, hid_report = 0, reg_data = replicate 8 0\<rparr>,
     usbd_cdc = [\<lparr>dtr = False, rts = False, line_coding = \<lparr>bit_rate = 0, stop_bits = 0, parity = 0, data_bits = 0\<rparr>\<rparr>],
     usbd_audio = replicate 2 [0, 0, 0], ep0_out_data = replicate 64 0, ep0_target = None, sof_cnt = 0, sof_masked = False, usb_log = []\<rparr>"

lemma kb_config_ok: "config_ok kb_config"
  by (simp add: config_ok_def desc_ok_def kb_config_def BYTES_TO_UINT16_def rd8_def)

lemma kb_app_ok: "usb_app_ok kb_app"
proof -
  have "config_ok kb_config \<and> usbd_get_config_descriptor kb_app = Some (concat kb_config @ 0 # [])"
    by (simp add: kb_config_ok kb_app_def)
  then show ?thesis unfolding usb_app_ok_def by (auto simp: kb_app_def short_desc_ok_def usb_cb_ok_def)
qed

lemma kb_device_wf: "usb_wf kb_device"
  by (simp add: usb_wf_def usb_dims_def kb_device_def USBD_CDC_INTERFACE_NUM_def USBD_HID_INTERFACE_NUM_def
      USBD_AUDIO_INTERFACE_NUM_def USBD_SUPPORT_DRIVER_MAX_def USBD_SUPPORT_INTERFACE_MAX_def USBD_SUPPORT_ENDPOINT_MAX_def
      USBD_ENDPOINT_DIRECTION_def numeral_eq_Suc)

section \<open>Properties\<close>

text \<open>
  C11.  On a well-formed device (every table entry names a registered driver) with callbacks that return and keep
  the device state, whose descriptors are as long as
  their length fields say and whose configuration descriptor is followed by a zero byte, every control request is
  served without a memory fault, in the setup as in the status stage, and leaves the device well formed,
  provided the interface or endpoint it names is inside the dispatch tables and its index and length fit
  the class driver that is registered there; the other drivers impose nothing.
\<close>

theorem usb_request_safe:
  assumes "usb_wf s" "usb_app_ok app" "usb_req_ok r"
    and "\<forall>h. addressed_handler r s = Some h \<longrightarrow> class_req_ok h r"
  shows "\<exists>ok s'. usbd_control_request_process app r st s = Some (ok, s') \<and> usb_wf s'"
proof -
  define s0 where "s0 = s\<lparr>usbd_info := (usbd_info s)\<lparr>usb_setup := r\<rparr>\<rparr>"
  have t: "itf2drv (usbd_info s0) = itf2drv (usbd_info s)" "ep2drv (usbd_info s0) = ep2drv (usbd_info s)"
      "usb_driver (usbd_info s0) = usb_driver (usbd_info s)"
    by (simp_all add: s0_def)
  have h: "class_req_ok h r" if "addressed_handler r s0 = Some h" for h
    using assms(4) that unfolding addressed_handler_def addressed_driver_def t by blast
  have "usb_keeps s s0" by (simp add: s0_def usb_frame)
  then have wf: "usb_wf s0" using assms(1) by (rule usb_wf_keeps [rotated])
  let ?i = "unat (U16_LOW_BYTE (wIndex r))" and ?e = "unat (usb_get_ep_number (U16_LOW_BYTE (wIndex r)))"
  have itf: "usbd_interface_request app r st s0 \<noteq> None" if "recipient r = 1"
  proof -
    have i: "?i < length (itf2drv (usbd_info s0))" using wf assms(3) that by (simp add: usb_wf_def usb_req_ok_def USBD_SUPPORT_INTERFACE_MAX_def)
    then have "itf2drv (usbd_info s0) ! ?i \<in> set (itf2drv (usbd_info s0)) \<union> set (concat (ep2drv (usbd_info s0)))" by simp
    from driver_ok [OF wf assms(2) _ h this] show ?thesis using i that by (simp add: addressed_driver_def usbd_interface_request_def Let_def del: not_None_eq)
  qed
  have ep: "usbd_endpoint_request app r st s0 \<noteq> None" if "recipient r = 2"
  proof -
    let ?t = "ep2drv (usbd_info s0)" and ?d = "usb_get_ep_dir (U16_LOW_BYTE (wIndex r))"
    have t: "map length ?t = replicate 8 2" using wf by (simp add: usb_wf_def USBD_SUPPORT_ENDPOINT_MAX_def USBD_ENDPOINT_DIRECTION_def)
    then have "length ?t = 8" by (metis length_map length_replicate)
    then have e: "?e < length ?t" using assms(3) that by (simp add: usb_req_ok_def)
    then have d: "?d < length (?t ! ?e)" using t usb_dir_less \<open>length ?t = 8\<close> by (metis nth_map nth_replicate)
    have "?t ! ?e \<in> set ?t" "?t ! ?e ! ?d \<in> set (?t ! ?e)" using e d by simp_all
    then have "?t ! ?e ! ?d \<in> set (itf2drv (usbd_info s0)) \<union> set (concat ?t)" by auto
    from driver_ok [OF wf assms(2) _ h this] show ?thesis using e d that by (simp add: addressed_driver_def usbd_endpoint_request_def Let_def del: not_None_eq)
  qed
  have "usbd_control_request_process app r st s \<noteq> None"
    using itf ep usb_device_request_ok [OF assms(2), of r s0]
    by (simp add: usbd_control_request_process_def usbd_standard_request_process_def usbd_class_request_process_def
        usbd_vendor_request_process_def Let_def s0_def [symmetric] del: not_None_eq)
  then obtain ok s' where p: "usbd_control_request_process app r st s = Some (ok, s')" by fastforce
  have "usb_keeps s s'" using usb_device_state_frame [OF _ p] assms(2) by (simp add: usb_app_ok_def)
  then show ?thesis using p usb_wf_keeps [OF assms(1)] by blast
qed

theorem usb_request_safe_witness:
  "\<exists>ok s'. usbd_control_request_process kb_app (kb_request 0x21 9 0 0 8) True kb_device = Some (ok, s') \<and> usb_wf s'"
proof (rule usb_request_safe [OF kb_device_wf kb_app_ok])
  show "usb_req_ok (kb_request 0x21 9 0 0 8)" by (simp add: usb_req_ok_def kb_request_def recipient_def U16_LOW_BYTE_def)
  have "addressed_handler (kb_request 0x21 9 0 0 8) kb_device = Some Hid_Handler"
    by (simp add: addressed_handler_def addressed_driver_def kb_request_def recipient_def U16_LOW_BYTE_def kb_device_def)
  then show "\<forall>h. addressed_handler (kb_request 0x21 9 0 0 8) kb_device = Some h \<longrightarrow> class_req_ok h (kb_request 0x21 9 0 0 8)"
    by (simp add: kb_request_def req_type_def U16_LOW_BYTE_def)
qed

text \<open>
  C12.  The host-visible device state (address and configuration) is an abstract state machine: a control
  request changes it exactly when it is a standard device request \<open>SET_ADDRESS\<close> or \<open>SET_CONFIGURATION\<close>, and
  then to the requested value.  No request changes the driver tables or the size of a buffer.
\<close>

theorem usb_device_state_machine:
  assumes "usb_cb_ok app" "usbd_control_request_process app r st s = Some (ok, s')"
  shows "usb_keeps s s' \<and> usb_visible s' =
     (if req_type r = 0 \<and> recipient r = 0 \<and> bRequest r = USB_REQ_SET_ADDRESS
      then (U16_LOW_BYTE (wValue r), snd (usb_visible s))
      else if req_type r = 0 \<and> recipient r = 0 \<and> bRequest r = USB_REQ_SET_CONFIGURATION
      then (fst (usb_visible s), U16_LOW_BYTE (wValue r))
      else usb_visible s)"
  using assms by (rule usb_device_state_frame)


theorem usb_device_state_machine_witness:
  "\<exists>s'. usbd_control_request_process kb_app (kb_request 0 5 42 0 0) True kb_device = Some (True, s') \<and> usb_visible s' = (42, 0)"
proof -
  obtain s' where p: "usbd_control_request_process kb_app (kb_request 0 5 42 0 0) True kb_device = Some (True, s')"
    by (simp add: usbd_control_request_process_def usbd_standard_request_process_def usbd_device_request_def kb_request_def
        req_type_def recipient_def usbd_set_address_def usb_codes Let_def)
  have "usb_cb_ok kb_app" using kb_app_ok by (simp add: usb_app_ok_def)
  from usb_device_state_machine [OF this p] show ?thesis using p
    by (simp add: kb_request_def req_type_def recipient_def usb_codes usb_visible_def kb_device_def U16_LOW_BYTE_def)
qed

text \<open>
  C13.  When a zero byte follows the configuration descriptor, \<open>SET_CONFIGURATION\<close> with a non-zero value opens
  exactly the endpoints whose descriptors it contains, in order and with number, direction, type and packet
  size of the descriptor, and then acknowledges with an empty packet.
\<close>

theorem usb_set_configuration_opens:
  assumes "config_ok bs" "usbd_get_config_descriptor app = Some (concat bs @ 0 # t)"
    and "req_type r = 0" "recipient r = 0" "bRequest r = USB_REQ_SET_CONFIGURATION" "U16_LOW_BYTE (wValue r) \<noteq> 0"
  shows "\<exists>s'. usbd_control_request_process app r st s = Some (True, s') \<and> config_value (usbd_info s') = U16_LOW_BYTE (wValue r)
     \<and> usb_log s' = usb_log s @ ep_events bs
         @ (if usbd_set_configuration_callback app then [App_SetConfiguration (U16_LOW_BYTE (wValue r))] else []) @ [Ev_Write 0 []]"
  using assms
  by (simp add: usbd_control_request_process_def usbd_standard_request_process_def usbd_device_request_def usb_codes Let_def
      usbd_set_configuration_blocks [OF assms(1,2)])

theorem usb_set_configuration_opens_witness:
  "\<exists>s'. usbd_control_request_process kb_app (kb_request 0 9 1 0 0) True kb_device = Some (True, s') \<and> config_value (usbd_info s') = 1
     \<and> usb_log s' = [Ev_EpOpen 1 1 3 8, Ev_Write 0 []]"
proof -
  have "usbd_get_config_descriptor kb_app = Some (concat kb_config @ 0 # [])" by (simp add: kb_app_def)
  from usb_set_configuration_opens [OF kb_config_ok this, of "kb_request 0 9 1 0 0" True kb_device] show ?thesis
    by (simp add: kb_request_def req_type_def recipient_def usb_codes U16_LOW_BYTE_def kb_app_def kb_device_def ep_events_def ep_event_def
        kb_config_def usb_get_ep_number_def usb_get_ep_dir_def USB_DIR_IN_MASK_def USB_DIR_IN_def)
qed

text \<open>
  C39.  The walk reads the length byte behind the last descriptor: when the descriptor object ends with its
  last descriptor, \<open>SET_CONFIGURATION\<close> reads outside it.
\<close>

theorem usb_config_descriptor_overrun:
  assumes "config_ok bs" "usbd_get_config_descriptor app = Some (concat bs)"
    and "req_type r = 0" "recipient r = 0" "bRequest r = USB_REQ_SET_CONFIGURATION" "U16_LOW_BYTE (wValue r) \<noteq> 0"
  shows "usbd_control_request_process app r st s = None"
proof -
  have ne: "bs \<noteq> []" "0 < head_len bs" using assms(1) by (cases bs; auto simp: config_ok_def head_len_def)+
  have bound: "length (concat bs) < 2 ^ 16" "\<forall>b \<in> set bs. desc_ok b" using assms(1) by (simp_all add: config_ok_def)
  have "usbd_set_configuration app s = None" for s
    using set_config_loop_overrun [OF ne(1) bound(2), of "[]" _ "head_len bs" s] ne bound config_total [OF assms(1), of "[]"] assms(2)
    by (simp add: usbd_set_configuration_def)
  then show ?thesis using assms
    by (simp add: usbd_control_request_process_def usbd_standard_request_process_def usbd_device_request_def usb_codes Let_def)
qed

theorem usb_config_descriptor_overrun_witness:
  "usbd_control_request_process (kb_app\<lparr>usbd_get_config_descriptor := Some (concat kb_config)\<rparr>) (kb_request 0 9 1 0 0) True kb_device = None"
  by (rule usb_config_descriptor_overrun [OF kb_config_ok])
    (simp_all add: kb_request_def req_type_def recipient_def usb_codes U16_LOW_BYTE_def)

text \<open>
  A vendor request and a class request to the device are refused: endpoint 0 is stalled in both
  directions, the reception of the next setup packet is armed, and the host-visible state is unchanged.
\<close>

theorem usb_unsupported_request_stalls:
  assumes "length (ep0_out_data s) = 64" "r = setup_of_bytes (ep0_out_data s)" "req_type r = 2 \<or> req_type r = 1 \<and> recipient r = 0"
  shows "\<exists>s'. epout_setup app 0 s = Some s' \<and> usb_visible s' = usb_visible s \<and> ep0_target s' = Some (Buf_Ep0, 64)
     \<and> usb_log s' = usb_log s @ [Ev_ClearDoepint 0 FLD_USB_DOEPINT_SETUP, Ev_StallOut 0, Ev_Read 0 Buf_Ep0 64, Ev_StallIn 0, Ev_Read 0 Buf_Ep0 64]"
proof -
  have m: "usb_get_ep_number USB_DIR_IN_MASK = 0" "usb_get_ep_dir USB_DIR_IN_MASK = 1" using ep0_number by (simp_all add: USB_DIR_IN_def)
  show ?thesis using assms
    by (auto simp: m epout_setup_def usbd_control_request_process_def usbd_vendor_request_process_def usbd_class_request_process_def
      usb_stall_ep0_def usbd_ep_stall_def usbd_ep_read_def buf_size_def Let_def USB_DIR_IN_def USB_DIR_OUT_def usb_visible_def)
qed

theorem usb_unsupported_request_stalls_witness:
  "\<exists>s'. epout_setup kb_app 0 (kb_device\<lparr>ep0_out_data := 0x40 # replicate 63 0\<rparr>) = Some s' \<and> usb_visible s' = (0, 0)
     \<and> ep0_target s' = Some (Buf_Ep0, 64)"
proof -
  have "req_type (setup_of_bytes (0x40 # replicate 63 0)) = 2" by (simp add: req_type_def setup_of_bytes_def)
  then show ?thesis
    using usb_unsupported_request_stalls [of "kb_device\<lparr>ep0_out_data := 0x40 # replicate 63 0\<rparr>" _ kb_app]
    by (simp add: usb_visible_def kb_device_def) blast
qed

lemma u32_bytes_of:
  fixes a0 a1 a2 a3 :: u8
  shows "UINT32_TO_BSTREAM (ucast a0 + push_bit 8 (ucast a1) + push_bit 16 (ucast a2) + push_bit 24 (ucast a3)) = [a0, a1, a2, a3]"
proof -
  have no: "\<not> bit (x :: u8) (8 + n)" "\<not> bit x (16 + n)" "\<not> bit x (24 + n)" for x n
    using bit_u8_less [of x] by fastforce+
  show ?thesis unfolding u32_bytes_plus_or UINT32_TO_BSTREAM_def
    by (auto intro!: bit_word_eqI simp: bit_simps no)
qed

lemma cdc_bytes_of_bytes:
  assumes "length d = 7"
  shows "cdc_bytes (cdc_of_bytes d) = d"
proof -
  obtain a0 a1 a2 a3 a4 a5 a6 where d: "d = [a0, a1, a2, a3, a4, a5, a6]"
    using assms by (auto simp: numeral_eq_Suc length_Suc_conv)
  show ?thesis unfolding d cdc_bytes_def cdc_of_bytes_def by (simp add: u32_bytes_of)
qed

text \<open>
  The line coding a host writes to a CDC interface is the line coding it reads back: the setup stage of
  \<open>SET_LINE_CODING\<close> arms the reception, the data arrives, the status stage accepts, and
  \<open>GET_LINE_CODING\<close> sends the same seven bytes.  (A bit rate of zero is replaced by a default.)
\<close>

theorem cdc_line_coding_roundtrip:
  assumes "unat (U16_LOW_BYTE (wIndex r)) < length (usbd_cdc s)" "req_type r = 1" "req_type g = 1" "wIndex g = wIndex r"
    and "bRequest r = CDC_REQUEST_SET_LINE_CODING" "bRequest g = CDC_REQUEST_GET_LINE_CODING" "wLength r = 7"
    and "length d = 7" "bit_rate (cdc_of_bytes d) \<noteq> 0"
  shows "\<exists>s1 s2 s3 s4. usbd_cdc_interface_request_handler r True s = Some (True, s1) \<and> usb_out_data d s1 = Some s2
     \<and> usbd_cdc_interface_request_handler r False s2 = Some (True, s3)
     \<and> usbd_cdc_interface_request_handler g True s3 = Some (True, s4)
     \<and> usb_log s4 = usb_log s @ [Ev_Read 0 (Buf_CdcLine (unat (U16_LOW_BYTE (wIndex r)))) 7, Ev_Write 0 d]"
proof -
  define i where "i = unat (U16_LOW_BYTE (wIndex r))"
  have i: "i < length (usbd_cdc s)" using assms(1) by (simp add: i_def)
  have "length (cdc_bytes c) = 7" for c by (simp add: cdc_bytes_def)
  then have w: "wr_range (cdc_bytes c) 0 d = Some d" for c using assms(8) by (simp add: wr_range_def)
  show ?thesis using assms(2-9) i
    by (simp add: usbd_cdc_interface_request_handler_def i_def [symmetric] Let_def usb_codes usbd_ep_read_def buf_size_def
        usb_out_data_def w usbd_cdc_get_line_coding_def usbd_ep_write_eq cdc_bytes_of_bytes)
qed

theorem cdc_line_coding_roundtrip_witness:
  "\<exists>s1 s2 s3 s4. usbd_cdc_interface_request_handler (kb_request 0x21 0x20 0 0 7) True kb_device = Some (True, s1)
     \<and> usb_out_data [0x80, 0x25, 0, 0, 0, 0, 8] s1 = Some s2
     \<and> usbd_cdc_interface_request_handler (kb_request 0x21 0x20 0 0 7) False s2 = Some (True, s3)
     \<and> usbd_cdc_interface_request_handler (kb_request 0xA1 0x21 0 0 7) True s3 = Some (True, s4)
     \<and> usb_log s4 = [Ev_Read 0 (Buf_CdcLine 0) 7, Ev_Write 0 [0x80, 0x25, 0, 0, 0, 0, 8]]"
  using cdc_line_coding_roundtrip [of "kb_request 0x21 0x20 0 0 7" kb_device "kb_request 0xA1 0x21 0 0 7" "[0x80, 0x25, 0, 0, 0, 0, 8]"]
  by (simp add: kb_request_def req_type_def usb_codes U16_LOW_BYTE_def kb_device_def cdc_of_bytes_def)

text \<open>
  Halting an endpoint and reading its status agree: after \<open>SET_FEATURE(ENDPOINT_HALT)\<close> the status sent is
  1, after \<open>CLEAR_FEATURE\<close> it is 0, and the endpoint is stalled and released in between.
\<close>

theorem endpoint_halt_roundtrip:
  assumes "usb_wf s" "ep = U16_LOW_BYTE (wIndex r)" "usb_get_ep_number ep \<noteq> 0" "unat (usb_get_ep_number ep) < 8"
    and "req_type r = 0" "recipient r = 2" "wValue r = USB_REQ_FEATURE_EDPT_HALT"
  shows "\<exists>s1 s2 s3 s4. usbd_hid_interface_request_handler app (r\<lparr>bRequest := USB_REQ_SET_FEATURE\<rparr>) True s = Some (True, s1)
     \<and> usbd_hid_interface_request_handler app (r\<lparr>bRequest := USB_REQ_GET_STATUS\<rparr>) True s1 = Some (True, s2)
     \<and> usbd_hid_interface_request_handler app (r\<lparr>bRequest := USB_REQ_CLEAR_FEATURE\<rparr>) True s2 = Some (True, s3)
     \<and> usbd_hid_interface_request_handler app (r\<lparr>bRequest := USB_REQ_GET_STATUS\<rparr>) True s3 = Some (True, s4)
     \<and> usb_log s4 = usb_log s
         @ (if usb_get_ep_dir ep = USB_DIR_IN then [Ev_StallIn (usb_get_ep_number ep)] else [Ev_StallOut (usb_get_ep_number ep)])
         @ [Ev_Write 0 [], Ev_Write 0 [1, 0]]
         @ (if usb_get_ep_dir ep = USB_DIR_IN then [Ev_ClearStallIn (usb_get_ep_number ep)] else [Ev_ClearStallOut (usb_get_ep_number ep)])
         @ [Ev_Write 0 [], Ev_Write 0 [0, 0]]"
proof -
  define i where "i = unat (usb_get_ep_number ep)"
  have i: "i < length (ep_status (usbd_info s))" "usb_get_ep_dir ep < length (ep_status (usbd_info s) ! i)"
    using usb_wf_buffers(6,7) [OF assms(1)] assms(4) usb_dir_less [of ep] by (simp_all add: i_def)
  have t: "req_type (r\<lparr>bRequest := q\<rparr>) = 0" "recipient (r\<lparr>bRequest := q\<rparr>) = 2" for q
    using assms(5,6) by (simp_all add: req_type_def recipient_def)
  show ?thesis using assms(3,7) i
    by (simp add: usbd_hid_interface_request_handler_def hid_standard_request_def t assms(2) [symmetric] usb_codes Let_def
        usbd_endpoint_set_status_def usbd_endpoint_get_status_def i_def [symmetric] usbd_ep_stall_def usbd_ep_clear_stall_def
        usbd_ep_write_eq UINT16_TO_BSTREAM_def)
qed

theorem endpoint_halt_roundtrip_witness:
  "\<exists>s1 s2 s3 s4. usbd_hid_interface_request_handler kb_app (kb_request 2 3 0 0x81 0) True kb_device = Some (True, s1)
     \<and> usbd_hid_interface_request_handler kb_app (kb_request 2 0 0 0x81 0) True s1 = Some (True, s2)
     \<and> usbd_hid_interface_request_handler kb_app (kb_request 2 1 0 0x81 0) True s2 = Some (True, s3)
     \<and> usbd_hid_interface_request_handler kb_app (kb_request 2 0 0 0x81 0) True s3 = Some (True, s4)
     \<and> usb_log s4 = [Ev_StallIn 1, Ev_Write 0 [], Ev_Write 0 [1, 0], Ev_ClearStallIn 1, Ev_Write 0 [], Ev_Write 0 [0, 0]]"
proof -
  have "usb_get_ep_number 0x81 = 1" "usb_get_ep_dir 0x81 = USB_DIR_IN"
    by (simp_all add: usb_get_ep_number_def usb_get_ep_dir_def USB_DIR_IN_MASK_def USB_DIR_IN_def)
  then show ?thesis
    using endpoint_halt_roundtrip [OF kb_device_wf, of "0x81" "kb_request 2 0 0 0x81 0" kb_app]
    by (simp add: kb_request_def req_type_def recipient_def usb_codes U16_LOW_BYTE_def kb_device_def)
qed

text \<open>
  A bus reset returns the device to the default state: address, configuration, device status and every
  endpoint status are zero, endpoint 0 waits for a setup packet, the frame counter restarts, and the tables
  keep their shape.
\<close>

theorem usb_bus_reset_default_state:
  assumes "usb_wf s"
  shows "\<exists>s'. usb_irq_reset app s = Some s' \<and> usb_wf s' \<and> usb_visible s' = (0, 0) \<and> device_status (usbd_info s') = 0
     \<and> ep_status (usbd_info s') = replicate 8 [0, 0] \<and> ep0_target s' = Some (Buf_Ep0, 64) \<and> sof_cnt s' = 0 \<and> \<not> sof_masked s'"
proof -
  obtain a where a: "usb_irq_handler_reset (usb_emit (Ev_ClearGintsts FLD_USB_GINTSTS_USBRST) s) = Some a"
      "usb_same s a" "ep0_target a = Some (Buf_Ep0, 64)"
    using usb_wf_buffers(4) [OF assms] by (auto simp: usb_irq_handler_reset_def usbd_ep_read_def buf_size_def usb_same_def usb_frame)
  have wa: "usb_wf a" using a(2) assms by (auto simp: usb_same_def intro: usb_wf_keeps)
  have st: "map (map (\<lambda>_. 0)) (ep_status (usbd_info a)) = replicate 8 [0, 0]"
  proof (rule nth_equalityI)
    show "map (map (\<lambda>_. 0)) (ep_status (usbd_info a)) ! i = replicate 8 [0, 0] ! i"
      if "i < length (map (map (\<lambda>_. 0)) (ep_status (usbd_info a)))" for i
      using that usb_wf_buffers(6) [OF wa] usb_wf_buffers(7) [OF wa, of i]
      by (auto simp: numeral_2_eq_2 length_Suc_conv)
  qed (use usb_wf_buffers(6) [OF wa] in simp)
  define b where "b = usbd_bus_reset a"
  define c where "c = (if tl_usb_reset_cb app then usb_emit App_Reset b else b)\<lparr>sof_cnt := 0, sof_masked := False\<rparr>"
  have "usb_keeps a b" by (simp add: b_def usbd_bus_reset_def usb_frame o_def)
  then have "usb_keeps a c" by (simp add: c_def usb_frame)
  moreover have "ep_status (usbd_info b) = replicate 8 [0, 0]" unfolding st [symmetric] by (simp add: b_def usbd_bus_reset_def)
  moreover have "usb_visible b = (0, 0)" "device_status (usbd_info b) = 0" "ep0_target b = Some (Buf_Ep0, 64)"
    using a(3) by (simp_all add: b_def usbd_bus_reset_def usb_visible_def)
  moreover have "usb_irq_reset app s = Some c" using a(1) by (simp add: usb_irq_reset_def Let_def b_def c_def)
  ultimately show ?thesis using usb_wf_keeps [OF wa] by (auto simp: c_def usb_visible_def)
qed

theorem usb_bus_reset_default_state_witness:
  "\<exists>s'. usb_irq_reset kb_app kb_device = Some s' \<and> usb_wf s' \<and> usb_visible s' = (0, 0)"
  using usb_bus_reset_default_state [OF kb_device_wf, of kb_app] by blast

section \<open>Bounds the code does not check\<close>

text \<open>
  The length of the data stage is taken from the host: a \<open>SET_REPORT\<close> request announcing more than the
  eight bytes of \<^verbatim>\<open>reg_data\<close>, a \<open>SET_LINE_CODING\<close> request announcing more than seven and an audio request
  announcing more than three arm the DMA beyond the object.
\<close>

theorem usb_class_data_stage_overrun:
  assumes "usb_wf s" "req_type r = 1" "unat (wLength r) > 8" "unat (U16_LOW_BYTE (wIndex r)) < 4"
  shows "(bRequest r = HID_REQ_CONTROL_SET_REPORT \<longrightarrow> usbd_hid_interface_request_handler app r True s = None)
     \<and> (bRequest r = CDC_REQUEST_SET_LINE_CODING \<longrightarrow> usbd_cdc_interface_request_handler r True s = None)
     \<and> (recipient r = 2 \<longrightarrow> usbd_audio_interface_request_handler app r True s = None)"
  using assms(2-4) usb_wf_buffers(1,2,3,5) [OF assms(1)]
  by (simp add: usbd_hid_interface_request_handler_def hid_class_request_def usbd_cdc_interface_request_handler_def
      usbd_audio_interface_request_handler_def audio_class_request_def usb_codes Let_def usbd_ep_read_def) (simp add: buf_size_def)

theorem usb_class_data_stage_overrun_witness:
  "usbd_hid_interface_request_handler kb_app (kb_request 0x21 9 0 0 16) True kb_device = None"
  using usb_class_data_stage_overrun [OF kb_device_wf, of "kb_request 0x21 9 0 0 16" kb_app]
  by (simp add: kb_request_def req_type_def usb_codes U16_LOW_BYTE_def)

text \<open>
  Endpoint number 8 passes the check of the registration functions although the tables have entries for
  the numbers 0 to 7 only.
\<close>

theorem usb_endpoint_8_outside_tables:
  assumes "usb_wf s" "usb_get_ep_number ep = 8"
  shows "usbd_endpoint_register ep cb s = None \<and> usbd_driver_register drv intf ep s = None"
proof -
  have "length (epin_cb (usbd_info s)) = 8" "length (epout_cb (usbd_info s)) = 8" using assms(1) by (simp_all add: usb_wf_def usb_dims_def)
  moreover have "length (ep2drv (usbd_info s)) = 8"
    using assms(1) by (auto simp: usb_wf_def USBD_SUPPORT_ENDPOINT_MAX_def dest: arg_cong [where f = length])
  ultimately show ?thesis using assms(2)
    by (simp add: usbd_endpoint_register_def usbd_driver_register_def USBD_SUPPORT_ENDPOINT_MAX_def Let_def)
qed

theorem usb_endpoint_8_outside_tables_witness:
  "usbd_endpoint_register 0x88 None kb_device = None"
  using usb_endpoint_8_outside_tables [OF kb_device_wf, of "0x88"] by (simp add: usb_get_ep_number_def USB_DIR_IN_MASK_def)

end
