(* ===== verification/Kb_Scan.thy ===== *)
theory Kb_Scan
  imports Telink_Prelude
begin

unbundle bit_operations_syntax

text \<open>
  The keyboard matrix scanner \<^verbatim>\<open>application/keyboard/keyboard.c\<close>.

  The compile-time options are the record \<open>kb_cfg\<close>; \<^verbatim>\<open>KB_LINE_MODE\<close>, \<^verbatim>\<open>LONG_PRESS_KEY_POWER_OPTIMIZE\<close> and
  \<^verbatim>\<open>STUCK_KEY_PROCESS_ENABLE\<close> have their default 0.  The keyboard is the argument \<open>hw\<close>: the bytes that
  \<^verbatim>\<open>gpio_read_all\<close> delivers while the listed drive lines are active.  The static variables of the functions
  are fields of the state.  \<open>None\<close> is an access outside an array: the writes to \<^verbatim>\<open>pressed_matrix\<close> and \<^verbatim>\<open>matrix_buff\<close>
  check their index, and the debounce filter fails when its three arrays have not the same number of rows.
\<close>

section \<open>Data\<close>

definition KB_NUMLOCK_STATUS_INVALID :: nat where "KB_NUMLOCK_STATUS_INVALID = 7"
definition KB_NUMLOCK_STATUS_POWERON :: nat where "KB_NUMLOCK_STATUS_POWERON = 15"
definition KB_RETURN_KEY_MAX :: nat where "KB_RETURN_KEY_MAX = 6"
definition KEY_NONE :: u8 where "KEY_NONE = 0"
definition KEY_CHANGE :: u8 where "KEY_CHANGE = 1"
definition KEY_SAME :: u8 where "KEY_SAME = 2"
definition VK_MSK_LCTRL :: u8 where "VK_MSK_LCTRL = 1"
definition VK_MINUS :: u8 where "VK_MINUS = 0x2d"
definition VK_EQUAL :: u8 where "VK_EQUAL = 0x2e"
definition VK_CTRL :: u8 where "VK_CTRL = 0xe0"
definition VK_RWIN :: u8 where "VK_RWIN = 0xe7"
definition VK_ZOOM_IN :: u8 where "VK_ZOOM_IN = 0xb6"
definition VK_ZOOM_OUT :: u8 where "VK_ZOOM_OUT = 0xb7"
definition VK_FN :: u8 where "VK_FN = 0xff"

record kb_data_t =
  kd_cnt :: u8
  ctrl_key :: u8
  keycode :: bytes

type_synonym kb_map = "u8 list list"

record kb_cfg =
  drive_num :: nat
  scan_pins :: "u32 list"
  kb_map_normal :: kb_map
  kb_p_map :: "kb_map list"
  kb_map_repeat :: bytes
  KB_LINE_HIGH_VALID :: bool
  KB_HAS_CTRL_KEYS :: bool
  KB_HAS_FN_KEY :: bool
  KB_RM_GHOST_KEY_EN :: bool
  KB_STANDARD_KEYBOARD :: bool
  KB_REPEAT_KEY_ENABLE :: bool
  KB_REPEAT_KEY_INTERVAL_MS :: u32

record repeatKey_t =
  key_change_flg :: u8
  key_repeat_flg :: u8
  key_change_tick :: u32

record kb_state =
  kb_event :: kb_data_t
  kb_is_fn_pressed :: bool
  kb_k_mp :: kb_map
  scan_pin_need :: u32
  mtrx_pre :: "u32 list"
  mtrx_last :: "u32 list"
  matrix_buff :: "u32 list list"
  matrix_wptr :: int
  matrix_rptr :: int
  release_cnt :: u8
  ret_last :: u32
  repeat_key :: repeatKey_t

text \<open>A checked write and a checked read of an array of rows.\<close>

definition arr_put :: "nat \<Rightarrow> 'a \<Rightarrow> 'a list \<Rightarrow> 'a list option" where
  "arr_put i x a = (if i < length a then Some (a[i := x]) else None)"

definition arr_get :: "nat \<Rightarrow> 'a list \<Rightarrow> 'a option" where
  "arr_get i a = (if i < length a then Some (a ! i) else None)"

section \<open>Filters on the key matrix\<close>

definition BIT_IS_POW2 :: "u32 \<Rightarrow> bool" where
  "BIT_IS_POW2 x = (x AND (x - 1) = 0)"

definition ghost_mix :: "u32 \<Rightarrow> u32 \<Rightarrow> u32 \<Rightarrow> u32" where
  "ghost_mix a b mix_final =
     (let mix = a AND b in
      if mix \<noteq> 0 \<and> (\<not> BIT_IS_POW2 mix \<or> a XOR b \<noteq> 0) then mix_final OR mix else mix_final)"

text \<open>Row \<open>i\<close> is compared with the later rows, which are still unchanged, and then cleared.\<close>

fun ghost_rows :: "u32 list \<Rightarrow> u32 \<Rightarrow> u32 list" where
  "ghost_rows [] mix_final = []"
| "ghost_rows (x # xs) mix_final =
     (let mf = fold (ghost_mix x) xs mix_final in (x AND NOT mf) # ghost_rows xs mf)"

definition kb_rmv_ghost_key :: "u32 list \<Rightarrow> u32 list" where
  "kb_rmv_ghost_key pressed_matrix = ghost_rows pressed_matrix 0"

text \<open>One row after the other: the filtered row, the new \<^verbatim>\<open>mtrx_pre\<close> and whether a row changed.\<close>

fun debounce_rows :: "bool \<Rightarrow> u32 list \<Rightarrow> u32 list \<Rightarrow> u32 list \<Rightarrow> (u32 list \<times> bool) option" where
  "debounce_rows filt_en [] [] [] = Some ([], False)"
| "debounce_rows filt_en (tmp # cur) (pre # pres) (lst # lasts) =
     (let c = (if filt_en then (NOT lst AND (pre AND tmp)) OR (lst AND (pre OR tmp)) else tmp)
      in do { (cs, kc) \<leftarrow> debounce_rows filt_en cur pres lasts; Some (c # cs, c \<noteq> lst \<or> kc) })"
| "debounce_rows filt_en _ _ _ = None"

definition key_debounce_filter :: "u32 list \<Rightarrow> bool \<Rightarrow> kb_state \<Rightarrow> (u32 list \<times> bool \<times> kb_state) option" where
  "key_debounce_filter mtrx_cur filt_en s =
     do { (c, kc) \<leftarrow> debounce_rows filt_en mtrx_cur (mtrx_pre s) (mtrx_last s);
          Some (c, kc, s\<lparr>mtrx_pre := mtrx_cur, mtrx_last := c\<rparr>) }"

section \<open>Key codes\<close>

definition kb_map_at :: "kb_map \<Rightarrow> nat \<Rightarrow> nat \<Rightarrow> u8 option" where
  "kb_map_at mp i d = (if i < length mp \<and> d < length (mp ! i) then Some (mp ! i ! d) else None)"

definition kd_put :: "u8 \<Rightarrow> kb_data_t \<Rightarrow> kb_data_t option" where
  "kd_put kc d =
     (if unat (kd_cnt d) < length (keycode d)
      then Some (d\<lparr>keycode := (keycode d)[unat (kd_cnt d) := kc], kd_cnt := kd_cnt d + 1\<rparr>) else None)"

definition kb_put_key :: "kb_cfg \<Rightarrow> u8 \<Rightarrow> kb_data_t \<Rightarrow> kb_data_t option" where
  "kb_put_key cfg kc d =
     (if KB_HAS_CTRL_KEYS cfg
      then if kc \<ge> VK_CTRL \<and> kc \<le> VK_RWIN then Some (d\<lparr>ctrl_key := ctrl_key d OR push_bit (unat (kc - VK_CTRL)) 1\<rparr>)
           else if VK_ZOOM_IN = kc \<or> VK_ZOOM_OUT = kc
           then kd_put (if VK_ZOOM_IN = kc then VK_EQUAL else VK_MINUS) (d\<lparr>ctrl_key := ctrl_key d OR VK_MSK_LCTRL\<rparr>)
           else if kc \<noteq> VK_FN then kd_put kc d
           else Some d
      else kd_put kc d)"

fun kb_remap_key_row :: "kb_cfg \<Rightarrow> kb_map \<Rightarrow> nat \<Rightarrow> nat \<Rightarrow> nat list \<Rightarrow> u32 \<Rightarrow> kb_data_t \<Rightarrow> kb_data_t option" where
  "kb_remap_key_row cfg mp drv_ind key_max [] m d = Some d"
| "kb_remap_key_row cfg mp drv_ind key_max (i # is) m d =
     do { d1 \<leftarrow> (if m AND 1 \<noteq> 0 then do { kc \<leftarrow> kb_map_at mp i drv_ind; kb_put_key cfg kc d } else Some d);
          if m AND 1 \<noteq> 0 \<and> unat (kd_cnt d1) \<ge> key_max then Some d1
          else if drop_bit 1 m = 0 then Some d1
          else kb_remap_key_row cfg mp drv_ind key_max is (drop_bit 1 m) d1 }"

fun kb_remap_rows :: "kb_cfg \<Rightarrow> kb_map \<Rightarrow> nat \<Rightarrow> nat \<Rightarrow> u32 list \<Rightarrow> kb_data_t \<Rightarrow> kb_data_t option" where
  "kb_remap_rows cfg mp key_max i [] d = Some d"
| "kb_remap_rows cfg mp key_max i (m # ms) d =
     (if m = 0 then kb_remap_rows cfg mp key_max (i + 1) ms d
      else do { d1 \<leftarrow> kb_remap_key_row cfg mp i key_max [0..<length (scan_pins cfg)] m d;
                if unat (kd_cnt d1) \<ge> key_max then Some d1 else kb_remap_rows cfg mp key_max (i + 1) ms d1 })"

definition kb_select_map :: "kb_cfg \<Rightarrow> u32 \<Rightarrow> bool \<Rightarrow> kb_map option" where
  "kb_select_map cfg numlock_status fn =
     (if KB_STANDARD_KEYBOARD cfg
      then let i = unat (numlock_status AND 1) + (if fn then 2 else 0)
           in if i < length (kb_p_map cfg) then Some (kb_p_map cfg ! i) else None
      else Some (kb_map_normal cfg))"

definition kb_remap_key_code :: "kb_cfg \<Rightarrow> u32 list \<Rightarrow> nat \<Rightarrow> u32 \<Rightarrow> kb_state \<Rightarrow> kb_state option" where
  "kb_remap_key_code cfg pressed_matrix key_max numlock_status s =
     do { mp \<leftarrow> kb_select_map cfg numlock_status (kb_is_fn_pressed s);
          d \<leftarrow> kb_remap_rows cfg mp key_max 0 pressed_matrix (kb_event s);
          Some (s\<lparr>kb_k_mp := mp, kb_event := d\<rparr>) }"

section \<open>Scanning\<close>

definition gpio_read_cache :: "u32 \<Rightarrow> bytes \<Rightarrow> bool option" where
  "gpio_read_cache pin p = map_option (\<lambda>b. ucast b AND (pin AND 0xff) \<noteq> 0) (rd8 p (unat (drop_bit 8 pin)))"

text \<open>A scan line is active when \<^verbatim>\<open>KB_LINE_HIGH_VALID\<close> differs from the negated level.\<close>

definition line_active :: "kb_cfg \<Rightarrow> u32 \<Rightarrow> bytes \<Rightarrow> bool option" where
  "line_active cfg pin p = map_option (\<lambda>v. KB_LINE_HIGH_VALID cfg \<noteq> (\<not> v)) (gpio_read_cache pin p)"

fun kb_scan_lines ::
    "kb_cfg \<Rightarrow> kb_map \<Rightarrow> u32 \<Rightarrow> nat \<Rightarrow> bytes \<Rightarrow> nat \<Rightarrow> u32 list \<Rightarrow> u32 \<Rightarrow> bool \<Rightarrow> (u32 \<times> bool) option" where
  "kb_scan_lines cfg mp need drv_ind gpio j [] matrix fn = Some (matrix, fn)"
| "kb_scan_lines cfg mp need drv_ind gpio j (pin # pins) matrix fn =
     (if need AND push_bit j 1 \<noteq> 0
      then do { a \<leftarrow> line_active cfg pin gpio;
                if a
                then do { f \<leftarrow> (if KB_HAS_FN_KEY cfg
                               then map_option (\<lambda>kc. kc = VK_FN \<or> fn) (kb_map_at mp j drv_ind) else Some fn);
                          kb_scan_lines cfg mp need drv_ind gpio (j + 1) pins (matrix OR push_bit j 1) f }
                else kb_scan_lines cfg mp need drv_ind gpio (j + 1) pins matrix fn }
      else kb_scan_lines cfg mp need drv_ind gpio (j + 1) pins matrix fn)"

text \<open>The row is driven, the matrix is taken from the previous reading, and then the lines are read.\<close>

definition kb_scan_row ::
    "kb_cfg \<Rightarrow> (nat list \<Rightarrow> bytes) \<Rightarrow> nat \<Rightarrow> bytes \<Rightarrow> kb_state \<Rightarrow> (u32 \<times> bytes \<times> kb_state) option" where
  "kb_scan_row cfg hw drv_ind gpio s =
     (if drv_ind < drive_num cfg
      then do { (m, fn) \<leftarrow> kb_scan_lines cfg (kb_k_mp s) (scan_pin_need s) drv_ind gpio 0 (scan_pins cfg) 0 (kb_is_fn_pressed s);
                Some (m, hw [drv_ind], s\<lparr>kb_is_fn_pressed := fn\<rparr>) }
      else None)"

fun kb_scan_rows ::
    "kb_cfg \<Rightarrow> (nat list \<Rightarrow> bytes) \<Rightarrow> nat list \<Rightarrow> u32 list \<Rightarrow> bytes \<Rightarrow> kb_state \<Rightarrow> (u32 list \<times> bytes \<times> kb_state) option" where
  "kb_scan_rows cfg hw [] pressed gpio s = Some (pressed, gpio, s)"
| "kb_scan_rows cfg hw (i # is) pressed gpio s =
     do { (r, gpio1, s1) \<leftarrow> kb_scan_row cfg hw (if i < drive_num cfg then i else 0) gpio s;
          pressed1 \<leftarrow> (if i \<noteq> 0 then arr_put (i - 1) r pressed else Some pressed);
          kb_scan_rows cfg hw is pressed1 gpio1 s1 }"

fun pressed_lines :: "kb_cfg \<Rightarrow> bytes \<Rightarrow> nat \<Rightarrow> u32 list \<Rightarrow> u32 \<Rightarrow> u8 \<times> u32 \<Rightarrow> (u32 \<times> u8 \<times> u32) option" where
  "pressed_lines cfg gpio i [] ret c = Some (ret, c)"
| "pressed_lines cfg gpio i (pin # pins) ret c =
     do { a \<leftarrow> line_active cfg pin gpio;
          if a then let r = ret OR push_bit i 1 in pressed_lines cfg gpio (i + 1) pins r (6, r)
          else pressed_lines cfg gpio (i + 1) pins ret c }"

definition kb_key_pressed :: "kb_cfg \<Rightarrow> (nat list \<Rightarrow> bytes) \<Rightarrow> kb_state \<Rightarrow> (u32 \<times> bytes \<times> kb_state) option" where
  "kb_key_pressed cfg hw s =
     (let gpio = hw [0..<drive_num cfg] in
      do { (ret, c, l) \<leftarrow> pressed_lines cfg gpio 0 (scan_pins cfg) 0 (release_cnt s, ret_last s);
           Some (if c \<noteq> 0 then (l, gpio, s\<lparr>release_cnt := c - 1, ret_last := l\<rparr>)
                 else (ret, gpio, s\<lparr>release_cnt := c, ret_last := l\<rparr>)) })"

section \<open>The matrix buffer and the scan\<close>

definition matrix_push :: "u32 list \<Rightarrow> kb_state \<Rightarrow> kb_state option" where
  "matrix_push pressed s =
     (let w = (matrix_wptr s + 1) AND 7 in
      do { b \<leftarrow> arr_put (nat (matrix_wptr s AND 3)) pressed (matrix_buff s);
           Some (s\<lparr>matrix_buff := b, matrix_wptr := w,
                   matrix_rptr := (if (w - matrix_rptr s) AND 7 > 4 then (w - 4) AND 7 else matrix_rptr s)\<rparr>) })"

definition kb_repeat_tick :: "kb_cfg \<Rightarrow> u32 \<Rightarrow> bool \<Rightarrow> kb_state \<Rightarrow> bool \<times> kb_state" where
  "kb_repeat_tick cfg now key_changed s =
     (let r = repeat_key s in
      if key_changed then (True, s\<lparr>repeat_key := r\<lparr>key_change_flg := KEY_CHANGE, key_change_tick := now\<rparr>\<rparr>)
      else let r1 = (if key_change_flg r = KEY_CHANGE then r\<lparr>key_change_flg := KEY_SAME\<rparr> else r) in
           if key_change_flg r1 = KEY_SAME \<and> key_repeat_flg r1 \<noteq> 0
              \<and> clock_time_exceed now (key_change_tick r1) ((KB_REPEAT_KEY_INTERVAL_MS cfg - 5) * 1000)
           then (True, s\<lparr>repeat_key := r1\<lparr>key_change_tick := now\<rparr>\<rparr>)
           else (False, s\<lparr>repeat_key := r1\<rparr>))"

definition kb_repeat_mark :: "kb_cfg \<Rightarrow> kb_state \<Rightarrow> kb_state option" where
  "kb_repeat_mark cfg s =
     (if key_change_flg (repeat_key s) = KEY_CHANGE
      then if kd_cnt (kb_event s) = 1
           then do { k \<leftarrow> rd8 (keycode (kb_event s)) 0;
                     Some (s\<lparr>repeat_key := (repeat_key s)\<lparr>key_repeat_flg := (if k \<in> set (kb_map_repeat cfg) then 1 else 0)\<rparr>\<rparr>) }
           else Some (s\<lparr>repeat_key := (repeat_key s)\<lparr>key_repeat_flg := 0\<rparr>\<rparr>)
      else Some s)"

text \<open>The read-out of the buffer with the mapping to key codes.\<close>

definition kb_read_out :: "kb_cfg \<Rightarrow> u32 \<Rightarrow> bool \<Rightarrow> kb_state \<Rightarrow> (bool \<times> kb_state) option" where
  "kb_read_out cfg numlock_status read_key s =
     (if bit numlock_status KB_NUMLOCK_STATUS_INVALID then Some (True, s)
      else if matrix_wptr s = matrix_rptr s \<or> \<not> read_key then Some (False, s)
      else do { pd \<leftarrow> arr_get (nat (matrix_rptr s AND 3)) (matrix_buff s);
                s1 \<leftarrow> kb_remap_key_code cfg pd KB_RETURN_KEY_MAX numlock_status
                        (s\<lparr>matrix_rptr := (matrix_rptr s + 1) AND 7\<rparr>);
                s2 \<leftarrow> (if KB_REPEAT_KEY_ENABLE cfg then kb_repeat_mark cfg s1 else Some s1);
                Some (True, s2) })"

definition kb_scan_matrix ::
    "kb_cfg \<Rightarrow> (nat list \<Rightarrow> bytes) \<Rightarrow> bytes \<Rightarrow> kb_state \<Rightarrow> (u32 list \<times> kb_state) option" where
  "kb_scan_matrix cfg hw gpio s =
     do { mp \<leftarrow> (if KB_STANDARD_KEYBOARD cfg then (case kb_p_map cfg of [] \<Rightarrow> None | m # _ \<Rightarrow> Some m) else Some (kb_map_normal cfg));
          (_, g, s1) \<leftarrow> kb_scan_row cfg hw 0 gpio (s\<lparr>kb_k_mp := mp\<rparr>);
          (p, _, s2) \<leftarrow> kb_scan_rows cfg hw [0..<drive_num cfg + 1] (replicate (drive_num cfg) 0) g s1;
          Some (p, s2) }"

definition kb_scan_key_value ::
    "kb_cfg \<Rightarrow> (nat list \<Rightarrow> bytes) \<Rightarrow> u32 \<Rightarrow> u32 \<Rightarrow> bool \<Rightarrow> bytes \<Rightarrow> kb_state \<Rightarrow> (bool \<times> kb_state) option" where
  "kb_scan_key_value cfg hw now numlock_status read_key gpio s =
     (let s0 = s\<lparr>kb_event := (kb_event s)\<lparr>kd_cnt := 0, ctrl_key := 0\<rparr>, kb_is_fn_pressed := False\<rparr> in
      do { (p, s1) \<leftarrow> kb_scan_matrix cfg hw gpio s0;
           (p1, changed, s2) \<leftarrow> key_debounce_filter (if KB_RM_GHOST_KEY_EN cfg then kb_rmv_ghost_key p else p)
                                   (\<not> bit numlock_status KB_NUMLOCK_STATUS_POWERON) s1;
           let (changed1, s3) = (if KB_REPEAT_KEY_ENABLE cfg then kb_repeat_tick cfg now changed s2 else (changed, s2));
           s4 \<leftarrow> (if changed1 then matrix_push p1 s3 else Some s3);
           kb_read_out cfg numlock_status read_key s4 })"

definition kb_scan_key ::
    "kb_cfg \<Rightarrow> (nat list \<Rightarrow> bytes) \<Rightarrow> u32 \<Rightarrow> u32 \<Rightarrow> bool \<Rightarrow> kb_state \<Rightarrow> (bool \<times> kb_state) option" where
  "kb_scan_key cfg hw now numlock_status read_key s =
     do { (need, gpio, s1) \<leftarrow> kb_key_pressed cfg hw s;
          let s2 = s1\<lparr>scan_pin_need := need\<rparr>;
          if need \<noteq> 0 then kb_scan_key_value cfg hw now numlock_status read_key gpio s2
          else Some (False, if KB_REPEAT_KEY_ENABLE cfg then s2\<lparr>repeat_key := (repeat_key s2)\<lparr>key_change_flg := KEY_NONE\<rparr>\<rparr> else s2) }"

definition kb_is_key_valid :: "kb_data_t \<Rightarrow> bool" where
  "kb_is_key_valid p = (kd_cnt p \<noteq> 0 \<or> ctrl_key p \<noteq> 0)"

definition kb_set_key_invalid :: "kb_data_t \<Rightarrow> kb_data_t" where
  "kb_set_key_invalid p = p\<lparr>kd_cnt := 0, ctrl_key := 0\<rparr>"

definition kb_zero :: kb_state where
  "kb_zero = \<lparr>kb_event = \<lparr>kd_cnt = 0, ctrl_key = 0, keycode = replicate 6 0\<rparr>, kb_is_fn_pressed = False, kb_k_mp = [], scan_pin_need = 0,
     mtrx_pre = [], mtrx_last = [], matrix_buff = replicate 4 [], matrix_wptr = 0, matrix_rptr = 0, release_cnt = 0, ret_last = 0,
     repeat_key = \<lparr>key_change_flg = 0, key_repeat_flg = 0, key_change_tick = -1\<rparr>\<rparr>"

section \<open>Ghost keys\<close>

definition ghosts :: "u32 \<Rightarrow> u32 \<Rightarrow> bool" where
  "ghosts a b \<longleftrightarrow> a AND b \<noteq> 0 \<and> (\<not> BIT_IS_POW2 (a AND b) \<or> a \<noteq> b)"

lemma xor_zero_iff: "(a :: u32) XOR b = 0 \<longleftrightarrow> a = b"
  by (auto simp: bit_eq_iff bit_simps)

lemma ghost_mix_eq: "ghost_mix a b mf = (if ghosts a b then mf OR (a AND b) else mf)"
  by (simp add: ghost_mix_def ghosts_def Let_def xor_zero_iff)

lemma bit_fold_ghost:
  "bit (fold (ghost_mix x) xs mf) k \<longleftrightarrow> bit mf k \<or> (\<exists>y \<in> set xs. ghosts x y \<and> bit (x AND y) k)"
  by (induction xs arbitrary: mf) (auto simp: ghost_mix_eq bit_simps)

lemma length_ghost_rows [simp]: "length (ghost_rows xs mf) = length xs"
  by (induction xs arbitrary: mf) (simp_all add: Let_def)

lemma bit_ghost_rows:
  "i < length xs \<Longrightarrow> bit (ghost_rows xs mf ! i) k \<longleftrightarrow>
     bit (xs ! i) k \<and> \<not> bit mf k \<and> \<not> (\<exists>a \<le> i. \<exists>b < length xs. a < b \<and> ghosts (xs ! a) (xs ! b) \<and> bit (xs ! a AND xs ! b) k)"
proof (induction xs arbitrary: mf i)
  case (Cons x xs)
  have ex: "(\<exists>y \<in> set xs. P y) \<longleftrightarrow> (\<exists>b < length xs. P (xs ! b))" for P by (metis in_set_conv_nth)
  show ?case
  proof (cases i)
    case 0
    have p: "(\<exists>b < length (x # xs). 0 < b \<and> P ((x # xs) ! b)) \<longleftrightarrow> (\<exists>b < length xs. P (xs ! b))" for P
      by (metis Suc_less_eq length_Cons not0_implies_Suc nth_Cons_Suc zero_less_Suc less_numeral_extra(3))
    have "bit x k \<Longrightarrow> k < 32" using bit_imp_le_length [of x k] by simp
    then show ?thesis using 0 p [of "\<lambda>y. ghosts x y \<and> bit (x AND y) k"] by (auto simp: Let_def bit_and_iff bit_not_iff bit_fold_ghost ex)
  next
    case (Suc j)
    then have j: "j < length xs" using Cons.prems by simp
    have q: "(\<exists>a \<le> Suc j. \<exists>b < Suc (length xs). a < b \<and> Q ((x # xs) ! a) ((x # xs) ! b)) \<longleftrightarrow>
        (\<exists>b < length xs. Q x (xs ! b)) \<or> (\<exists>a \<le> j. \<exists>b < length xs. a < b \<and> Q (xs ! a) (xs ! b))" for Q
    proof -
      have "(\<exists>a \<le> Suc j. R a) \<longleftrightarrow> R 0 \<or> (\<exists>a \<le> j. R (Suc a))" for R
        by (metis Suc_le_mono bot_nat_0.extremum not0_implies_Suc)
      moreover have "(\<exists>b < Suc (length xs). R b) \<longleftrightarrow> R 0 \<or> (\<exists>b < length xs. R (Suc b))" for R
        by (metis Suc_less_eq not0_implies_Suc zero_less_Suc)
      ultimately show ?thesis by simp
    qed
    show ?thesis unfolding Suc list.size(4) One_nat_def add_Suc_right add_0_right
        q [of "\<lambda>y z. ghosts y z \<and> bit (y AND z) k"]
      using Cons.IH [OF j, of "fold (ghost_mix x) xs mf"] by (simp add: Let_def bit_fold_ghost ex)
  qed
qed simp

lemma ghost_rows_sensed: "i < length m \<Longrightarrow> ghost_rows m 0 ! i AND m ! i = ghost_rows m 0 ! i"
  by (rule bit_word_eqI) (auto simp: bit_simps bit_ghost_rows)

lemma ghost_rows_share:
  assumes "i < j" "j < length m"
  shows "ghost_rows m 0 ! i AND ghost_rows m 0 ! j = 0 \<or> m ! i = m ! j \<and> BIT_IS_POW2 (m ! i AND m ! j)"
proof -
  let ?r = "ghost_rows m 0"
  have i: "i < length m" using assms by simp
  have rect: "?r ! i AND ?r ! j = 0" if "ghosts (m ! i) (m ! j)"
    by (rule bit_word_eqI) (use assms i that in \<open>auto simp: bit_simps bit_ghost_rows\<close>)
  have "?r ! i AND ?r ! j = 0" if "m ! i AND m ! j = 0"
  proof (rule bit_word_eqI)
    fix k
    have "\<not> bit (m ! i AND m ! j) k" using that by simp
    then show "bit (?r ! i AND ?r ! j) k = bit 0 k" using assms i by (auto simp: bit_simps bit_ghost_rows)
  qed
  then show ?thesis using rect by (auto simp: ghosts_def)
qed

lemma ghost_rows_disjoint:
  assumes "\<forall>k < length m. \<forall>l < length m. k \<noteq> l \<longrightarrow> m ! k AND m ! l = 0" "i < length m"
  shows "ghost_rows m 0 ! i = m ! i"
proof (rule bit_word_eqI)
  fix k
  have "\<not> ghosts (m ! a) (m ! b)" if "a < b" "b < length m" for a b
    using assms(1) that by (simp add: ghosts_def)
  then show "bit (ghost_rows m 0 ! i) k = bit (m ! i) k" using assms(2) by (auto simp: bit_ghost_rows)
qed

text \<open>
  C16.  Ghost removal.  After \<^verbatim>\<open>kb_rmv_ghost_key\<close> every row, the last one included, reports only keys that
  were sensed, and two rows that still share a column are equal single-key rows: three or four keys in a
  rectangle never survive together.  When no two rows share a column, nothing is removed.
\<close>

theorem ghost_keys_removed:
  "let r = kb_rmv_ghost_key m in length r = length m
     \<and> (\<forall>i < length m. r ! i AND m ! i = r ! i)
     \<and> (\<forall>i < length m. \<forall>j < length m. i \<noteq> j \<longrightarrow> r ! i AND r ! j = 0 \<or> m ! i = m ! j \<and> BIT_IS_POW2 (m ! i AND m ! j))
     \<and> ((\<forall>i < length m. \<forall>j < length m. i \<noteq> j \<longrightarrow> m ! i AND m ! j = 0) \<longrightarrow> r = m)"
proof -
  have share: "ghost_rows m 0 ! i AND ghost_rows m 0 ! j = 0 \<or> m ! i = m ! j \<and> BIT_IS_POW2 (m ! i AND m ! j)"
    if "i < length m" "j < length m" "i \<noteq> j" for i j
  proof (cases "i < j")
    case True
    then show ?thesis using ghost_rows_share [OF True that(2)] by blast
  next
    case False
    then show ?thesis using ghost_rows_share [of j i m] that by (auto simp: and.commute)
  qed
  have keep: "ghost_rows m 0 = m" if "\<forall>i < length m. \<forall>j < length m. i \<noteq> j \<longrightarrow> m ! i AND m ! j = 0"
    by (rule nth_equalityI) (use ghost_rows_disjoint [OF that] in auto)
  show ?thesis unfolding Let_def kb_rmv_ghost_key_def using ghost_rows_sensed share keep by simp
qed

theorem ghost_keys_removed_witness:
  "kb_rmv_ghost_key [3, 3, 4] ! 0 AND kb_rmv_ghost_key [3, 3, 4] ! 1 = 0 \<and> kb_rmv_ghost_key [3, 3, 4] ! 2 AND 4 = kb_rmv_ghost_key [3, 3, 4] ! 2
   \<and> kb_rmv_ghost_key [1, 2, 4] = [1, 2, 4]"
proof -
  have all: "(\<forall>i < Suc (Suc (Suc 0)). P i) \<longleftrightarrow> P 0 \<and> P (Suc 0) \<and> P (Suc (Suc 0))" for P
    by (simp add: less_Suc_eq) blast
  have "\<not> BIT_IS_POW2 3" by (simp add: BIT_IS_POW2_def)
  then show ?thesis using ghost_keys_removed [of "[3, 3, 4]"] ghost_keys_removed [of "[1, 2, 4]"]
    by (simp add: Let_def all numeral_2_eq_2)
qed

section \<open>Debouncing\<close>

lemma debounce_rows_ok:
  assumes "length pre = length cur" "length lst = length cur"
  shows "\<exists>c. debounce_rows f cur pre lst = Some (c, c \<noteq> lst) \<and> length c = length cur
     \<and> (\<forall>i < length cur. c ! i = (if f then (NOT (lst ! i) AND (pre ! i AND cur ! i)) OR (lst ! i AND (pre ! i OR cur ! i)) else cur ! i))"
  using assms
proof (induction f cur pre lst rule: debounce_rows.induct)
  case (2 f t cur p pres l lasts)
  then obtain cs where "debounce_rows f cur pres lasts = Some (cs, cs \<noteq> lasts)" "length cs = length cur"
      "\<forall>i < length cur. cs ! i = (if f then (NOT (lasts ! i) AND (pres ! i AND cur ! i)) OR (lasts ! i AND (pres ! i OR cur ! i)) else cur ! i)"
    by auto
  then show ?case by (auto simp: Let_def nth_Cons split: nat.splits)
qed auto

text \<open>
  C17.  The debounce filter is a bitwise majority vote: a key of the filtered matrix is the majority of the last
  filtered value, the previous sample and the current sample, so it changes exactly when two successive
  samples agree against it.  The change flag tells whether the filtered matrix differs from the last one.
\<close>

theorem debounce_is_majority:
  assumes "length (mtrx_pre s) = length cur" "length (mtrx_last s) = length cur"
  shows "\<exists>c changed s'. key_debounce_filter cur True s = Some (c, changed, s')
     \<and> length c = length cur \<and> (changed \<longleftrightarrow> c \<noteq> mtrx_last s) \<and> mtrx_pre s' = cur \<and> mtrx_last s' = c
     \<and> (\<forall>i < length cur. \<forall>k < 32. bit (c ! i) k =
          (if bit (cur ! i) k = bit (mtrx_pre s ! i) k then bit (cur ! i) k else bit (mtrx_last s ! i) k))"
proof -
  obtain c where "debounce_rows True cur (mtrx_pre s) (mtrx_last s) = Some (c, c \<noteq> mtrx_last s)" "length c = length cur"
      "\<forall>i < length cur. c ! i = (NOT (mtrx_last s ! i) AND (mtrx_pre s ! i AND cur ! i)) OR (mtrx_last s ! i AND (mtrx_pre s ! i OR cur ! i))"
    using debounce_rows_ok [OF assms, of True] by auto
  then show ?thesis by (auto simp: key_debounce_filter_def bit_simps)
qed

theorem debounce_is_majority_witness:
  "\<exists>c changed s'. key_debounce_filter [1] True (kb_zero\<lparr>mtrx_pre := [1], mtrx_last := [0]\<rparr>) = Some (c, changed, s') \<and> changed \<and> bit (c ! 0) 0"
proof -
  obtain c changed s' where c: "key_debounce_filter [1] True (kb_zero\<lparr>mtrx_pre := [1], mtrx_last := [0]\<rparr>) = Some (c, changed, s')"
      "changed \<longleftrightarrow> c \<noteq> [0]" "bit (c ! 0) 0"
    using debounce_is_majority [of "kb_zero\<lparr>mtrx_pre := [1], mtrx_last := [0]\<rparr>" "[1]"] by fastforce
  then show ?thesis by (metis bit_0_eq bot_apply bot_bool_def nth_Cons_0)
qed

section \<open>The matrix buffer\<close>

definition kb_buf_ok :: "kb_state \<Rightarrow> bool" where
  "kb_buf_ok s \<longleftrightarrow> length (matrix_buff s) = 4 \<and> 0 \<le> matrix_wptr s \<and> matrix_wptr s < 8 \<and> 0 \<le> matrix_rptr s \<and> matrix_rptr s < 8
     \<and> (matrix_wptr s - matrix_rptr s) AND 7 \<le> 4"

definition matrix_queue :: "kb_state \<Rightarrow> u32 list list" where
  "matrix_queue s = map (\<lambda>k. matrix_buff s ! nat ((matrix_rptr s + int k) AND 3)) [0..<nat ((matrix_wptr s - matrix_rptr s) AND 7)]"

lemma and_7: "(x :: int) AND 7 = x mod 8" and and_3: "(x :: int) AND 3 = x mod 4"
  using take_bit_eq_mask [of 3 x] take_bit_eq_mask [of 2 x] by (simp_all add: mask_eq_exp_minus_1 take_bit_eq_mod)

lemma int_below_8: "0 \<le> w \<Longrightarrow> w < 8 \<Longrightarrow> w = 0 \<or> w = 1 \<or> w = 2 \<or> w = 3 \<or> w = 4 \<or> w = 5 \<or> w = 6 \<or> w = (7 :: int)"
  by arith

lemma ring_8:
  fixes w r :: int
  assumes "0 \<le> w" "w < 8" "0 \<le> r" "r < 8"
  shows "(w - r) mod 8 \<le> 4 \<Longrightarrow> ((w + 1) mod 8 - r) mod 8 = (w - r) mod 8 + 1"
    and "w \<noteq> r \<Longrightarrow> (w - (r + 1) mod 8) mod 8 = (w - r) mod 8 - 1"
    and "(w - r) mod 8 = 4 \<Longrightarrow> ((w + 1) mod 8 - 4) mod 8 = (r + 1) mod 8"
    and "(w - r) mod 8 = 0 \<longleftrightarrow> w = r"
  using int_below_8 [OF assms(1,2)] int_below_8 [OF assms(3,4)] by (elim disjE; simp)+

lemma ring_8_succ: "((w + 1) mod 8 - (r + 1) mod 8) mod 8 = (w - r) mod (8 :: int)"
  by (simp add: mod_simps)

lemma mod_8_4: "(a mod 8 + b) mod 4 = (a + b) mod (4 :: int)" and mod_8_4': "(b + a mod 8) mod 4 = (b + a) mod (4 :: int)"
proof -
  have "(a mod 8) mod 4 = a mod 4" by (rule mod_mod_cancel) simp
  then show "(a mod 8 + b) mod 4 = (a + b) mod 4" by (metis mod_add_left_eq)
  then show "(b + a mod 8) mod 4 = (b + a) mod 4" by (simp add: add.commute)
qed

lemma matrix_queue_nth:
  assumes "kb_buf_ok s"
  shows "length (matrix_queue s) = nat ((matrix_wptr s - matrix_rptr s) mod 8)"
    and "k < length (matrix_queue s) \<Longrightarrow> matrix_queue s ! k = matrix_buff s ! nat ((matrix_rptr s + int k) mod 4)"
  by (simp_all add: matrix_queue_def and_7 and_3)

lemma matrix_queue_eqI:
  assumes "kb_buf_ok s" "length q = nat ((matrix_wptr s - matrix_rptr s) mod 8)"
    and "\<And>k. k < length q \<Longrightarrow> matrix_buff s ! nat ((matrix_rptr s + int k) mod 4) = q ! k"
  shows "matrix_queue s = q"
  by (rule nth_equalityI) (use assms matrix_queue_nth [OF assms(1)] in auto)

lemma matrix_push_queue:
  assumes "kb_buf_ok s"
  shows "\<exists>s1. matrix_push p s = Some s1 \<and> kb_buf_ok s1 \<and> matrix_queue s1 = (let q = matrix_queue s @ [p] in drop (length q - 4) q)"
proof -
  define w where "w = matrix_wptr s"
  define r where "r = matrix_rptr s"
  define n where "n = (w - r) mod 8"
  let ?q = "matrix_queue s"
  have b: "length (matrix_buff s) = 4" "0 \<le> w" "w < 8" "0 \<le> r" "r < 8" "n \<le> 4"
    using assms by (simp_all add: kb_buf_ok_def and_7 w_def r_def n_def)
  have q: "length ?q = nat n" "k < nat n \<Longrightarrow> ?q ! k = matrix_buff s ! nat ((r + int k) mod 4)" for k
    using matrix_queue_nth [OF assms] by (simp_all add: w_def r_def n_def)
  have over: "4 < ((w + 1) mod 8 - r) mod 8 \<longleftrightarrow> n = 4" using ring_8(1) [OF b(2-5)] b(6) by (simp add: n_def)
  let ?s = "s\<lparr>matrix_buff := (matrix_buff s)[nat (w mod 4) := p], matrix_wptr := (w + 1) mod 8,
      matrix_rptr := (if n = 4 then (r + 1) mod 8 else r)\<rparr>"
  have wr: "((w + 1) mod 8 - 4) mod 8 = (r + 1) mod 8" if "n = 4" using ring_8(3) [OF b(2-5)] that by (simp add: n_def)
  have push: "matrix_push p s = Some ?s"
    unfolding matrix_push_def Let_def and_7 and_3 w_def [symmetric] r_def [symmetric] over using wr b by (simp add: arr_put_def)
  have s: "matrix_wptr ?s = (w + 1) mod 8" "matrix_rptr ?s = (if n = 4 then (r + 1) mod 8 else r)"
      "matrix_buff ?s = (matrix_buff s)[nat (w mod 4) := p]"
    by simp_all
  have len: "(matrix_wptr ?s - matrix_rptr ?s) mod 8 = (if n = 4 then 4 else n + 1)"
    unfolding s using ring_8(1) [OF b(2-5)] b(6) by (simp add: ring_8_succ n_def)
  have ok: "kb_buf_ok ?s" using b len unfolding kb_buf_ok_def and_7 by (simp add: s)
  have 0: "0 \<le> n" by (simp add: n_def)
  have w4: "w mod 4 = (r + n) mod 4" unfolding n_def mod_8_4' by simp
  have "matrix_queue ?s = drop (length (?q @ [p]) - 4) (?q @ [p])"
  proof (rule matrix_queue_eqI [OF ok])
    show "length (drop (length (?q @ [p]) - 4) (?q @ [p])) = nat ((matrix_wptr ?s - matrix_rptr ?s) mod 8)"
      unfolding len using b q(1) 0 by (cases "n = 4") simp_all
  next
    fix k assume k: "k < length (drop (length (?q @ [p]) - 4) (?q @ [p]))"
    show "matrix_buff ?s ! nat ((matrix_rptr ?s + int k) mod 4) = drop (length (?q @ [p]) - 4) (?q @ [p]) ! k"
    proof (cases "n = 4")
      case True
      then have k4: "k < 4" using k q(1) by simp
      have w4: "w mod 4 = r mod 4" using True w4 by simp
      show ?thesis
      proof (cases "k = 3")
        case True
        have "((r + 1) mod 8 + 3) mod 4 = r mod 4" unfolding mod_8_4 by simp
        then show ?thesis unfolding s using True \<open>n = 4\<close> q(1) b w4 by (simp add: nth_append)
      next
        case False
        let ?i = "nat ((r + int (Suc k)) mod 4)"
        have i: "((r + 1) mod 8 + int k) mod 4 = (r + int (Suc k)) mod 4" unfolding mod_8_4 by (simp add: add.assoc)
        have "(r + int (Suc k)) mod 4 \<noteq> r mod 4" using k4 False by presburger
        then have ne: "nat (r mod 4) \<noteq> ?i" by (simp add: eq_nat_nat_iff)
        have "matrix_rptr ?s = (r + 1) mod 8" using s(2) \<open>n = 4\<close> by simp
        then have "matrix_buff ?s ! nat ((matrix_rptr ?s + int k) mod 4) = (matrix_buff s)[nat (r mod 4) := p] ! ?i"
          unfolding s(3) by (simp only: i) (simp only: w4)
        also have "\<dots> = matrix_buff s ! ?i" by (rule nth_list_update_neq [OF ne])
        also have "\<dots> = ?q ! Suc k" by (rule q(2) [symmetric]) (use k4 False \<open>n = 4\<close> in simp)
        finally show ?thesis using k4 False \<open>n = 4\<close> q(1) by (simp add: nth_append)
      qed
    next
      case False
      then have n: "n < 4" "nat n < 4" using b(6) 0 by auto
      show ?thesis
      proof (cases "k = nat n")
        case True
        then show ?thesis unfolding s using False n 0 q(1) b w4 by (simp add: nth_append)
      next
        case k': False
        then have "k < nat n" using k q(1) n by simp
        then have "int k < n" by simp
        then have "(r + int k) mod 4 \<noteq> (r + n) mod 4" using n(1) by presburger
        then have "nat ((r + n) mod 4) \<noteq> nat ((r + int k) mod 4)" by (simp add: eq_nat_nat_iff)
        then show ?thesis unfolding s using \<open>k < nat n\<close> False n q b w4 by (simp add: nth_append)
      qed
    qed
  qed
  then show ?thesis using ok push by (auto simp: Let_def)
qed

lemma matrix_pop_queue:
  assumes "kb_buf_ok s" "matrix_queue s = p # q"
  shows "matrix_wptr s \<noteq> matrix_rptr s \<and> arr_get (nat (matrix_rptr s AND 3)) (matrix_buff s) = Some p
     \<and> kb_buf_ok (s\<lparr>matrix_rptr := (matrix_rptr s + 1) AND 7\<rparr>) \<and> matrix_queue (s\<lparr>matrix_rptr := (matrix_rptr s + 1) AND 7\<rparr>) = q"
proof -
  define w where "w = matrix_wptr s"
  define r where "r = matrix_rptr s"
  let ?s = "s\<lparr>matrix_rptr := (matrix_rptr s + 1) AND 7\<rparr>"
  have b: "0 \<le> w" "w < 8" "0 \<le> r" "r < 8" "(w - r) mod 8 \<le> 4" using assms(1) by (simp_all add: kb_buf_ok_def and_7 w_def r_def)
  have l: "Suc (length q) = nat ((w - r) mod 8)" using matrix_queue_nth(1) [OF assms(1)] assms(2) by (simp add: w_def r_def)
  have ne: "w \<noteq> r" using l by auto
  have n1: "(w - (r + 1) mod 8) mod 8 = (w - r) mod 8 - 1" using ring_8(2) b ne by blast
  have ok: "kb_buf_ok ?s" using assms(1) b n1 by (simp add: kb_buf_ok_def and_7 w_def [symmetric] r_def [symmetric])
  have "matrix_queue ?s = q"
  proof (rule matrix_queue_eqI [OF ok])
    show "length q = nat ((matrix_wptr ?s - matrix_rptr ?s) mod 8)" using l n1 by (simp add: and_7 w_def r_def)
  next
    fix k assume k: "k < length q"
    have "((r + 1) mod 8 + int k) mod 4 = (r + int (Suc k)) mod 4" unfolding mod_8_4 by (simp add: add.commute add.left_commute)
    then show "matrix_buff ?s ! nat ((matrix_rptr ?s + int k) mod 4) = q ! k"
      using matrix_queue_nth(2) [OF assms(1), of "Suc k"] assms(2) k by (simp add: and_7 r_def)
  qed
  moreover have "arr_get (nat (matrix_rptr s AND 3)) (matrix_buff s) = Some p"
    using matrix_queue_nth(2) [OF assms(1), of 0] assms by (simp add: and_3 arr_get_def kb_buf_ok_def)
  ultimately show ?thesis using ok ne by (simp add: w_def r_def)
qed

lemma matrix_queue_empty:
  assumes "kb_buf_ok s"
  shows "matrix_queue s = [] \<longleftrightarrow> matrix_wptr s = matrix_rptr s"
proof -
  have "matrix_queue s = [] \<longleftrightarrow> nat ((matrix_wptr s - matrix_rptr s) mod 8) = 0"
    unfolding matrix_queue_nth(1) [OF assms, symmetric] by simp
  also have "\<dots> \<longleftrightarrow> (matrix_wptr s - matrix_rptr s) mod 8 = 0"
    using pos_mod_sign [of 8 "matrix_wptr s - matrix_rptr s"] by linarith
  also have "\<dots> \<longleftrightarrow> matrix_wptr s = matrix_rptr s"
    by (rule ring_8(4)) (use assms in \<open>simp_all add: kb_buf_ok_def\<close>)
  finally show ?thesis .
qed

section \<open>Key codes\<close>

definition map_ok :: "kb_cfg \<Rightarrow> kb_map \<Rightarrow> bool" where
  "map_ok cfg mp \<longleftrightarrow> length (scan_pins cfg) \<le> length mp \<and> (\<forall>row \<in> set mp. drive_num cfg \<le> length row)"

lemma kb_map_at_ok: "map_ok cfg mp \<Longrightarrow> i < length (scan_pins cfg) \<Longrightarrow> d < drive_num cfg \<Longrightarrow> kb_map_at mp i d = Some (mp ! i ! d)"
proof -
  assume a: "map_ok cfg mp" "i < length (scan_pins cfg)" "d < drive_num cfg"
  then have "i < length mp" by (simp add: map_ok_def)
  moreover from this have "d < length (mp ! i)" using a by (meson map_ok_def nth_mem order_less_le_trans)
  ultimately show ?thesis by (simp add: kb_map_at_def)
qed

text \<open>The keys of one row, and of a matrix, in the order of the scan.\<close>

definition row_codes :: "kb_map \<Rightarrow> nat \<Rightarrow> nat list \<Rightarrow> u32 \<Rightarrow> bytes" where
  "row_codes mp drv is m = map (\<lambda>k. mp ! (is ! k) ! drv) (filter (bit m) [0..<length is])"

definition matrix_codes :: "kb_cfg \<Rightarrow> kb_map \<Rightarrow> u32 list \<Rightarrow> bytes" where
  "matrix_codes cfg mp ms = concat (map (\<lambda>d. row_codes mp d [0..<length (scan_pins cfg)] (ms ! d)) [0..<length ms])"

fun put_all :: "kb_cfg \<Rightarrow> nat \<Rightarrow> bytes \<Rightarrow> kb_data_t \<Rightarrow> kb_data_t option" where
  "put_all cfg key_max [] d = Some d"
| "put_all cfg key_max (kc # ks) d =
     do { d1 \<leftarrow> kb_put_key cfg kc d; if key_max \<le> unat (kd_cnt d1) then Some d1 else put_all cfg key_max ks d1 }"

lemma put_all_append:
  "unat (kd_cnt d) < K \<Longrightarrow> put_all cfg K (xs @ ys) d =
     do { d1 \<leftarrow> put_all cfg K xs d; if K \<le> unat (kd_cnt d1) then Some d1 else put_all cfg K ys d1 }"
  by (induction xs arbitrary: d) (auto split: Option.bind_splits)

lemma upt_0_Suc: "[0..<Suc n] = 0 # map Suc [0..<n]"
  by (simp add: upt_conv_Cons map_Suc_upt del: upt_Suc)

lemma row_codes_Cons:
  "row_codes mp drv (i # is) m = (if m AND 1 \<noteq> 0 then [mp ! i ! drv] else []) @ row_codes mp drv is (drop_bit 1 m)"
proof -
  have b: "bit m 0 \<longleftrightarrow> m AND 1 \<noteq> 0" by (simp add: bit_0 odd_iff_mod_2_eq_one and_one_eq)
  show ?thesis unfolding row_codes_def b [symmetric] length_Cons upt_0_Suc
    by (simp add: filter_map o_def bit_drop_bit_eq)
qed

lemma row_codes_0 [simp]: "row_codes mp drv is 0 = []"
  by (simp add: row_codes_def)

lemma kb_remap_key_row_eq:
  assumes "map_ok cfg mp" "\<forall>i \<in> set is. i < length (scan_pins cfg)" "drv < drive_num cfg" "unat (kd_cnt d) < K"
  shows "kb_remap_key_row cfg mp drv K is m d = put_all cfg K (row_codes mp drv is m) d"
  using assms(2,4)
proof (induction "is" arbitrary: m d)
  case Nil
  then show ?case by (simp add: row_codes_def)
next
  case (Cons i "is")
  have "kb_map_at mp i drv = Some (mp ! i ! drv)" using kb_map_at_ok [OF assms(1) _ assms(3)] Cons.prems(1) by simp
  then show ?case using Cons by (auto simp: row_codes_Cons not_le split: Option.bind_splits)
qed

lemma kb_remap_rows_eq:
  assumes "map_ok cfg mp" "i + length ms \<le> drive_num cfg" "unat (kd_cnt d) < K"
  shows "kb_remap_rows cfg mp K i ms d
     = put_all cfg K (concat (map (\<lambda>k. row_codes mp (i + k) [0..<length (scan_pins cfg)] (ms ! k)) [0..<length ms])) d"
  using assms(2,3)
proof (induction ms arbitrary: i d)
  case (Cons m ms)
  let ?r = "row_codes mp i [0..<length (scan_pins cfg)] m"
  let ?t = "concat (map (\<lambda>k. row_codes mp (i + 1 + k) [0..<length (scan_pins cfg)] (ms ! k)) [0..<length ms])"
  have c: "concat (map (\<lambda>k. row_codes mp (i + k) [0..<length (scan_pins cfg)] ((m # ms) ! k)) [0..<length (m # ms)]) = ?r @ ?t"
    unfolding length_Cons upt_0_Suc by (simp add: o_def)
  have row: "kb_remap_key_row cfg mp i K [0..<length (scan_pins cfg)] m d = put_all cfg K ?r d"
    by (rule kb_remap_key_row_eq [OF assms(1)]) (use Cons.prems in auto)
  show ?case unfolding c put_all_append [OF Cons.prems(2)]
    using Cons.IH [of "i + 1"] Cons.prems row by (auto simp: not_le split: Option.bind_splits)
qed simp

text \<open>What one key contributes: a key code, and a modifier bit.\<close>

definition normal_code :: "kb_cfg \<Rightarrow> u8 \<Rightarrow> bytes" where
  "normal_code cfg kc =
     (if \<not> KB_HAS_CTRL_KEYS cfg then [kc]
      else if kc \<ge> VK_CTRL \<and> kc \<le> VK_RWIN then []
      else if kc = VK_ZOOM_IN then [VK_EQUAL] else if kc = VK_ZOOM_OUT then [VK_MINUS]
      else if kc = VK_FN then [] else [kc])"

definition modifier_bit :: "kb_cfg \<Rightarrow> u8 \<Rightarrow> u8" where
  "modifier_bit cfg kc =
     (if \<not> KB_HAS_CTRL_KEYS cfg then 0
      else if kc \<ge> VK_CTRL \<and> kc \<le> VK_RWIN then push_bit (unat (kc - VK_CTRL)) 1
      else if kc = VK_ZOOM_IN \<or> kc = VK_ZOOM_OUT then VK_MSK_LCTRL else 0)"

definition kd_codes :: "kb_data_t \<Rightarrow> bytes" where
  "kd_codes d = take (unat (kd_cnt d)) (keycode d)"

lemma kb_put_key_ok:
  assumes "length (keycode d) = 6" "unat (kd_cnt d) < 6"
  shows "\<exists>d'. kb_put_key cfg kc d = Some d' \<and> length (keycode d') = 6 \<and> kd_codes d' = kd_codes d @ normal_code cfg kc
     \<and> ctrl_key d' = ctrl_key d OR modifier_bit cfg kc \<and> unat (kd_cnt d') = unat (kd_cnt d) + length (normal_code cfg kc)"
proof -
  have s: "unat (kd_cnt d + 1) = unat (kd_cnt d) + 1" using assms(2) by (simp add: unat_word_ariths)
  have p: "\<exists>d'. kd_put k (d\<lparr>ctrl_key := c\<rparr>) = Some d' \<and> length (keycode d') = 6 \<and> kd_codes d' = kd_codes d @ [k]
      \<and> ctrl_key d' = c \<and> unat (kd_cnt d') = unat (kd_cnt d) + 1" for k c
    using assms s by (auto simp: kd_put_def kd_codes_def take_Suc_conv_app_nth)
  have p': "\<exists>d'. kd_put k d = Some d' \<and> length (keycode d') = 6 \<and> kd_codes d' = kd_codes d @ [k]
      \<and> ctrl_key d' = ctrl_key d \<and> unat (kd_cnt d') = unat (kd_cnt d) + 1" for k
    using p [of k "ctrl_key d"] by simp
  consider "\<not> KB_HAS_CTRL_KEYS cfg" | "KB_HAS_CTRL_KEYS cfg" "kc \<ge> VK_CTRL \<and> kc \<le> VK_RWIN"
    | "KB_HAS_CTRL_KEYS cfg" "\<not> (kc \<ge> VK_CTRL \<and> kc \<le> VK_RWIN)" "kc = VK_ZOOM_IN"
    | "KB_HAS_CTRL_KEYS cfg" "\<not> (kc \<ge> VK_CTRL \<and> kc \<le> VK_RWIN)" "kc \<noteq> VK_ZOOM_IN" "kc = VK_ZOOM_OUT"
    | "KB_HAS_CTRL_KEYS cfg" "\<not> (kc \<ge> VK_CTRL \<and> kc \<le> VK_RWIN)" "kc \<noteq> VK_ZOOM_IN" "kc \<noteq> VK_ZOOM_OUT" by blast
  then show ?thesis
  proof cases
    case 1 then show ?thesis using p' [of kc] by (simp add: kb_put_key_def normal_code_def modifier_bit_def)
  next
    case 2 then show ?thesis using assms(1) by (simp add: kb_put_key_def normal_code_def modifier_bit_def kd_codes_def)
  next
    case 3 then show ?thesis using p [of VK_EQUAL "ctrl_key d OR VK_MSK_LCTRL"]
      by (simp add: kb_put_key_def normal_code_def modifier_bit_def VK_ZOOM_IN_def VK_ZOOM_OUT_def VK_CTRL_def VK_RWIN_def)
  next
    case 4 then show ?thesis using p [of VK_MINUS "ctrl_key d OR VK_MSK_LCTRL"]
      by (simp add: kb_put_key_def normal_code_def modifier_bit_def VK_ZOOM_IN_def VK_ZOOM_OUT_def VK_CTRL_def VK_RWIN_def)
  next
    case 5 then show ?thesis using p' [of kc] assms(1)
      by (cases "kc = VK_FN") (auto simp: kb_put_key_def normal_code_def modifier_bit_def)
  qed
qed

lemma length_normal_code: "length (normal_code cfg kc) \<le> 1"
  by (simp add: normal_code_def)

lemma put_all_ok:
  assumes "length (keycode d) = 6" "unat (kd_cnt d) < 6"
  shows "\<exists>d'. put_all cfg 6 ks d = Some d' \<and> length (keycode d') = 6 \<and> unat (kd_cnt d') \<le> 6
     \<and> kd_codes d' = take 6 (kd_codes d @ concat (map (normal_code cfg) ks))
     \<and> (unat (kd_cnt d') < 6 \<longrightarrow> ctrl_key d' = fold (\<lambda>k c. c OR modifier_bit cfg k) ks (ctrl_key d))"
  using assms
proof (induction ks arbitrary: d)
  case Nil
  then show ?case by (auto simp: kd_codes_def)
next
  case (Cons k ks)
  obtain d1 where d1: "kb_put_key cfg k d = Some d1" "length (keycode d1) = 6" "kd_codes d1 = kd_codes d @ normal_code cfg k"
      "ctrl_key d1 = ctrl_key d OR modifier_bit cfg k" "unat (kd_cnt d1) = unat (kd_cnt d) + length (normal_code cfg k)"
    using kb_put_key_ok [OF Cons.prems] by blast
  show ?case
  proof (cases "6 \<le> unat (kd_cnt d1)")
    case True
    then have "unat (kd_cnt d1) = 6" using d1(5) Cons.prems(2) length_normal_code [of cfg k] by linarith
    then have "length (kd_codes d1) = 6" using d1(2) by (simp add: kd_codes_def)
    then have "take 6 (kd_codes d @ concat (map (normal_code cfg) (k # ks))) = kd_codes d1" by (simp add: d1(3) [symmetric] flip: append_assoc)
    then show ?thesis using True d1 \<open>unat (kd_cnt d1) = 6\<close> by simp
  next
    case False
    then show ?thesis using Cons.IH [of d1] d1 by (simp flip: append_assoc)
  qed
qed

text \<open>
  The report made from a key matrix holds the codes of the first six pressed ordinary keys in scan order,
  whatever the matrix is, and never more; as long as there are fewer than six, the modifier byte is the union of all
  pressed modifier keys.  The report buffer is never overrun.
\<close>

theorem kb_report_holds_first_six:
  assumes "map_ok cfg mp" "length ms \<le> drive_num cfg" "length (keycode d) = KB_RETURN_KEY_MAX" "kd_cnt d = 0" "ctrl_key d = 0"
  shows "\<exists>d'. kb_remap_rows cfg mp KB_RETURN_KEY_MAX 0 ms d = Some d' \<and> length (keycode d') = KB_RETURN_KEY_MAX
     \<and> unat (kd_cnt d') \<le> KB_RETURN_KEY_MAX
     \<and> take (unat (kd_cnt d')) (keycode d') = take KB_RETURN_KEY_MAX (concat (map (normal_code cfg) (matrix_codes cfg mp ms)))
     \<and> (unat (kd_cnt d') < KB_RETURN_KEY_MAX \<longrightarrow>
          ctrl_key d' = fold (\<lambda>k c. c OR modifier_bit cfg k) (matrix_codes cfg mp ms) 0)"
proof -
  have "kb_remap_rows cfg mp 6 0 ms d = put_all cfg 6 (matrix_codes cfg mp ms) d"
    using kb_remap_rows_eq [OF assms(1), of 0 ms d 6] assms(2,4) by (simp add: matrix_codes_def)
  then show ?thesis using put_all_ok [of d cfg "matrix_codes cfg mp ms"] assms by (simp add: KB_RETURN_KEY_MAX_def kd_codes_def)
qed

definition kb_demo :: kb_cfg where
  "kb_demo = \<lparr>drive_num = 2, scan_pins = [0x001, 0x002], kb_map_normal = [[0x04, VK_FN], [VK_CTRL, 0x05]],
     kb_p_map = [[[0x04, VK_FN], [VK_CTRL, 0x05]], [[0x04, VK_FN], [VK_CTRL, 0x05]], [[0x14, VK_FN], [VK_CTRL, 0x15]], [[0x14, VK_FN], [VK_CTRL, 0x15]]],
     kb_map_repeat = [], KB_LINE_HIGH_VALID = True, KB_HAS_CTRL_KEYS = True, KB_HAS_FN_KEY = True, KB_RM_GHOST_KEY_EN = False,
     KB_STANDARD_KEYBOARD = True, KB_REPEAT_KEY_ENABLE = False, KB_REPEAT_KEY_INTERVAL_MS = 200\<rparr>"

theorem kb_report_holds_first_six_witness:
  "\<exists>d'. kb_remap_rows kb_demo (kb_map_normal kb_demo) 6 0 [3, 2] (kb_event kb_zero) = Some d'
     \<and> take (unat (kd_cnt d')) (keycode d') = [0x04, 0x05]"
proof -
  have u: "[0..<2] = [0, 1 :: nat]" by (simp add: numeral_2_eq_2)
  have "matrix_codes kb_demo (kb_map_normal kb_demo) [3, 2] = [4, VK_CTRL, 5]"
    by (simp add: matrix_codes_def row_codes_def kb_demo_def u bit_numeral_rec)
  moreover have "concat (map (normal_code kb_demo) [4, VK_CTRL, 5]) = [4, 5]"
    by (simp add: normal_code_def kb_demo_def VK_CTRL_def VK_RWIN_def VK_ZOOM_IN_def VK_ZOOM_OUT_def VK_FN_def)
  moreover have "map_ok kb_demo (kb_map_normal kb_demo)" by (simp add: map_ok_def kb_demo_def)
  moreover have "length [3, 2 :: u32] \<le> drive_num kb_demo" "length (keycode (kb_event kb_zero)) = KB_RETURN_KEY_MAX"
      "kd_cnt (kb_event kb_zero) = 0" "ctrl_key (kb_event kb_zero) = 0"
    by (simp_all add: kb_demo_def kb_zero_def KB_RETURN_KEY_MAX_def)
  ultimately show ?thesis using kb_report_holds_first_six [of kb_demo "kb_map_normal kb_demo" "[3, 2]" "kb_event kb_zero"]
    unfolding KB_RETURN_KEY_MAX_def by fastforce
qed

section \<open>Scanning\<close>

definition kb_hw_ok :: "kb_cfg \<Rightarrow> (nat list \<Rightarrow> bytes) \<Rightarrow> bool" where
  "kb_hw_ok cfg hw \<longleftrightarrow> (\<forall>l. 8 \<le> length (hw l)) \<and> (\<forall>pin \<in> set (scan_pins cfg). unat (drop_bit 8 pin) < 8)
     \<and> length (scan_pins cfg) \<le> 32 \<and> 0 < drive_num cfg"

text \<open>Whether scan line \<open>j\<close> is active in a reading.\<close>

definition line_on :: "kb_cfg \<Rightarrow> bytes \<Rightarrow> nat \<Rightarrow> bool" where
  "line_on cfg gpio j \<longleftrightarrow> line_active cfg (scan_pins cfg ! j) gpio = Some True"

lemma line_active_some: "8 \<le> length g \<Longrightarrow> unat (drop_bit 8 pin) < 8 \<Longrightarrow> \<exists>a. line_active cfg pin g = Some a"
  by (simp add: line_active_def gpio_read_cache_def rd8_def)

lemma bit_push1: "bit (push_bit j 1 :: u32) k \<longleftrightarrow> j = k \<and> k < 32"
  by (auto simp: bit_simps)

lemma need_bit: "j < 32 \<Longrightarrow> need AND push_bit j 1 \<noteq> 0 \<longleftrightarrow> bit (need :: u32) j"
proof
  assume "need AND push_bit j 1 \<noteq> 0" "j < 32"
  then obtain k where "bit (need AND push_bit j 1) k" by (metis bit_0_eq bot_apply bot_bool_def bit_eqI)
  then show "bit need j" by (simp only: bit_and_iff bit_push1)
next
  assume "bit need j" "j < 32"
  then have "bit (need AND push_bit j 1) j" by (simp only: bit_and_iff bit_push1)
  then show "need AND push_bit j 1 \<noteq> 0" by auto
qed

lemma kb_scan_lines_ok:
  assumes "8 \<le> length gpio" "\<forall>pin \<in> set pins. unat (drop_bit 8 pin) < 8" "j + length pins \<le> 32"
    and "KB_HAS_FN_KEY cfg \<longrightarrow> (\<forall>k < length pins. kb_map_at mp (j + k) drv \<noteq> None)"
  shows "\<exists>m' fn'. kb_scan_lines cfg mp need drv gpio j pins m fn = Some (m', fn')
     \<and> (\<forall>k. bit m' k \<longleftrightarrow> bit m k \<or> (j \<le> k \<and> k < j + length pins \<and> bit need k \<and> line_active cfg (pins ! (k - j)) gpio = Some True))"
  using assms(2-4)
proof (induction pins arbitrary: j m fn)
  case (Cons pin pins)
  have k: "(j \<le> k \<and> k < j + length (pin # pins) \<and> bit need k \<and> line_active cfg ((pin # pins) ! (k - j)) gpio = Some True) \<longleftrightarrow>
      (k = j \<and> bit need j \<and> line_active cfg pin gpio = Some True)
      \<or> (j + 1 \<le> k \<and> k < j + 1 + length pins \<and> bit need k \<and> line_active cfg (pins ! (k - (j + 1))) gpio = Some True)" for k
  proof (cases "k \<le> j")
    case False
    then obtain i where "k = j + Suc i" by (metis less_imp_Suc_add not_le add_Suc_right)
    then show ?thesis by simp
  qed auto
  have ih: "\<exists>m' fn'. kb_scan_lines cfg mp need drv gpio (j + 1) pins m0 f0 = Some (m', fn')
      \<and> (\<forall>k. bit m' k \<longleftrightarrow> bit m0 k \<or> (j + 1 \<le> k \<and> k < j + 1 + length pins \<and> bit need k \<and> line_active cfg (pins ! (k - (j + 1))) gpio = Some True))"
    for m0 f0
  proof (rule Cons.IH)
    show "\<forall>pin \<in> set pins. unat (drop_bit 8 pin) < 8" "j + 1 + length pins \<le> 32" using Cons.prems by auto
    show "KB_HAS_FN_KEY cfg \<longrightarrow> (\<forall>k < length pins. kb_map_at mp (j + 1 + k) drv \<noteq> None)"
      using Cons.prems(3) by (metis Suc_less_eq add_Suc_right add_Suc_shift length_Cons plus_1_eq_Suc add.commute)
  qed
  have j: "j < 32" using Cons.prems(2) by simp
  obtain a where a: "line_active cfg pin gpio = Some a" using line_active_some [OF assms(1), of pin cfg] Cons.prems(1) by auto
  have fnk: "\<exists>f. (if KB_HAS_FN_KEY cfg then map_option (\<lambda>kc. kc = VK_FN \<or> fn) (kb_map_at mp j drv) else Some fn) = Some f"
    using Cons.prems(3) by auto
  show ?case
  proof (cases "bit need j \<and> a")
    case True
    obtain f where f: "(if KB_HAS_FN_KEY cfg then map_option (\<lambda>kc. kc = VK_FN \<or> fn) (kb_map_at mp j drv) else Some fn) = Some f" using fnk by blast
    show ?thesis unfolding k using True a f ih [of "m OR push_bit j 1" f] j
      by (simp add: need_bit [OF j] bit_or_iff bit_push1 del: push_bit_of_1) (metis True)
  next
    case False
    then show ?thesis unfolding k using a ih [of m fn] by (cases a) (simp_all add: need_bit [OF j] del: push_bit_of_1)
  qed
qed auto

text \<open>The matrix row of a reading: the needed lines that are active.\<close>

definition row_of :: "kb_cfg \<Rightarrow> u32 \<Rightarrow> bytes \<Rightarrow> u32 \<Rightarrow> bool" where
  "row_of cfg need gpio m \<longleftrightarrow> (\<forall>k. bit m k \<longleftrightarrow> k < length (scan_pins cfg) \<and> bit need k \<and> line_on cfg gpio k)"

definition same_but_fn :: "kb_state \<Rightarrow> kb_state \<Rightarrow> bool" where
  "same_but_fn s s' \<longleftrightarrow> s' = s\<lparr>kb_is_fn_pressed := kb_is_fn_pressed s'\<rparr>"

lemma same_but_fn_refl [simp]: "same_but_fn s s"
  by (simp add: same_but_fn_def)

lemma same_but_fn_trans: "same_but_fn s t \<Longrightarrow> same_but_fn t u \<Longrightarrow> same_but_fn s u"
  by (cases s, cases t, cases u) (simp add: same_but_fn_def)

lemma kb_scan_row_ok:
  assumes "kb_hw_ok cfg hw" "map_ok cfg (kb_k_mp s)" "8 \<le> length gpio" "drv < drive_num cfg"
  shows "\<exists>m s'. kb_scan_row cfg hw drv gpio s = Some (m, hw [drv], s') \<and> row_of cfg (scan_pin_need s) gpio m \<and> same_but_fn s s'"
proof -
  have "KB_HAS_FN_KEY cfg \<longrightarrow> (\<forall>k < length (scan_pins cfg). kb_map_at (kb_k_mp s) (0 + k) drv \<noteq> None)"
    using kb_map_at_ok [OF assms(2) _ assms(4)] by simp
  from kb_scan_lines_ok [OF assms(3) _ _ this, of "scan_pin_need s" 0 "kb_is_fn_pressed s"]
  obtain m f where "kb_scan_lines cfg (kb_k_mp s) (scan_pin_need s) drv gpio 0 (scan_pins cfg) 0 (kb_is_fn_pressed s) = Some (m, f)"
      "row_of cfg (scan_pin_need s) gpio m"
    using assms(1) by (auto simp: kb_hw_ok_def row_of_def line_on_def)
  then show ?thesis using assms(4) by (auto simp: kb_scan_row_def same_but_fn_def)
qed

lemma kb_scan_rows_ok:
  assumes "kb_hw_ok cfg hw" "map_ok cfg (kb_k_mp s)" "8 \<le> length gpio" "length p = drive_num cfg" "i \<le> drive_num cfg + 1"
    and "0 < i \<longrightarrow> gpio = hw [i - 1]" "\<forall>k. k + 1 < i \<longrightarrow> row_of cfg (scan_pin_need s) (hw [k]) (p ! k)"
  shows "\<exists>p' g' s'. kb_scan_rows cfg hw [i..<drive_num cfg + 1] p gpio s = Some (p', g', s') \<and> same_but_fn s s' \<and> length p' = drive_num cfg
     \<and> (\<forall>k < drive_num cfg. row_of cfg (scan_pin_need s) (hw [k]) (p' ! k))"
  using assms(2-)
proof (induction "drive_num cfg + 1 - i" arbitrary: i gpio p s)
  case 0
  then show ?case using assms(1) by simp
next
  case (Suc n)
  let ?d = "if i < drive_num cfg then i else 0"
  have d: "?d < drive_num cfg" using assms(1) by (simp add: kb_hw_ok_def)
  obtain m s1 where r: "kb_scan_row cfg hw ?d gpio s = Some (m, hw [?d], s1)" "row_of cfg (scan_pin_need s) gpio m" "same_but_fn s s1"
    using kb_scan_row_ok [OF assms(1) Suc.prems(1,2) d] by blast
  have s1: "kb_k_mp s1 = kb_k_mp s" "scan_pin_need s1 = scan_pin_need s" using r(3) by (cases s, cases s1, simp add: same_but_fn_def)+
  let ?p = "if i \<noteq> 0 then p[i - 1 := m] else p"
  have i: "i < drive_num cfg + 1" using Suc.hyps(2) by linarith
  have put: "(if i \<noteq> 0 then arr_put (i - 1) m p else Some p) = Some ?p" using i Suc.prems(3) by (auto simp: arr_put_def)
  have rows: "row_of cfg (scan_pin_need s1) (hw [k]) (?p ! k)" if "k + 1 < Suc i" for k
  proof (cases "k + 1 = i")
    case True
    then have "?p ! k = m" "gpio = hw [k]" using Suc.prems(3,5) i by auto
    then show ?thesis using r(2) s1 by simp
  next
    case False
    then have "k + 1 < i" "i - 1 \<noteq> k" using that by auto
    then show ?thesis using Suc.prems(6) s1 by simp
  qed
  have "\<exists>p' g' s'. kb_scan_rows cfg hw [Suc i..<drive_num cfg + 1] ?p (hw [?d]) s1 = Some (p', g', s') \<and> same_but_fn s1 s'
      \<and> length p' = drive_num cfg \<and> (\<forall>k < drive_num cfg. row_of cfg (scan_pin_need s1) (hw [k]) (p' ! k))"
  proof (cases "i < drive_num cfg")
    case True
    show ?thesis
      by (rule Suc.hyps(1)) (use Suc.hyps(2) Suc.prems s1 rows assms(1) True i in \<open>auto simp: kb_hw_ok_def\<close>)
  next
    case False
    then have "Suc i = drive_num cfg + 1" using i by simp
    moreover have "length ?p = drive_num cfg" using Suc.prems(3) by simp
    ultimately show ?thesis using rows by simp
  qed
  moreover have "kb_scan_rows cfg hw [i..<drive_num cfg + 1] p gpio s = kb_scan_rows cfg hw [Suc i..<drive_num cfg + 1] ?p (hw [?d]) s1"
    unfolding upt_conv_Cons [OF i] kb_scan_rows.simps r(1) Option.bind.simps prod.case put ..
  ultimately show ?case unfolding s1(2) using same_but_fn_trans [OF r(3)] by metis
qed

definition kb_maps_ok :: "kb_cfg \<Rightarrow> bool" where
  "kb_maps_ok cfg \<longleftrightarrow> (KB_STANDARD_KEYBOARD cfg \<longrightarrow> length (kb_p_map cfg) = 4 \<and> (\<forall>mp \<in> set (kb_p_map cfg). map_ok cfg mp))
     \<and> (\<not> KB_STANDARD_KEYBOARD cfg \<longrightarrow> map_ok cfg (kb_map_normal cfg))"

lemma kb_scan_matrix_ok:
  assumes "kb_hw_ok cfg hw" "kb_maps_ok cfg" "8 \<le> length gpio"
  shows "\<exists>p mp s'. kb_scan_matrix cfg hw gpio s = Some (p, s') \<and> same_but_fn (s\<lparr>kb_k_mp := mp\<rparr>) s' \<and> length p = drive_num cfg
     \<and> (\<forall>k < drive_num cfg. row_of cfg (scan_pin_need s) (hw [k]) (p ! k))"
proof -
  obtain mp where mp: "(if KB_STANDARD_KEYBOARD cfg then (case kb_p_map cfg of [] \<Rightarrow> None | m # _ \<Rightarrow> Some m) else Some (kb_map_normal cfg)) = Some mp"
      "map_ok cfg mp"
    using assms(2) unfolding kb_maps_ok_def by (cases "KB_STANDARD_KEYBOARD cfg"; cases "kb_p_map cfg") auto
  have d: "0 < drive_num cfg" using assms(1) by (simp add: kb_hw_ok_def)
  obtain m s1 where r: "kb_scan_row cfg hw 0 gpio (s\<lparr>kb_k_mp := mp\<rparr>) = Some (m, hw [0], s1)" "same_but_fn (s\<lparr>kb_k_mp := mp\<rparr>) s1"
    using kb_scan_row_ok [OF assms(1) _ assms(3) d, of "s\<lparr>kb_k_mp := mp\<rparr>"] mp(2) by auto
  have s1: "kb_k_mp s1 = mp" "scan_pin_need s1 = scan_pin_need s" using r(2) by (cases s, cases s1, simp add: same_but_fn_def)+
  have "\<exists>p' g' s'. kb_scan_rows cfg hw [0..<drive_num cfg + 1] (replicate (drive_num cfg) 0) (hw [0]) s1 = Some (p', g', s') \<and> same_but_fn s1 s'
      \<and> length p' = drive_num cfg \<and> (\<forall>k < drive_num cfg. row_of cfg (scan_pin_need s1) (hw [k]) (p' ! k))"
    by (rule kb_scan_rows_ok [OF assms(1)]) (use assms(1) mp(2) s1 in \<open>auto simp: kb_hw_ok_def\<close>)
  then obtain p g' s' where "kb_scan_rows cfg hw [0..<drive_num cfg + 1] (replicate (drive_num cfg) 0) (hw [0]) s1 = Some (p, g', s')"
      "same_but_fn s1 s'" "length p = drive_num cfg" "\<forall>k < drive_num cfg. row_of cfg (scan_pin_need s) (hw [k]) (p ! k)"
    using s1 by auto
  moreover from this have "same_but_fn (s\<lparr>kb_k_mp := mp\<rparr>) s'" using same_but_fn_trans [OF r(2)] by blast
  ultimately show ?thesis using mp(1) r(1) unfolding kb_scan_matrix_def by (auto simp del: upt_Suc)
qed

text \<open>
  C15.  Although every row is driven before the levels of the previous row are evaluated, the scan assigns each
  reading to the right row: the key at drive line \<open>i\<close> and scan line \<open>j\<close> is in the matrix exactly when scan line
  \<open>j\<close> is needed and active while only line \<open>i\<close> is driven.
\<close>

theorem kb_scan_matrix_correct:
  assumes "kb_hw_ok cfg hw" "kb_maps_ok cfg" "8 \<le> length gpio"
  shows "\<exists>p s'. kb_scan_matrix cfg hw gpio s = Some (p, s') \<and> length p = drive_num cfg
     \<and> (\<forall>i < drive_num cfg. \<forall>j. bit (p ! i) j \<longleftrightarrow>
          j < length (scan_pins cfg) \<and> bit (scan_pin_need s) j \<and> line_active cfg (scan_pins cfg ! j) (hw [i]) = Some True)"
  using kb_scan_matrix_ok [OF assms, of s] by (auto simp: row_of_def line_on_def)

definition kb_demo_hw :: "(nat \<times> nat) list \<Rightarrow> nat list \<Rightarrow> bytes" where
  "kb_demo_hw keys rows =
     ((if \<exists>i \<in> set rows. (0, i) \<in> set keys then 1 else 0) OR (if \<exists>i \<in> set rows. (1, i) \<in> set keys then 2 else 0)) # replicate 7 0"

lemma kb_demo_ok: "kb_hw_ok kb_demo (kb_demo_hw keys)" "kb_maps_ok kb_demo"
  by (simp_all add: kb_hw_ok_def kb_maps_ok_def kb_demo_def kb_demo_hw_def map_ok_def)

theorem kb_scan_matrix_correct_witness:
  "\<exists>p s'. kb_scan_matrix kb_demo (kb_demo_hw [(0, 1)]) (replicate 8 0) (kb_zero\<lparr>scan_pin_need := 1\<rparr>) = Some (p, s') \<and> length p = 2 \<and> bit (p ! 1) 0"
proof -
  have a: "line_active kb_demo (scan_pins kb_demo ! 0) (kb_demo_hw [(0, 1)] [1]) = Some True"
    by (simp add: line_active_def gpio_read_cache_def kb_demo_hw_def kb_demo_def rd8_def)
  have "length (scan_pins kb_demo) = 2" "drive_num kb_demo = 2" "bit (scan_pin_need (kb_zero\<lparr>scan_pin_need := 1\<rparr>)) 0"
    by (simp_all add: kb_demo_def)
  then show ?thesis using kb_scan_matrix_correct [OF kb_demo_ok, of "replicate 8 0" "[(0, 1)]" "kb_zero\<lparr>scan_pin_need := 1\<rparr>"] a
    by fastforce
qed

text \<open>
  The flag for the function key is taken from the wrong row: \<^verbatim>\<open>kb_scan_row\<close> looks up the key of the line it
  is driving while the levels are those of the line before.  On a keyboard with the function key at drive
  line 1 that key alone is not recognised, and the ordinary key beside it is taken for it.
\<close>

theorem kb_fn_key_wrong_row:
  "map_option (\<lambda>(p, s). (p, kb_is_fn_pressed s)) (kb_scan_matrix kb_demo (kb_demo_hw [(0, 1)]) (kb_demo_hw [(0, 1)] [0, 1]) (kb_zero\<lparr>scan_pin_need := 1\<rparr>))
     = Some ([0, 1], False)
   \<and> map_option (\<lambda>(p, s). (p, kb_is_fn_pressed s)) (kb_scan_matrix kb_demo (kb_demo_hw [(0, 0)]) (kb_demo_hw [(0, 0)] [0, 1]) (kb_zero\<lparr>scan_pin_need := 1\<rparr>))
     = Some ([1, 0], True)"
  by code_simp

section \<open>Reading out\<close>

text \<open>
  C19.  The matrix buffer is a queue of at most four changed matrices that drops the oldest when it is full: pushing
  appends, and a read-out maps exactly the oldest matrix to key codes and removes it, or reports that there is none.
\<close>

theorem kb_matrix_buffer_queue:
  assumes "kb_buf_ok s"
  shows "(\<exists>s1. matrix_push p s = Some s1 \<and> kb_buf_ok s1 \<and> matrix_queue s1 = (let q = matrix_queue s @ [p] in drop (length q - 4) q))
     \<and> (\<forall>r s'. kb_read_out cfg st True s = Some (r, s') \<and> \<not> bit st KB_NUMLOCK_STATUS_INVALID \<longrightarrow>
          (if matrix_queue s = [] then \<not> r \<and> s' = s
           else r \<and> kb_buf_ok s' \<and> matrix_queue s' = tl (matrix_queue s)
             \<and> (\<exists>mp. kb_select_map cfg st (kb_is_fn_pressed s) = Some mp
                  \<and> kb_remap_rows cfg mp KB_RETURN_KEY_MAX 0 (hd (matrix_queue s)) (kb_event s) = Some (kb_event s'))))"
proof -
  have frame: "kb_buf_ok (s1\<lparr>repeat_key := rk\<rparr>) = kb_buf_ok s1" "matrix_queue (s1\<lparr>repeat_key := rk\<rparr>) = matrix_queue s1"
      "kb_buf_ok (s1\<lparr>kb_k_mp := mp, kb_event := d\<rparr>) = kb_buf_ok s1" "matrix_queue (s1\<lparr>kb_k_mp := mp, kb_event := d\<rparr>) = matrix_queue s1"
    for s1 rk mp d by (simp_all add: kb_buf_ok_def matrix_queue_def)
  have mark: "kb_buf_ok s2 = kb_buf_ok s1 \<and> matrix_queue s2 = matrix_queue s1 \<and> kb_event s2 = kb_event s1" if "kb_repeat_mark cfg s1 = Some s2" for s1 s2
    using that by (auto simp: kb_repeat_mark_def frame split: if_splits Option.bind_splits)
  have "if matrix_queue s = [] then \<not> r \<and> s' = s
           else r \<and> kb_buf_ok s' \<and> matrix_queue s' = tl (matrix_queue s)
             \<and> (\<exists>mp. kb_select_map cfg st (kb_is_fn_pressed s) = Some mp
                  \<and> kb_remap_rows cfg mp KB_RETURN_KEY_MAX 0 (hd (matrix_queue s)) (kb_event s) = Some (kb_event s'))"
    if r: "kb_read_out cfg st True s = Some (r, s')" "\<not> bit st KB_NUMLOCK_STATUS_INVALID" for r s'
  proof (cases "matrix_queue s")
    case Nil
    then show ?thesis using r matrix_queue_empty [OF assms] by (simp add: kb_read_out_def)
  next
    case (Cons m q)
    note pop = matrix_pop_queue [OF assms Cons]
    obtain mp d s1 where s1: "kb_select_map cfg st (kb_is_fn_pressed s) = Some mp" "kb_remap_rows cfg mp KB_RETURN_KEY_MAX 0 m (kb_event s) = Some d"
        "s1 = s\<lparr>matrix_rptr := (matrix_rptr s + 1) AND 7, kb_k_mp := mp, kb_event := d\<rparr>" "r"
        "(if KB_REPEAT_KEY_ENABLE cfg then kb_repeat_mark cfg s1 else Some s1) = Some s'"
      using r pop by (auto simp: kb_read_out_def kb_remap_key_code_def split: Option.bind_splits if_splits)
    have "kb_buf_ok s' = kb_buf_ok s1 \<and> matrix_queue s' = matrix_queue s1 \<and> kb_event s' = kb_event s1"
      using s1(5) mark by (auto split: if_splits)
    moreover have "kb_buf_ok s1 \<and> matrix_queue s1 = q" using pop unfolding s1(3) frame by blast
    ultimately show ?thesis using s1 Cons by simp
  qed
  then show ?thesis using matrix_push_queue [OF assms, of p] by blast
qed

theorem kb_matrix_buffer_queue_witness:
  "\<exists>s1. matrix_push [7] kb_zero = Some s1 \<and> matrix_queue s1 = [[7]]"
proof -
  have "kb_buf_ok kb_zero" "matrix_queue kb_zero = []" by (simp_all add: kb_buf_ok_def kb_zero_def matrix_queue_def)
  then show ?thesis using kb_matrix_buffer_queue [of kb_zero "[7]" kb_demo 0] by auto
qed

section \<open>Release and safety\<close>

lemma pressed_lines_ok:
  assumes "8 \<le> length g" "\<forall>pin \<in> set pins. unat (drop_bit 8 pin) < 8"
  shows "\<exists>r c. pressed_lines cfg g i pins ret c0 = Some (r, c)"
  using assms(2)
proof (induction pins arbitrary: i ret c0)
  case (Cons pin pins)
  obtain a where "line_active cfg pin g = Some a" using line_active_some [OF assms(1), of pin cfg] Cons.prems by auto
  then show ?case using Cons by (cases a) (auto simp: Let_def)
qed (cases c0, simp)

lemma pressed_lines_none:
  assumes "\<forall>pin \<in> set pins. line_active cfg pin g = Some False"
  shows "pressed_lines cfg g i pins ret c = Some (ret, c)"
  using assms by (induction pins arbitrary: i) auto

lemma or_push_bit_ne: "i < 32 \<Longrightarrow> ret OR push_bit i 1 \<noteq> (0 :: u32)"
proof
  assume a: "i < 32" "ret OR push_bit i 1 = 0"
  then have "bit (0 :: u32) i = bit (ret OR push_bit i 1) i" by simp
  then show False using a(1) by (simp add: bit_or_iff bit_push1 del: push_bit_of_1)
qed

lemma pressed_lines_some:
  assumes "pressed_lines cfg g i pins ret c = Some (r, c')" "i + length pins \<le> 32"
  shows "r = ret \<and> c' = c \<or> r \<noteq> 0 \<and> c' = (6, r)"
  using assms
proof (induction cfg g i pins ret c rule: pressed_lines.induct)
  case (2 cfg g i pin pins ret c)
  have ne: "ret OR push_bit i 1 \<noteq> 0" by (rule or_push_bit_ne) (use 2(4) in simp)
  obtain a where a: "line_active cfg pin g = Some a" using 2(3) by (cases "line_active cfg pin g") auto
  show ?case
  proof (cases a)
    case True
    have "r = ret OR push_bit i 1 \<and> c' = (6, ret OR push_bit i 1) \<or> r \<noteq> 0 \<and> c' = (6, r)"
      by (rule 2(1) [OF a True refl]) (use 2(3,4) a True in \<open>simp_all add: Let_def\<close>)
    then show ?thesis using ne by auto
  qed (use 2 a in simp)
qed auto

lemma pressed_lines_active:
  assumes "pressed_lines cfg g i pins ret c = Some (r, c')" "i + length pins \<le> 32" "\<exists>pin \<in> set pins. line_active cfg pin g = Some True"
  shows "r \<noteq> 0 \<and> c' = (6, r)"
  using assms
proof (induction pins arbitrary: i ret c)
  case (Cons pin pins)
  obtain a where a: "line_active cfg pin g = Some a" using Cons.prems(1) by (cases "line_active cfg pin g") auto
  show ?case
  proof (cases a)
    case True
    then have "pressed_lines cfg g (i + 1) pins (ret OR push_bit i 1) (6, ret OR push_bit i 1) = Some (r, c')"
      using Cons.prems(1) a by (simp add: Let_def)
    from pressed_lines_some [OF this] show ?thesis using Cons.prems(2) or_push_bit_ne [of i ret] by auto
  qed (use Cons a in auto)
qed simp

lemma kb_key_pressed_ok:
  assumes "kb_hw_ok cfg hw"
  shows "\<exists>need c l. kb_key_pressed cfg hw s = Some (need, hw [0..<drive_num cfg], s\<lparr>release_cnt := c, ret_last := l\<rparr>)"
proof -
  obtain r c l where "pressed_lines cfg (hw [0..<drive_num cfg]) 0 (scan_pins cfg) 0 (release_cnt s, ret_last s) = Some (r, c, l)"
    using pressed_lines_ok [of "hw [0..<drive_num cfg]" "scan_pins cfg"] assms unfolding kb_hw_ok_def by (metis surj_pair)
  then show ?thesis by (auto simp: kb_key_pressed_def Let_def)
qed

fun kb_polls :: "kb_cfg \<Rightarrow> (nat list \<Rightarrow> bytes) \<Rightarrow> nat \<Rightarrow> kb_state \<Rightarrow> u32 list option" where
  "kb_polls cfg hw 0 s = Some []"
| "kb_polls cfg hw (Suc n) s = do { (need, _, s1) \<leftarrow> kb_key_pressed cfg hw s; ns \<leftarrow> kb_polls cfg hw n s1; Some (need # ns) }"

lemma kb_polls_released:
  assumes "\<forall>pin \<in> set (scan_pins cfg). line_active cfg pin (off [0..<drive_num cfg]) = Some False"
  shows "kb_polls cfg off n s = Some (replicate (min n (unat (release_cnt s))) (ret_last s) @ replicate (n - unat (release_cnt s)) 0)"
proof (induction n arbitrary: s)
  case (Suc n)
  have p: "kb_key_pressed cfg off s =
      Some (if release_cnt s \<noteq> 0 then (ret_last s, off [0..<drive_num cfg], s\<lparr>release_cnt := release_cnt s - 1, ret_last := ret_last s\<rparr>)
            else (0, off [0..<drive_num cfg], s\<lparr>release_cnt := release_cnt s, ret_last := ret_last s\<rparr>))"
    using pressed_lines_none [OF assms] by (simp add: kb_key_pressed_def)
  show ?case
  proof (cases "release_cnt s = 0")
    case True
    then show ?thesis using Suc.IH [of "s\<lparr>release_cnt := 0\<rparr>"] p by simp
  next
    case False
    then have "unat (release_cnt s) = Suc (unat (release_cnt s - 1))" using unat_minus_one [OF False] unat_gt_0 [of "release_cnt s"] False by simp
    then show ?thesis using Suc.IH [of "s\<lparr>release_cnt := release_cnt s - 1\<rparr>"] p False by simp
  qed
qed simp

text \<open>
  Releasing the keys is debounced by holding: once a poll has seen active lines, the next five polls report the
  same lines even though nothing is pressed any more, and all later ones report none.
\<close>

theorem kb_release_held:
  assumes "kb_hw_ok cfg hw" "\<exists>pin \<in> set (scan_pins cfg). line_active cfg pin (hw [0..<drive_num cfg]) = Some True"
    and "\<forall>pin \<in> set (scan_pins cfg). line_active cfg pin (off [0..<drive_num cfg]) = Some False"
  shows "\<exists>need g s1. kb_key_pressed cfg hw s = Some (need, g, s1) \<and> need \<noteq> 0
     \<and> kb_polls cfg off (5 + n) s1 = Some (replicate 5 need @ replicate n 0)"
proof -
  let ?g = "hw [0..<drive_num cfg]"
  obtain r c' where p: "pressed_lines cfg ?g 0 (scan_pins cfg) 0 (release_cnt s, ret_last s) = Some (r, c')"
    using pressed_lines_ok [of ?g "scan_pins cfg"] assms(1) unfolding kb_hw_ok_def by metis
  have r: "r \<noteq> 0" "c' = (6, r)" using pressed_lines_active [OF p _ assms(2)] assms(1) by (simp_all add: kb_hw_ok_def)
  then have "kb_key_pressed cfg hw s = Some (r, ?g, s\<lparr>release_cnt := 5, ret_last := r\<rparr>)" using p by (simp add: kb_key_pressed_def)
  then show ?thesis using r(1) kb_polls_released [of cfg off "5 + n" "s\<lparr>release_cnt := 5, ret_last := r\<rparr>"] assms(3) by simp
qed

theorem kb_release_held_witness:
  "\<exists>need g s1. kb_key_pressed kb_demo (kb_demo_hw [(0, 1)]) kb_zero = Some (need, g, s1) \<and> need \<noteq> 0
     \<and> kb_polls kb_demo (kb_demo_hw []) (5 + 2) s1 = Some (replicate 5 need @ replicate 2 0)"
  by (rule kb_release_held [OF kb_demo_ok(1)])
    (auto simp: kb_demo_def kb_demo_hw_def line_active_def gpio_read_cache_def rd8_def)

definition kb_wf :: "kb_cfg \<Rightarrow> kb_state \<Rightarrow> bool" where
  "kb_wf cfg s \<longleftrightarrow> length (mtrx_pre s) = drive_num cfg \<and> length (mtrx_last s) = drive_num cfg \<and> kb_buf_ok s
     \<and> (\<forall>m \<in> set (matrix_buff s). length m = drive_num cfg) \<and> length (keycode (kb_event s)) = KB_RETURN_KEY_MAX"

lemma kb_select_map_ok: "kb_maps_ok cfg \<Longrightarrow> \<exists>mp. kb_select_map cfg st fn = Some mp \<and> map_ok cfg mp"
proof -
  assume a: "kb_maps_ok cfg"
  have "unat (st AND 1) < 2" using unat_and_mask_pow2 [of "1 :: u32" 1 st] by simp
  then show ?thesis using a by (cases "KB_STANDARD_KEYBOARD cfg") (auto simp: kb_select_map_def kb_maps_ok_def Let_def)
qed

lemma length_kb_rmv_ghost_key [simp]: "length (kb_rmv_ghost_key m) = length m"
  by (simp add: kb_rmv_ghost_key_def)

lemma kb_repeat_mark_ok:
  assumes "length (keycode (kb_event s)) = KB_RETURN_KEY_MAX"
  shows "\<exists>rk. kb_repeat_mark cfg s = Some (s\<lparr>repeat_key := rk\<rparr>)"
proof (cases "key_change_flg (repeat_key s) = KEY_CHANGE")
  case False
  then have "kb_repeat_mark cfg s = Some (s\<lparr>repeat_key := repeat_key s\<rparr>)" by (simp add: kb_repeat_mark_def)
  then show ?thesis by blast
qed (use assms in \<open>auto simp: kb_repeat_mark_def rd8_def KB_RETURN_KEY_MAX_def\<close>)

lemma kb_wf_repeat [simp]: "kb_wf cfg (s\<lparr>repeat_key := rk\<rparr>) = kb_wf cfg s"
  by (simp add: kb_wf_def kb_buf_ok_def)

lemma kb_read_out_ok:
  assumes "kb_wf cfg s" "kb_maps_ok cfg" "kd_cnt (kb_event s) = 0" "ctrl_key (kb_event s) = 0"
  shows "\<exists>r s'. kb_read_out cfg st rd s = Some (r, s') \<and> kb_wf cfg s'"
proof (cases "bit st KB_NUMLOCK_STATUS_INVALID \<or> matrix_wptr s = matrix_rptr s \<or> \<not> rd")
  case True
  then show ?thesis using assms(1) by (auto simp: kb_read_out_def)
next
  case False
  have buf: "kb_buf_ok s" using assms(1) by (simp add: kb_wf_def)
  obtain m q where q: "matrix_queue s = m # q" using matrix_queue_empty [OF buf] False by (cases "matrix_queue s") auto
  note pop = matrix_pop_queue [OF buf q]
  let ?s0 = "s\<lparr>matrix_rptr := (matrix_rptr s + 1) AND 7\<rparr>"
  have "nat (matrix_rptr s AND 3) < length (matrix_buff s)" using buf by (simp add: kb_buf_ok_def and_3)
  then have m: "length m = drive_num cfg" using pop assms(1) nth_mem unfolding kb_wf_def arr_get_def by (metis option.sel option.distinct(1))
  obtain mp where mp: "kb_select_map cfg st (kb_is_fn_pressed s) = Some mp" "map_ok cfg mp" using kb_select_map_ok [OF assms(2)] by blast
  obtain d where d: "kb_remap_rows cfg mp KB_RETURN_KEY_MAX 0 m (kb_event s) = Some d" "length (keycode d) = KB_RETURN_KEY_MAX"
    using put_all_ok [of "kb_event s" cfg "matrix_codes cfg mp m"] kb_remap_rows_eq [OF mp(2), of 0 m "kb_event s" 6] assms(1,3) m
    by (auto simp: KB_RETURN_KEY_MAX_def kb_wf_def matrix_codes_def)
  have s1: "kb_remap_key_code cfg m KB_RETURN_KEY_MAX st ?s0 = Some (?s0\<lparr>kb_k_mp := mp, kb_event := d\<rparr>)"
    using mp d by (simp add: kb_remap_key_code_def)
  have wf: "kb_wf cfg (?s0\<lparr>kb_k_mp := mp, kb_event := d\<rparr>)" using assms(1) pop d(2) by (simp add: kb_wf_def kb_buf_ok_def)
  obtain rk where "kb_repeat_mark cfg (?s0\<lparr>kb_k_mp := mp, kb_event := d\<rparr>) = Some (?s0\<lparr>kb_k_mp := mp, kb_event := d, repeat_key := rk\<rparr>)"
    using kb_repeat_mark_ok [of "?s0\<lparr>kb_k_mp := mp, kb_event := d\<rparr>" cfg] d(2) by auto
  moreover have "kb_wf cfg (?s0\<lparr>kb_k_mp := mp, kb_event := d, repeat_key := rk\<rparr>)" using wf by simp
  ultimately show ?thesis using False pop s1 wf by (auto simp: kb_read_out_def)
qed

lemma kb_debounce_wf:
  assumes "kb_wf cfg s" "length p = drive_num cfg"
  shows "\<exists>c ch s'. key_debounce_filter p f s = Some (c, ch, s') \<and> kb_wf cfg s' \<and> length c = drive_num cfg \<and> kb_event s' = kb_event s"
proof -
  have l: "length (mtrx_pre s) = length p" "length (mtrx_last s) = length p" using assms by (simp_all add: kb_wf_def)
  obtain c where "debounce_rows f p (mtrx_pre s) (mtrx_last s) = Some (c, c \<noteq> mtrx_last s)" "length c = length p"
    using debounce_rows_ok [OF l, of f] by blast
  then show ?thesis using assms by (simp add: key_debounce_filter_def kb_wf_def kb_buf_ok_def)
qed

lemma matrix_push_wf:
  assumes "kb_wf cfg s" "length p = drive_num cfg"
  shows "\<exists>s1. matrix_push p s = Some s1 \<and> kb_wf cfg s1 \<and> kb_event s1 = kb_event s"
proof -
  obtain s1 where s1: "matrix_push p s = Some s1" "kb_buf_ok s1" using matrix_push_queue assms(1) unfolding kb_wf_def by blast
  have "set (matrix_buff s1) \<subseteq> insert p (set (matrix_buff s))" "mtrx_pre s1 = mtrx_pre s" "mtrx_last s1 = mtrx_last s" "kb_event s1 = kb_event s"
    using s1(1) set_update_subset_insert [of "matrix_buff s" "nat (matrix_wptr s AND 3)" p]
    by (auto simp: matrix_push_def arr_put_def Let_def split: if_splits)
  then show ?thesis using s1 assms by (auto simp: kb_wf_def)
qed

lemma kb_repeat_tick_frame: "\<exists>ch' rk. kb_repeat_tick cfg now ch s = (ch', s\<lparr>repeat_key := rk\<rparr>)"
proof -
  have "snd (kb_repeat_tick cfg now ch s) = s\<lparr>repeat_key := repeat_key (snd (kb_repeat_tick cfg now ch s))\<rparr>"
    by (simp add: kb_repeat_tick_def Let_def)
  then show ?thesis by (metis prod.collapse)
qed

lemma kb_scan_key_value_ok:
  assumes "kb_wf cfg s" "kb_hw_ok cfg hw" "kb_maps_ok cfg" "8 \<le> length gpio"
  shows "\<exists>r s'. kb_scan_key_value cfg hw now st rd gpio s = Some (r, s') \<and> kb_wf cfg s'"
proof -
  define s0 where "s0 = s\<lparr>kb_event := (kb_event s)\<lparr>kd_cnt := 0, ctrl_key := 0\<rparr>, kb_is_fn_pressed := False\<rparr>"
  obtain p mp s1 where p: "kb_scan_matrix cfg hw gpio s0 = Some (p, s1)" "same_but_fn (s0\<lparr>kb_k_mp := mp\<rparr>) s1" "length p = drive_num cfg"
    using kb_scan_matrix_ok [OF assms(2-4), of s0] by blast
  have s1: "s1 = s0\<lparr>kb_k_mp := mp, kb_is_fn_pressed := kb_is_fn_pressed s1\<rparr>" using p(2) by (simp add: same_but_fn_def)
  have w1: "kb_wf cfg s1" "kd_cnt (kb_event s1) = 0" "ctrl_key (kb_event s1) = 0"
    using assms(1) by (subst s1, simp add: s0_def kb_wf_def kb_buf_ok_def)+
  let ?p = "if KB_RM_GHOST_KEY_EN cfg then kb_rmv_ghost_key p else p"
  have lp: "length ?p = drive_num cfg" using p(3) by simp
  obtain c ch s2 where d: "key_debounce_filter ?p (\<not> bit st KB_NUMLOCK_STATUS_POWERON) s1 = Some (c, ch, s2)"
      and w2: "kb_wf cfg s2" "length c = drive_num cfg" "kb_event s2 = kb_event s1"
    using kb_debounce_wf [OF w1(1) lp, of "\<not> bit st KB_NUMLOCK_STATUS_POWERON"] by blast
  obtain ch' rk where t: "(if KB_REPEAT_KEY_ENABLE cfg then kb_repeat_tick cfg now ch s2 else (ch, s2)) = (ch', s2\<lparr>repeat_key := rk\<rparr>)"
  proof (cases "KB_REPEAT_KEY_ENABLE cfg")
    case False
    then show ?thesis using that [of ch "repeat_key s2"] by simp
  qed (use kb_repeat_tick_frame [of cfg now ch s2] that in auto)
  obtain s4 where s4: "(if ch' then matrix_push c (s2\<lparr>repeat_key := rk\<rparr>) else Some (s2\<lparr>repeat_key := rk\<rparr>)) = Some s4"
      "kb_wf cfg s4" "kb_event s4 = kb_event s1"
    using matrix_push_wf [of cfg "s2\<lparr>repeat_key := rk\<rparr>" c] w2 by (cases ch') auto
  have "\<exists>r s'. kb_read_out cfg st rd s4 = Some (r, s') \<and> kb_wf cfg s'"
    using kb_read_out_ok [OF s4(2) assms(3)] s4(3) w1 by metis
  then show ?thesis using p(1) d t s4(1) by (simp add: kb_scan_key_value_def s0_def [symmetric] Let_def)
qed

text \<open>
  C18.  A scan of the keyboard is memory safe for every set of at most 32 scan pins, drive pins, key maps of their size and modelled options (line mode, long-press
  optimisation and stuck-key processing at their default 0): whatever the levels of the lines, every access,
  reads and writes alike, stays inside the matrices, the key maps, the ring of four matrices and the six key codes of the
  report, and the state stays well formed.
\<close>

theorem kb_scan_key_safe:
  assumes "kb_wf cfg s" "kb_hw_ok cfg hw" "kb_maps_ok cfg"
  shows "\<exists>r s'. kb_scan_key cfg hw now st rd s = Some (r, s') \<and> kb_wf cfg s'"
proof -
  obtain need c l where k: "kb_key_pressed cfg hw s = Some (need, hw [0..<drive_num cfg], s\<lparr>release_cnt := c, ret_last := l\<rparr>)"
    using kb_key_pressed_ok [OF assms(2)] by blast
  have wf: "kb_wf cfg (s\<lparr>release_cnt := c, ret_last := l, scan_pin_need := need\<rparr>)" using assms(1) by (simp add: kb_wf_def kb_buf_ok_def)
  have "8 \<le> length (hw [0..<drive_num cfg])" using assms(2) by (simp add: kb_hw_ok_def)
  from kb_scan_key_value_ok [OF wf assms(2,3) this] show ?thesis using k wf
    by (cases "need = 0") (auto simp: kb_scan_key_def Let_def)
qed

theorem kb_scan_key_safe_witness:
  "\<exists>r s'. kb_scan_key kb_demo (kb_demo_hw [(0, 1)]) 0 0 True
     (kb_zero\<lparr>mtrx_pre := [0, 0], mtrx_last := [0, 0], matrix_buff := replicate 4 [0, 0]\<rparr>) = Some (r, s')"
proof -
  have "kb_wf kb_demo (kb_zero\<lparr>mtrx_pre := [0, 0], mtrx_last := [0, 0], matrix_buff := replicate 4 [0, 0]\<rparr>)"
    by (simp add: kb_wf_def kb_demo_def kb_zero_def kb_buf_ok_def KB_RETURN_KEY_MAX_def)
  from kb_scan_key_safe [OF this kb_demo_ok] show ?thesis by blast
qed

end
