(* ===== verification/Usb_Kb.thy ===== *)
theory Usb_Kb
  imports Kb_Scan
begin

unbundle bit_operations_syntax

text \<open>
  Keyboard and mouse reports to the host (\<^verbatim>\<open>application/app/usbkb.c\<close>, \<^verbatim>\<open>application/app/usbmouse.c\<close>), as built for
  the chips other than TL322X and with \<^verbatim>\<open>USB_SOFTWARE_CRC_CHECK\<close> and \<^verbatim>\<open>USB_MOUSE_REPORT_SMOOTH\<close> 0.

  A packet handed to an endpoint is recorded in \<open>usb_sent\<close> with its data toggle; the endpoint is busy until
  the host has fetched it (\<open>host_fetch\<close>).  \<open>None\<close> is an access outside an object.
\<close>

section \<open>Data\<close>

definition DAT_TYPE_KB :: u8 where "DAT_TYPE_KB = 1"
definition DAT_TYPE_MOUSE :: u8 where "DAT_TYPE_MOUSE = 2"
definition USB_FIFO_NUM :: nat where "USB_FIFO_NUM = 4"
definition USB_FIFO_SIZE :: nat where "USB_FIFO_SIZE = 8"
definition KEYBOARD_REPORT_KEY_MAX :: nat where "KEYBOARD_REPORT_KEY_MAX = 6"
definition MOUSE_REPORT_DATA_LEN :: nat where "MOUSE_REPORT_DATA_LEN = 4"
definition MEDIA_REPORT_DATA_LEN :: nat where "MEDIA_REPORT_DATA_LEN = 4"
definition VK_EXT_LEN :: nat where "VK_EXT_LEN = 2"
definition USB_EDP_KEYBOARD_IN :: u8 where "USB_EDP_KEYBOARD_IN = 1"
definition USB_EDP_MOUSE :: u8 where "USB_EDP_MOUSE = 2"
definition USB_HID_MOUSE :: u8 where "USB_HID_MOUSE = 1"
definition USB_HID_KB_MEDIA :: u8 where "USB_HID_KB_MEDIA = 3"
definition USB_HID_KB_SYS :: u8 where "USB_HID_KB_SYS = 4"
definition VK_EXT_START :: u8 where "VK_EXT_START = 0xa0"
definition VK_SYS_START :: u8 where "VK_SYS_START = 0xa0"
definition VK_SLEEP :: u8 where "VK_SLEEP = 0xa0"
definition VK_POWER :: u8 where "VK_POWER = 0xa1"
definition VK_WAKEUP :: u8 where "VK_WAKEUP = 0xa2"
definition VK_SYS_END :: u8 where "VK_SYS_END = 0xa3"
definition VK_MEDIA_START :: u8 where "VK_MEDIA_START = 0xa3"
definition VK_MEDIA_END :: u8 where "VK_MEDIA_END = 0xb5"
definition VK_EXT_END :: u8 where "VK_EXT_END = 0xb5"
definition VK_POWER_V :: u8 where "VK_POWER_V = 1"
definition VK_SLEEP_V :: u8 where "VK_SLEEP_V = 2"
definition VK_WAKEUP_V :: u8 where "VK_WAKEUP_V = 4"
definition KB_NORMAL_RELEASE_MASK :: u32 where "KB_NORMAL_RELEASE_MASK = 1"
definition KB_SYS_RELEASE_MASK :: u32 where "KB_SYS_RELEASE_MASK = 2"
definition KB_MEDIA_RELEASE_MASK :: u32 where "KB_MEDIA_RELEASE_MASK = 4"
definition USB_KEYBOARD_RELEASE_TIMEOUT :: u32 where "USB_KEYBOARD_RELEASE_TIMEOUT = 450000"
definition USB_MOUSE_RELEASE_TIMEOUT :: u32 where "USB_MOUSE_RELEASE_TIMEOUT = 200000"

definition vk_sys_map :: bytes where "vk_sys_map = [VK_POWER_V, VK_SLEEP_V, VK_WAKEUP_V]"

definition vk_media_map :: "bytes list" where
  "vk_media_map = [[0x21, 2], [0x23, 2], [0x24, 2], [0x25, 2], [0x26, 2], [0x27, 2], [0x2a, 2], [0x83, 1], [0x8a, 1], [0x92, 1],
     [0x94, 1], [0xb5, 0], [0xb6, 0], [0xb7, 0], [0xcd, 0], [0xe2, 0], [0xe9, 0], [0xea, 0]]"

record ukb_state =
  usb_fifo :: "bytes list"
  usb_ff_rptr :: u8
  usb_ff_wptr :: u8
  kb_dat_buff :: "kb_data_t list"
  usbkb_wptr :: u8
  usbkb_rptr :: u8
  usbkb_not_released :: u32
  usbkb_data_report_time :: u32
  last_data :: kb_data_t
  mouse_dat_buff :: "bytes list"
  usbmouse_wptr :: u8
  usbmouse_rptr :: u8
  usbmouse_not_released :: u32
  usbmouse_data_report_time :: u32
  usb_mouse_report_proto :: u8
  edp_toggle :: "u8 \<Rightarrow> u8"
  ep_busy :: "u8 \<Rightarrow> bool"
  usb_sent :: "(u8 \<times> u8 \<times> bytes) list"

section \<open>Sending and queueing\<close>

text \<open>The packet is written to the endpoint and acknowledged with the current toggle.\<close>

definition ep_send :: "u8 \<Rightarrow> bytes \<Rightarrow> ukb_state \<Rightarrow> ukb_state" where
  "ep_send ep d s = s\<lparr>usb_sent := usb_sent s @ [(ep, edp_toggle s ep, d)], ep_busy := (ep_busy s)(ep := True),
     edp_toggle := (edp_toggle s)(ep := edp_toggle s ep XOR 1)\<rparr>"

definition host_fetch :: "u8 \<Rightarrow> ukb_state \<Rightarrow> ukb_state" where
  "host_fetch ep s = s\<lparr>ep_busy := (ep_busy s)(ep := False)\<rparr>"

text \<open>A packet \<open>d\<close> is stored at offset \<open>off\<close> behind the header \<open>h\<close> of the next slot; the oldest slot is given up when five are in use.\<close>

definition usb_fifo_put :: "bytes \<Rightarrow> nat \<Rightarrow> bytes \<Rightarrow> ukb_state \<Rightarrow> ukb_state option" where
  "usb_fifo_put h off d s =
     (let i = unat (usb_ff_wptr s AND 3); w = usb_ff_wptr s + 1 in
      if i < length (usb_fifo s)
      then do { a \<leftarrow> wr_range (usb_fifo s ! i) 0 h;
                b \<leftarrow> wr_range a off d;
                Some (s\<lparr>usb_fifo := (usb_fifo s)[i := b], usb_ff_wptr := w,
                        usb_ff_rptr := (if (uint w - uint (usb_ff_rptr s)) AND 7 > 4 then usb_ff_rptr s + 1 else usb_ff_rptr s)\<rparr>) }
      else None)"

definition usbkb_hid_report_normal :: "u8 \<Rightarrow> bytes \<Rightarrow> ukb_state \<Rightarrow> (bool \<times> ukb_state) option" where
  "usbkb_hid_report_normal ctrl codes s =
     do { k \<leftarrow> rd_range codes 0 KEYBOARD_REPORT_KEY_MAX;
          if ep_busy s USB_EDP_KEYBOARD_IN
          then map_option (Pair False) (usb_fifo_put [DAT_TYPE_KB, ctrl] 2 k s)
          else Some (True, ep_send USB_EDP_KEYBOARD_IN (ctrl # 0 # k) s) }"

definition usbmouse_hid_report :: "u8 \<Rightarrow> bytes \<Rightarrow> nat \<Rightarrow> ukb_state \<Rightarrow> (bool \<times> ukb_state) option" where
  "usbmouse_hid_report report_id data cnt s =
     (if ep_busy s USB_EDP_MOUSE
      then do { d \<leftarrow> rd_range data 0 cnt;
                map_option (Pair False) (usb_fifo_put [DAT_TYPE_MOUSE, report_id, of_nat cnt] 4 d s) }
      else if usb_mouse_report_proto s = 0
      then do { d \<leftarrow> rd_range data 0 3; Some (True, ep_send USB_EDP_MOUSE d s) }
      else do { d \<leftarrow> rd_range data 0 cnt; Some (True, ep_send USB_EDP_MOUSE (report_id # d) s) })"

definition usb_hid_report_fifo_proc :: "ukb_state \<Rightarrow> (bool \<times> ukb_state) option" where
  "usb_hid_report_fifo_proc s =
     (if usb_ff_rptr s = usb_ff_wptr s then Some (False, s)
      else let i = unat (usb_ff_rptr s AND 3); p = usb_fifo s ! i in
        if \<not> (i < length (usb_fifo s) \<and> 3 \<le> length p) then None
        else if p ! 0 = DAT_TYPE_KB
        then if ep_busy s USB_EDP_KEYBOARD_IN then Some (False, s)
             else do { (_, s1) \<leftarrow> usbkb_hid_report_normal (p ! 1) (drop 2 p) s; Some (True, s1\<lparr>usb_ff_rptr := usb_ff_rptr s1 + 1\<rparr>) }
        else if p ! 0 = DAT_TYPE_MOUSE
        then if ep_busy s USB_EDP_MOUSE then Some (False, s)
             else do { (_, s1) \<leftarrow> usbmouse_hid_report (p ! 1) (drop 4 p) (unat (p ! 2)) s; Some (True, s1\<lparr>usb_ff_rptr := usb_ff_rptr s1 + 1\<rparr>) }
        else Some (False, s))"

section \<open>Releasing keys\<close>

text \<open>The flag of a group is cleared when its report was accepted.\<close>

definition clear_if :: "u32 \<Rightarrow> (bool \<times> ukb_state) option \<Rightarrow> ukb_state option" where
  "clear_if m r = do { (ok, s) \<leftarrow> r; Some (if ok then s\<lparr>usbkb_not_released := usbkb_not_released s AND NOT m\<rparr> else s) }"

definition set_if :: "u32 \<Rightarrow> (bool \<times> ukb_state) option \<Rightarrow> ukb_state option" where
  "set_if m r = do { (ok, s) \<leftarrow> r; Some (if ok then s\<lparr>usbkb_not_released := usbkb_not_released s OR m\<rparr> else s) }"

definition usbkb_release_normal_key :: "ukb_state \<Rightarrow> ukb_state option" where
  "usbkb_release_normal_key s =
     (if usbkb_not_released s AND KB_NORMAL_RELEASE_MASK \<noteq> 0
      then clear_if KB_NORMAL_RELEASE_MASK (usbkb_hid_report_normal 0 (replicate KEYBOARD_REPORT_KEY_MAX 0) s) else Some s)"

definition usbkb_release_sys_key :: "ukb_state \<Rightarrow> ukb_state option" where
  "usbkb_release_sys_key s =
     (if usbkb_not_released s AND KB_SYS_RELEASE_MASK \<noteq> 0
      then clear_if KB_SYS_RELEASE_MASK (usbmouse_hid_report USB_HID_KB_SYS (replicate 4 0) 1 s) else Some s)"

definition usbkb_release_media_key :: "ukb_state \<Rightarrow> ukb_state option" where
  "usbkb_release_media_key s =
     (if usbkb_not_released s AND KB_MEDIA_RELEASE_MASK \<noteq> 0
      then clear_if KB_MEDIA_RELEASE_MASK (usbmouse_hid_report USB_HID_KB_MEDIA (replicate MOUSE_REPORT_DATA_LEN 0) MEDIA_REPORT_DATA_LEN s)
      else Some s)"

definition usbkb_release_keys :: "ukb_state \<Rightarrow> ukb_state option" where
  "usbkb_release_keys s =
     do { s1 \<leftarrow> usbkb_release_sys_key s; s2 \<leftarrow> usbkb_release_normal_key s1; usbkb_release_media_key s2 }"

definition usbkb_release_check :: "u32 \<Rightarrow> ukb_state \<Rightarrow> ukb_state option" where
  "usbkb_release_check now s =
     (if usbkb_not_released s \<noteq> 0 \<and> clock_time_exceed now (usbkb_data_report_time s) USB_KEYBOARD_RELEASE_TIMEOUT
      then usbkb_release_keys s else Some s)"

section \<open>Reports\<close>

definition is_ext :: "u8 \<Rightarrow> bool" where "is_ext k \<longleftrightarrow> k \<ge> VK_EXT_START \<and> k < VK_EXT_END"

fun separate_loop :: "bytes \<Rightarrow> nat \<Rightarrow> nat \<Rightarrow> bytes \<Rightarrow> u8 \<Rightarrow> nat \<Rightarrow> (nat \<times> bytes \<times> u8) option" where
  "separate_loop codes i 0 normal_key ext_key normal_cnt = Some (normal_cnt, normal_key, ext_key)"
| "separate_loop codes i (Suc n) normal_key ext_key normal_cnt =
     do { k \<leftarrow> rd8 codes i;
          if is_ext k then separate_loop codes (i + 1) n normal_key k normal_cnt
          else do { nk \<leftarrow> wr8 normal_key normal_cnt k; separate_loop codes (i + 1) n nk ext_key (normal_cnt + 1) } }"

definition usbkb_separate_key_types :: "bytes \<Rightarrow> u8 \<Rightarrow> bytes \<Rightarrow> u8 \<Rightarrow> (nat \<times> bytes \<times> u8) option" where
  "usbkb_separate_key_types codes cnt normal_key ext_key = separate_loop codes 0 (unat cnt) normal_key ext_key 0"

definition usbkb_report_normal_key :: "u8 \<Rightarrow> bytes \<Rightarrow> nat \<Rightarrow> ukb_state \<Rightarrow> ukb_state option" where
  "usbkb_report_normal_key ctrl codes cnt s =
     (if cnt > 0 \<or> ctrl \<noteq> 0 then set_if KB_NORMAL_RELEASE_MASK (usbkb_hid_report_normal ctrl codes s)
      else usbkb_release_normal_key s)"

definition usbkb_report_sys_key :: "u8 \<Rightarrow> ukb_state \<Rightarrow> ukb_state option" where
  "usbkb_report_sys_key ext_key s =
     (if ext_key \<ge> VK_SYS_START \<and> ext_key < VK_SYS_END
      then set_if KB_SYS_RELEASE_MASK (usbmouse_hid_report USB_HID_KB_SYS (drop (unat (ext_key - VK_SYS_START)) vk_sys_map) 1 s)
      else usbkb_release_sys_key s)"

definition usbkb_report_media_key :: "u8 \<Rightarrow> ukb_state \<Rightarrow> ukb_state option" where
  "usbkb_report_media_key ext_key s =
     (if ext_key \<ge> VK_MEDIA_START \<and> ext_key < VK_MEDIA_END
      then let idx = unat (ext_key - VK_MEDIA_START) in
        if idx < length vk_media_map
        then set_if KB_MEDIA_RELEASE_MASK (usbmouse_hid_report USB_HID_KB_MEDIA
               (take VK_EXT_LEN (vk_media_map ! idx) @ replicate (MOUSE_REPORT_DATA_LEN - VK_EXT_LEN) 0) MEDIA_REPORT_DATA_LEN s)
        else None
      else usbkb_release_media_key s)"

definition usbkb_report_consumer_key :: "u32 \<Rightarrow> u16 \<Rightarrow> ukb_state \<Rightarrow> ukb_state option" where
  "usbkb_report_consumer_key now consumer_key s =
     do { s1 \<leftarrow> (if consumer_key \<noteq> 0
               then set_if KB_MEDIA_RELEASE_MASK (usbmouse_hid_report USB_HID_KB_MEDIA
                      ([ucast consumer_key, ucast (drop_bit 8 consumer_key)] @ replicate (MOUSE_REPORT_DATA_LEN - VK_EXT_LEN) 0)
                      MEDIA_REPORT_DATA_LEN s)
               else usbkb_release_media_key s);
          Some (s1\<lparr>usbkb_data_report_time := now\<rparr>) }"

fun same_loop :: "bytes \<Rightarrow> bytes \<Rightarrow> nat \<Rightarrow> nat \<Rightarrow> bool option" where
  "same_loop a b i 0 = Some True"
| "same_loop a b i (Suc n) = do { x \<leftarrow> rd8 a i; y \<leftarrow> rd8 b i; if x \<noteq> y then Some False else same_loop a b (i + 1) n }"

definition kb_is_data_same :: "kb_data_t \<Rightarrow> kb_data_t \<Rightarrow> bool option" where
  "kb_is_data_same a b =
     (if kd_cnt a \<noteq> kd_cnt b \<or> ctrl_key a \<noteq> ctrl_key b then Some False else same_loop (keycode a) (keycode b) 0 (unat (kd_cnt a)))"

definition usbkb_check_repeat_and_save :: "kb_data_t \<Rightarrow> ukb_state \<Rightarrow> (bool \<times> ukb_state) option" where
  "usbkb_check_repeat_and_save data s =
     do { same \<leftarrow> kb_is_data_same (last_data s) data; Some (same, if same then s else s\<lparr>last_data := data\<rparr>) }"

definition usbkb_hid_report :: "u32 \<Rightarrow> kb_data_t \<Rightarrow> ukb_state \<Rightarrow> ukb_state option" where
  "usbkb_hid_report now data s =
     (if unat (kd_cnt data) > KB_RETURN_KEY_MAX then Some s
      else do { (same, s0) \<leftarrow> (if kd_cnt data > 0 \<or> ctrl_key data \<noteq> 0 then usbkb_check_repeat_and_save data s else Some (False, s));
                if same \<and> usbkb_not_released s0 \<noteq> 0 then Some (s0\<lparr>usbkb_data_report_time := now\<rparr>)
                else do { (n, nk, e) \<leftarrow> (if kd_cnt data > 0
                                         then usbkb_separate_key_types (keycode data) (kd_cnt data) (replicate KEYBOARD_REPORT_KEY_MAX 0) VK_EXT_END
                                         else Some (0, replicate KEYBOARD_REPORT_KEY_MAX 0, VK_EXT_END));
                          s1 \<leftarrow> usbkb_report_normal_key (ctrl_key data) nk n s0;
                          s2 \<leftarrow> usbkb_report_sys_key e s1;
                          s3 \<leftarrow> usbkb_report_media_key e s2;
                          Some (s3\<lparr>usbkb_data_report_time := now\<rparr>) } })"

definition usbkb_report_frame :: "u32 \<Rightarrow> ukb_state \<Rightarrow> ukb_state option" where
  "usbkb_report_frame now s =
     (if usbkb_wptr s \<noteq> usbkb_rptr s
      then if unat (usbkb_rptr s) < length (kb_dat_buff s) then usbkb_hid_report now (kb_dat_buff s ! unat (usbkb_rptr s)) s else None
      else Some s)"

section \<open>Mouse\<close>

definition usbmouse_release_check :: "u32 \<Rightarrow> ukb_state \<Rightarrow> ukb_state option" where
  "usbmouse_release_check now s =
     (if usbmouse_not_released s \<noteq> 0 \<and> clock_time_exceed now (usbmouse_data_report_time s) USB_MOUSE_RELEASE_TIMEOUT
      then do { (ok, s1) \<leftarrow> usbmouse_hid_report USB_HID_MOUSE (replicate 4 0) MOUSE_REPORT_DATA_LEN s;
                Some (if ok then s1\<lparr>usbmouse_not_released := 0\<rparr> else s1) }
      else Some s)"

definition usbmouse_report_frame :: "u32 \<Rightarrow> ukb_state \<Rightarrow> ukb_state option" where
  "usbmouse_report_frame now s =
     (if usbmouse_wptr s \<noteq> usbmouse_rptr s
      then if unat (usbmouse_rptr s) < length (mouse_dat_buff s)
           then let d = mouse_dat_buff s ! unat (usbmouse_rptr s) in
             do { (ret, s1) \<leftarrow> usbmouse_hid_report USB_HID_MOUSE d MOUSE_REPORT_DATA_LEN s;
                  Some (if (\<forall>b \<in> set d. b = 0) \<and> ret then s1\<lparr>usbmouse_not_released := 0\<rparr>
                        else s1\<lparr>usbmouse_not_released := 1, usbmouse_data_report_time := now\<rparr>) }
           else None
      else Some s)"

section \<open>The report FIFO\<close>

text \<open>A ring of four slots that starts at \<open>r\<close> and holds \<open>n\<close> entries.\<close>

definition ring_4 :: "'a list \<Rightarrow> nat \<Rightarrow> nat \<Rightarrow> 'a list" where
  "ring_4 b r n = map (\<lambda>k. b ! ((r + k) mod 4)) [0..<n]"

lemma ring_4_get: "0 < n \<Longrightarrow> ring_4 b r n = b ! (r mod 4) # ring_4 b (r + 1) (n - 1)"
  by (cases n) (simp_all add: ring_4_def upt_0_Suc del: upt_Suc)

lemma ring_4_put:
  assumes "length b = 4" "n < 4"
  shows "ring_4 (b[(r + n) mod 4 := x]) r (n + 1) = ring_4 b r n @ [x]"
proof (rule nth_equalityI)
  fix k assume k: "k < length (ring_4 (b[(r + n) mod 4 := x]) r (n + 1))"
  show "ring_4 (b[(r + n) mod 4 := x]) r (n + 1) ! k = (ring_4 b r n @ [x]) ! k"
  proof (cases "k = n")
    case False
    then have "k < n" using k by (simp add: ring_4_def)
    then have "\<not> 4 dvd (r + n) - (r + k)" using assms(2) by (intro nat_dvd_not_less) auto
    then have "(r + n) mod 4 \<noteq> (r + k) mod 4" using \<open>k < n\<close> by (subst mod_eq_dvd_iff_nat) auto
    then show ?thesis using k False by (simp add: ring_4_def nth_append del: upt_Suc)
  qed (use assms in \<open>simp add: ring_4_def nth_append del: upt_Suc\<close>)
qed (simp add: ring_4_def)

lemma ring_4_overwrite:
  assumes "length b = 4"
  shows "ring_4 (b[r mod 4 := x]) (r + 1) 4 = drop 1 (ring_4 b r 4) @ [x]"
proof -
  have "ring_4 b r 4 = b ! (r mod 4) # ring_4 b (r + 1) 3" using ring_4_get [of 4 b r] by simp
  moreover have "(r + 1 + 3) mod 4 = r mod 4" by presburger
  ultimately show ?thesis using ring_4_put [OF assms, of 3 "r + 1" x] by simp
qed

definition ff_ok :: "ukb_state \<Rightarrow> bool" where
  "ff_ok s \<longleftrightarrow> length (usb_fifo s) = USB_FIFO_NUM \<and> (\<forall>d \<in> set (usb_fifo s). length d = USB_FIFO_SIZE)
     \<and> unat (usb_ff_wptr s - usb_ff_rptr s) \<le> USB_FIFO_NUM"

definition ff_queue :: "ukb_state \<Rightarrow> bytes list" where
  "ff_queue s = ring_4 (usb_fifo s) (unat (usb_ff_rptr s)) (unat (usb_ff_wptr s - usb_ff_rptr s))"

lemma unat_and_3: "unat (w AND 3 :: u8) = unat w mod 4"
  using unat_and_mask_pow2 [of "3 :: u8" 2 w] by simp

lemma ring_4_mod: "r mod 4 = r' mod 4 \<Longrightarrow> ring_4 b r n = ring_4 b r' n"
  by (simp add: ring_4_def mod_add_left_eq [of r 4, symmetric]) (simp add: mod_add_left_eq)

lemma unat_succ_mod_4: "unat (r + 1 :: u8) mod 4 = (unat r + 1) mod 4"
  by (simp add: unat_word_ariths mod_mod_cancel)

lemma int_diff_mod_8: "(uint (w :: u8) - uint r) AND 7 = int (unat (w - r) mod 8)"
proof -
  have "uint (w - r) = (uint w - uint r) mod 256" by (simp add: uint_word_ariths)
  then have "uint (w - r) mod 8 = (uint w - uint r) mod 8" by (simp add: mod_mod_cancel)
  then show ?thesis by (simp add: and_7 unsigned_of_nat zmod_int flip: uint_nat)
qed

lemma usb_fifo_put_ok:
  assumes "ff_ok s" "length h \<le> off" "off + length d \<le> 8"
  shows "\<exists>s' x. usb_fifo_put h off d s = Some s' \<and> ff_ok s' \<and> length x = 8 \<and> take (length h) x = h \<and> take (length d) (drop off x) = d
     \<and> ff_queue s' = (let q = ff_queue s @ [x] in drop (length q - 4) q)
     \<and> s' = s\<lparr>usb_fifo := usb_fifo s', usb_ff_wptr := usb_ff_wptr s', usb_ff_rptr := usb_ff_rptr s'\<rparr>"
proof -
  let ?w = "usb_ff_wptr s" and ?r = "usb_ff_rptr s"
  define n where "n = unat (?w - ?r)"
  have b: "length (usb_fifo s) = 4" "\<forall>d \<in> set (usb_fifo s). length d = 8" "n \<le> 4"
    using assms(1) by (simp_all add: ff_ok_def n_def USB_FIFO_NUM_def USB_FIFO_SIZE_def)
  define i where "i = unat (?w AND 3)"
  have w: "?w = ?r + of_nat n" by (simp add: n_def)
  have "unat ?w = (unat ?r + n) mod 256" unfolding w using b(3) by (simp add: unat_word_ariths unat_of_nat)
  then have i: "i = (unat ?r + n) mod 4" by (simp add: i_def unat_and_3 mod_mod_cancel)
  have i4: "i < length (usb_fifo s)" using b(1) by (simp add: i)
  then have sl: "length (usb_fifo s ! i) = 8" using b(2) by simp
  obtain a where a: "wr_range (usb_fifo s ! i) 0 h = Some a" "length a = 8" "take (length h) a = h"
    using assms(2,3) sl by (auto simp: wr_range_def)
  define x where "x = take off a @ d @ drop (off + length d) a"
  have wx: "wr_range a off d = Some x" using assms(3) a(2) by (simp add: wr_range_def x_def)
  have x: "length x = 8" "take (length h) x = h" "take (length d) (drop off x) = d"
    using assms(2,3) a(2,3) by (simp_all add: x_def min_absorb1)
  have n1: "unat (?w + 1 - ?r) = n + 1" unfolding w using b(3) by (simp add: unat_word_ariths unat_of_nat)
  have over: "(uint (?w + 1) - uint ?r) AND 7 > 4 \<longleftrightarrow> n = 4" unfolding int_diff_mod_8 n1 using b(3) by auto
  define s' where "s' = s\<lparr>usb_fifo := (usb_fifo s)[i := x], usb_ff_wptr := ?w + 1, usb_ff_rptr := (if n = 4 then ?r + 1 else ?r)\<rparr>"
  have p: "usb_fifo_put h off d s = Some s'"
    using i4 a(1) wx over unfolding usb_fifo_put_def Let_def i_def [symmetric] s'_def by simp
  have q: "length (ff_queue s) = n" by (simp add: ff_queue_def ring_4_def n_def)
  have "ff_queue s' = (let q = ff_queue s @ [x] in drop (length q - 4) q) \<and> unat (usb_ff_wptr s' - usb_ff_rptr s') \<le> 4"
  proof (cases "n = 4")
    case True
    have d4: "unat (?w + 1 - (?r + 1)) = 4" using True n_def by simp
    have "ff_queue s' = ring_4 ((usb_fifo s)[unat ?r mod 4 := x]) (unat ?r + 1) 4"
      using True d4 i ring_4_mod [OF unat_succ_mod_4] by (simp add: ff_queue_def s'_def)
    also have "\<dots> = drop 1 (ff_queue s) @ [x]" using ring_4_overwrite [OF b(1)] True by (simp add: ff_queue_def n_def)
    finally show ?thesis using True q d4 by (simp add: Let_def s'_def)
  next
    case False
    then have "n < 4" using b(3) by simp
    then have "ff_queue s' = ff_queue s @ [x]"
      using ring_4_put [OF b(1), of n "unat ?r" x] n1 False i by (simp add: ff_queue_def s'_def n_def)
    then show ?thesis using \<open>n < 4\<close> q n1 by (simp add: Let_def s'_def)
  qed
  moreover have "\<forall>d \<in> set (usb_fifo s'). length d = 8" using b(2) x(1) set_update_subset_insert [of "usb_fifo s" i x] by (auto simp: s'_def)
  ultimately have "ff_ok s'" "ff_queue s' = (let q = ff_queue s @ [x] in drop (length q - 4) q)"
    using b(1) by (simp_all add: ff_ok_def USB_FIFO_NUM_def USB_FIFO_SIZE_def s'_def)
  then show ?thesis using p x by (intro exI [of _ s'] exI [of _ x]) (simp add: s'_def)
qed

definition ukb_zero :: ukb_state where
  "ukb_zero = \<lparr>usb_fifo = replicate 4 (replicate 8 0), usb_ff_rptr = 0, usb_ff_wptr = 0,
     kb_dat_buff = replicate 8 \<lparr>kd_cnt = 0, ctrl_key = 0, keycode = replicate 6 0\<rparr>, usbkb_wptr = 0, usbkb_rptr = 0, usbkb_not_released = 0,
     usbkb_data_report_time = 0, last_data = \<lparr>kd_cnt = 0, ctrl_key = 0, keycode = replicate 6 0\<rparr>, mouse_dat_buff = replicate 8 (replicate 4 0),
     usbmouse_wptr = 0, usbmouse_rptr = 0, usbmouse_not_released = 0, usbmouse_data_report_time = 0, usb_mouse_report_proto = 1,
     edp_toggle = (\<lambda>_. 0), ep_busy = (\<lambda>_. False), usb_sent = []\<rparr>"

definition kd_of :: "u8 \<Rightarrow> bytes \<Rightarrow> kb_data_t" where
  "kd_of c ks = \<lparr>kd_cnt = of_nat (length ks), ctrl_key = c, keycode = ks @ replicate (6 - length ks) 0\<rparr>"

text \<open>A report, as a waiting slot holds it and as it goes to the host (in the boot protocol of the mouse only three bytes).\<close>

datatype hid_report = Kb_Report u8 bytes | Mouse_Report u8 bytes | No_Report

definition slot_report :: "bytes \<Rightarrow> hid_report" where
  "slot_report x =
     (if x ! 0 = DAT_TYPE_KB then Kb_Report (x ! 1) (drop 2 x)
      else if x ! 0 = DAT_TYPE_MOUSE \<and> unat (x ! 2) \<le> 4 then Mouse_Report (x ! 1) (take (unat (x ! 2)) (drop 4 x))
      else No_Report)"

definition waiting :: "ukb_state \<Rightarrow> hid_report list" where
  "waiting s = map slot_report (ff_queue s)"

fun hid_ok :: "bool \<Rightarrow> hid_report \<Rightarrow> bool" where
  "hid_ok boot (Kb_Report ctrl codes) = (length codes = 6)"
| "hid_ok boot (Mouse_Report i d) = (length d \<le> 4 \<and> (boot \<longrightarrow> 3 \<le> length d))"
| "hid_ok boot No_Report = False"

fun hid_ep :: "hid_report \<Rightarrow> u8" where
  "hid_ep (Mouse_Report i d) = USB_EDP_MOUSE"
| "hid_ep _ = USB_EDP_KEYBOARD_IN"

fun hid_packet :: "bool \<Rightarrow> hid_report \<Rightarrow> bytes" where
  "hid_packet boot (Kb_Report ctrl codes) = ctrl # 0 # codes"
| "hid_packet boot (Mouse_Report i d) = (if boot then take 3 d else i # d)"
| "hid_packet boot No_Report = []"

text \<open>The function of the source that makes the report.\<close>

fun hid_report_call :: "hid_report \<Rightarrow> ukb_state \<Rightarrow> (bool \<times> ukb_state) option" where
  "hid_report_call (Kb_Report ctrl codes) s = usbkb_hid_report_normal ctrl codes s"
| "hid_report_call (Mouse_Report i d) s = usbmouse_hid_report i d (length d) s"
| "hid_report_call No_Report s = None"

lemma ff_pop:
  assumes "ff_ok s" "ff_queue s = x # q"
  shows "usb_ff_rptr s \<noteq> usb_ff_wptr s" "unat (usb_ff_rptr s AND 3) < length (usb_fifo s)" "usb_fifo s ! unat (usb_ff_rptr s AND 3) = x"
    "length x = 8"
    "usb_fifo t = usb_fifo s \<Longrightarrow> usb_ff_wptr t = usb_ff_wptr s \<Longrightarrow> usb_ff_rptr t = usb_ff_rptr s + 1 \<Longrightarrow> ff_ok t \<and> ff_queue t = q"
proof -
  let ?r = "usb_ff_rptr s" and ?w = "usb_ff_wptr s"
  have n: "0 < unat (?w - ?r)" using assms(2) by (cases "unat (?w - ?r)") (auto simp: ff_queue_def ring_4_def)
  have g: "usb_fifo s ! unat (?r AND 3) = x" "ring_4 (usb_fifo s) (unat ?r + 1) (unat (?w - ?r) - 1) = q"
    using assms(2) ring_4_get [OF n, of "usb_fifo s" "unat ?r"] by (simp_all add: ff_queue_def unat_and_3)
  show "?r \<noteq> ?w" using n by auto
  show "usb_fifo s ! unat (?r AND 3) = x" by (rule g(1))
  show i: "unat (?r AND 3) < length (usb_fifo s)" using assms(1) by (simp add: ff_ok_def USB_FIFO_NUM_def unat_and_3)
  show "length x = 8" using assms(1) i g(1) nth_mem by (fastforce simp: ff_ok_def USB_FIFO_SIZE_def)
  have m1: "unat (?w - (?r + 1)) = unat (?w - ?r) - 1"
    using unat_minus_one [of "?w - ?r"] n by (metis diff_diff_eq less_irrefl unsigned_0)
  show "ff_ok t \<and> ff_queue t = q" if "usb_fifo t = usb_fifo s" "usb_ff_wptr t = ?w" "usb_ff_rptr t = ?r + 1"
    using that assms(1) m1 g(2) ring_4_mod [OF unat_succ_mod_4, of "usb_fifo s" ?r] by (auto simp: ff_ok_def ff_queue_def)
qed

lemma drop_map_last: "map f (drop (length q - 4) q) = drop (length (map f q) - 4) (map f q)"
  by (simp add: drop_map)

lemma report_queued:
  assumes "ff_ok s" "hid_ok (usb_mouse_report_proto s = 0) r" "ep_busy s (hid_ep r)"
  shows "\<exists>s'. hid_report_call r s = Some (False, s') \<and> ff_ok s' \<and> usb_sent s' = usb_sent s \<and> usbkb_not_released s' = usbkb_not_released s
     \<and> ep_busy s' = ep_busy s \<and> edp_toggle s' = edp_toggle s \<and> usb_mouse_report_proto s' = usb_mouse_report_proto s
     \<and> waiting s' = (let q = waiting s @ [r] in drop (length q - 4) q)"
proof -
  obtain h off d where d: "hid_report_call r s = map_option (Pair False) (usb_fifo_put h off d s)" "length h \<le> off" "off + length d \<le> 8"
      "\<And>x. length x = 8 \<Longrightarrow> take (length h) x = h \<Longrightarrow> take (length d) (drop off x) = d \<Longrightarrow> slot_report x = r"
  proof (cases r)
    case (Kb_Report ctrl codes)
    have "slot_report x = r" if "length x = 8" "take 2 x = [DAT_TYPE_KB, ctrl]" "take 6 (drop 2 x) = codes" for x
    proof -
      have "drop 2 x = codes" using that by simp
      then have "x = DAT_TYPE_KB # ctrl # codes" using append_take_drop_id [of 2 x] that(2) by simp
      then show ?thesis using Kb_Report by (simp add: slot_report_def)
    qed
    then show ?thesis using that [of "[DAT_TYPE_KB, ctrl]" 2 codes] Kb_Report assms(2,3)
      by (auto simp: usbkb_hid_report_normal_def rd_range_def KEYBOARD_REPORT_KEY_MAX_def numeral_2_eq_2)
  next
    case (Mouse_Report i d)
    have l: "length d \<le> 4" "unat (of_nat (length d) :: u8) = length d" using Mouse_Report assms(2) by (simp_all add: unat_of_nat)
    have "slot_report x = r" if "length x = 8" "take 3 x = [DAT_TYPE_MOUSE, i, of_nat (length d)]" "take (length d) (drop 4 x) = d" for x
    proof -
      have "x = [DAT_TYPE_MOUSE, i, of_nat (length d)] @ drop 3 x" using append_take_drop_id [of 3 x] that(2) by simp
      then have "x ! 0 = DAT_TYPE_MOUSE" "x ! 1 = i" "x ! 2 = of_nat (length d)"
        by (metis nth_Cons_0 append_Cons, metis nth_Cons_0 nth_Cons_Suc One_nat_def append_Cons, metis nth_Cons_0 nth_Cons_Suc numeral_2_eq_2 append_Cons)
      then show ?thesis using Mouse_Report l that(3) by (simp add: slot_report_def DAT_TYPE_KB_def DAT_TYPE_MOUSE_def)
    qed
    then show ?thesis using that [of "[DAT_TYPE_MOUSE, i, of_nat (length d)]" 4 d] Mouse_Report assms(2,3)
      by (auto simp: usbmouse_hid_report_def rd_range_def numeral_3_eq_3)
  qed (use assms(2) in simp)
  obtain s' x where p: "usb_fifo_put h off d s = Some s'" "ff_ok s'" "slot_report x = r"
      "ff_queue s' = (let q = ff_queue s @ [x] in drop (length q - 4) q)"
      "s' = s\<lparr>usb_fifo := usb_fifo s', usb_ff_wptr := usb_ff_wptr s', usb_ff_rptr := usb_ff_rptr s'\<rparr>"
    using usb_fifo_put_ok [OF assms(1) d(2,3)] d(4) by blast
  have "usb_sent s' = usb_sent s" "usbkb_not_released s' = usbkb_not_released s" "ep_busy s' = ep_busy s" "edp_toggle s' = edp_toggle s"
      "usb_mouse_report_proto s' = usb_mouse_report_proto s"
    by (subst p(5), simp)+
  then show ?thesis using d(1) p(1-4) by (simp add: waiting_def Let_def drop_map)
qed

lemma report_sent:
  assumes "hid_ok (usb_mouse_report_proto s = 0) r" "\<not> ep_busy s (hid_ep r)"
  shows "hid_report_call r s = Some (True, ep_send (hid_ep r) (hid_packet (usb_mouse_report_proto s = 0) r) s)"
  using assms by (cases r) (auto simp: usbkb_hid_report_normal_def usbmouse_hid_report_def rd_range_def KEYBOARD_REPORT_KEY_MAX_def)

lemma report_popped:
  assumes "ff_ok s" "hid_ok (usb_mouse_report_proto s = 0) r" "waiting s = r # q"
  shows "if ep_busy s (hid_ep r) then usb_hid_report_fifo_proc s = Some (False, s)
     else \<exists>s'. usb_hid_report_fifo_proc s = Some (True, s') \<and> ff_ok s' \<and> waiting s' = q
       \<and> s' = (ep_send (hid_ep r) (hid_packet (usb_mouse_report_proto s = 0) r) s)\<lparr>usb_ff_rptr := usb_ff_rptr s + 1\<rparr>"
proof -
  obtain x xs where x: "ff_queue s = x # xs" "slot_report x = r" "map slot_report xs = q" using assms(3) by (auto simp: waiting_def)
  note pop = ff_pop [OF assms(1) x(1)]
  let ?s = "(ep_send (hid_ep r) (hid_packet (usb_mouse_report_proto s = 0) r) s)\<lparr>usb_ff_rptr := usb_ff_rptr s + 1\<rparr>"
  have q: "ff_ok ?s \<and> waiting ?s = q" using pop(5) [of ?s] x(3) by (simp add: ep_send_def waiting_def)
  have "usb_hid_report_fifo_proc s = (if ep_busy s (hid_ep r) then Some (False, s) else Some (True, ?s))"
  proof (cases r)
    case (Kb_Report ctrl codes)
    then have k: "x ! 0 = DAT_TYPE_KB" "x ! 1 = ctrl" "drop 2 x = codes" using x(2) by (auto simp: slot_report_def split: if_splits)
    then show ?thesis using Kb_Report pop(1-4) report_sent [OF assms(2)] unfolding usb_hid_report_fifo_proc_def Let_def pop(3)
      by (simp add: ep_send_def)
  next
    case (Mouse_Report i d)
    then have m: "x ! 0 = DAT_TYPE_MOUSE" "DAT_TYPE_MOUSE \<noteq> DAT_TYPE_KB" "x ! 1 = i" "unat (x ! 2) \<le> 4" "take (unat (x ! 2)) (drop 4 x) = d"
      using x(2) by (auto simp: slot_report_def DAT_TYPE_MOUSE_def DAT_TYPE_KB_def split: if_splits)
    have l: "length d = unat (x ! 2)" using m(4,5) pop(4) by auto
    have b: "take 3 (drop 4 x) = take 3 d" if "3 \<le> length d" using that l m(5) by (metis min_absorb1 take_take)
    have "usbmouse_hid_report i (drop 4 x) (unat (x ! 2)) s = Some (True, ep_send USB_EDP_MOUSE (hid_packet (usb_mouse_report_proto s = 0) r) s)"
      if "\<not> ep_busy s USB_EDP_MOUSE"
      using that assms(2) Mouse_Report m(4,5) l b pop(4) by (auto simp: usbmouse_hid_report_def rd_range_def)
    then show ?thesis using Mouse_Report m pop(1-4) unfolding usb_hid_report_fifo_proc_def Let_def pop(3)
      by (simp add: ep_send_def)
  qed (use assms(2) in simp)
  then show ?thesis using q by auto
qed

text \<open>
  C20.  The keyboard and the mouse functions share one queue of at most four waiting reports (a mouse report has at most
  four data bytes, and at least three in the boot protocol).  A report made while its
  endpoint is busy is appended, and the oldest waiting report is given up when there are already four; one
  made while its endpoint is free is sent at once, past the waiting ones.  \<^verbatim>\<open>usb_hid_report_fifo_proc\<close> sends exactly the
  oldest waiting report, with the data it was made from, and removes it; while the endpoint of the oldest one is
  busy, or nothing waits, it does nothing.
\<close>

theorem usb_report_fifo_queue:
  assumes "ff_ok s" "hid_ok (usb_mouse_report_proto s = 0) r"
  shows "let ep = hid_ep r; sent = [(ep, edp_toggle s ep, hid_packet (usb_mouse_report_proto s = 0) r)] in
       (ep_busy s ep \<longrightarrow> (\<exists>s'. hid_report_call r s = Some (False, s') \<and> ff_ok s' \<and> usb_sent s' = usb_sent s
          \<and> waiting s' = (let q = waiting s @ [r] in drop (length q - 4) q)))
     \<and> (\<not> ep_busy s ep \<longrightarrow> (\<exists>s'. hid_report_call r s = Some (True, s') \<and> ff_ok s' \<and> usb_sent s' = usb_sent s @ sent \<and> waiting s' = waiting s))
     \<and> (\<forall>q. waiting s = r # q \<longrightarrow> (if ep_busy s ep then usb_hid_report_fifo_proc s = Some (False, s)
          else \<exists>s'. usb_hid_report_fifo_proc s = Some (True, s') \<and> ff_ok s' \<and> usb_sent s' = usb_sent s @ sent \<and> waiting s' = q))
     \<and> (waiting s = [] \<longrightarrow> usb_hid_report_fifo_proc s = Some (False, s))"
proof -
  have free: "\<exists>s'. hid_report_call r s = Some (True, s') \<and> ff_ok s' \<and> waiting s' = waiting s
      \<and> usb_sent s' = usb_sent s @ [(hid_ep r, edp_toggle s (hid_ep r), hid_packet (usb_mouse_report_proto s = 0) r)]" if "\<not> ep_busy s (hid_ep r)"
    using report_sent [OF assms(2) that] assms(1) by (auto simp: ep_send_def ff_ok_def waiting_def ff_queue_def)
  have pop: "if ep_busy s (hid_ep r) then usb_hid_report_fifo_proc s = Some (False, s)
      else \<exists>s'. usb_hid_report_fifo_proc s = Some (True, s') \<and> ff_ok s' \<and> waiting s' = q
        \<and> usb_sent s' = usb_sent s @ [(hid_ep r, edp_toggle s (hid_ep r), hid_packet (usb_mouse_report_proto s = 0) r)]" if "waiting s = r # q" for q
    using report_popped [OF assms that] by (auto simp: ep_send_def split: if_splits)
  have none: "usb_hid_report_fifo_proc s = Some (False, s)" if "waiting s = []"
  proof -
    have "unat (usb_ff_wptr s - usb_ff_rptr s) = 0" using that by (simp add: waiting_def ff_queue_def ring_4_def)
    then have "usb_ff_rptr s = usb_ff_wptr s" by (metis eq_iff_diff_eq_0 unat_eq_zero)
    then show ?thesis by (simp add: usb_hid_report_fifo_proc_def)
  qed
  show ?thesis unfolding Let_def using report_queued [OF assms] free pop none by (auto simp: Let_def)
qed

theorem usb_report_fifo_queue_witness:
  "\<exists>s'. usbmouse_hid_report 1 [5, 6, 7, 8] 4 (ukb_zero\<lparr>ep_busy := (\<lambda>_. True)\<rparr>) = Some (False, s') \<and> waiting s' = [Mouse_Report 1 [5, 6, 7, 8]]"
proof -
  let ?s = "ukb_zero\<lparr>ep_busy := (\<lambda>_. True)\<rparr>"
  have "ff_ok ?s" "hid_ok (usb_mouse_report_proto ?s = 0) (Mouse_Report 1 [5, 6, 7, 8])" "waiting ?s = []" "ep_busy ?s e" for e
    by (simp_all add: ff_ok_def ukb_zero_def USB_FIFO_NUM_def USB_FIFO_SIZE_def waiting_def ff_queue_def ring_4_def)
  moreover have "hid_report_call (Mouse_Report 1 [5, 6, 7, 8]) ?s = usbmouse_hid_report 1 [5, 6, 7, 8] 4 ?s" by (simp add: numeral_eq_Suc)
  ultimately show ?thesis using usb_report_fifo_queue [of ?s "Mouse_Report 1 [5, 6, 7, 8]"]
    by (auto simp: Let_def simp del: hid_report_call.simps)
qed

section \<open>Reports\<close>

definition last_ext :: "u8 \<Rightarrow> bytes \<Rightarrow> u8" where
  "last_ext e ks = (if filter is_ext ks = [] then e else last (filter is_ext ks))"

lemma separate_loop_ok:
  assumes "i + n \<le> length codes" "m + n \<le> length nk"
  shows "separate_loop codes i n nk e m =
     (let ks = take n (drop i codes); N = filter (\<lambda>k. \<not> is_ext k) ks in
      Some (m + length N, take m nk @ N @ drop (m + length N) nk, last_ext e ks))"
  using assms
proof (induction n arbitrary: i nk e m)
  case (Suc n)
  have i: "i < length codes" "m < length nk" using Suc.prems by auto
  have t: "take (Suc n) (drop i codes) = codes ! i # take n (drop (i + 1) codes)"
    using i(1) by (simp add: take_Suc Cons_nth_drop_Suc [symmetric])
  have nk: "take (m + 1) (nk[m := k]) = take m nk @ [k]" for k
    using i(2) by (simp add: take_Suc_conv_app_nth)
  show ?case
  proof (cases "is_ext (codes ! i)")
    case True
    then show ?thesis using Suc.IH [of "i + 1" m nk "codes ! i"] Suc.prems i unfolding t
      by (simp add: rd8_def Let_def last_ext_def)
  next
    case False
    then show ?thesis using Suc.IH [of "i + 1" "m + 1" "nk[m := codes ! i]" e] Suc.prems i nk unfolding t
      by (simp add: rd8_def wr8_def Let_def last_ext_def)
  qed
qed (simp add: last_ext_def Let_def)

lemma same_loop_some: "i + n \<le> length a \<Longrightarrow> i + n \<le> length b \<Longrightarrow> \<exists>r. same_loop a b i n = Some r"
  by (induction n arbitrary: i) (auto simp: rd8_def)

lemma usbkb_check_ok:
  assumes "length (keycode (last_data s)) = 6" "length (keycode d) = 6" "unat (kd_cnt d) \<le> 6"
  shows "\<exists>r l. usbkb_check_repeat_and_save d s = Some (r, s\<lparr>last_data := l\<rparr>)"
proof -
  obtain r where r: "kb_is_data_same (last_data s) d = Some r"
  proof (cases "kd_cnt (last_data s) = kd_cnt d \<and> ctrl_key (last_data s) = ctrl_key d")
    case True
    then show ?thesis using same_loop_some [of 0 "unat (kd_cnt d)" "keycode (last_data s)" "keycode d"] assms that by (auto simp: kb_is_data_same_def)
  qed (auto simp: kb_is_data_same_def that)
  have "usbkb_check_repeat_and_save d s = Some (r, s\<lparr>last_data := if r then last_data s else d\<rparr>)" using r by (simp add: usbkb_check_repeat_and_save_def)
  then show ?thesis by blast
qed

text \<open>What an event of ordinary keys amounts to while no key is marked as pressed: one keyboard report, accepted or queued.\<close>

lemma usbkb_event_step:
  assumes "length ks \<le> 6" "\<forall>k \<in> set ks. \<not> is_ext k" "ks \<noteq> [] \<or> c \<noteq> 0" "length (keycode (last_data s)) = 6" "usbkb_not_released s = 0"
  shows "\<exists>l. \<forall>ok t. usbkb_hid_report_normal c (ks @ replicate (6 - length ks) 0) (s\<lparr>last_data := l\<rparr>) = Some (ok, t)
       \<and> usbkb_not_released t = 0 \<longrightarrow>
     usbkb_hid_report now (kd_of c ks) s
       = Some (t\<lparr>usbkb_not_released := (if ok then KB_NORMAL_RELEASE_MASK else 0), usbkb_data_report_time := now\<rparr>)"
proof -
  let ?d = "kd_of c ks"
  have cnt: "unat (kd_cnt ?d) = length ks" "length (keycode ?d) = 6" "ctrl_key ?d = c" using assms(1) by (simp_all add: kd_of_def unat_of_nat)
  have take: "take (length ks) (keycode ?d) = ks" by (simp add: kd_of_def)
  have no: "filter (\<lambda>k. \<not> is_ext k) ks = ks" "filter is_ext ks = []" using assms(2) by (auto simp: filter_empty_conv)
  obtain r l where chk: "usbkb_check_repeat_and_save ?d s = Some (r, s\<lparr>last_data := l\<rparr>)"
    using usbkb_check_ok [OF assms(4), of ?d] cnt assms(1) by auto
  have ne: "kd_cnt ?d > 0 \<longleftrightarrow> ks \<noteq> []" using cnt(1) by (metis length_0_conv unsigned_0 word_gt_0 unat_eq_zero)
  have sep: "usbkb_separate_key_types (keycode ?d) (kd_cnt ?d) (replicate 6 0) VK_EXT_END = Some (length ks, ks @ replicate (6 - length ks) 0, VK_EXT_END)"
    unfolding usbkb_separate_key_types_def cnt(1)
    by (subst separate_loop_ok) (use cnt(2) assms(1) no take in \<open>simp_all add: Let_def last_ext_def\<close>)
  define s0 where "s0 = s\<lparr>last_data := l\<rparr>"
  have s0: "usbkb_not_released s0 = 0" using assms(5) by (simp add: s0_def)
  have "usbkb_hid_report now ?d s = Some (t\<lparr>usbkb_not_released := (if ok then KB_NORMAL_RELEASE_MASK else 0), usbkb_data_report_time := now\<rparr>)"
    if t: "usbkb_hid_report_normal c (ks @ replicate (6 - length ks) 0) s0 = Some (ok, t)" "usbkb_not_released t = 0" for ok t
  proof -
    define s1 where "s1 = t\<lparr>usbkb_not_released := (if ok then KB_NORMAL_RELEASE_MASK else 0)\<rparr>"
    have "usbkb_report_normal_key c (ks @ replicate (6 - length ks) 0) (length ks) s0 = Some s1"
      using assms(3) t by (auto simp: usbkb_report_normal_key_def set_if_def s1_def)
    moreover have "usbkb_report_sys_key VK_EXT_END s1 = Some s1" "usbkb_report_media_key VK_EXT_END s1 = Some s1"
      by (simp_all add: s1_def usbkb_report_sys_key_def usbkb_report_media_key_def usbkb_release_sys_key_def usbkb_release_media_key_def
          VK_EXT_END_def VK_SYS_END_def VK_MEDIA_END_def KB_NORMAL_RELEASE_MASK_def KB_SYS_RELEASE_MASK_def KB_MEDIA_RELEASE_MASK_def)
    ultimately show ?thesis
      using chk sep ne cnt assms(1,3) s0 unfolding usbkb_hid_report_def s0_def [symmetric]
      by (cases "ks = []") (simp_all add: KB_RETURN_KEY_MAX_def KEYBOARD_REPORT_KEY_MAX_def s1_def)
  qed
  then show ?thesis unfolding s0_def by blast
qed

text \<open>
  C21.  A key event reaches the host unchanged: while the keyboard endpoint is idle and no key is marked as
  pressed, an event with at most six ordinary codes (none of the system and media range) sends one keyboard report with the
  modifier byte and the keys of the event in their order, padded with zeros, and marks the keys as pressed.
\<close>

theorem usbkb_event_reported:
  assumes "\<not> ep_busy s USB_EDP_KEYBOARD_IN" "length ks \<le> 6" "\<forall>k \<in> set ks. \<not> is_ext k" "ks \<noteq> [] \<or> c \<noteq> 0"
    and "length (keycode (last_data s)) = 6" "usbkb_not_released s = 0"
  shows "\<exists>s'. usbkb_hid_report now (kd_of c ks) s = Some s' \<and> usbkb_not_released s' = KB_NORMAL_RELEASE_MASK \<and> usbkb_data_report_time s' = now
     \<and> usb_sent s' = usb_sent s @ [(USB_EDP_KEYBOARD_IN, edp_toggle s USB_EDP_KEYBOARD_IN, c # 0 # ks @ replicate (6 - length ks) 0)]"
proof -
  obtain l where l: "\<And>ok t. usbkb_hid_report_normal c (ks @ replicate (6 - length ks) 0) (s\<lparr>last_data := l\<rparr>) = Some (ok, t)
       \<and> usbkb_not_released t = 0 \<Longrightarrow> usbkb_hid_report now (kd_of c ks) s
         = Some (t\<lparr>usbkb_not_released := (if ok then KB_NORMAL_RELEASE_MASK else 0), usbkb_data_report_time := now\<rparr>)"
    using usbkb_event_step [OF assms(2-6), of now] by blast
  have "usbkb_hid_report_normal c (ks @ replicate (6 - length ks) 0) (s\<lparr>last_data := l\<rparr>)
      = Some (True, ep_send USB_EDP_KEYBOARD_IN (c # 0 # ks @ replicate (6 - length ks) 0) (s\<lparr>last_data := l\<rparr>))"
    using assms(1,2) by (simp add: usbkb_hid_report_normal_def rd_range_def KEYBOARD_REPORT_KEY_MAX_def)
  then show ?thesis using l assms(6) by (fastforce simp: ep_send_def)
qed

theorem usbkb_event_reported_witness:
  "\<exists>s'. usbkb_hid_report 100 (kd_of 2 [4, 5]) ukb_zero = Some s' \<and> usb_sent s' = [(1, 0, [2, 0, 4, 5, 0, 0, 0, 0])]"
proof -
  have "replicate (6 - length [4, 5 :: u8]) 0 = [0, 0, 0, 0 :: u8]" by (simp add: numeral_eq_Suc)
  then show ?thesis using usbkb_event_reported [of ukb_zero "[4, 5]" 2 100]
    by (simp add: is_ext_def VK_EXT_START_def USB_EDP_KEYBOARD_IN_def) (auto simp: ukb_zero_def)
qed

section \<open>Lost releases and swapped keys\<close>

text \<open>Later calls with the keyboard endpoint idle: the event of the empty keyboard, or the release check.\<close>

fun idle_calls :: "(bool \<times> u32) list \<Rightarrow> ukb_state \<Rightarrow> ukb_state option" where
  "idle_calls [] s = Some s"
| "idle_calls ((e, now) # cs) s =
     do { s1 \<leftarrow> (if e then usbkb_hid_report now (kd_of 0 []) (host_fetch USB_EDP_KEYBOARD_IN s)
                 else usbkb_release_check now (host_fetch USB_EDP_KEYBOARD_IN s));
          idle_calls cs s1 }"

lemma idle_calls_silent:
  assumes "usbkb_not_released s = 0" "waiting s = []"
  shows "\<exists>t. idle_calls cs s = Some t \<and> usb_sent t = usb_sent s \<and> waiting t = [] \<and> usbkb_not_released t = 0"
  using assms
proof (induction cs arbitrary: s)
  case (Cons a cs)
  obtain e now where a: "a = (e, now)" by fastforce
  let ?s = "host_fetch USB_EDP_KEYBOARD_IN s"
  let ?t = "if e then ?s\<lparr>usbkb_data_report_time := now\<rparr> else ?s"
  have z: "usbkb_not_released ?s = 0" "waiting ?t = []" "usb_sent ?t = usb_sent s" "usbkb_not_released ?t = 0"
    using Cons.prems by (simp_all add: host_fetch_def waiting_def ff_queue_def)
  have "usbkb_hid_report now (kd_of 0 []) ?s = Some (?s\<lparr>usbkb_data_report_time := now\<rparr>)"
    using z(1) by (simp add: usbkb_hid_report_def kd_of_def usbkb_report_normal_key_def usbkb_release_normal_key_def usbkb_report_sys_key_def
        usbkb_report_media_key_def usbkb_release_sys_key_def usbkb_release_media_key_def VK_EXT_END_def VK_SYS_END_def VK_MEDIA_END_def)
  moreover have "usbkb_release_check now ?s = Some ?s" using z(1) by (simp add: usbkb_release_check_def)
  ultimately have "idle_calls (a # cs) s = idle_calls cs ?t" by (simp add: a)
  then show ?case using Cons.IH [of ?t] z(2-4) by simp
qed simp

text \<open>
  C40.  A key whose report had to be queued is never released.  While no key is marked as pressed and no
  report waits, an event of any ordinary keys at any time finds the keyboard endpoint busy: its report is queued
  without marking the keys as pressed.  The queue then sends the press, but neither the event of the empty
  keyboard nor the release timeout, at any later time and any number of times, sends or queues anything: the press is
  the last report the host sees.
\<close>

theorem queued_key_never_released:
  assumes "ff_ok s" "waiting s = []" "usbkb_not_released s = 0" "ep_busy s USB_EDP_KEYBOARD_IN" "length (keycode (last_data s)) = 6"
    and "ks \<noteq> [] \<or> c \<noteq> 0" "length ks \<le> 6" "\<forall>k \<in> set ks. \<not> is_ext k"
  shows "\<exists>s1 s2 s3. usbkb_hid_report now (kd_of c ks) s = Some s1 \<and> usb_sent s1 = usb_sent s
     \<and> usb_hid_report_fifo_proc (host_fetch USB_EDP_KEYBOARD_IN s1) = Some (True, s2)
     \<and> usb_sent s2 = usb_sent s @ [(USB_EDP_KEYBOARD_IN, edp_toggle s USB_EDP_KEYBOARD_IN, c # 0 # ks @ replicate (6 - length ks) 0)]
     \<and> idle_calls cs s2 = Some s3 \<and> usb_sent s3 = usb_sent s2 \<and> waiting s3 = []"
proof -
  let ?ks = "ks @ replicate (6 - length ks) 0"
  obtain l where l: "\<And>ok t. usbkb_hid_report_normal c ?ks (s\<lparr>last_data := l\<rparr>) = Some (ok, t) \<and> usbkb_not_released t = 0 \<Longrightarrow>
      usbkb_hid_report now (kd_of c ks) s
        = Some (t\<lparr>usbkb_not_released := (if ok then KB_NORMAL_RELEASE_MASK else 0), usbkb_data_report_time := now\<rparr>)"
    using usbkb_event_step [OF assms(7,8,6,5,3), of now] by blast
  let ?s = "s\<lparr>last_data := l\<rparr>" and ?r = "Kb_Report c ?ks"
  have z: "ff_ok ?s" "hid_ok (usb_mouse_report_proto ?s = 0) ?r" "ep_busy ?s (hid_ep ?r)" "waiting ?s = []"
    using assms(1,2,4,7) by (simp_all add: ff_ok_def waiting_def ff_queue_def)
  obtain t where t: "usbkb_hid_report_normal c ?ks ?s = Some (False, t)" "ff_ok t" "usb_sent t = usb_sent s" "usbkb_not_released t = 0"
      "edp_toggle t = edp_toggle s" "waiting t = [?r]"
    using report_queued [OF z(1-3)] z(4) assms(3) by auto
  define s1 where "s1 = t\<lparr>usbkb_not_released := 0, usbkb_data_report_time := now\<rparr>"
  have s1: "usbkb_hid_report now (kd_of c ks) s = Some s1" using l [of False t] t(1,4) by (simp add: s1_def)
  let ?f = "host_fetch USB_EDP_KEYBOARD_IN s1"
  have f: "ff_ok ?f" "waiting ?f = ?r # []" "\<not> ep_busy ?f (hid_ep ?r)" "hid_ok (usb_mouse_report_proto ?f = 0) ?r"
      "usb_sent ?f = usb_sent s" "edp_toggle ?f = edp_toggle s" "usbkb_not_released ?f = 0"
    using t z(2) by (simp_all add: s1_def host_fetch_def ff_ok_def waiting_def ff_queue_def)
  obtain s2 where s2: "usb_hid_report_fifo_proc ?f = Some (True, s2)" "waiting s2 = []"
      "s2 = (ep_send USB_EDP_KEYBOARD_IN (c # 0 # ?ks) ?f)\<lparr>usb_ff_rptr := usb_ff_rptr ?f + 1\<rparr>"
    using report_popped [OF f(1,4,2)] f(3) by auto
  have e: "usb_sent s2 = usb_sent s @ [(USB_EDP_KEYBOARD_IN, edp_toggle s USB_EDP_KEYBOARD_IN, c # 0 # ?ks)]" "usbkb_not_released s2 = 0"
    using f(5-7) unfolding s2(3) by (simp_all add: ep_send_def)
  obtain s3 where "idle_calls cs s2 = Some s3" "usb_sent s3 = usb_sent s2" "waiting s3 = []"
    using idle_calls_silent [OF e(2) s2(2), of cs] by blast
  then show ?thesis using s1 s2(1) e(1) t(3) by (auto simp: s1_def)
qed

theorem queued_key_never_released_witness:
  "\<exists>s1 s2 s3. usbkb_hid_report 0 (kd_of 0 [4]) (ukb_zero\<lparr>ep_busy := (\<lambda>_. True)\<rparr>) = Some s1
     \<and> usb_hid_report_fifo_proc (host_fetch USB_EDP_KEYBOARD_IN s1) = Some (True, s2)
     \<and> idle_calls [(True, 100), (False, 0x7000000)] s2 = Some s3 \<and> usb_sent s3 = [(1, 0, [0, 0, 4, 0, 0, 0, 0, 0])]"
proof -
  let ?s = "ukb_zero\<lparr>ep_busy := (\<lambda>_. True)\<rparr>"
  have z: "ff_ok ?s" "waiting ?s = []" "usbkb_not_released ?s = 0" "ep_busy ?s USB_EDP_KEYBOARD_IN" "length (keycode (last_data ?s)) = 6"
      "usb_sent ?s = []" "edp_toggle ?s = (\<lambda>_. 0)"
    by (simp_all add: ff_ok_def ukb_zero_def USB_FIFO_NUM_def USB_FIFO_SIZE_def waiting_def ff_queue_def ring_4_def)
  have r: "replicate (6 - length [4 :: u8]) 0 = [0, 0, 0, 0, 0 :: u8]" by (simp add: numeral_eq_Suc)
  show ?thesis using queued_key_never_released [OF z(1-5), of "[4]" 0 0 "[(True, 100), (False, 0x7000000)]"] z(6,7) r
    by (auto simp: is_ext_def VK_EXT_START_def USB_EDP_KEYBOARD_IN_def)
qed

text \<open>
  The table of system keys is in another order than the key codes: the sleep key sends the usage of the
  power key and the power key that of the sleep key.
\<close>

theorem sleep_and_power_swapped:
  assumes "\<not> ep_busy s USB_EDP_MOUSE" "usb_mouse_report_proto s \<noteq> 0"
  shows "map_option usb_sent (usbkb_report_sys_key VK_SLEEP s) = Some (usb_sent s @ [(USB_EDP_MOUSE, edp_toggle s USB_EDP_MOUSE, [USB_HID_KB_SYS, VK_POWER_V])])
     \<and> map_option usb_sent (usbkb_report_sys_key VK_POWER s) = Some (usb_sent s @ [(USB_EDP_MOUSE, edp_toggle s USB_EDP_MOUSE, [USB_HID_KB_SYS, VK_SLEEP_V])])"
  using assms
  by (simp add: usbkb_report_sys_key_def VK_SLEEP_def VK_POWER_def VK_SYS_START_def VK_SYS_END_def set_if_def usbmouse_hid_report_def
      rd_range_def vk_sys_map_def ep_send_def)

theorem sleep_and_power_swapped_witness:
  "map_option usb_sent (usbkb_report_sys_key VK_SLEEP ukb_zero) = Some [(2, 0, [4, 1])]"
  using sleep_and_power_swapped [of ukb_zero]
  by (simp add: ukb_zero_def USB_EDP_MOUSE_def USB_HID_KB_SYS_def VK_POWER_V_def)

end
