(* ===== verification/Usb_Hw.thy ===== *)
theory Usb_Hw
  imports Telink_Prelude
begin

unbundle bit_operations_syntax

text \<open>
  The register interface of the B91 USB controller that the USB applications use
  (\<^verbatim>\<open>drivers/B91/usbhw.h\<close>, \<^verbatim>\<open>drivers/B91/usbhw.c\<close>).

  Every endpoint is a buffer with a pointer register that each access to the data register advances; the control
  endpoint holds \<open>USB_CTR_ENDPOINT_SIZE\<close> bytes.  An access behind the end of a buffer is \<open>None\<close>.  Each write of a
  control register is logged with the bytes in front of the pointer, which is the packet handed to the host when
  the write acknowledges data.
\<close>

definition USB_CTR_ENDPOINT_SIZE :: nat where "USB_CTR_ENDPOINT_SIZE = 8"
definition FLD_EP_DAT_ACK :: u8 where "FLD_EP_DAT_ACK = 1"
definition FLD_EP_DAT_STALL :: u8 where "FLD_EP_DAT_STALL = 2"
definition FLD_EP_STA_ACK :: u8 where "FLD_EP_STA_ACK = 4"
definition FLD_EP_STA_STALL :: u8 where "FLD_EP_STA_STALL = 8"
definition FLD_CTRL_EP_IRQ_SETUP :: u8 where "FLD_CTRL_EP_IRQ_SETUP = 0x10"
definition FLD_CTRL_EP_IRQ_DATA :: u8 where "FLD_CTRL_EP_IRQ_DATA = 0x20"
definition FLD_CTRL_EP_IRQ_STA :: u8 where "FLD_CTRL_EP_IRQ_STA = 0x40"
definition FLD_USB_EP_BUSY :: u8 where "FLD_USB_EP_BUSY = 1"
definition FLD_USB_EP_STALL :: u8 where "FLD_USB_EP_STALL = 2"
definition FLD_USB_EP_MONO :: u8 where "FLD_USB_EP_MONO = 0x40"
definition REG_RW_BASE_ADDR :: u32 where "REG_RW_BASE_ADDR = 0x80000000"

record usbhw =
  reg_ctrl_ep_dat :: bytes
  reg_ctrl_ep_ptr :: nat
  reg_ctrl_ep_irq_mode :: u8
  reg_usb_sups_cyc_cali :: u8
  ctrl_ep_log :: "(u8 \<times> bytes) list"
  reg_usb_ep_dat :: "bytes list"
  reg_usb_ep_ptr :: "nat list"
  reg_usb_ep_ctrl :: "u8 list"
  ep_log :: "(nat \<times> u8 \<times> bytes) list"
  core_reg :: "u32 \<Rightarrow> u8"
  analog_reg :: "u8 \<Rightarrow> u8"

section \<open>The control endpoint\<close>

definition usbhw_reset_ctrl_ep_ptr :: "'a usbhw_scheme \<Rightarrow> 'a usbhw_scheme" where
  "usbhw_reset_ctrl_ep_ptr s = s\<lparr>reg_ctrl_ep_ptr := 0\<rparr>"

definition usbhw_write_ctrl_ep_ctrl :: "u8 \<Rightarrow> 'a usbhw_scheme \<Rightarrow> 'a usbhw_scheme" where
  "usbhw_write_ctrl_ep_ctrl v s = s\<lparr>ctrl_ep_log := ctrl_ep_log s @ [(v, take (reg_ctrl_ep_ptr s) (reg_ctrl_ep_dat s))]\<rparr>"

definition usbhw_read_ctrl_ep_data :: "'a usbhw_scheme \<Rightarrow> (u8 \<times> 'a usbhw_scheme) option" where
  "usbhw_read_ctrl_ep_data s =
     do { v \<leftarrow> rd8 (reg_ctrl_ep_dat s) (reg_ctrl_ep_ptr s); Some (v, s\<lparr>reg_ctrl_ep_ptr := reg_ctrl_ep_ptr s + 1\<rparr>) }"

definition usbhw_write_ctrl_ep_data :: "u8 \<Rightarrow> 'a usbhw_scheme \<Rightarrow> 'a usbhw_scheme option" where
  "usbhw_write_ctrl_ep_data v s =
     do { b \<leftarrow> wr8 (reg_ctrl_ep_dat s) (reg_ctrl_ep_ptr s) v;
          Some (s\<lparr>reg_ctrl_ep_dat := b, reg_ctrl_ep_ptr := reg_ctrl_ep_ptr s + 1\<rparr>) }"

definition usbhw_write_ctrl_ep_u16 :: "u16 \<Rightarrow> 'a usbhw_scheme \<Rightarrow> 'a usbhw_scheme option" where
  "usbhw_write_ctrl_ep_u16 v s =
     do { s1 \<leftarrow> usbhw_write_ctrl_ep_data (ucast (v AND 0xff)) s; usbhw_write_ctrl_ep_data (ucast (drop_bit 8 v)) s1 }"

definition usbhw_read_ctrl_ep_u16 :: "'a usbhw_scheme \<Rightarrow> (u16 \<times> 'a usbhw_scheme) option" where
  "usbhw_read_ctrl_ep_u16 s =
     do { (v, s1) \<leftarrow> usbhw_read_ctrl_ep_data s; (w, s2) \<leftarrow> usbhw_read_ctrl_ep_data s1;
          Some (push_bit 8 (ucast w) OR ucast v, s2) }"

text \<open>Runs of writes and reads.\<close>

fun ctrl_ep_writes :: "bytes \<Rightarrow> 'a usbhw_scheme \<Rightarrow> 'a usbhw_scheme option" where
  "ctrl_ep_writes [] s = Some s"
| "ctrl_ep_writes (v # vs) s = do { s1 \<leftarrow> usbhw_write_ctrl_ep_data v s; ctrl_ep_writes vs s1 }"

fun ctrl_ep_reads :: "nat \<Rightarrow> 'a usbhw_scheme \<Rightarrow> (bytes \<times> 'a usbhw_scheme) option" where
  "ctrl_ep_reads 0 s = Some ([], s)"
| "ctrl_ep_reads (Suc n) s =
     do { (v, s1) \<leftarrow> usbhw_read_ctrl_ep_data s; (vs, s2) \<leftarrow> ctrl_ep_reads n s1; Some (v # vs, s2) }"

section \<open>Data endpoints and registers\<close>

definition usbhw_reset_ep_ptr :: "nat \<Rightarrow> 'a usbhw_scheme \<Rightarrow> 'a usbhw_scheme" where
  "usbhw_reset_ep_ptr ep s = s\<lparr>reg_usb_ep_ptr := (reg_usb_ep_ptr s)[ep mod 8 := 0]\<rparr>"

definition ep_ctrl_write :: "nat \<Rightarrow> u8 \<Rightarrow> 'a usbhw_scheme \<Rightarrow> 'a usbhw_scheme" where
  "ep_ctrl_write ep v s =
     s\<lparr>reg_usb_ep_ctrl := (reg_usb_ep_ctrl s)[ep mod 8 := v],
       ep_log := ep_log s @ [(ep, v, take (reg_usb_ep_ptr s ! (ep mod 8)) (reg_usb_ep_dat s ! (ep mod 8)))]\<rparr>"

definition ep_write_byte :: "nat \<Rightarrow> u8 \<Rightarrow> 'a usbhw_scheme \<Rightarrow> 'a usbhw_scheme option" where
  "ep_write_byte ep v s =
     do { b \<leftarrow> wr8 (reg_usb_ep_dat s ! (ep mod 8)) (reg_usb_ep_ptr s ! (ep mod 8)) v;
          Some (s\<lparr>reg_usb_ep_dat := (reg_usb_ep_dat s)[ep mod 8 := b],
                  reg_usb_ep_ptr := (reg_usb_ep_ptr s)[ep mod 8 := reg_usb_ep_ptr s ! (ep mod 8) + 1]\<rparr>) }"

definition usbhw_read_ep_data :: "nat \<Rightarrow> 'a usbhw_scheme \<Rightarrow> (u8 \<times> 'a usbhw_scheme) option" where
  "usbhw_read_ep_data ep s =
     do { v \<leftarrow> rd8 (reg_usb_ep_dat s ! (ep mod 8)) (reg_usb_ep_ptr s ! (ep mod 8));
          Some (v, s\<lparr>reg_usb_ep_ptr := (reg_usb_ep_ptr s)[ep mod 8 := reg_usb_ep_ptr s ! (ep mod 8) + 1]\<rparr>) }"

fun ep_writes :: "nat \<Rightarrow> bytes \<Rightarrow> 'a usbhw_scheme \<Rightarrow> 'a usbhw_scheme option" where
  "ep_writes ep [] s = Some s"
| "ep_writes ep (v # vs) s = do { s1 \<leftarrow> ep_write_byte ep v s; ep_writes ep vs s1 }"

fun ep_reads :: "nat \<Rightarrow> nat \<Rightarrow> 'a usbhw_scheme \<Rightarrow> (bytes \<times> 'a usbhw_scheme) option" where
  "ep_reads ep 0 s = Some ([], s)"
| "ep_reads ep (Suc n) s =
     do { (v, s1) \<leftarrow> usbhw_read_ep_data ep s; (vs, s2) \<leftarrow> ep_reads ep n s1; Some (v # vs, s2) }"

definition usbhw_is_ep_busy :: "nat \<Rightarrow> 'a usbhw_scheme \<Rightarrow> bool" where
  "usbhw_is_ep_busy ep s \<longleftrightarrow> reg_usb_ep_ctrl s ! (ep mod 8) AND FLD_USB_EP_BUSY \<noteq> 0"

definition usbhw_data_ep_ack :: "nat \<Rightarrow> 'a usbhw_scheme \<Rightarrow> 'a usbhw_scheme" where
  "usbhw_data_ep_ack ep = ep_ctrl_write ep FLD_USB_EP_BUSY"

definition usbhw_data_ep_stall :: "nat \<Rightarrow> 'a usbhw_scheme \<Rightarrow> 'a usbhw_scheme" where
  "usbhw_data_ep_stall ep = ep_ctrl_write ep FLD_USB_EP_STALL"

definition usbhw_write_ep :: "nat \<Rightarrow> bytes \<Rightarrow> 'a usbhw_scheme \<Rightarrow> 'a usbhw_scheme option" where
  "usbhw_write_ep ep d s = map_option (ep_ctrl_write ep FLD_EP_DAT_ACK) (ep_writes ep d (usbhw_reset_ep_ptr ep s))"

definition usbhw_enable_manual_interrupt :: "u8 \<Rightarrow> 'a usbhw_scheme \<Rightarrow> 'a usbhw_scheme" where
  "usbhw_enable_manual_interrupt m s = s\<lparr>reg_ctrl_ep_irq_mode := reg_ctrl_ep_irq_mode s AND NOT m\<rparr>"

definition usbhw_disable_manual_interrupt :: "u8 \<Rightarrow> 'a usbhw_scheme \<Rightarrow> 'a usbhw_scheme" where
  "usbhw_disable_manual_interrupt m s = s\<lparr>reg_ctrl_ep_irq_mode := reg_ctrl_ep_irq_mode s OR m\<rparr>"

definition analog_write_reg8 :: "u8 \<Rightarrow> u8 \<Rightarrow> 'a usbhw_scheme \<Rightarrow> 'a usbhw_scheme" where
  "analog_write_reg8 a v s = s\<lparr>analog_reg := (analog_reg s)(a := v)\<rparr>"

definition usb_dp_pullup_en :: "bool \<Rightarrow> 'a usbhw_scheme \<Rightarrow> 'a usbhw_scheme" where
  "usb_dp_pullup_en en s =
     (let dat = analog_reg s 0x0b in analog_write_reg8 0x0b (if en then dat OR 0x80 else dat AND 0x7f) s)"

definition read_reg8 :: "u32 \<Rightarrow> 'a usbhw_scheme \<Rightarrow> u8" where
  "read_reg8 a s = core_reg s (REG_RW_BASE_ADDR OR a)"

fun write_core :: "u32 \<Rightarrow> bytes \<Rightarrow> 'a usbhw_scheme \<Rightarrow> 'a usbhw_scheme" where
  "write_core a [] s = s"
| "write_core a (v # vs) s = write_core (a + 1) vs (s\<lparr>core_reg := (core_reg s)(a := v)\<rparr>)"

definition write_reg8 :: "u32 \<Rightarrow> u8 \<Rightarrow> 'a usbhw_scheme \<Rightarrow> 'a usbhw_scheme" where
  "write_reg8 a v = write_core (REG_RW_BASE_ADDR OR a) [v]"

definition write_reg16 :: "u32 \<Rightarrow> u16 \<Rightarrow> 'a usbhw_scheme \<Rightarrow> 'a usbhw_scheme" where
  "write_reg16 a v = write_core (REG_RW_BASE_ADDR OR a) (UINT16_TO_BSTREAM v)"

definition write_reg32 :: "u32 \<Rightarrow> u32 \<Rightarrow> 'a usbhw_scheme \<Rightarrow> 'a usbhw_scheme" where
  "write_reg32 a v = write_core (REG_RW_BASE_ADDR OR a) (UINT32_TO_BSTREAM v)"

section \<open>What runs of accesses do\<close>

definition ctrl_ep_ok :: "'a usbhw_scheme \<Rightarrow> bool" where
  "ctrl_ep_ok s \<longleftrightarrow> length (reg_ctrl_ep_dat s) = USB_CTR_ENDPOINT_SIZE"

definition data_eps_ok :: "'a usbhw_scheme \<Rightarrow> bool" where
  "data_eps_ok s \<longleftrightarrow> length (reg_usb_ep_dat s) = 8 \<and> length (reg_usb_ep_ptr s) = 8 \<and> length (reg_usb_ep_ctrl s) = 8"

lemma put_at: "p < length b \<Longrightarrow> take (Suc p) (b[p := v]) = take p b @ [v]"
  by (simp add: take_Suc_conv_app_nth)

lemma ctrl_ep_writes_room:
  "reg_ctrl_ep_ptr s + length d \<le> length (reg_ctrl_ep_dat s) \<Longrightarrow>
   ctrl_ep_writes d s =
     Some (s\<lparr>reg_ctrl_ep_dat := take (reg_ctrl_ep_ptr s) (reg_ctrl_ep_dat s) @ d @ drop (reg_ctrl_ep_ptr s + length d) (reg_ctrl_ep_dat s),
             reg_ctrl_ep_ptr := reg_ctrl_ep_ptr s + length d\<rparr>)"
  by (induction d arbitrary: s) (auto simp: usbhw_write_ctrl_ep_data_def wr8_def put_at)

lemma ctrl_ep_reads_room:
  "reg_ctrl_ep_ptr s + n \<le> length (reg_ctrl_ep_dat s) \<Longrightarrow>
   ctrl_ep_reads n s =
     Some (take n (drop (reg_ctrl_ep_ptr s) (reg_ctrl_ep_dat s)), s\<lparr>reg_ctrl_ep_ptr := reg_ctrl_ep_ptr s + n\<rparr>)"
  by (induction n arbitrary: s)
    (auto simp: usbhw_read_ctrl_ep_data_def rd8_def Cons_nth_drop_Suc [symmetric])

lemma ep_writes_room:
  "data_eps_ok s \<Longrightarrow> reg_usb_ep_ptr s ! (ep mod 8) + length d \<le> length (reg_usb_ep_dat s ! (ep mod 8)) \<Longrightarrow>
   ep_writes ep d s =
     Some (s\<lparr>reg_usb_ep_dat := (reg_usb_ep_dat s)[ep mod 8 := take (reg_usb_ep_ptr s ! (ep mod 8)) (reg_usb_ep_dat s ! (ep mod 8))
               @ d @ drop (reg_usb_ep_ptr s ! (ep mod 8) + length d) (reg_usb_ep_dat s ! (ep mod 8))],
             reg_usb_ep_ptr := (reg_usb_ep_ptr s)[ep mod 8 := reg_usb_ep_ptr s ! (ep mod 8) + length d]\<rparr>)"
  by (induction d arbitrary: s) (auto simp: ep_write_byte_def wr8_def put_at data_eps_ok_def)

lemma ep_reads_room:
  "data_eps_ok s \<Longrightarrow> reg_usb_ep_ptr s ! (ep mod 8) + n \<le> length (reg_usb_ep_dat s ! (ep mod 8)) \<Longrightarrow>
   ep_reads ep n s =
     Some (take n (drop (reg_usb_ep_ptr s ! (ep mod 8)) (reg_usb_ep_dat s ! (ep mod 8))),
           s\<lparr>reg_usb_ep_ptr := (reg_usb_ep_ptr s)[ep mod 8 := reg_usb_ep_ptr s ! (ep mod 8) + n]\<rparr>)"
  by (induction n arbitrary: s)
    (auto simp: usbhw_read_ep_data_def rd8_def data_eps_ok_def Cons_nth_drop_Suc [symmetric])

end
