(* ===== verification/Usb_Aud.thy ===== *)
theory Usb_Aud
  imports Usb_Hw
begin

unbundle bit_operations_syntax

text \<open>
  The audio feature units of the USB application (\<^verbatim>\<open>application/app/usbaud.c\<close>) on the B91: mute and volume of the
  speaker and the microphone, set and read over the control endpoint.  A \<^verbatim>\<open>signed short\<close> is a 16-bit word read with
  \<open>sint\<close>.  The result code of the handlers is \<open>0\<close> or \<open>-1\<close> as in the source.
\<close>

section \<open>Data\<close>

definition AUDIO_FEATURE_MUTE :: u8 where "AUDIO_FEATURE_MUTE = 1"
definition AUDIO_FEATURE_VOLUME :: u8 where "AUDIO_FEATURE_VOLUME = 2"
definition AUDIO_FEATURE_ID_SPEAKER :: u8 where "AUDIO_FEATURE_ID_SPEAKER = 2"
definition AUDIO_FEATURE_ID_MIC :: u8 where "AUDIO_FEATURE_ID_MIC = 5"
definition AUDIO_REQ_GetCurrent :: u8 where "AUDIO_REQ_GetCurrent = 0x81"
definition AUDIO_REQ_GetMinimum :: u8 where "AUDIO_REQ_GetMinimum = 0x82"
definition AUDIO_REQ_GetMaximum :: u8 where "AUDIO_REQ_GetMaximum = 0x83"
definition AUDIO_REQ_GetResolution :: u8 where "AUDIO_REQ_GetResolution = 0x84"
definition MIC_VOL_MIN :: u16 where "MIC_VOL_MIN = 0"
definition MIC_VOL_MAX :: u16 where "MIC_VOL_MAX = 0x1e00"
definition MIC_VOL_RES :: u16 where "MIC_VOL_RES = 0x180"
definition MIC_VOL_DEF :: u16 where "MIC_VOL_DEF = 0x1800"
definition SPEAKER_VOL_MIN :: u16 where "SPEAKER_VOL_MIN = 0xa000"
definition SPEAKER_VOL_MAX :: u16 where "SPEAKER_VOL_MAX = 0x300"
definition SPEAKER_VOL_RES :: u16 where "SPEAKER_VOL_RES = 0x180"
definition SPEAKER_VOL_STEP :: int where "SPEAKER_VOL_STEP = 400"
definition USB_EDP_AUDIO_IN :: nat where "USB_EDP_AUDIO_IN = 4"
definition USB_EDP_MIC :: nat where "USB_EDP_MIC = 7"
definition USB_HID_AUDIO :: u8 where "USB_HID_AUDIO = 2"

record speaker_setting_t =
  vol_cur :: u16
  vol_step :: u16
  mute :: u8

type_synonym mic_setting_t = speaker_setting_t

record usb_audio_status_t =
  speaker_vol :: u16
  mic_vol :: u16
  speaker_mute :: u8
  mic_mute :: u8
  change :: u8

record usbaud = usbhw +
  speaker_setting :: speaker_setting_t
  mic_setting :: mic_setting_t
  g_usb_audio_status :: usb_audio_status_t
  aaa_audio_intf_set :: int

section \<open>Volume\<close>

definition usbaud_cal_speaker_step :: "u16 \<Rightarrow> u16" where
  "usbaud_cal_speaker_step vol =
     (if sint vol < sint SPEAKER_VOL_MIN then 0 else of_int ((sint vol - sint SPEAKER_VOL_MIN) div uint SPEAKER_VOL_RES))"

definition usbaud_cal_mic_step :: "u16 \<Rightarrow> u16" where
  "usbaud_cal_mic_step vol =
     (if sint vol < sint MIC_VOL_MIN then 0 else of_int ((sint vol - sint MIC_VOL_MIN) div uint MIC_VOL_RES))"

definition usbaud_set_speaker_vol :: "u16 \<Rightarrow> 'a usbaud_scheme \<Rightarrow> 'a usbaud_scheme" where
  "usbaud_set_speaker_vol vol s =
     s\<lparr>speaker_setting := (speaker_setting s)\<lparr>vol_cur := vol, vol_step := usbaud_cal_speaker_step vol\<rparr>\<rparr>"

definition usbaud_set_mic_vol :: "u16 \<Rightarrow> 'a usbaud_scheme \<Rightarrow> 'a usbaud_scheme" where
  "usbaud_set_mic_vol vol s = s\<lparr>mic_setting := (mic_setting s)\<lparr>vol_cur := vol, vol_step := usbaud_cal_mic_step vol\<rparr>\<rparr>"

definition usbaud_speaker_vol_get :: "'a usbaud_scheme \<Rightarrow> u8" where
  "usbaud_speaker_vol_get s = push_bit 7 (mute (speaker_setting s)) OR ucast (vol_step (speaker_setting s) AND 0x7f)"

definition usbaud_mic_vol_get :: "'a usbaud_scheme \<Rightarrow> u8" where
  "usbaud_mic_vol_get s = push_bit 7 (mute (mic_setting s)) OR ucast (vol_step (mic_setting s) AND 0x7f)"

definition usbaud_mic_en :: "u8 \<Rightarrow> 'a usbaud_scheme \<Rightarrow> 'a usbaud_scheme" where
  "usbaud_mic_en en s = s\<lparr>mic_setting := (mic_setting s)\<lparr>mute := en\<rparr>\<rparr>"

definition usbaud_set_audio_mode :: "bool \<Rightarrow> 'a usbaud_scheme \<Rightarrow> 'a usbaud_scheme" where
  "usbaud_set_audio_mode mono_en s =
     (if mono_en then ep_ctrl_write USB_EDP_MIC (reg_usb_ep_ctrl s ! USB_EDP_MIC OR FLD_USB_EP_MONO) s else s)"

definition usbaud_init :: "bool \<Rightarrow> bool \<Rightarrow> nat \<Rightarrow> 'a usbaud_scheme \<Rightarrow> 'a usbaud_scheme" where
  "usbaud_init spk mic MIC_CHANNEL_COUNT s =
     (let s1 = (if mic \<and> MIC_CHANNEL_COUNT = 1 then usbaud_set_audio_mode True s else s);
          s2 = (if spk then usbaud_set_speaker_vol SPEAKER_VOL_MAX s1 else s1)
      in if mic then s2\<lparr>mic_setting := (mic_setting s2)\<lparr>vol_cur := MIC_VOL_DEF\<rparr>\<rparr> else s2)"

definition usbaud_hid_report :: "u8 \<Rightarrow> u8 \<Rightarrow> 'a usbaud_scheme \<Rightarrow> (bool \<times> 'a usbaud_scheme) option" where
  "usbaud_hid_report cmd vol s =
     (if usbhw_is_ep_busy USB_EDP_AUDIO_IN s then Some (False, s)
      else do { s1 \<leftarrow> ep_writes USB_EDP_AUDIO_IN [USB_HID_AUDIO, cmd, vol] (usbhw_reset_ep_ptr USB_EDP_AUDIO_IN s);
                Some (True, ep_ctrl_write USB_EDP_AUDIO_IN FLD_EP_DAT_ACK s1) })"

section \<open>Control requests\<close>

definition usbaud_handle_set_speaker_cmd :: "u8 \<Rightarrow> 'a usbaud_scheme \<Rightarrow> (int \<times> 'a usbaud_scheme) option" where
  "usbaud_handle_set_speaker_cmd ty s =
     (if ty = AUDIO_FEATURE_MUTE
      then do { (v, s1) \<leftarrow> usbhw_read_ctrl_ep_data s; Some (0, s1\<lparr>speaker_setting := (speaker_setting s1)\<lparr>mute := v\<rparr>\<rparr>) }
      else if ty = AUDIO_FEATURE_VOLUME
      then do { (v, s1) \<leftarrow> usbhw_read_ctrl_ep_u16 s; Some (0, usbaud_set_speaker_vol v s1) }
      else Some (- 1, s))"

definition usbaud_handle_set_mic_cmd :: "u8 \<Rightarrow> 'a usbaud_scheme \<Rightarrow> (int \<times> 'a usbaud_scheme) option" where
  "usbaud_handle_set_mic_cmd ty s =
     (if ty = AUDIO_FEATURE_MUTE
      then do { (v, s1) \<leftarrow> usbhw_read_ctrl_ep_data s; Some (0, s1\<lparr>mic_setting := (mic_setting s1)\<lparr>mute := v\<rparr>\<rparr>) }
      else if ty = AUDIO_FEATURE_VOLUME
      then do { (v, s1) \<leftarrow> usbhw_read_ctrl_ep_u16 s; Some (0, usbaud_set_mic_vol v s1) }
      else Some (0, s))"

definition usbaud_handle_get_speaker_cmd :: "u8 \<Rightarrow> u8 \<Rightarrow> 'a usbaud_scheme \<Rightarrow> (int \<times> 'a usbaud_scheme) option" where
  "usbaud_handle_get_speaker_cmd req ty s =
     (if ty = AUDIO_FEATURE_MUTE then map_option (Pair 0) (usbhw_write_ctrl_ep_data (mute (speaker_setting s)) s)
      else if ty = AUDIO_FEATURE_VOLUME
      then if req = AUDIO_REQ_GetCurrent then map_option (Pair 0) (usbhw_write_ctrl_ep_u16 (vol_cur (speaker_setting s)) s)
           else if req = AUDIO_REQ_GetMinimum then map_option (Pair 0) (usbhw_write_ctrl_ep_u16 SPEAKER_VOL_MIN s)
           else if req = AUDIO_REQ_GetMaximum then map_option (Pair 0) (usbhw_write_ctrl_ep_u16 SPEAKER_VOL_MAX s)
           else if req = AUDIO_REQ_GetResolution then map_option (Pair 0) (usbhw_write_ctrl_ep_u16 SPEAKER_VOL_RES s)
           else Some (- 1, s)
      else Some (- 1, s))"

definition usbaud_handle_get_mic_cmd :: "u8 \<Rightarrow> u8 \<Rightarrow> 'a usbaud_scheme \<Rightarrow> (int \<times> 'a usbaud_scheme) option" where
  "usbaud_handle_get_mic_cmd req ty s =
     (if ty = AUDIO_FEATURE_MUTE then map_option (Pair 0) (usbhw_write_ctrl_ep_data (mute (mic_setting s)) s)
      else if ty = AUDIO_FEATURE_VOLUME
      then if req = AUDIO_REQ_GetCurrent then map_option (Pair 0) (usbhw_write_ctrl_ep_u16 (vol_cur (mic_setting s)) s)
           else if req = AUDIO_REQ_GetMinimum then map_option (Pair 0) (usbhw_write_ctrl_ep_u16 MIC_VOL_MIN s)
           else if req = AUDIO_REQ_GetMaximum then map_option (Pair 0) (usbhw_write_ctrl_ep_u16 MIC_VOL_MAX s)
           else if req = AUDIO_REQ_GetResolution then map_option (Pair 0) (usbhw_write_ctrl_ep_u16 MIC_VOL_RES s)
           else Some (- 1, s)
      else Some (- 1, s))"

text \<open>
  \<^verbatim>\<open>usb_audio_class_out_intf_proc\<close>: the second set of audio state.  The two reads of the volume, whose order C leaves
  open, are taken low byte first.
\<close>

definition audio_set_mute :: "u8 \<Rightarrow> 'a usbaud_scheme \<Rightarrow> (int \<times> 'a usbaud_scheme) option" where
  "audio_set_mute fid s =
     (if fid = 0 then Some (0, s)
      else if fid = AUDIO_FEATURE_ID_SPEAKER
      then do { (v, s1) \<leftarrow> usbhw_read_ctrl_ep_data s;
                Some (0, s1\<lparr>g_usb_audio_status := (g_usb_audio_status s1)\<lparr>speaker_mute := v,
                  change := change (g_usb_audio_status s1) OR 1\<rparr>\<rparr>) }
      else if fid = AUDIO_FEATURE_ID_MIC
      then do { (v, s1) \<leftarrow> usbhw_read_ctrl_ep_data s;
                Some (0, s1\<lparr>g_usb_audio_status := (g_usb_audio_status s1)\<lparr>mic_mute := v,
                  change := change (g_usb_audio_status s1) OR 2\<rparr>\<rparr>) }
      else Some (1, s))"

definition scaled_speaker_vol :: "u16 \<Rightarrow> u16" where
  "scaled_speaker_vol v =
     (let w = (of_int (drop_bit 12 ((sint v - sint SPEAKER_VOL_MIN + SPEAKER_VOL_STEP) * (10 - 1))) :: u16) in if sint w < 0 then 0 else w)"

definition audio_set_volume :: "u8 \<Rightarrow> 'a usbaud_scheme \<Rightarrow> (int \<times> 'a usbaud_scheme) option" where
  "audio_set_volume fid s =
     (if fid = AUDIO_FEATURE_ID_SPEAKER
      then do { (a, s1) \<leftarrow> usbhw_read_ctrl_ep_data s; (b, s2) \<leftarrow> usbhw_read_ctrl_ep_data s1;
                Some (0, s2\<lparr>g_usb_audio_status := (g_usb_audio_status s2)\<lparr>
                  speaker_vol := scaled_speaker_vol (ucast a + push_bit 8 (ucast b)), change := change (g_usb_audio_status s2) OR 4\<rparr>\<rparr>) }
      else if fid = AUDIO_FEATURE_ID_MIC
      then do { (a, s1) \<leftarrow> usbhw_read_ctrl_ep_data s; (b, s2) \<leftarrow> usbhw_read_ctrl_ep_data s1;
                Some (0, s2\<lparr>g_usb_audio_status := (g_usb_audio_status s2)\<lparr>
                  mic_vol := ucast a + push_bit 8 (ucast b), change := change (g_usb_audio_status s2) OR 8\<rparr>\<rparr>) }
      else Some (1, s))"

definition usb_audio_class_out_intf_proc :: "u8 \<Rightarrow> u8 \<Rightarrow> 'a usbaud_scheme \<Rightarrow> (int \<times> 'a usbaud_scheme) option" where
  "usb_audio_class_out_intf_proc ty fid s =
     (let s1 = s\<lparr>aaa_audio_intf_set := uint ty * 256 + uint fid\<rparr>
      in if ty = 1 then audio_set_mute fid s1 else if ty = 2 then audio_set_volume fid s1 else Some (0, s1))"

section \<open>Properties\<close>

text \<open>A speaker volume in the advertised range becomes one of 67 steps, and louder is never a lower step.\<close>

lemma speaker_step_int:
  assumes "sint vol \<le> sint SPEAKER_VOL_MAX"
  shows "uint (usbaud_cal_speaker_step vol) = (if sint vol < - 24576 then 0 else (sint vol + 24576) div 384)"
    and "uint (usbaud_cal_speaker_step vol) \<le> 66"
proof -
  have m: "sint SPEAKER_VOL_MIN = - 24576" "uint SPEAKER_VOL_RES = 384" "sint SPEAKER_VOL_MAX = 768"
    by (simp_all add: SPEAKER_VOL_MIN_def SPEAKER_VOL_RES_def SPEAKER_VOL_MAX_def)
  have b: "0 \<le> (sint vol + 24576) div 384 \<and> (sint vol + 24576) div 384 \<le> 66" if "\<not> sint vol < - 24576"
    using that assms m zdiv_mono1 [of "sint vol + 24576" 25344 384] by simp
  show e: "uint (usbaud_cal_speaker_step vol) = (if sint vol < - 24576 then 0 else (sint vol + 24576) div 384)"
    using b by (auto simp: usbaud_cal_speaker_step_def m uint_word_of_int_eq take_bit_int_eq_self_iff)
  show "uint (usbaud_cal_speaker_step vol) \<le> 66" using b by (auto simp: e)
qed

lemma speaker_step_mono:
  assumes "sint v \<le> sint w" "sint w \<le> sint SPEAKER_VOL_MAX"
  shows "usbaud_cal_speaker_step v \<le> usbaud_cal_speaker_step w"
  using assms speaker_step_int(1) [of v] speaker_step_int(1) [of w]
  by (auto simp: word_le_def intro!: zdiv_mono1 pos_imp_zdiv_nonneg_iff [THEN iffD2])

end
