(* ===== verification/Usb_Cdc.thy ===== *)
theory Usb_Cdc
  imports Usb_Aud
begin

unbundle bit_operations_syntax

text \<open>
  The serial port class of the USB application (\<^verbatim>\<open>application/app/usbcdc.c\<close>, and the data interrupt of
  \<^verbatim>\<open>application/usbstd/usb.c\<close>) on the B91.  Whether the host fetches the \<open>i\<close>-th packet of a transmission within the
  millisecond the loop waits is the argument \<open>fetched\<close>; a fetched packet clears the busy bit of its endpoint.
\<close>

section \<open>Data and operations\<close>

definition CDC_TXRX_EPSIZE :: nat where "CDC_TXRX_EPSIZE = 64"
definition USB_EDP_CDC_IN :: nat where "USB_EDP_CDC_IN = 4"
definition USB_EDP_CDC_OUT :: nat where "USB_EDP_CDC_OUT = 5"

record usbcdc = usbaud +
  usb_cdc_data :: bytes
  usb_cdc_data_len :: u16
  usb_cdc_tx_cnt :: u32
  LineCoding :: bytes
  g_stall :: bool

definition usb_cdc_write :: "bytes \<Rightarrow> nat \<Rightarrow> 'a usbcdc_scheme \<Rightarrow> (nat \<times> 'a usbcdc_scheme) option" where
  "usb_cdc_write data len s =
     (if usbhw_is_ep_busy USB_EDP_CDC_IN s then Some (0, s)
      else let n = (if len > CDC_TXRX_EPSIZE - 1 then CDC_TXRX_EPSIZE - 1 else len)
        in do { d \<leftarrow> rd_range data 0 n; s1 \<leftarrow> ep_writes USB_EDP_CDC_IN d (usbhw_reset_ep_ptr USB_EDP_CDC_IN s);
                Some (n, usbhw_data_ep_ack USB_EDP_CDC_IN s1) })"

text \<open>One packet is filled and acknowledged, then the endpoint is polled until the host took it or the time is up.\<close>

definition cdc_tx_packet :: "bytes \<Rightarrow> 'a usbcdc_scheme \<Rightarrow> 'a usbcdc_scheme option" where
  "cdc_tx_packet d s =
     map_option (usbhw_data_ep_ack USB_EDP_CDC_IN) (ep_writes USB_EDP_CDC_IN d (usbhw_reset_ep_ptr USB_EDP_CDC_IN s))"

definition cdc_tx_wait :: "bool \<Rightarrow> 'a usbcdc_scheme \<Rightarrow> bool \<times> 'a usbcdc_scheme" where
  "cdc_tx_wait ok s =
     (if ok then (True, s\<lparr>reg_usb_ep_ctrl := (reg_usb_ep_ctrl s)[USB_EDP_CDC_IN := reg_usb_ep_ctrl s ! USB_EDP_CDC_IN AND NOT FLD_USB_EP_BUSY]\<rparr>)
      else (False, s))"

fun cdc_tx_full :: "(nat \<Rightarrow> bool) \<Rightarrow> bytes \<Rightarrow> nat \<Rightarrow> nat \<Rightarrow> 'a usbcdc_scheme \<Rightarrow> (bool \<times> 'a usbcdc_scheme) option" where
  "cdc_tx_full fetched data 0 i s = Some (True, s)"
| "cdc_tx_full fetched data (Suc k) i s =
     do { d \<leftarrow> rd_range data (i * CDC_TXRX_EPSIZE) CDC_TXRX_EPSIZE; s1 \<leftarrow> cdc_tx_packet d s;
          let (ok, s2) = cdc_tx_wait (fetched i) s1 in
          if ok then cdc_tx_full fetched data k (i + 1) s2 else Some (False, s2) }"

definition usb_cdc_tx_data_to_host :: "(nat \<Rightarrow> bool) \<Rightarrow> bytes \<Rightarrow> nat \<Rightarrow> 'a usbcdc_scheme \<Rightarrow> (u8 \<times> 'a usbcdc_scheme) option" where
  "usb_cdc_tx_data_to_host fetched data data_len s =
     (let dv = data_len div CDC_TXRX_EPSIZE; remain = data_len mod CDC_TXRX_EPSIZE
      in do { (ok, s1) \<leftarrow> cdc_tx_full fetched data dv 0 s;
              if \<not> ok then Some (1, s1)
              else if remain \<noteq> 0
              then do { d \<leftarrow> rd_range data (dv * CDC_TXRX_EPSIZE) remain; s2 \<leftarrow> cdc_tx_packet d s1;
                        let (ok2, s3) = cdc_tx_wait (fetched dv) s2 in Some (if ok2 then 0 else 1, s3) }
              else do { s2 \<leftarrow> cdc_tx_packet [] s1; Some (0, s2) } })"

definition usb_cdc_rx_data_from_host :: "'a usbcdc_scheme \<Rightarrow> 'a usbcdc_scheme option" where
  "usb_cdc_rx_data_from_host s =
     (let n = reg_usb_ep_ptr s ! USB_EDP_CDC_OUT mod 256; s1 = usbhw_reset_ep_ptr USB_EDP_CDC_OUT s
      in if 0 < n \<and> n \<le> CDC_TXRX_EPSIZE
         then do { (d, s2) \<leftarrow> ep_reads USB_EDP_CDC_OUT n s1; b \<leftarrow> wr_range (usb_cdc_data s2) 0 d;
                   Some (s2\<lparr>usb_cdc_data := b, usb_cdc_data_len := of_nat n\<rparr>) }
         else Some s1)"

definition usb_cdc_irq_data_process :: "u8 \<Rightarrow> 'a usbcdc_scheme \<Rightarrow> 'a usbcdc_scheme option" where
  "usb_cdc_irq_data_process irq s =
     (let s1 = (if irq AND 0x10 \<noteq> 0 then (usbhw_reset_ep_ptr USB_EDP_CDC_IN s)\<lparr>usb_cdc_tx_cnt := usb_cdc_tx_cnt s + 1\<rparr> else s)
      in if irq AND 0x20 \<noteq> 0
         then do { s2 \<leftarrow> usb_cdc_rx_data_from_host (s1\<lparr>g_stall := False\<rparr>);
                   Some (if g_stall s2 then usbhw_data_ep_stall USB_EDP_CDC_OUT s2 else usbhw_data_ep_ack USB_EDP_CDC_OUT s2) }
         else Some s1)"

section \<open>Framing\<close>

text \<open>The packets of a transfer, and what a host reads: packets up to the first one that is not full.\<close>

fun cdc_packets :: "bytes \<Rightarrow> bytes list" where
  "cdc_packets d = (if length d < 64 then [d] else take 64 d # cdc_packets (drop 64 d))"

declare cdc_packets.simps [simp del]

fun host_transfer :: "bytes list \<Rightarrow> bytes" where
  "host_transfer [] = []"
| "host_transfer (p # ps) = (if length p < 64 then p else p @ host_transfer ps)"

lemma host_transfer_packets: "host_transfer (cdc_packets d @ qs) = d"
  by (induction d rule: cdc_packets.induct) (subst cdc_packets.simps, simp)

lemma cdc_packets_short: "p \<in> set (cdc_packets d) \<Longrightarrow> length p \<le> 64"
proof (induction d rule: cdc_packets.induct)
  case (1 d)
  then show ?case using cdc_packets.simps [of d] by (auto split: if_splits)
qed

definition cdc_ep_ok :: "'a usbcdc_scheme \<Rightarrow> bool" where
  "cdc_ep_ok s \<longleftrightarrow> data_eps_ok s \<and> length (reg_usb_ep_dat s ! 4) = 64 \<and> length (reg_usb_ep_dat s ! 5) = 64 \<and> length (usb_cdc_data s) = 64"

definition cdc_sent :: "bytes list \<Rightarrow> (nat \<times> u8 \<times> bytes) list" where
  "cdc_sent ps = map (\<lambda>p. (USB_EDP_CDC_IN, FLD_USB_EP_BUSY, p)) ps"

lemma cdc_sent_append: "cdc_sent (xs @ ys) = cdc_sent xs @ cdc_sent ys"
  by (simp add: cdc_sent_def)

lemmas cdc_eps = USB_EDP_CDC_IN_def USB_EDP_CDC_OUT_def CDC_TXRX_EPSIZE_def

lemma cdc_tx_packet_sends:
  assumes "cdc_ep_ok s" "length d \<le> 64"
  shows "\<exists>s'. cdc_tx_packet d s = Some s' \<and> cdc_ep_ok s' \<and> ep_log s' = ep_log s @ cdc_sent [d]"
  using assms ep_writes_room [of "usbhw_reset_ep_ptr 4 s" 4 d]
  by (auto simp: cdc_tx_packet_def cdc_eps cdc_ep_ok_def data_eps_ok_def usbhw_reset_ep_ptr_def usbhw_data_ep_ack_def
      ep_ctrl_write_def cdc_sent_def)

lemma cdc_tx_wait_ok: "\<exists>s'. cdc_tx_wait b s = (b, s') \<and> (cdc_ep_ok s \<longrightarrow> cdc_ep_ok s') \<and> ep_log s' = ep_log s"
  by (auto simp: cdc_tx_wait_def cdc_ep_ok_def data_eps_ok_def)

text \<open>Every full packet is waited for; the loop ends behind the first one that the host did not fetch.\<close>

lemma cdc_tx_full_runs:
  assumes "cdc_ep_ok s" "(i + k) * 64 \<le> length data"
  shows "\<exists>s'. cdc_tx_full fetched data k i s = Some (\<forall>j<k. fetched (i + j), s') \<and> cdc_ep_ok s' \<and>
           ep_log s' = ep_log s @ cdc_sent (take (min k (Suc (length (takeWhile fetched [i..<i + k])))) (cdc_packets (drop (i * 64) data)))"
  using assms
proof (induction k arbitrary: i s)
  case 0
  then show ?case by (auto simp: cdc_sent_def)
next
  case (Suc k)
  let ?d = "take 64 (drop (i * 64) data)"
  have len: "i * 64 + 64 \<le> length data" using Suc.prems(2) by simp
  have nl: "\<not> length data - i * 64 < 64" using len by linarith
  have ps: "cdc_packets (drop (i * 64) data) = ?d # cdc_packets (drop ((i + 1) * 64) data)"
    using nl cdc_packets.simps [of "drop (i * 64) data"] by (simp add: add.commute)
  have upt: "[i..<i + Suc k] = i # [i + 1..<i + 1 + k]" by (simp add: upt_conv_Cons del: upt_Suc)
  have all: "(\<forall>j<Suc k. fetched (i + j)) \<longleftrightarrow> fetched i \<and> (\<forall>j<k. fetched (i + 1 + j))" by (simp add: All_less_Suc2)
  obtain s1 where s1: "cdc_tx_packet ?d s = Some s1" "cdc_ep_ok s1" "ep_log s1 = ep_log s @ cdc_sent [?d]"
    using cdc_tx_packet_sends [OF Suc.prems(1), of ?d] by auto
  obtain s2 where s2: "cdc_tx_wait (fetched i) s1 = (fetched i, s2)" "cdc_ep_ok s2" "ep_log s2 = ep_log s1"
    using cdc_tx_wait_ok [of "fetched i" s1] s1(2) by auto
  show ?case
  proof (cases "fetched i")
    case True
    obtain s' where r: "cdc_tx_full fetched data k (i + 1) s2 = Some (\<forall>j<k. fetched (i + 1 + j), s')" "cdc_ep_ok s'"
      "ep_log s' = ep_log s2 @ cdc_sent (take (min k (Suc (length (takeWhile fetched [i + 1..<i + 1 + k])))) (cdc_packets (drop ((i + 1) * 64) data)))"
      using Suc.IH [OF s2(2), of "i + 1"] Suc.prems(2) by (auto simp: algebra_simps)
    show ?thesis unfolding upt all ps
      by (rule exI [of _ s']) (use True s1 s2 r len in \<open>simp add: cdc_eps rd_range_def cdc_sent_def\<close>)
  next
    case False
    show ?thesis unfolding upt all ps
      by (rule exI [of _ s2]) (use False s1 s2 len in \<open>simp add: cdc_eps rd_range_def cdc_sent_def\<close>)
  qed
qed

lemma cdc_packets_tail: "cdc_packets (drop (length d div 64 * 64) d) = [drop (length d div 64 * 64) d]"
  by (subst cdc_packets.simps) (simp add: minus_div_mult_eq_mod)

lemma cdc_packets_full: "k * 64 \<le> length d \<Longrightarrow> cdc_packets d = take k (cdc_packets d) @ cdc_packets (drop (k * 64) d) \<and> k \<le> length (cdc_packets d)"
proof (induction k arbitrary: d)
  case (Suc k)
  then show ?case using cdc_packets.simps [of d] Suc.IH [of "drop 64 d"] by (simp add: add.commute)
qed simp

lemma takeWhile_upt_all: "\<forall>j<n. P j \<Longrightarrow> takeWhile P [0..<n] = [0..<n]"
  by (simp add: takeWhile_eq_all_conv)

lemma takeWhile_upt_some: "\<exists>j<k. \<not> P j \<Longrightarrow> k \<le> n \<Longrightarrow> takeWhile P [0..<n] = takeWhile P [0..<k]"
  using upt_add_eq_append [of 0 k "n - k"] by (auto simp: takeWhile_append1)

lemma takeWhile_upt_less: "\<exists>j<k. \<not> P j \<Longrightarrow> length (takeWhile P [0..<k]) < k"
  by (metis atLeastLessThan_iff atLeastLessThan_upt diff_zero length_takeWhile_le length_upt nless_le takeWhile_eq_all_conv
      takeWhile_eq_take take_all zero_le)

text \<open>
  C22.  Data of any length is sent to the host over the serial port in packets of at most 64 bytes of which only the
  last is short (empty when the length is a multiple of 64), so that the host reassembles exactly the data.  The
  function waits for the host after each packet that is not empty.  When the host fetches all of these, every
  packet was handed over and the function returns 0; otherwise it stops at the first packet that is not
  fetched in time, has handed over the packets up to and including this one, and returns 1.
\<close>

theorem cdc_tx_framing:
  assumes ok: "cdc_ep_ok s"
  shows "let waited = (length data + 63) div 64; ps = cdc_packets data in
         (\<exists>r s'. usb_cdc_tx_data_to_host fetched data (length data) s = Some (r, s') \<and>
           (if \<forall>j<waited. fetched j then r = 0 \<and> ep_log s' = ep_log s @ cdc_sent ps
            else r = 1 \<and> ep_log s' = ep_log s @ cdc_sent (take (Suc (length (takeWhile fetched [0..<waited]))) ps))) \<and>
         length ps = Suc (length data div 64) \<and> host_transfer ps = data"
proof -
  let ?k = "length data div 64" and ?n = "length data mod 64" and ?w = "(length data + 63) div 64"
  let ?t = "drop (?k * 64) data"
  have t: "length ?t = ?n" by (simp add: minus_div_mult_eq_mod)
  have w: "?w = ?k + (if ?n = 0 then 0 else 1)" by (auto simp: div_add1_eq [of "length data" 63])
  have host: "host_transfer (cdc_packets data) = data" using host_transfer_packets [of data "[]"] by simp
  have ps: "cdc_packets data = take ?k (cdc_packets data) @ [?t]" "?k \<le> length (cdc_packets data)"
    using cdc_packets_full [of ?k data] cdc_packets_tail [of data] by auto
  then have lps: "length (cdc_packets data) = Suc ?k" by (metis length_append_singleton length_take min.absorb2)
  have sent: "cdc_sent (cdc_packets data) = cdc_sent (take ?k (cdc_packets data)) @ cdc_sent [?t]"
    using arg_cong [OF ps(1), of cdc_sent] unfolding cdc_sent_append .
  obtain s1 where f: "cdc_tx_full fetched data ?k 0 s = Some (\<forall>j<?k. fetched j, s1)" "cdc_ep_ok s1"
    "ep_log s1 = ep_log s @ cdc_sent (take (min ?k (Suc (length (takeWhile fetched [0..<?k])))) (cdc_packets data))"
    using cdc_tx_full_runs [OF ok, of 0 ?k data fetched] by auto
  have "\<exists>r s'. usb_cdc_tx_data_to_host fetched data (length data) s = Some (r, s') \<and>
           (if \<forall>j<?w. fetched j then r = 0 \<and> ep_log s' = ep_log s @ cdc_sent (cdc_packets data)
            else r = 1 \<and> ep_log s' = ep_log s @ cdc_sent (take (Suc (length (takeWhile fetched [0..<?w]))) (cdc_packets data)))"
  proof (cases "\<forall>j<?k. fetched j")
    case False
    then have "\<exists>j<?k. \<not> fetched j" "\<not> (\<forall>j<?w. fetched j)" "?k \<le> ?w" unfolding w by (auto intro: less_SucI)
    then have l: "takeWhile fetched [0..<?w] = takeWhile fetched [0..<?k]" "length (takeWhile fetched [0..<?k]) < ?k"
      using takeWhile_upt_some takeWhile_upt_less by blast+
    have m: "min ?k (Suc (length (takeWhile fetched [0..<?k]))) = Suc (length (takeWhile fetched [0..<?k]))" using l(2) by simp
    have nf: "(\<forall>j<?k. fetched j) = False" "(\<forall>j<?w. fetched j) = False" using False \<open>\<not> (\<forall>j<?w. fetched j)\<close> by simp_all
    have "usb_cdc_tx_data_to_host fetched data (length data) s = Some (1, s1)"
      using f(1) unfolding nf by (simp add: usb_cdc_tx_data_to_host_def cdc_eps)
    then show ?thesis using f(3) unfolding nf l(1) m by simp
  next
    case True
    obtain s2 where s2: "cdc_tx_packet ?t s1 = Some s2" "cdc_ep_ok s2" "ep_log s2 = ep_log s1 @ cdc_sent [?t]"
      using cdc_tx_packet_sends [OF f(2), of ?t] t by auto
    have log: "ep_log s2 = ep_log s @ cdc_sent (cdc_packets data)"
      using s2(3) f(3) takeWhile_upt_all [OF True] sent by simp
    obtain s3 where s3: "cdc_tx_wait (fetched ?k) s2 = (fetched ?k, s3)" "ep_log s3 = ep_log s2"
      using cdc_tx_wait_ok [of "fetched ?k" s2] by auto
    show ?thesis
    proof (cases "?n = 0")
      case n0: True
      have "usb_cdc_tx_data_to_host fetched data (length data) s = Some (0, s2)"
        using True f(1) s2(1) n0 t by (simp add: usb_cdc_tx_data_to_host_def cdc_eps)
      then show ?thesis using True n0 log by (simp add: w)
    next
      case n1: False
      have call: "usb_cdc_tx_data_to_host fetched data (length data) s = Some (if fetched ?k then 0 else 1, s3)"
        using True f(1) s2(1) s3(1) n1 t by (simp add: usb_cdc_tx_data_to_host_def cdc_eps rd_range_def)
      have all: "(\<forall>j<?w. fetched j) \<longleftrightarrow> fetched ?k" using True n1 by (auto simp: w less_Suc_eq)
      have "takeWhile fetched [0..<?k] = [0..<?k]" by (rule takeWhile_upt_all [OF True])
      then have "length (takeWhile fetched [0..<?w]) \<ge> ?k" unfolding w using n1 by (simp add: takeWhile_append)
      then have "take (Suc (length (takeWhile fetched [0..<?w]))) (cdc_packets data) = cdc_packets data" using lps by simp
      then show ?thesis unfolding all using call log s3(2) by (auto simp del: upt_Suc)
    qed
  qed
  then show ?thesis using lps host by (simp add: Let_def)
qed

definition cdc_zero :: usbcdc where
  "cdc_zero = \<lparr>reg_ctrl_ep_dat = replicate 8 0, reg_ctrl_ep_ptr = 0, reg_ctrl_ep_irq_mode = 0, reg_usb_sups_cyc_cali = 0, ctrl_ep_log = [],
     reg_usb_ep_dat = replicate 8 (replicate 64 0), reg_usb_ep_ptr = replicate 8 0, reg_usb_ep_ctrl = replicate 8 0, ep_log = [],
     core_reg = (\<lambda>_. 0), analog_reg = (\<lambda>_. 0),
     speaker_setting = \<lparr>vol_cur = 0, vol_step = 0, mute = 0\<rparr>, mic_setting = \<lparr>vol_cur = 0, vol_step = 0, mute = 0\<rparr>,
     g_usb_audio_status = \<lparr>speaker_vol = 0, mic_vol = 0, speaker_mute = 0, mic_mute = 0, change = 0\<rparr>, aaa_audio_intf_set = 0,
     usb_cdc_data = replicate 64 0, usb_cdc_data_len = 0, usb_cdc_tx_cnt = 0,
     LineCoding = [0, 0xC2, 1, 0, 0, 0, 8], g_stall = False\<rparr>"

lemma cdc_zero_ok: "cdc_ep_ok cdc_zero" by code_simp

theorem cdc_tx_framing_witness:
  "\<exists>s'. usb_cdc_tx_data_to_host (\<lambda>i. i < 1) (replicate 130 7) 130 cdc_zero = Some (1, s') \<and>
      ep_log s' = cdc_sent [replicate 64 7, replicate 64 7]"
proof -
  have l: "Suc (length (takeWhile (\<lambda>i. i < (1 :: nat)) [0..<3])) = 2" by (simp add: upt_rec)
  have r: "\<not> (\<forall>j<3. j < (1 :: nat))" by (intro notI) (drule spec [of _ 2], simp)
  have p: "take 2 (cdc_packets (replicate 130 7)) = [replicate 64 7, replicate 64 (7 :: u8)]"
    by (simp add: cdc_packets.simps [of "replicate 130 7"] cdc_packets.simps [of "replicate 66 7"] min_def)
  have e: "ep_log cdc_zero = []" by (simp add: cdc_zero_def)
  have w: "(130 + 63) div 64 = (3 :: nat)" "length (replicate 130 (7 :: u8)) = 130" by simp_all
  show ?thesis using cdc_tx_framing [OF cdc_zero_ok, of "replicate 130 7" "\<lambda>i. i < 1"]
    unfolding Let_def w if_not_P [OF r] l p e append_Nil by blast
qed

text \<open>
  A packet the host sends is copied into the receive buffer with its length, and the endpoint is acknowledged; a
  packet length of 0 or more than 64 leaves the buffer as it was.
\<close>

lemma cdc_rx_stored:
  assumes "cdc_ep_ok s" "reg_usb_ep_ptr s ! 5 = n" "n < 256"
  shows "\<exists>s'. usb_cdc_irq_data_process 0x20 s = Some s' \<and> cdc_ep_ok s' \<and>
     ep_log s' = ep_log s @ [(5, FLD_USB_EP_BUSY, take (if n \<le> 64 then n else 0) (reg_usb_ep_dat s ! 5))] \<and>
     (if 0 < n \<and> n \<le> 64
      then take n (usb_cdc_data s') = take n (reg_usb_ep_dat s ! 5) \<and> drop n (usb_cdc_data s') = drop n (usb_cdc_data s) \<and> unat (usb_cdc_data_len s') = n
      else usb_cdc_data s' = usb_cdc_data s \<and> usb_cdc_data_len s' = usb_cdc_data_len s)"
proof -
  let ?s = "usbhw_reset_ep_ptr 5 (s\<lparr>g_stall := False\<rparr>)"
  have e: "data_eps_ok ?s" "reg_usb_ep_ptr ?s ! 5 = 0" "reg_usb_ep_dat ?s = reg_usb_ep_dat s"
    using assms by (auto simp: cdc_ep_ok_def data_eps_ok_def usbhw_reset_ep_ptr_def)
  have u: "unat (of_nat n :: u16) = n" using assms(3) by (simp add: unat_of_nat take_bit_nat_eq_self)
  show ?thesis
    using ep_reads_room [of ?s 5 n] e assms u
    by (auto simp: usb_cdc_irq_data_process_def usb_cdc_rx_data_from_host_def cdc_eps Let_def cdc_ep_ok_def data_eps_ok_def
        usbhw_reset_ep_ptr_def usbhw_data_ep_ack_def ep_ctrl_write_def wr_range_def)
qed

end
