(* ===== verification/Usb_Std.thy ===== *)
theory Usb_Std
  imports Usb_Cdc
begin

unbundle bit_operations_syntax

text \<open>
  The control endpoint of the USB application (\<^verbatim>\<open>application/usbstd/usb.c\<close>, the string and descriptor getters of
  \<^verbatim>\<open>application/usbstd/usbdesc.c\<close>) on the B91: descriptors, standard, HID, serial port and audio requests, and the
  interrupt handler.

  The build options are a record \<open>usb_cfg\<close>; somatic sensor, mass storage, the Microsoft OS descriptors and the
  keyboard and mouse dongle descriptors are built out (their options are 0 by default).  The descriptor tables, which
  depend on the options, are a record \<open>usb_descs\<close>.  The pointer \<^verbatim>\<open>g_response\<close> is the list of the bytes from it to the
  end of the object it points into.  \<open>None\<close> is an access outside an object.
\<close>

section \<open>Data\<close>

definition DTYPE_Device :: u8 where "DTYPE_Device = 1"
definition DTYPE_Configuration :: u8 where "DTYPE_Configuration = 2"
definition DTYPE_String :: u8 where "DTYPE_String = 3"
definition HID_DTYPE_HID :: u8 where "HID_DTYPE_HID = 0x21"
definition HID_DTYPE_Report :: u8 where "HID_DTYPE_Report = 0x22"
definition USB_STRING_LANGUAGE :: u8 where "USB_STRING_LANGUAGE = 0"
definition USB_STRING_VENDOR :: u8 where "USB_STRING_VENDOR = 1"
definition USB_STRING_PRODUCT :: u8 where "USB_STRING_PRODUCT = 2"
definition USB_STRING_SERIAL :: u8 where "USB_STRING_SERIAL = 3"
definition REQ_SetFeature :: u8 where "REQ_SetFeature = 3"
definition REQ_GetDescriptor :: u8 where "REQ_GetDescriptor = 6"
definition REQ_GetConfiguration :: u8 where "REQ_GetConfiguration = 8"
definition REQ_SetConfiguration :: u8 where "REQ_SetConfiguration = 9"
definition REQ_GetInterface :: u8 where "REQ_GetInterface = 10"
definition REQ_SetInterface :: u8 where "REQ_SetInterface = 11"
definition HID_REQ_GetReport :: u8 where "HID_REQ_GetReport = 1"
definition HID_REQ_GetIdle :: u8 where "HID_REQ_GetIdle = 2"
definition HID_REQ_GetProtocol :: u8 where "HID_REQ_GetProtocol = 3"
definition HID_REQ_SetReport :: u8 where "HID_REQ_SetReport = 9"
definition HID_REQ_SetIdle :: u8 where "HID_REQ_SetIdle = 10"
definition HID_REQ_SetProtocol :: u8 where "HID_REQ_SetProtocol = 11"
definition HID_REPORT_ITEM_In :: u8 where "HID_REPORT_ITEM_In = 0"
definition HID_REPORT_ITEM_Out :: u8 where "HID_REPORT_ITEM_Out = 1"
definition HID_REPORT_ITEM_Feature :: u8 where "HID_REPORT_ITEM_Feature = 2"
definition HID_REPORT_CUSTOM :: u8 where "HID_REPORT_CUSTOM = 3"
definition CDC_REQ_SetLine_Encoding :: u8 where "CDC_REQ_SetLine_Encoding = 0x20"
definition CDC_REQ_GetLine_Encoding :: u8 where "CDC_REQ_GetLine_Encoding = 0x21"
definition CDC_REQ_SetControlLine_State :: u8 where "CDC_REQ_SetControlLine_State = 0x22"
definition CDC_NOTIF_Serial_State :: u8 where "CDC_NOTIF_Serial_State = 0x20"
definition USB_SPEAKER_FEATURE_UNIT_ID :: u8 where "USB_SPEAKER_FEATURE_UNIT_ID = 2"
definition USB_MIC_FEATURE_UNIT_ID :: u8 where "USB_MIC_FEATURE_UNIT_ID = 5"
definition AUDIO_EPCONTROL_SamplingFreq :: u8 where "AUDIO_EPCONTROL_SamplingFreq = 1"
definition USB_EDP_MOUSE_EP :: nat where "USB_EDP_MOUSE_EP = 2"
definition USB_EDP_SPEAKER :: nat where "USB_EDP_SPEAKER = 6"

record usb_cfg =
  USB_CDC_ENABLE :: bool
  USB_PRINTER_ENABLE :: bool
  USB_SPEAKER_ENABLE :: bool
  USB_MIC_ENABLE :: bool
  USB_KEYBOARD_ENABLE :: bool
  USB_MOUSE_ENABLE :: bool
  USB_CUSTOM_HID_REPORT :: bool
  IRQ_USB_PWDN_ENABLE :: bool
  MIC_SAMPLE_RATE :: u32

datatype USB_INTF_ID_E = USB_INTF_CDC_CCI | USB_INTF_CDC_DCI | USB_INTF_PRINTER | USB_INTF_AUDIO_CONTROL
  | USB_INTF_SPEAKER | USB_INTF_MIC | USB_INTF_KEYBOARD | USB_INTF_MOUSE

text \<open>The enumeration of the enabled interfaces; the number of an interface is its position.\<close>

definition usb_intfs :: "usb_cfg \<Rightarrow> USB_INTF_ID_E list" where
  "usb_intfs c =
     (if USB_CDC_ENABLE c then [USB_INTF_CDC_CCI, USB_INTF_CDC_DCI] else []) @
     (if USB_PRINTER_ENABLE c then [USB_INTF_PRINTER] else []) @
     (if USB_SPEAKER_ENABLE c \<or> USB_MIC_ENABLE c then [USB_INTF_AUDIO_CONTROL] else []) @
     (if USB_SPEAKER_ENABLE c then [USB_INTF_SPEAKER] else []) @
     (if USB_MIC_ENABLE c then [USB_INTF_MIC] else []) @
     (if USB_KEYBOARD_ENABLE c then [USB_INTF_KEYBOARD] else []) @
     (if USB_MOUSE_ENABLE c then [USB_INTF_MOUSE] else [])"

definition USB_INTF_MAX :: "usb_cfg \<Rightarrow> nat" where "USB_INTF_MAX c = length (usb_intfs c)"

definition intf_no :: "usb_cfg \<Rightarrow> USB_INTF_ID_E \<Rightarrow> u8" where
  "intf_no c i = of_nat (length (takeWhile (\<lambda>j. j \<noteq> i) (usb_intfs c)))"

record usb_descs =
  device_desc :: bytes
  configuration_desc :: bytes
  mouse_descriptor :: nat
  keyboard_descriptor :: nat
  keyboard_report_desc :: bytes
  mouse_report_desc :: bytes
  STRING_VENDOR :: bytes
  STRING_PRODUCT :: bytes
  STRING_SERIAL :: bytes

record USB_Request_Hdr_t =
  RequestType :: u8
  Request :: u8
  rq_Value :: u16
  rq_Index :: u16
  rq_Length :: u16

datatype usb_device_status_e = USB_DEVICE_IDLE | USB_DEVICE_CONFIGURED | USB_DEVICE_SUSPEND | USB_DEVICE_DISCONNECT

record usb_dev = usbcdc +
  usb_g_feature :: u8
  host_keyboard_status :: u8
  host_cmd :: bytes
  host_cmd_paring_ok :: u8
  control_request :: USB_Request_Hdr_t
  g_response :: bytes
  g_response_len :: u16
  usb_mouse_report_proto :: u8
  g_rate :: u8
  g_usb_config :: u8
  g_usb_config_value :: u8
  usb_len_idx_0 :: u16
  usb_len_idx_s :: u16
  usb_len_idx_h :: u16
  g_usb_device_status :: usb_device_status_e
  usb_alt_intf :: bytes
  custom_read_dat :: u32
  custom_reg_cmd :: bool
  usb_has_suspend_irq :: u8
  edp_toggle :: bytes

definition value_l :: "usb_dev \<Rightarrow> u8" where "value_l s = ucast (rq_Value (control_request s) AND 0xff)"
definition value_h :: "usb_dev \<Rightarrow> u8" where "value_h s = ucast (drop_bit 8 (rq_Value (control_request s)) AND 0xff)"
definition index_l :: "usb_dev \<Rightarrow> u8" where "index_l s = ucast (rq_Index (control_request s) AND 0xff)"
definition index_h :: "usb_dev \<Rightarrow> u8" where "index_h s = ucast (drop_bit 8 (rq_Index (control_request s)) AND 0xff)"

definition audio_en :: "usb_cfg \<Rightarrow> bool" where "audio_en c \<longleftrightarrow> USB_MIC_ENABLE c \<or> USB_SPEAKER_ENABLE c"

section \<open>Descriptors\<close>

definition language_desc :: bytes where "language_desc = [4, DTYPE_String, 0x09, 0x04] @ replicate 198 0"

text \<open>\<^verbatim>\<open>usb_desc_str\<close> up to its length: what is behind it is left over from the string before.\<close>

definition usbdesc_get_str :: "bytes \<Rightarrow> bytes" where
  "usbdesc_get_str src =
     (let max_count = 32; char_count = (if length src > max_count then max_count else length src)
      in [of_nat (2 + char_count * 2), DTYPE_String] @ concat (map (\<lambda>ch. [ch, 0]) (take char_count src)))"

definition set_response :: "bytes \<Rightarrow> u16 \<Rightarrow> usb_dev \<Rightarrow> usb_dev" where
  "set_response p n s = s\<lparr>g_response := p, g_response_len := n\<rparr>"

definition clip_response :: "usb_dev \<Rightarrow> usb_dev" where
  "clip_response s =
     (let s1 = (if rq_Length (control_request s) < g_response_len s then s\<lparr>g_response_len := rq_Length (control_request s)\<rparr> else s)
      in s1\<lparr>usb_len_idx_s := g_response_len s1\<rparr>)"

definition usb_prepare_desc_data :: "usb_descs \<Rightarrow> usb_dev \<Rightarrow> usb_dev" where
  "usb_prepare_desc_data D s0 =
     (let s = set_response [] 0 s0 in
      clip_response
       (if value_h s = DTYPE_Device then set_response (device_desc D) 18 s
        else if value_h s = DTYPE_Configuration then set_response (configuration_desc D) (of_nat (length (configuration_desc D))) s
        else if value_h s = DTYPE_String
        then if value_l s = USB_STRING_LANGUAGE then set_response language_desc (ucast (language_desc ! 0)) s
             else if value_l s = USB_STRING_VENDOR then let p = usbdesc_get_str (STRING_VENDOR D) in set_response p (ucast (p ! 0)) s
             else if value_l s = USB_STRING_PRODUCT then let p = usbdesc_get_str (STRING_PRODUCT D) in set_response p (ucast (p ! 0)) s
             else if value_l s = USB_STRING_SERIAL then let p = usbdesc_get_str (STRING_SERIAL D) in set_response p (ucast (p ! 0)) s
             else s\<lparr>g_stall := True\<rparr>
        else s\<lparr>g_stall := True\<rparr>))"

definition usb_handle_std_intf_req :: "usb_cfg \<Rightarrow> usb_descs \<Rightarrow> usb_dev \<Rightarrow> usb_dev" where
  "usb_handle_std_intf_req c D s =
     clip_response
      (if value_h s = HID_DTYPE_HID
       then let s1 = (if USB_MOUSE_ENABLE c \<and> index_l s = intf_no c USB_INTF_MOUSE
                      then set_response (drop (mouse_descriptor D) (configuration_desc D)) 9 s else s)
            in if USB_KEYBOARD_ENABLE c \<and> index_l s1 = intf_no c USB_INTF_KEYBOARD
               then set_response (drop (keyboard_descriptor D) (configuration_desc D)) 9 s1 else s1
       else if value_h s = HID_DTYPE_Report
       then if USB_KEYBOARD_ENABLE c \<and> index_l s = intf_no c USB_INTF_KEYBOARD
            then set_response (keyboard_report_desc D) (of_nat (length (keyboard_report_desc D))) s
            else if USB_MOUSE_ENABLE c \<and> index_l s = intf_no c USB_INTF_MOUSE
            then set_response (mouse_report_desc D) (of_nat (length (mouse_report_desc D))) s
            else s\<lparr>g_stall := True\<rparr>
       else s)"

text \<open>At most one packet of the response is written to the endpoint.\<close>

definition usb_send_response :: "usb_dev \<Rightarrow> usb_dev option" where
  "usb_send_response s =
     (let n = (if unat (g_response_len s) < USB_CTR_ENDPOINT_SIZE then g_response_len s else of_nat USB_CTR_ENDPOINT_SIZE);
          s1 = usbhw_reset_ctrl_ep_ptr (s\<lparr>g_response_len := g_response_len s - n, usb_len_idx_0 := n\<rparr>)
      in do { d \<leftarrow> rd_range (g_response s1) 0 (unat n); s2 \<leftarrow> ctrl_ep_writes d s1;
              Some (s2\<lparr>g_response := drop (unat n) (g_response s2)\<rparr>) })"

section \<open>Class requests\<close>

text \<open>The register access over a custom report: a command of eight bytes of the host.\<close>

fun custom_read_core :: "nat \<Rightarrow> u32 \<Rightarrow> usb_dev \<Rightarrow> usb_dev" where
  "custom_read_core 0 adr s = s"
| "custom_read_core (Suc k) adr s =
     custom_read_core k (adr + 1) (s\<lparr>custom_read_dat := drop_bit 8 (custom_read_dat s) OR push_bit 24 (ucast (read_reg8 adr s))\<rparr>)"

definition host_u16 :: "nat \<Rightarrow> usb_dev \<Rightarrow> u16" where
  "host_u16 i s = ucast (host_cmd s ! i) OR push_bit 8 (ucast (host_cmd s ! (i + 1)))"

definition host_u32 :: "nat \<Rightarrow> usb_dev \<Rightarrow> u32" where
  "host_u32 i s = ucast (host_u16 i s) OR push_bit 16 (ucast (host_u16 (i + 2) s))"

definition custom_reg_access :: "usb_dev \<Rightarrow> usb_dev" where
  "custom_reg_access s0 =
     (let s = s0\<lparr>host_cmd := (host_cmd s0)[0 := 0]\<rparr>;
          adr0 = (ucast (host_u16 2 s) :: u32); cmd = host_cmd s ! 1; len = cmd AND 3;
          (adr, s1) = (if cmd = 0xcc \<and> adr0 = 0x5af0
            then (adr0, usb_dp_pullup_en True ((usb_dp_pullup_en False s)\<lparr>reg_ctrl_ep_irq_mode := 0xff\<rparr>))
            else (adr0 + 0x800000, s))
      in if cmd AND 0x0c = 0
         then if len = 0 then custom_read_core 4 adr s1
              else if len = 1 then write_reg8 adr (host_cmd s1 ! 4) s1
              else if len = 2 then write_reg16 adr (host_u16 4 s1) s1
              else write_reg32 adr (host_u32 4 s1) s1
         else if len = 0 then s1\<lparr>custom_read_dat := ucast (analog_reg s1 (host_cmd s1 ! 2))\<rparr>
         else analog_write_reg8 (host_cmd s1 ! 2) (host_cmd s1 ! 4) s1)"

definition custom_set_report :: "usb_dev \<Rightarrow> usb_dev option" where
  "custom_set_report s =
     do { (d, s1) \<leftarrow> ctrl_ep_reads 8 (usbhw_reset_ctrl_ep_ptr s);
          let s2 = s1\<lparr>host_cmd := d, custom_reg_cmd := (d ! 1 AND 0xf0 = 0xc0)\<rparr> in
          Some (if custom_reg_cmd s2 then custom_reg_access s2 else s2) }"

definition hid_set_report :: "usb_cfg \<Rightarrow> bool \<Rightarrow> usb_dev \<Rightarrow> usb_dev option" where
  "hid_set_report c data_request s =
     (if value_h s = HID_REPORT_ITEM_In \<or> value_h s = HID_REPORT_ITEM_Out then Some s
      else if value_h s = HID_REPORT_ITEM_Feature
      then if data_request then do { (v, s1) \<leftarrow> usbhw_read_ctrl_ep_data s; Some (s1\<lparr>host_keyboard_status := v\<rparr>) } else Some s
      else if value_h s = HID_REPORT_CUSTOM \<and> USB_CUSTOM_HID_REPORT c
      then if data_request then custom_set_report s else Some s
      else Some (s\<lparr>g_stall := True\<rparr>))"

definition out_class_switch :: "usb_cfg \<Rightarrow> bool \<Rightarrow> usb_dev \<Rightarrow> usb_dev option" where
  "out_class_switch c data_request s =
     (let property = Request (control_request s) in
      if USB_CDC_ENABLE c \<and> property = CDC_REQ_SetControlLine_State then Some s
      else if USB_CDC_ENABLE c \<and> property = CDC_REQ_SetLine_Encoding
      then if data_request then do { (d, s1) \<leftarrow> ctrl_ep_reads 7 (usbhw_reset_ctrl_ep_ptr s); Some (s1\<lparr>LineCoding := d\<rparr>) } else Some s
      else if property = HID_REQ_SetReport then hid_set_report c data_request s
      else if property = HID_REQ_SetIdle
      then do { s1 \<leftarrow> (if data_request then do { (v, t) \<leftarrow> usbhw_read_ctrl_ep_data s; Some (t\<lparr>g_rate := v\<rparr>) } else Some s);
                Some (s1\<lparr>g_rate := value_h s1\<rparr>) }
      else if property = HID_REQ_SetProtocol
      then do { s1 \<leftarrow> (if data_request then do { (v, t) \<leftarrow> usbhw_read_ctrl_ep_data s; Some (t\<lparr>usb_mouse_report_proto := v\<rparr>) } else Some s);
                Some (ep_ctrl_write USB_EDP_MOUSE_EP 0 (s1\<lparr>usb_mouse_report_proto := value_l s1\<rparr>)) }
      else Some (s\<lparr>g_stall := True\<rparr>))"

definition usb_handle_out_class_intf_req :: "usb_cfg \<Rightarrow> bool \<Rightarrow> usb_dev \<Rightarrow> usb_dev option" where
  "usb_handle_out_class_intf_req c data_request s =
     do { s1 \<leftarrow> out_class_switch c data_request s;
          if \<not> audio_en c \<or> \<not> g_stall s1 then Some s1
          else let s2 = s1\<lparr>g_stall := False\<rparr> in
            if index_h s2 = USB_SPEAKER_FEATURE_UNIT_ID then map_option snd (usbaud_handle_set_speaker_cmd (value_h s2) s2)
            else if index_h s2 = USB_MIC_FEATURE_UNIT_ID then map_option snd (usbaud_handle_set_mic_cmd (value_h s2) s2)
            else Some (s2\<lparr>g_stall := True\<rparr>) }"

text \<open>A custom report is answered with eight bytes, and then runs on into the next case of the switch.\<close>

definition hid_get_report :: "usb_cfg \<Rightarrow> usb_dev \<Rightarrow> usb_dev option" where
  "hid_get_report c s =
     (if USB_CUSTOM_HID_REPORT c \<and> rq_Value (control_request s) = 0x0305
      then do { s1 \<leftarrow> (if custom_reg_cmd s
                  then ctrl_ep_writes (UINT32_TO_BSTREAM (custom_read_dat s) @ [0x10, 0x20, 0x40, 0x80]) s
                  else ctrl_ep_writes [4, 0x58, 0, if host_cmd_paring_ok s \<noteq> 0 then 0xa1 else 0, 0, 0, 8, 0] s);
                usbhw_write_ctrl_ep_data (g_rate s1) s1 }
      else Some s)"

definition in_class_switch :: "usb_cfg \<Rightarrow> usb_dev \<Rightarrow> usb_dev option" where
  "in_class_switch c s =
     (let property = Request (control_request s) in
      if property = 0 then usbhw_write_ctrl_ep_data 0 s
      else if USB_CDC_ENABLE c \<and> property = CDC_REQ_GetLine_Encoding
      then do { d \<leftarrow> rd_range (LineCoding s) 0 7; ctrl_ep_writes d s }
      else if USB_CDC_ENABLE c \<and> property = CDC_NOTIF_Serial_State then Some s
      else if property = HID_REQ_GetReport then hid_get_report c s
      else if property = HID_REQ_GetIdle then usbhw_write_ctrl_ep_data (g_rate s) s
      else if property = HID_REQ_GetProtocol then usbhw_write_ctrl_ep_data (usb_mouse_report_proto s) s
      else Some (s\<lparr>g_stall := True\<rparr>))"

definition stall_if :: "(int \<times> usb_dev) option \<Rightarrow> usb_dev option" where
  "stall_if r = do { (e, s) \<leftarrow> r; Some (if e \<noteq> 0 then s\<lparr>g_stall := True\<rparr> else s) }"

definition usb_handle_in_class_intf_req :: "usb_cfg \<Rightarrow> usb_dev \<Rightarrow> usb_dev option" where
  "usb_handle_in_class_intf_req c s =
     do { s1 \<leftarrow> in_class_switch c s;
          if \<not> audio_en c \<or> \<not> g_stall s1 then Some s1
          else let s2 = s1\<lparr>g_stall := False\<rparr>; property = Request (control_request s2) in
            if index_h s2 = USB_SPEAKER_FEATURE_UNIT_ID then stall_if (usbaud_handle_get_speaker_cmd property (value_h s2) s2)
            else if index_h s2 = USB_MIC_FEATURE_UNIT_ID then stall_if (usbaud_handle_get_mic_cmd property (value_h s2) s2)
            else Some (s2\<lparr>g_stall := True\<rparr>) }"

definition usb_handle_in_class_endp_req :: "usb_cfg \<Rightarrow> usb_dev \<Rightarrow> usb_dev option" where
  "usb_handle_in_class_endp_req c s =
     (if audio_en c \<and> value_h s = AUDIO_EPCONTROL_SamplingFreq \<and> Request (control_request s) = AUDIO_REQ_GetCurrent
      then ctrl_ep_writes (take 3 (UINT32_TO_BSTREAM (MIC_SAMPLE_RATE c))) s else Some s)"

section \<open>Interfaces and requests\<close>

definition ack_first_packet :: "nat \<Rightarrow> usb_dev \<Rightarrow> usb_dev" where
  "ack_first_packet ep s = ep_ctrl_write ep 1 (usbhw_reset_ep_ptr ep s)"

definition usb_handle_set_intf :: "usb_cfg \<Rightarrow> usb_dev \<Rightarrow> usb_dev option" where
  "usb_handle_set_intf c s =
     (if \<not> audio_en c then Some s
      else let intf_index = ucast (rq_Index (control_request s) AND 7) :: u8 in
        do { a \<leftarrow> wr8 (usb_alt_intf s) (unat intf_index) (value_l s);
             let s1 = s\<lparr>usb_alt_intf := a\<rparr>;
                 s2 = (if USB_MIC_ENABLE c \<and> intf_no c USB_INTF_MIC = intf_index \<and> value_l s \<noteq> 0 then ack_first_packet USB_EDP_MIC s1 else s1)
             in Some (if USB_SPEAKER_ENABLE c \<and> intf_no c USB_INTF_SPEAKER = intf_index \<and> value_l s \<noteq> 0
                      then ack_first_packet USB_EDP_SPEAKER s2 else s2) })"

definition usb_handle_get_intf :: "usb_dev \<Rightarrow> usb_dev option" where
  "usb_handle_get_intf s =
     do { v \<leftarrow> rd8 (usb_alt_intf s) (unat (rq_Index (control_request s) AND 7)); usbhw_write_ctrl_ep_data v s }"

definition usb_handle_request :: "usb_cfg \<Rightarrow> usb_descs \<Rightarrow> bool \<Rightarrow> usb_dev \<Rightarrow> usb_dev option" where
  "usb_handle_request c D data_request s0 =
     (let s = usbhw_reset_ctrl_ep_ptr s0; ty = RequestType (control_request s); rq = Request (control_request s)
      in if ty = 0x80
         then if rq = REQ_GetDescriptor then usb_send_response (if data_request then s else usb_prepare_desc_data D s)
              else if rq = REQ_GetConfiguration then usbhw_write_ctrl_ep_data (g_usb_config_value s) (usbhw_reset_ctrl_ep_ptr s)
              else Some s
         else if ty = 0x81
         then if rq = REQ_GetDescriptor then usb_send_response (if data_request then s else usb_handle_std_intf_req c D s)
              else if audio_en c \<and> rq = REQ_GetInterface then usb_handle_get_intf s
              else Some s
         else if ty = 0x21 then usb_handle_out_class_intf_req c data_request s
         else if ty = 0x22 then Some s
         else if ty = 0xa1 then usb_handle_in_class_intf_req c s
         else if ty = 0xa2 then usb_handle_in_class_endp_req c s
         else if ty = 1
         then if rq = REQ_SetInterface then usb_handle_set_intf c s
              else if rq = REQ_SetFeature then Some (s\<lparr>g_stall := True, usb_g_feature := 1\<rparr>)
              else Some s
         else if ty = 0
         then if rq = REQ_SetConfiguration
              then let s1 = s\<lparr>g_usb_config_value := value_l s\<rparr>
                   in Some (if value_l s \<noteq> 0 then s1\<lparr>g_usb_config := 1\<rparr> else s1)
              else Some s
         else Some (s\<lparr>g_stall := True\<rparr>))"

section \<open>Interrupts\<close>

definition ctl_reply :: "usb_dev \<Rightarrow> usb_dev" where
  "ctl_reply s = usbhw_write_ctrl_ep_ctrl (if g_stall s then FLD_EP_DAT_STALL else FLD_EP_DAT_ACK) s"

definition usb_handle_ctl_ep_setup :: "usb_cfg \<Rightarrow> usb_descs \<Rightarrow> usb_dev \<Rightarrow> usb_dev option" where
  "usb_handle_ctl_ep_setup c D s =
     do { (ty, s1) \<leftarrow> usbhw_read_ctrl_ep_data (usbhw_reset_ctrl_ep_ptr (s\<lparr>reg_usb_sups_cyc_cali := 0x38\<rparr>));
          (rq, s2) \<leftarrow> usbhw_read_ctrl_ep_data s1;
          (v, s3) \<leftarrow> usbhw_read_ctrl_ep_u16 s2; (i, s4) \<leftarrow> usbhw_read_ctrl_ep_u16 s3; (l, s5) \<leftarrow> usbhw_read_ctrl_ep_u16 s4;
          s6 \<leftarrow> usb_handle_request c D False
            (s5\<lparr>control_request := \<lparr>RequestType = ty, Request = rq, rq_Value = v, rq_Index = i, rq_Length = l\<rparr>,
                usb_len_idx_h := l, g_stall := False\<rparr>);
          Some (ctl_reply s6) }"

definition usb_handle_ctl_ep_data :: "usb_cfg \<Rightarrow> usb_descs \<Rightarrow> usb_dev \<Rightarrow> usb_dev option" where
  "usb_handle_ctl_ep_data c D s =
     do { s1 \<leftarrow> usb_handle_request c D True ((usbhw_reset_ctrl_ep_ptr (s\<lparr>reg_usb_sups_cyc_cali := 0x38\<rparr>))\<lparr>g_stall := False\<rparr>);
          Some (ctl_reply
            (if \<not> g_stall s1 \<and> unat (usb_len_idx_s s1) mod USB_CTR_ENDPOINT_SIZE = 0 \<and> usb_len_idx_0 s1 = 0 \<and> usb_len_idx_s s1 \<noteq> usb_len_idx_h s1
             then s1\<lparr>reg_usb_sups_cyc_cali := 0x18\<rparr> else s1)) }"

definition usb_handle_ctl_ep_status :: "usb_dev \<Rightarrow> usb_dev" where
  "usb_handle_ctl_ep_status s =
     usbhw_write_ctrl_ep_ctrl (if g_stall s then FLD_EP_STA_STALL else FLD_EP_STA_ACK) (s\<lparr>reg_usb_sups_cyc_cali := 0x38\<rparr>)"

text \<open>What the status registers show while the handler runs; clearing the suspend status makes it read as clear.\<close>

record usb_irqs =
  ctrl_ep_irq :: u8
  eps_irq :: u8
  irq_reset :: bool
  irq_suspend :: bool
  host_conn_status :: bool
  wkup_feature :: bool

definition usb_device_status_update :: "usb_irqs \<Rightarrow> usb_dev \<Rightarrow> usb_dev" where
  "usb_device_status_update q s =
     s\<lparr>g_usb_device_status :=
        (if host_conn_status q
         then if wkup_feature q \<and> irq_suspend q then USB_DEVICE_SUSPEND else USB_DEVICE_CONFIGURED
         else USB_DEVICE_DISCONNECT)\<rparr>"

definition usb_irq_bus_reset :: "usb_cfg \<Rightarrow> usb_dev \<Rightarrow> usb_dev" where
  "usb_irq_bus_reset c s =
     (let s1 = fold (\<lambda>i t. (ep_ctrl_write i 0 t)\<lparr>edp_toggle := (edp_toggle t)[i := 0]\<rparr>) [0..<8] (s\<lparr>usb_mouse_report_proto := 1\<rparr>);
          s2 = (if USB_SPEAKER_ENABLE c then ep_ctrl_write USB_EDP_SPEAKER FLD_USB_EP_BUSY s1 else s1)
      in if USB_CDC_ENABLE c then usbhw_data_ep_ack USB_EDP_CDC_OUT s2 else s2)"

definition usb_handle_irq :: "usb_cfg \<Rightarrow> usb_descs \<Rightarrow> usb_irqs \<Rightarrow> usb_dev \<Rightarrow> usb_dev option" where
  "usb_handle_irq c D q s =
     do { s1 \<leftarrow> (if ctrl_ep_irq q AND FLD_CTRL_EP_IRQ_SETUP \<noteq> 0 then usb_handle_ctl_ep_setup c D s else Some s);
          s2 \<leftarrow> (if ctrl_ep_irq q AND FLD_CTRL_EP_IRQ_DATA \<noteq> 0 then usb_handle_ctl_ep_data c D s1 else Some s1);
          let s3 = (if usb_g_feature s2 = 1 then s2\<lparr>usb_g_feature := 0\<rparr> else s2);
              s4 = (if ctrl_ep_irq q AND FLD_CTRL_EP_IRQ_STA \<noteq> 0 then usb_handle_ctl_ep_status s3 else s3) in
          do { s5 \<leftarrow> (if USB_CDC_ENABLE c then usb_cdc_irq_data_process (eps_irq q) s4 else Some s4);
               let s6 = (if irq_reset q then usb_irq_bus_reset c s5 else s5);
                   susp = IRQ_USB_PWDN_ENABLE c \<and> irq_suspend q;
                   s7 = s6\<lparr>usb_has_suspend_irq := (if susp then 1 else 0)\<rparr>;
                   q1 = (if susp then q\<lparr>irq_suspend := False\<rparr> else q) in
               Some (if g_usb_config s7 \<noteq> 0 then usb_device_status_update q1 s7 else s7) } }"

section \<open>Well-formed states\<close>

text \<open>The buffers have their sizes and the response pointer has the announced number of bytes in front of it.\<close>

definition usb_ok :: "usb_cfg \<Rightarrow> usb_dev \<Rightarrow> bool" where
  "usb_ok c s \<longleftrightarrow> ctrl_ep_ok s \<and> cdc_ep_ok s \<and> length (LineCoding s) = 7 \<and> length (host_cmd s) = 8 \<and>
     unat (g_response_len s) \<le> length (g_response s) \<and> length (usb_alt_intf s) = USB_INTF_MAX c \<and> length (edp_toggle s) = 8"

definition descs_ok :: "usb_descs \<Rightarrow> bool" where
  "descs_ok D \<longleftrightarrow> length (device_desc D) = 18 \<and> length (configuration_desc D) < 65536 \<and>
     mouse_descriptor D + 9 \<le> length (configuration_desc D) \<and> keyboard_descriptor D + 9 \<le> length (configuration_desc D) \<and>
     length (keyboard_report_desc D) < 65536 \<and> length (mouse_report_desc D) < 65536"

text \<open>The requests that address an interface which does not exist, and the custom report.\<close>

definition safe_req :: "usb_cfg \<Rightarrow> USB_Request_Hdr_t \<Rightarrow> bool" where
  "safe_req c r \<longleftrightarrow>
     (audio_en c \<and> (RequestType r = 1 \<and> Request r = REQ_SetInterface \<or> RequestType r = 0x81 \<and> Request r = REQ_GetInterface)
        \<longrightarrow> unat (rq_Index r AND 7) < USB_INTF_MAX c) \<and>
     \<not> (USB_CUSTOM_HID_REPORT c \<and> RequestType r = 0xa1 \<and> Request r = HID_REQ_GetReport \<and> rq_Value r = 0x0305)"

definition kept :: "usb_cfg \<Rightarrow> usb_dev \<Rightarrow> usb_dev option \<Rightarrow> bool" where
  "kept c s r \<longleftrightarrow> (\<exists>s'. r = Some s' \<and> usb_ok c s' \<and> control_request s' = control_request s)"

lemma keptI: "r = Some s' \<Longrightarrow> usb_ok c s' \<Longrightarrow> control_request s' = control_request s \<Longrightarrow> kept c s r"
  by (auto simp: kept_def)

lemma kept_bind: "kept c s r \<Longrightarrow> (\<And>t. usb_ok c t \<Longrightarrow> control_request t = control_request s \<Longrightarrow> kept c t (f t)) \<Longrightarrow> kept c s (Option.bind r f)"
  by (fastforce simp: kept_def)

lemmas usb_ok_simps = usb_ok_def cdc_ep_ok_def data_eps_ok_def ctrl_ep_ok_def USB_CTR_ENDPOINT_SIZE_def

lemma kept_Some [simp]: "kept c s (Some t) \<longleftrightarrow> usb_ok c t \<and> control_request t = control_request s"
  by (simp add: kept_def)

lemma ok_reset [simp]: "usb_ok c (usbhw_reset_ctrl_ep_ptr s) = usb_ok c s" "control_request (usbhw_reset_ctrl_ep_ptr s) = control_request s"
  "reg_ctrl_ep_ptr (usbhw_reset_ctrl_ep_ptr s) = 0"
  by (auto simp: usbhw_reset_ctrl_ep_ptr_def usb_ok_simps)

lemma ok_ep_ctrl [simp]: "usb_ok c (ep_ctrl_write ep v s) = usb_ok c s" "control_request (ep_ctrl_write ep v s) = control_request s"
  by (auto simp: ep_ctrl_write_def usb_ok_simps)

lemma ok_ctrl_ctrl [simp]: "usb_ok c (usbhw_write_ctrl_ep_ctrl v s) = usb_ok c s"
  "control_request (usbhw_write_ctrl_ep_ctrl v s) = control_request s"
  by (auto simp: usbhw_write_ctrl_ep_ctrl_def usb_ok_simps)

lemma ok_reset_ep [simp]: "usb_ok c (usbhw_reset_ep_ptr ep s) = usb_ok c s" "control_request (usbhw_reset_ep_ptr ep s) = control_request s"
  by (auto simp: usbhw_reset_ep_ptr_def usb_ok_simps)

lemma kept_writes: "usb_ok c s \<Longrightarrow> reg_ctrl_ep_ptr s + length d \<le> 8 \<Longrightarrow> kept c s (ctrl_ep_writes d s)"
  by (rule keptI [OF ctrl_ep_writes_room]) (auto simp: usb_ok_simps)

lemma ctrl_ep_writes_one: "ctrl_ep_writes [v] = usbhw_write_ctrl_ep_data v"
proof
  fix s :: "'a usbhw_scheme"
  show "ctrl_ep_writes [v] s = usbhw_write_ctrl_ep_data v s" by (cases "usbhw_write_ctrl_ep_data v s") auto
qed

lemma kept_write: "usb_ok c s \<Longrightarrow> reg_ctrl_ep_ptr s < 8 \<Longrightarrow> kept c s (usbhw_write_ctrl_ep_data v s)"
  using kept_writes [of c s "[v]"] unfolding ctrl_ep_writes_one by simp

lemma write_u16: "usbhw_write_ctrl_ep_u16 v s = ctrl_ep_writes [ucast (v AND 0xff), ucast (drop_bit 8 v)] s"
  by (simp add: usbhw_write_ctrl_ep_u16_def ctrl_ep_writes_one del: ctrl_ep_writes.simps(2)) (simp add: ctrl_ep_writes_one)

lemma read1: "usb_ok c s \<Longrightarrow> reg_ctrl_ep_ptr s < 8 \<Longrightarrow>
  usbhw_read_ctrl_ep_data s = Some (reg_ctrl_ep_dat s ! reg_ctrl_ep_ptr s, s\<lparr>reg_ctrl_ep_ptr := reg_ctrl_ep_ptr s + 1\<rparr>)"
  by (simp add: usbhw_read_ctrl_ep_data_def rd8_def usb_ok_simps)

lemma read_u16: "usb_ok c s \<Longrightarrow> reg_ctrl_ep_ptr s < 7 \<Longrightarrow>
  usbhw_read_ctrl_ep_u16 s = Some (push_bit 8 (ucast (reg_ctrl_ep_dat s ! (reg_ctrl_ep_ptr s + 1))) OR ucast (reg_ctrl_ep_dat s ! reg_ctrl_ep_ptr s),
     s\<lparr>reg_ctrl_ep_ptr := reg_ctrl_ep_ptr s + 2\<rparr>)"
  by (simp add: usbhw_read_ctrl_ep_u16_def usbhw_read_ctrl_ep_data_def rd8_def usb_ok_simps)

section \<open>Memory safety of the handlers\<close>

lemma ok_core [simp]: "usb_ok c (write_core a vs s) = usb_ok c s" "control_request (write_core a vs s) = control_request s"
  by (induction a vs s rule: write_core.induct) (auto simp: usb_ok_simps)

lemma ok_analog [simp]: "usb_ok c (analog_write_reg8 a v s) = usb_ok c s" "control_request (analog_write_reg8 a v s) = control_request s"
  by (auto simp: analog_write_reg8_def usb_ok_simps)

lemma ok_pullup [simp]: "usb_ok c (usb_dp_pullup_en b s) = usb_ok c s" "control_request (usb_dp_pullup_en b s) = control_request s"
  by (auto simp: usb_dp_pullup_en_def Let_def)

lemma ok_custom_read [simp]: "usb_ok c (custom_read_core k a s) = usb_ok c s" "control_request (custom_read_core k a s) = control_request s"
  by (induction k a s rule: custom_read_core.induct) (auto simp: usb_ok_simps)

lemma ok_custom_access: "usb_ok c s \<Longrightarrow> usb_ok c (custom_reg_access s) \<and> control_request (custom_reg_access s) = control_request s"
proof -
  assume ok: "usb_ok c s"
  have 1: "usb_ok c (s\<lparr>host_cmd := (host_cmd s)[0 := 0]\<rparr>)" using ok by (simp add: usb_ok_simps)
  have 2: "usb_ok c (t\<lparr>reg_ctrl_ep_irq_mode := m\<rparr>) = usb_ok c t" "usb_ok c (t\<lparr>custom_read_dat := x\<rparr>) = usb_ok c t"
    "usb_ok c (t\<lparr>core_reg := r\<rparr>) = usb_ok c t" for t m x r
    by (simp_all add: usb_ok_simps)
  show ?thesis using 1
    by (auto simp: custom_reg_access_def Let_def write_reg8_def write_reg16_def write_reg32_def 2 simp del: write_core.simps)
qed

lemma kept_custom: "usb_ok c s \<Longrightarrow> kept c s (custom_set_report s)"
proof -
  assume ok: "usb_ok c s"
  let ?r = "usbhw_reset_ctrl_ep_ptr s"
  have r: "ctrl_ep_reads 8 ?r = Some (reg_ctrl_ep_dat s, s\<lparr>reg_ctrl_ep_ptr := 8\<rparr>)"
    using ctrl_ep_reads_room [of ?r 8] ok by (simp add: usb_ok_simps usbhw_reset_ctrl_ep_ptr_def)
  have "usb_ok c (s\<lparr>reg_ctrl_ep_ptr := 8, host_cmd := reg_ctrl_ep_dat s, custom_reg_cmd := b\<rparr>)" for b
    using ok by (simp add: usb_ok_simps)
  from ok_custom_access [OF this] this show ?thesis
    by (simp add: custom_set_report_def r Let_def)
qed

text \<open>Which fields the invariant does not read.\<close>

lemma ok_fields [simp]:
  "usb_ok c (s\<lparr>g_stall := b\<rparr>) = usb_ok c s" "usb_ok c (s\<lparr>host_keyboard_status := v\<rparr>) = usb_ok c s"
  "usb_ok c (s\<lparr>g_rate := v\<rparr>) = usb_ok c s" "usb_ok c (s\<lparr>usb_mouse_report_proto := v\<rparr>) = usb_ok c s"
  "usb_ok c (s\<lparr>reg_ctrl_ep_ptr := n\<rparr>) = usb_ok c s" "usb_ok c (s\<lparr>g_usb_config_value := v\<rparr>) = usb_ok c s"
  "usb_ok c (s\<lparr>g_usb_config := v\<rparr>) = usb_ok c s" "usb_ok c (s\<lparr>usb_g_feature := v\<rparr>) = usb_ok c s"
  "usb_ok c (s\<lparr>speaker_setting := a\<rparr>) = usb_ok c s" "usb_ok c (s\<lparr>mic_setting := a\<rparr>) = usb_ok c s"
  "usb_ok c (s\<lparr>usb_len_idx_0 := w\<rparr>) = usb_ok c s" "usb_ok c (s\<lparr>usb_len_idx_s := w\<rparr>) = usb_ok c s"
  "usb_ok c (s\<lparr>usb_len_idx_h := w\<rparr>) = usb_ok c s" "usb_ok c (s\<lparr>reg_usb_sups_cyc_cali := v\<rparr>) = usb_ok c s"
  "usb_ok c (s\<lparr>control_request := r\<rparr>) = usb_ok c s" "usb_ok c (s\<lparr>g_usb_device_status := e\<rparr>) = usb_ok c s"
  "usb_ok c (s\<lparr>usb_has_suspend_irq := v\<rparr>) = usb_ok c s" "usb_ok c (s\<lparr>usb_cdc_tx_cnt := x\<rparr>) = usb_ok c s"
  by (simp_all add: usb_ok_simps)

lemma ok_aud [simp]: "usb_ok c (usbaud_set_speaker_vol v s) = usb_ok c s" "control_request (usbaud_set_speaker_vol v s) = control_request s"
  "usb_ok c (usbaud_set_mic_vol v s) = usb_ok c s" "control_request (usbaud_set_mic_vol v s) = control_request s"
  by (simp_all add: usbaud_set_speaker_vol_def usbaud_set_mic_vol_def)

lemma kept_set_audio:
  "usb_ok c s \<Longrightarrow> reg_ctrl_ep_ptr s < 7 \<Longrightarrow> kept c s (map_option snd (usbaud_handle_set_speaker_cmd t s))"
  "usb_ok c s \<Longrightarrow> reg_ctrl_ep_ptr s < 7 \<Longrightarrow> kept c s (map_option snd (usbaud_handle_set_mic_cmd t s))"
  by (simp_all add: usbaud_handle_set_speaker_cmd_def usbaud_handle_set_mic_cmd_def read1 read_u16)

lemma kept_stall_if: "kept c s (map_option snd r) \<Longrightarrow> kept c s (stall_if r)"
  by (auto simp: stall_if_def kept_def)

lemma map_snd_Pair [simp]: "map_option snd (map_option (Pair e) r) = r"
  by (cases r) auto

lemma kept_get_audio:
  "usb_ok c s \<Longrightarrow> reg_ctrl_ep_ptr s < 7 \<Longrightarrow> kept c s (stall_if (usbaud_handle_get_speaker_cmd p t s))"
  "usb_ok c s \<Longrightarrow> reg_ctrl_ep_ptr s < 7 \<Longrightarrow> kept c s (stall_if (usbaud_handle_get_mic_cmd p t s))"
  by (rule kept_stall_if;
      simp add: usbaud_handle_get_speaker_cmd_def usbaud_handle_get_mic_cmd_def write_u16 kept_write kept_writes del: ctrl_ep_writes.simps)+

lemma ptr_stays [simp]: "reg_ctrl_ep_ptr (s\<lparr>g_stall := b\<rparr>) = reg_ctrl_ep_ptr s"
  by simp

lemma stall_core [simp]: "g_stall (write_core a vs s) = g_stall s"
  by (induction a vs s rule: write_core.induct) simp_all

lemma stall_custom_read [simp]: "g_stall (custom_read_core k a s) = g_stall s"
  by (induction k a s rule: custom_read_core.induct) simp_all

lemma stall_analog [simp]: "g_stall (analog_write_reg8 r v s) = g_stall s" "g_stall (usb_dp_pullup_en b s) = g_stall s"
  by (simp_all add: analog_write_reg8_def usb_dp_pullup_en_def Let_def)

lemma custom_stall:
  assumes "usb_ok c s" "custom_set_report s = Some t"
  shows "g_stall t = g_stall s"
proof -
  have r: "ctrl_ep_reads 8 (usbhw_reset_ctrl_ep_ptr s) = Some (reg_ctrl_ep_dat s, s\<lparr>reg_ctrl_ep_ptr := 8\<rparr>)"
    using ctrl_ep_reads_room [of "usbhw_reset_ctrl_ep_ptr s" 8] assms(1) by (simp add: usb_ok_simps usbhw_reset_ctrl_ep_ptr_def)
  have a: "g_stall (custom_reg_access u) = g_stall u" for u
    by (simp add: custom_reg_access_def Let_def write_reg8_def write_reg16_def write_reg32_def del: write_core.simps)
  show ?thesis using assms(2) by (auto simp: custom_set_report_def r Let_def a split: if_splits)
qed

text \<open>A request that no class accepts leaves the endpoint pointer where it was.\<close>

lemma out_class_kept:
  assumes "usb_ok c s" "reg_ctrl_ep_ptr s = 0"
  shows "kept c s (out_class_switch c dr s)"
    and "out_class_switch c dr s = Some t \<Longrightarrow> g_stall t \<Longrightarrow> \<not> g_stall s \<Longrightarrow> reg_ctrl_ep_ptr t = 0"
proof -
  have r7: "ctrl_ep_reads 7 (usbhw_reset_ctrl_ep_ptr s) = Some (take 7 (reg_ctrl_ep_dat s), s\<lparr>reg_ctrl_ep_ptr := 7\<rparr>)"
    using ctrl_ep_reads_room [of "usbhw_reset_ctrl_ep_ptr s" 7] assms(1) by (simp add: usb_ok_simps usbhw_reset_ctrl_ep_ptr_def)
  have l: "usb_ok c (s\<lparr>reg_ctrl_ep_ptr := 7, LineCoding := take 7 (reg_ctrl_ep_dat s)\<rparr>)"
    using assms(1) by (simp add: usb_ok_simps)
  have h: "kept c s (hid_set_report c dr s)"
    using assms by (simp add: hid_set_report_def read1 kept_custom)
  show "kept c s (out_class_switch c dr s)"
    using assms l h by (simp add: out_class_switch_def Let_def r7 read1)
  assume t: "out_class_switch c dr s = Some t" "g_stall t" "\<not> g_stall s"
  have cs: "g_stall u = g_stall s" if "custom_set_report s = Some u" for u
    using that custom_stall assms(1) by metis
  show "reg_ctrl_ep_ptr t = 0"
    using t assms r7 cs by (auto simp: out_class_switch_def hid_set_report_def Let_def read1 ep_ctrl_write_def split: if_splits)
qed

lemma in_class_kept:
  assumes "usb_ok c s" "reg_ctrl_ep_ptr s = 0" "Request (control_request s) = HID_REQ_GetReport \<longrightarrow> \<not> (USB_CUSTOM_HID_REPORT c \<and> rq_Value (control_request s) = 0x0305)"
  shows "kept c s (in_class_switch c s)"
    and "in_class_switch c s = Some t \<Longrightarrow> g_stall t \<Longrightarrow> \<not> g_stall s \<Longrightarrow> reg_ctrl_ep_ptr t = 0"
proof -
  have l: "rd_range (LineCoding s) 0 7 = Some (LineCoding s)" "length (LineCoding s) = 7"
    using assms(1) by (simp_all add: rd_range_def usb_ok_simps)
  have g: "Request (control_request s) = HID_REQ_GetReport \<Longrightarrow> hid_get_report c s = Some s"
    using assms(3) by (auto simp: hid_get_report_def)
  show "kept c s (in_class_switch c s)"
    using assms(1,2) l g by (simp add: in_class_switch_def Let_def kept_write kept_writes)
  assume t: "in_class_switch c s = Some t" "g_stall t" "\<not> g_stall s"
  have w: "ctrl_ep_writes d s = Some t \<Longrightarrow> length d \<le> 8 \<Longrightarrow> \<not> g_stall t" for d
    using ctrl_ep_writes_room [of s d] assms(1,2) t(3) by (auto simp: usb_ok_simps)
  show "reg_ctrl_ep_ptr t = 0"
    using t assms(2) g l w [of "LineCoding s"] w [of "[_]", unfolded ctrl_ep_writes_one]
    by (auto simp: in_class_switch_def Let_def split: if_splits)
qed

lemma kept_out_class:
  assumes "usb_ok c s" "reg_ctrl_ep_ptr s = 0" "\<not> g_stall s"
  shows "kept c s (usb_handle_out_class_intf_req c dr s)"
proof -
  obtain t where t: "out_class_switch c dr s = Some t" "usb_ok c t" "control_request t = control_request s"
    using out_class_kept(1) [OF assms(1,2), of dr] by (auto simp: kept_def)
  have z: "g_stall t \<Longrightarrow> reg_ctrl_ep_ptr t = 0" using out_class_kept(2) [OF assms(1,2) t(1)] assms(3) by simp
  let ?u = "t\<lparr>g_stall := False\<rparr>"
  have "g_stall t \<Longrightarrow> kept c ?u (map_option snd (usbaud_handle_set_speaker_cmd v ?u))"
    "g_stall t \<Longrightarrow> kept c ?u (map_option snd (usbaud_handle_set_mic_cmd v ?u))" for v
    using t z by (simp_all add: kept_set_audio)
  then show ?thesis using t by (simp add: usb_handle_out_class_intf_req_def Let_def kept_def)
qed

lemma kept_in_class:
  assumes "usb_ok c s" "reg_ctrl_ep_ptr s = 0" "\<not> g_stall s"
    "Request (control_request s) = HID_REQ_GetReport \<longrightarrow> \<not> (USB_CUSTOM_HID_REPORT c \<and> rq_Value (control_request s) = 0x0305)"
  shows "kept c s (usb_handle_in_class_intf_req c s)"
proof -
  obtain t where t: "in_class_switch c s = Some t" "usb_ok c t" "control_request t = control_request s"
    using in_class_kept(1) [OF assms(1,2,4)] by (auto simp: kept_def)
  have z: "g_stall t \<Longrightarrow> reg_ctrl_ep_ptr t = 0" using in_class_kept(2) [OF assms(1,2,4) t(1)] assms(3) by simp
  let ?u = "t\<lparr>g_stall := False\<rparr>"
  have "g_stall t \<Longrightarrow> kept c ?u (stall_if (usbaud_handle_get_speaker_cmd p v ?u))"
    "g_stall t \<Longrightarrow> kept c ?u (stall_if (usbaud_handle_get_mic_cmd p v ?u))" for p v
    using t z by (simp_all add: kept_get_audio)
  then show ?thesis using t by (simp add: usb_handle_in_class_intf_req_def Let_def kept_def)
qed

lemma clip_ok:
  assumes "unat (g_response_len s) \<le> length (g_response s)" "usb_ok c (s\<lparr>g_response := [], g_response_len := 0\<rparr>)"
  shows "usb_ok c (clip_response s)"
  using assms by (auto simp: clip_response_def Let_def usb_ok_simps word_less_nat_alt)

lemma clip_frame [simp]: "control_request (clip_response s) = control_request s" "reg_ctrl_ep_ptr (clip_response s) = reg_ctrl_ep_ptr s"
  by (auto simp: clip_response_def Let_def)

lemma small_byte: "m < 256 \<Longrightarrow> unat (ucast (of_nat m :: u8) :: u16) = m"
  by (simp add: unsigned_ucast_eq unat_of_nat take_bit_nat_eq_self)

lemma str_length: "unat (ucast (usbdesc_get_str src ! 0) :: u16) = length (usbdesc_get_str src)"
proof -
  define n where "n = (if length src > 32 then 32 else length src)"
  have n: "n \<le> 32" "n \<le> length src" by (auto simp: n_def)
  have l: "length (concat (map (\<lambda>ch. [ch, 0]) (xs :: bytes))) = 2 * length xs" for xs by (induction xs) auto
  have e: "usbdesc_get_str src = [of_nat (2 + n * 2), DTYPE_String] @ concat (map (\<lambda>ch. [ch, 0]) (take n src))"
    by (simp add: usbdesc_get_str_def Let_def n_def)
  have "unat (ucast (of_nat (2 + n * 2) :: u8) :: u16) = 2 + n * 2"
    using n(1) small_byte [of "2 + n * 2"] by linarith
  then show ?thesis using n(2) unfolding e by (simp add: l)
qed

lemma response_ok:
  assumes "unat n \<le> length p" "usb_ok c s"
  shows "usb_ok c (clip_response (set_response p n s))"
  by (rule clip_ok) (use assms in \<open>auto simp: set_response_def usb_ok_simps\<close>)

lemma unat_of_nat_u16: "n < 65536 \<Longrightarrow> unat (of_nat n :: u16) = n"
  by (simp add: unat_of_nat take_bit_nat_eq_self)

lemma ok_prepare:
  assumes "usb_ok c s" "descs_ok D"
  shows "usb_ok c (usb_prepare_desc_data D s)"
proof -
  have 0: "usb_ok c (set_response [] 0 s)" using assms(1) by (simp add: set_response_def usb_ok_simps)
  have 1: "usb_ok c (clip_response (t\<lparr>g_stall := b\<rparr>))" if "usb_ok c t" for t b
    by (rule clip_ok) (use that in \<open>auto simp: usb_ok_simps\<close>)
  have l: "unat (ucast (language_desc ! 0) :: u16) \<le> length language_desc" by (simp add: language_desc_def)
  show ?thesis using assms(2) 0 1 l
    by (simp add: usb_prepare_desc_data_def Let_def response_ok descs_ok_def unat_of_nat_u16 str_length)
qed

lemma prepare_frame [simp]: "control_request (usb_prepare_desc_data D s) = control_request s"
  by (simp add: usb_prepare_desc_data_def Let_def set_response_def)

lemma ok_std_intf:
  assumes "usb_ok c s" "descs_ok D"
  shows "usb_ok c (usb_handle_std_intf_req c D s)"
proof -
  have 1: "usb_ok c (clip_response (t\<lparr>g_stall := b\<rparr>))" "usb_ok c (clip_response t)" if "usb_ok c t" for t b
    by (rule clip_ok; use that in \<open>auto simp: usb_ok_simps\<close>)+
  have 2: "usb_ok c (set_response p n t)" if "unat n \<le> length p" "usb_ok c t" for p n t
    using that by (auto simp: set_response_def usb_ok_simps)
  have d: "9 \<le> length (configuration_desc D) - mouse_descriptor D" "9 \<le> length (configuration_desc D) - keyboard_descriptor D"
    "length (keyboard_report_desc D) < 65536" "length (mouse_report_desc D) < 65536"
    using assms(2) by (auto simp: descs_ok_def)
  show ?thesis using assms(1)
    by (simp add: usb_handle_std_intf_req_def Let_def response_ok unat_of_nat_u16 1 2 d)
qed

lemma std_intf_frame [simp]: "control_request (usb_handle_std_intf_req c D s) = control_request s"
  by (simp add: usb_handle_std_intf_req_def Let_def set_response_def)

lemma send_response_run:
  assumes "usb_ok c s"
  defines "n \<equiv> min (unat (g_response_len s)) 8"
  shows "usb_send_response s =
    Some (s\<lparr>reg_ctrl_ep_dat := take n (g_response s) @ drop n (reg_ctrl_ep_dat s), reg_ctrl_ep_ptr := n,
            g_response_len := g_response_len s - of_nat n, usb_len_idx_0 := of_nat n, g_response := drop n (g_response s)\<rparr>)"
proof -
  have w: "(if unat (g_response_len s) < USB_CTR_ENDPOINT_SIZE then g_response_len s else of_nat USB_CTR_ENDPOINT_SIZE) = of_nat n"
    by (simp add: n_def USB_CTR_ENDPOINT_SIZE_def min_def)
  have nle: "n \<le> length (g_response s)" using assms(1) by (auto simp: n_def usb_ok_def)
  have u: "unat (of_nat n :: u16) = n" by (rule unat_of_nat_u16) (simp add: n_def)
  let ?s = "usbhw_reset_ctrl_ep_ptr (s\<lparr>g_response_len := g_response_len s - of_nat n, usb_len_idx_0 := of_nat n\<rparr>)"
  have r: "rd_range (g_response ?s) 0 n = Some (take n (g_response s))"
    using nle by (simp add: rd_range_def usbhw_reset_ctrl_ep_ptr_def)
  have l: "length (take n (g_response s)) = n" using nle by simp
  have "ctrl_ep_writes (take n (g_response s)) ?s = Some (?s\<lparr>reg_ctrl_ep_dat := take n (g_response s) @ drop n (reg_ctrl_ep_dat s), reg_ctrl_ep_ptr := n\<rparr>)"
    using ctrl_ep_writes_room [of ?s "take n (g_response s)"] l assms(1)
    by (simp add: usbhw_reset_ctrl_ep_ptr_def usb_ok_simps) (simp add: n_def)
  then show ?thesis unfolding usb_send_response_def w Let_def u r by (simp add: usbhw_reset_ctrl_ep_ptr_def)
qed

lemma kept_send:
  assumes "usb_ok c s"
  shows "kept c s (usb_send_response s)"
proof -
  have "of_nat (min (unat (g_response_len s)) 8) \<le> g_response_len s"
    by (simp add: word_le_nat_alt unat_of_nat_u16)
  then have "unat (g_response_len s - of_nat (min (unat (g_response_len s)) 8)) = unat (g_response_len s) - min (unat (g_response_len s)) 8"
    by (simp add: unat_sub unat_of_nat_u16)
  then show ?thesis using assms
    by (simp add: send_response_run [OF assms]) (auto simp: usb_ok_simps)
qed

lemma ok_ack_first [simp]: "usb_ok c (ack_first_packet ep s) = usb_ok c s" "control_request (ack_first_packet ep s) = control_request s"
  by (simp_all add: ack_first_packet_def)

lemma kept_set_intf:
  assumes "usb_ok c s" "audio_en c \<longrightarrow> unat (rq_Index (control_request s) AND 7) < USB_INTF_MAX c"
  shows "kept c s (usb_handle_set_intf c s)"
proof -
  let ?i = "unat (ucast (rq_Index (control_request s) AND 7) :: u8)"
  have u: "?i = unat (rq_Index (control_request s) AND 7)"
    using word_and_le1 [of "rq_Index (control_request s)" 7] by (simp add: unsigned_ucast_eq take_bit_nat_eq_self word_le_nat_alt)
  have a: "usb_ok c (s\<lparr>usb_alt_intf := (usb_alt_intf s)[k := v]\<rparr>)" for k v using assms(1) by (simp add: usb_ok_simps)
  have l: "length (usb_alt_intf s) = USB_INTF_MAX c" using assms(1) by (simp add: usb_ok_simps)
  show ?thesis using assms a l u by (auto simp: usb_handle_set_intf_def Let_def wr8_def)
qed

lemma kept_get_intf:
  assumes "usb_ok c s" "reg_ctrl_ep_ptr s = 0" "unat (rq_Index (control_request s) AND 7) < USB_INTF_MAX c"
  shows "kept c s (usb_handle_get_intf s)"
  using assms kept_write [OF assms(1)] by (simp add: usb_handle_get_intf_def rd8_def usb_ok_def)

theorem usb_request_kept:
  assumes "usb_ok c s" "descs_ok D" "safe_req c (control_request s)" "\<not> g_stall s"
  shows "kept c s (usb_handle_request c D dr s)"
proof -
  let ?s = "usbhw_reset_ctrl_ep_ptr s"
  have e: "usb_ok c ?s" "reg_ctrl_ep_ptr ?s = 0" "\<not> g_stall ?s" "control_request ?s = control_request s"
    using assms by (auto simp: usbhw_reset_ctrl_ep_ptr_def)
  have k: "kept c ?s r = kept c s r" for r by (simp add: kept_def)
  have l: "length (take 3 (UINT32_TO_BSTREAM x)) \<le> 8" for x by simp
  have dd: "kept c (usb_prepare_desc_data D ?s) (usb_send_response (usb_prepare_desc_data D ?s))"
    "kept c (usb_handle_std_intf_req c D ?s) (usb_send_response (usb_handle_std_intf_req c D ?s))" "kept c ?s (usb_send_response ?s)"
    by (rule kept_send; use e assms in \<open>simp add: ok_prepare ok_std_intf\<close>)+
  have d: "kept c s (usb_send_response (usb_prepare_desc_data D ?s))" "kept c s (usb_send_response (usb_handle_std_intf_req c D ?s))"
    "kept c s (usb_send_response ?s)"
    using dd by (simp_all add: kept_def)
  have w: "kept c s (usbhw_write_ctrl_ep_data v (usbhw_reset_ctrl_ep_ptr ?s))" for v
    using kept_write [of c "usbhw_reset_ctrl_ep_ptr ?s" v] e by (simp add: kept_def)
  have o: "kept c s (usb_handle_out_class_intf_req c dr ?s)" using kept_out_class [OF e(1,2,3)] k by simp
  have i: "kept c s (usb_handle_in_class_intf_req c ?s)" if "RequestType (control_request s) = 0xa1"
    using kept_in_class [OF e(1,2,3)] that assms(3) e(4) k by (auto simp: safe_req_def)
  have p: "kept c s (usb_handle_in_class_endp_req c ?s)"
    using kept_writes [OF e(1), of "take 3 (UINT32_TO_BSTREAM (MIC_SAMPLE_RATE c))"] e k by (auto simp: usb_handle_in_class_endp_req_def)
  have si: "kept c s (usb_handle_set_intf c ?s)" if "RequestType (control_request s) = 1" "Request (control_request s) = REQ_SetInterface"
    using kept_set_intf [OF e(1)] that assms(3) e(4) k by (auto simp: safe_req_def)
  have gi: "kept c s (usb_handle_get_intf ?s)" if "RequestType (control_request s) = 0x81" "Request (control_request s) = REQ_GetInterface" "audio_en c"
    using kept_get_intf [OF e(1,2)] that assms(3) e(4) k by (auto simp: safe_req_def)
  show ?thesis
    unfolding usb_handle_request_def Let_def e(4)
    by (simp add: d w o i p si gi e(4) assms(1) split: if_split)
qed

text \<open>The eight bytes of a setup packet.\<close>

definition setup_req :: "bytes \<Rightarrow> USB_Request_Hdr_t" where
  "setup_req b = \<lparr>RequestType = b ! 0, Request = b ! 1, rq_Value = push_bit 8 (ucast (b ! 3)) OR ucast (b ! 2),
     rq_Index = push_bit 8 (ucast (b ! 5)) OR ucast (b ! 4), rq_Length = push_bit 8 (ucast (b ! 7)) OR ucast (b ! 6)\<rparr>"

definition setup_entry :: "usb_dev \<Rightarrow> usb_dev" where
  "setup_entry s = s\<lparr>reg_usb_sups_cyc_cali := 0x38, reg_ctrl_ep_ptr := 8, control_request := setup_req (reg_ctrl_ep_dat s),
     usb_len_idx_h := rq_Length (setup_req (reg_ctrl_ep_dat s)), g_stall := False\<rparr>"

lemma setup_run:
  assumes "usb_ok c s"
  shows "usb_handle_ctl_ep_setup c D s = map_option ctl_reply (usb_handle_request c D False (setup_entry s))"
proof -
  have l: "length (reg_ctrl_ep_dat s) = 8" using assms by (simp add: usb_ok_simps)
  show ?thesis
    by (cases "usb_handle_request c D False (setup_entry s)")
      (simp_all add: usb_handle_ctl_ep_setup_def usbhw_read_ctrl_ep_data_def usbhw_read_ctrl_ep_u16_def rd8_def l
        usbhw_reset_ctrl_ep_ptr_def setup_req_def setup_entry_def eval_nat_numeral)
qed

lemma ok_reply [simp]: "usb_ok c (ctl_reply s) = usb_ok c s" "control_request (ctl_reply s) = control_request s"
  by (simp_all add: ctl_reply_def)

lemma usb_setup_kept:
  assumes "usb_ok c s" "descs_ok D" "safe_req c (setup_req (reg_ctrl_ep_dat s))"
  shows "\<exists>s'. usb_handle_ctl_ep_setup c D s = Some s' \<and> usb_ok c s' \<and> control_request s' = setup_req (reg_ctrl_ep_dat s)"
proof -
  have "usb_ok c (setup_entry s)" using assms(1) by (simp add: setup_entry_def)
  from usb_request_kept [OF this assms(2), of False] assms(3) show ?thesis
    by (auto simp: setup_run [OF assms(1)] kept_def setup_entry_def)
qed

lemma usb_data_kept:
  assumes "usb_ok c s" "descs_ok D" "safe_req c (control_request s)"
  shows "kept c s (usb_handle_ctl_ep_data c D s)"
proof -
  let ?s = "(usbhw_reset_ctrl_ep_ptr (s\<lparr>reg_usb_sups_cyc_cali := 0x38\<rparr>))\<lparr>g_stall := False\<rparr>"
  have "kept c ?s (usb_handle_request c D True ?s)" using usb_request_kept [of c ?s D True] assms by simp
  then show ?thesis by (auto simp: usb_handle_ctl_ep_data_def kept_def)
qed

lemma kept_cdc_rx:
  assumes "usb_ok c s"
  shows "kept c s (usb_cdc_rx_data_from_host s)"
proof -
  let ?s = "usbhw_reset_ep_ptr 5 s"
  let ?n = "reg_usb_ep_ptr s ! 5 mod 256"
  have e: "data_eps_ok ?s" "reg_usb_ep_ptr ?s ! 5 = 0" "length (reg_usb_ep_dat ?s ! 5) = 64" "length (usb_cdc_data ?s) = 64"
    using assms by (auto simp: usb_ok_simps usbhw_reset_ep_ptr_def)
  have "usb_ok c (s\<lparr>reg_usb_ep_ptr := (reg_usb_ep_ptr s)[5 := n], usb_cdc_data := take n x @ drop n (usb_cdc_data s), usb_cdc_data_len := l\<rparr>)"
    if "n \<le> 64" "length x = 64" for n x l
    using assms that by (simp add: usb_ok_simps)
  moreover have "usb_ok c (s\<lparr>reg_usb_ep_ptr := (reg_usb_ep_ptr s)[5 := 0]\<rparr>)" using assms by (simp add: usb_ok_simps)
  ultimately show ?thesis using assms e ep_reads_room [of ?s 5 ?n]
    by (auto simp: usb_cdc_rx_data_from_host_def cdc_eps Let_def wr_range_def usbhw_reset_ep_ptr_def)
qed

lemma kept_cdc_irq:
  assumes "usb_ok c s"
  shows "kept c s (usb_cdc_irq_data_process irq s)"
proof -
  define s1 where "s1 = (if irq AND 0x10 \<noteq> 0 then (usbhw_reset_ep_ptr USB_EDP_CDC_IN s)\<lparr>usb_cdc_tx_cnt := usb_cdc_tx_cnt s + 1\<rparr> else s)"
  have 1: "usb_ok c s1" "control_request s1 = control_request s" using assms by (auto simp: s1_def)
  have k: "kept c (s1\<lparr>g_stall := False\<rparr>) (usb_cdc_rx_data_from_host (s1\<lparr>g_stall := False\<rparr>))"
    by (rule kept_cdc_rx) (simp add: 1)
  have e: "usb_cdc_irq_data_process irq s = (if irq AND 0x20 \<noteq> 0
         then do { s2 \<leftarrow> usb_cdc_rx_data_from_host (s1\<lparr>g_stall := False\<rparr>);
                   Some (if g_stall s2 then usbhw_data_ep_stall USB_EDP_CDC_OUT s2 else usbhw_data_ep_ack USB_EDP_CDC_OUT s2) }
         else Some s1)"
    by (simp add: usb_cdc_irq_data_process_def s1_def)
  show ?thesis using k 1 unfolding e by (auto simp: kept_def usbhw_data_ep_stall_def usbhw_data_ep_ack_def)
qed

lemma ok_bus_reset [simp]: "usb_ok c s \<Longrightarrow> usb_ok c (usb_irq_bus_reset c s)"
proof -
  assume ok: "usb_ok c s"
  have f: "usb_ok c (fold (\<lambda>i t. (ep_ctrl_write i 0 t)\<lparr>edp_toggle := (edp_toggle t)[i := 0]\<rparr>) is t)" if "usb_ok c t" for "is" t
    using that
  proof (induction "is" arbitrary: t)
    case (Cons i "is")
    have "usb_ok c ((ep_ctrl_write i 0 t)\<lparr>edp_toggle := (edp_toggle t)[i := 0]\<rparr>)"
      using Cons.prems by (simp add: ep_ctrl_write_def usb_ok_simps)
    then show ?case using Cons.IH by simp
  qed simp
  show ?thesis using f [of "s\<lparr>usb_mouse_report_proto := 1\<rparr>" "[0..<8]"] ok
    by (simp add: usb_irq_bus_reset_def Let_def usbhw_data_ep_ack_def del: upt_Suc upt.simps upt_rec_numeral)
qed

text \<open>
  C1.  For every build, every setup packet, every data packet and every combination of interrupt flags the USB interrupt
  handler of the application stays inside the control endpoint buffer, the descriptors, the serial port buffers and
  the interface table, and keeps the device state well formed; excluded, as a new or as the pending request, are in audio
  builds those that set or get an interface outside the table, and the custom report \<open>0x0305\<close>, for which the
  code leaves its table or buffer.
\<close>

theorem usb_irq_safe:
  assumes "usb_ok c s" "descs_ok D"
    and "ctrl_ep_irq q AND FLD_CTRL_EP_IRQ_SETUP \<noteq> 0 \<Longrightarrow> safe_req c (setup_req (reg_ctrl_ep_dat s))"
    and "ctrl_ep_irq q AND FLD_CTRL_EP_IRQ_SETUP = 0 \<Longrightarrow> safe_req c (control_request s)"
  shows "\<exists>s'. usb_handle_irq c D q s = Some s' \<and> usb_ok c s'"
proof -
  obtain s1 where s1: "(if ctrl_ep_irq q AND FLD_CTRL_EP_IRQ_SETUP \<noteq> 0 then usb_handle_ctl_ep_setup c D s else Some s) = Some s1"
    "usb_ok c s1" "safe_req c (control_request s1)"
  proof (cases "ctrl_ep_irq q AND FLD_CTRL_EP_IRQ_SETUP = 0")
    case True
    then show thesis using that [of s] assms by simp
  next
    case False
    then show thesis using usb_setup_kept [OF assms(1,2,3)] assms(3) that by fastforce
  qed
  obtain s2 where s2: "(if ctrl_ep_irq q AND FLD_CTRL_EP_IRQ_DATA \<noteq> 0 then usb_handle_ctl_ep_data c D s1 else Some s1) = Some s2" "usb_ok c s2"
    using usb_data_kept [OF s1(2) assms(2) s1(3)] s1(2) by (cases "ctrl_ep_irq q AND FLD_CTRL_EP_IRQ_DATA = 0") (auto simp: kept_def)
  define s3 where "s3 = (if usb_g_feature s2 = 1 then s2\<lparr>usb_g_feature := 0\<rparr> else s2)"
  define s4 where "s4 = (if ctrl_ep_irq q AND FLD_CTRL_EP_IRQ_STA \<noteq> 0 then usb_handle_ctl_ep_status s3 else s3)"
  have s4: "usb_ok c s4" using s2(2) by (simp add: s4_def s3_def usb_handle_ctl_ep_status_def)
  obtain s5 where s5: "(if USB_CDC_ENABLE c then usb_cdc_irq_data_process (eps_irq q) s4 else Some s4) = Some s5" "usb_ok c s5"
    using kept_cdc_irq [OF s4, of "eps_irq q"] s4 by (cases "USB_CDC_ENABLE c") (auto simp: kept_def)
  have u: "usb_ok c (usb_device_status_update r t) = usb_ok c t" for r t by (simp add: usb_device_status_update_def)
  show ?thesis
    unfolding usb_handle_irq_def s1(1) bind.bind_lunit s2(1) Let_def s3_def [symmetric] s4_def [symmetric] s5(1)
    using s5(2) by (simp add: u)
qed

section \<open>Descriptor transfers\<close>

text \<open>The descriptor a request names.\<close>

definition requested_desc :: "usb_cfg \<Rightarrow> usb_descs \<Rightarrow> USB_Request_Hdr_t \<Rightarrow> bytes option" where
  "requested_desc c D r =
     (let vl = ucast (rq_Value r AND 0xff) :: u8; vh = ucast (drop_bit 8 (rq_Value r) AND 0xff) :: u8; il = ucast (rq_Index r AND 0xff) :: u8 in
      if Request r \<noteq> 6 then None
      else if RequestType r = 0x80
      then if vh = 1 then Some (device_desc D)
           else if vh = 2 then Some (configuration_desc D)
           else if vh = 3 \<and> vl = 0 then Some [4, 3, 9, 4]
           else if vh = 3 \<and> vl = 1 then Some (usbdesc_get_str (STRING_VENDOR D))
           else if vh = 3 \<and> vl = 2 then Some (usbdesc_get_str (STRING_PRODUCT D))
           else if vh = 3 \<and> vl = 3 then Some (usbdesc_get_str (STRING_SERIAL D))
           else None
      else if RequestType r = 0x81
      then if vh = 0x21 \<and> USB_KEYBOARD_ENABLE c \<and> il = intf_no c USB_INTF_KEYBOARD then Some (take 9 (drop (keyboard_descriptor D) (configuration_desc D)))
           else if vh = 0x21 \<and> USB_MOUSE_ENABLE c \<and> il = intf_no c USB_INTF_MOUSE then Some (take 9 (drop (mouse_descriptor D) (configuration_desc D)))
           else if vh = 0x22 \<and> USB_KEYBOARD_ENABLE c \<and> il = intf_no c USB_INTF_KEYBOARD then Some (keyboard_report_desc D)
           else if vh = 0x22 \<and> USB_MOUSE_ENABLE c \<and> il = intf_no c USB_INTF_MOUSE then Some (mouse_report_desc D)
           else None
      else None)"

fun usb_data_stages :: "usb_cfg \<Rightarrow> usb_descs \<Rightarrow> nat \<Rightarrow> usb_dev \<Rightarrow> usb_dev option" where
  "usb_data_stages c D 0 s = Some s"
| "usb_data_stages c D (Suc n) s = do { t \<leftarrow> usb_handle_ctl_ep_data c D s; usb_data_stages c D n t }"

text \<open>\<open>rest\<close> is what is left to send of the response to the current request.\<close>

definition sending :: "usb_cfg \<Rightarrow> bytes \<Rightarrow> usb_dev \<Rightarrow> bool" where
  "sending c rest s \<longleftrightarrow> usb_ok c s \<and> take (unat (g_response_len s)) (g_response s) = rest \<and>
     (RequestType (control_request s) = 0x80 \<or> RequestType (control_request s) = 0x81) \<and> Request (control_request s) = 6"

lemma send_step:
  assumes "sending c rest s" "\<not> g_stall s"
  shows "\<exists>t. usb_send_response s = Some t \<and> sending c (drop 8 rest) t \<and> \<not> g_stall t \<and> ctrl_ep_log t = ctrl_ep_log s \<and>
     take (reg_ctrl_ep_ptr t) (reg_ctrl_ep_dat t) = take 8 rest"
proof -
  have ok: "usb_ok c s" and rest: "take (unat (g_response_len s)) (g_response s) = rest" using assms(1) by (auto simp: sending_def)
  let ?l = "unat (g_response_len s)" and ?n = "min (unat (g_response_len s)) 8"
  have len: "?l \<le> length (g_response s)" using ok by (simp add: usb_ok_def)
  have sub: "unat (g_response_len s - of_nat ?n) = ?l - ?n"
    by (simp add: unat_sub word_le_nat_alt unat_of_nat_u16)
  obtain t where t: "usb_send_response s = Some t" "usb_ok c t" "control_request t = control_request s"
    using kept_send [OF ok] by (auto simp: kept_def)
  have e: "t = s\<lparr>reg_ctrl_ep_dat := take ?n (g_response s) @ drop ?n (reg_ctrl_ep_dat s), reg_ctrl_ep_ptr := ?n,
            g_response_len := g_response_len s - of_nat ?n, usb_len_idx_0 := of_nat ?n, g_response := drop ?n (g_response s)\<rparr>"
    using t(1) send_response_run [OF ok] by simp
  have r: "take (?l - ?n) (drop ?n (g_response s)) = drop 8 rest"
    using rest len by (auto simp: take_drop min_def)
  have p: "take ?n (g_response s) = take 8 rest" using rest by (auto simp: min_def)
  have "take ?n (take ?n (g_response s) @ drop ?n (reg_ctrl_ep_dat s)) = take ?n (g_response s)" using len by simp
  then show ?thesis using t assms r p sub by (simp add: sending_def e)
qed

lemma reply_fields [simp]: "g_response (usbhw_write_ctrl_ep_ctrl v s) = g_response s" "g_response_len (usbhw_write_ctrl_ep_ctrl v s) = g_response_len s"
  by (simp_all add: usbhw_write_ctrl_ep_ctrl_def)

lemma sending_frame [simp]: "sending c rest (s\<lparr>reg_usb_sups_cyc_cali := v\<rparr>) = sending c rest s"
  "sending c rest (usbhw_write_ctrl_ep_ctrl v s) = sending c rest s" "sending c rest (ctl_reply s) = sending c rest s"
  by (simp_all add: sending_def ctl_reply_def)

lemma reply_log: "\<not> g_stall s \<Longrightarrow> ctrl_ep_log (ctl_reply s) = ctrl_ep_log s @ [(FLD_EP_DAT_ACK, take (reg_ctrl_ep_ptr s) (reg_ctrl_ep_dat s))]"
  by (simp add: ctl_reply_def usbhw_write_ctrl_ep_ctrl_def)

lemma request_continues:
  assumes "RequestType (control_request s) = 0x80 \<or> RequestType (control_request s) = 0x81" "Request (control_request s) = 6"
  shows "usb_handle_request c D True s = usb_send_response (usbhw_reset_ctrl_ep_ptr s)"
proof -
  have "usb_handle_request c D True s = usb_send_response (usbhw_reset_ctrl_ep_ptr s)" if "RequestType (control_request s) = 0x80"
    unfolding usb_handle_request_def Let_def ok_reset(2) by (simp only: that assms(2) REQ_GetDescriptor_def if_True refl)
  moreover have "usb_handle_request c D True s = usb_send_response (usbhw_reset_ctrl_ep_ptr s)" if "RequestType (control_request s) = 0x81"
    unfolding usb_handle_request_def Let_def ok_reset(2) that assms(2) REQ_GetDescriptor_def by simp
  ultimately show ?thesis using assms(1) by blast
qed

lemma data_step:
  assumes "sending c rest s"
  shows "\<exists>t. usb_handle_ctl_ep_data c D s = Some t \<and> sending c (drop 8 rest) t \<and> ctrl_ep_log t = ctrl_ep_log s @ [(FLD_EP_DAT_ACK, take 8 rest)]"
proof -
  let ?s = "usbhw_reset_ctrl_ep_ptr ((usbhw_reset_ctrl_ep_ptr (s\<lparr>reg_usb_sups_cyc_cali := 0x38\<rparr>))\<lparr>g_stall := False\<rparr>)"
  have s: "sending c rest ?s" "\<not> g_stall ?s" "ctrl_ep_log ?s = ctrl_ep_log s"
    using assms by (auto simp: sending_def usbhw_reset_ctrl_ep_ptr_def)
  obtain t where t: "usb_send_response ?s = Some t" "sending c (drop 8 rest) t" "\<not> g_stall t" "ctrl_ep_log t = ctrl_ep_log s"
    "take (reg_ctrl_ep_ptr t) (reg_ctrl_ep_dat t) = take 8 rest"
    using send_step [OF s(1,2)] s(3) by auto
  have rq: "usb_handle_request c D True ((usbhw_reset_ctrl_ep_ptr (s\<lparr>reg_usb_sups_cyc_cali := 0x38\<rparr>))\<lparr>g_stall := False\<rparr>) = Some t"
    using request_continues [of "(usbhw_reset_ctrl_ep_ptr (s\<lparr>reg_usb_sups_cyc_cali := 0x38\<rparr>))\<lparr>g_stall := False\<rparr>" c D] t(1) assms by (simp add: sending_def)
  show ?thesis using t rq
    by (simp add: usb_handle_ctl_ep_data_def reply_log)
qed

lemma stages_run:
  "sending c rest s \<Longrightarrow> \<exists>t. usb_data_stages c D n s = Some t \<and> ctrl_ep_log t = ctrl_ep_log s @ map (\<lambda>k. (FLD_EP_DAT_ACK, take 8 (drop (8 * k) rest))) [0..<n]"
proof (induction n arbitrary: s rest)
  case (Suc n)
  obtain t where t: "usb_handle_ctl_ep_data c D s = Some t" "sending c (drop 8 rest) t" "ctrl_ep_log t = ctrl_ep_log s @ [(FLD_EP_DAT_ACK, take 8 rest)]"
    using data_step [OF Suc.prems] by blast
  have m: "map (\<lambda>k. (FLD_EP_DAT_ACK, take 8 (drop (8 * k) rest))) [0..<Suc n] =
    (FLD_EP_DAT_ACK, take 8 rest) # map (\<lambda>k. (FLD_EP_DAT_ACK, take 8 (drop (8 * k) (drop 8 rest)))) [0..<n]"
    by (simp add: upt_conv_Cons map_Suc_upt [symmetric] o_def add.commute del: upt_Suc)
  show ?case using Suc.IH [OF t(2)] t(1,3) unfolding m by auto
qed simp

lemma clip_rest:
  "take (unat (g_response_len (clip_response s))) (g_response (clip_response s)) =
   take (unat (rq_Length (control_request s))) (take (unat (g_response_len s)) (g_response s))"
  by (auto simp: clip_response_def Let_def word_less_nat_alt min_def)

lemma take_min_whole [simp]: "length xs = k \<Longrightarrow> take (min m k) xs = take m xs" "length xs = k \<Longrightarrow> take (min k m) xs = take m xs"
  by (auto simp: min_def)

lemma language_take [simp]: "take (min m 4) (a # b # x # y # zs) = take m [a, b, x, y]"
  by (subst take_take [symmetric]) simp

lemma stall_clip [simp]: "g_stall (clip_response s) = g_stall s"
  by (simp add: clip_response_def Let_def)

lemma set_response_fields [simp]: "g_response (set_response p n s) = p" "g_response_len (set_response p n s) = n"
  "control_request (set_response p n s) = control_request s" "g_stall (set_response p n s) = g_stall s"
  "value_h (set_response p n s) = value_h s" "value_l (set_response p n s) = value_l s" "index_l (set_response p n s) = index_l s"
  by (simp_all add: set_response_def value_h_def value_l_def index_l_def)

lemmas desc_consts = DTYPE_Device_def DTYPE_Configuration_def DTYPE_String_def HID_DTYPE_HID_def HID_DTYPE_Report_def
  USB_STRING_LANGUAGE_def USB_STRING_VENDOR_def USB_STRING_PRODUCT_def USB_STRING_SERIAL_def

lemma prepared_response:
  assumes "requested_desc c D (control_request s) = Some d" "RequestType (control_request s) = 0x80" "descs_ok D" "\<not> g_stall s"
  shows "\<not> g_stall (usb_prepare_desc_data D s)"
    and "take (unat (g_response_len (usb_prepare_desc_data D s))) (g_response (usb_prepare_desc_data D s)) = take (unat (rq_Length (control_request s))) d"
  using assms unfolding requested_desc_def usb_prepare_desc_data_def Let_def
  by (auto simp: clip_rest desc_consts str_length unat_of_nat_u16 descs_ok_def language_desc_def value_h_def [symmetric] value_l_def [symmetric]
      split: if_splits)

lemma intf_response:
  assumes "requested_desc c D (control_request s) = Some d" "RequestType (control_request s) = 0x81" "descs_ok D" "\<not> g_stall s"
  shows "\<not> g_stall (usb_handle_std_intf_req c D s)"
    and "take (unat (g_response_len (usb_handle_std_intf_req c D s))) (g_response (usb_handle_std_intf_req c D s)) = take (unat (rq_Length (control_request s))) d"
  using assms unfolding requested_desc_def usb_handle_std_intf_req_def Let_def
  by (auto simp: clip_rest desc_consts unat_of_nat_u16 descs_ok_def value_h_def [symmetric] index_l_def [symmetric] split: if_splits)

lemma setup_sends:
  assumes ok: "usb_ok c s" "descs_ok D" and d: "requested_desc c D (setup_req (reg_ctrl_ep_dat s)) = Some d"
  shows "\<exists>t. usb_handle_ctl_ep_setup c D s = Some t \<and> sending c (drop 8 (take (unat (rq_Length (setup_req (reg_ctrl_ep_dat s)))) d)) t \<and>
     ctrl_ep_log t = ctrl_ep_log s @ [(FLD_EP_DAT_ACK, take 8 (take (unat (rq_Length (setup_req (reg_ctrl_ep_dat s)))) d))]"
proof -
  let ?r = "setup_req (reg_ctrl_ep_dat s)" and ?s = "usbhw_reset_ctrl_ep_ptr (setup_entry s)"
  define u where "u = (if RequestType ?r = 0x80 then usb_prepare_desc_data D ?s else usb_handle_std_intf_req c D ?s)"
  have e: "usb_ok c ?s" "control_request ?s = ?r" "\<not> g_stall ?s" "ctrl_ep_log ?s = ctrl_ep_log s"
    using ok(1) by (simp_all add: setup_entry_def usbhw_reset_ctrl_ep_ptr_def usb_ok_def ctrl_ep_ok_def cdc_ep_ok_def data_eps_ok_def)
  have ty: "RequestType ?r = 0x80 \<or> RequestType ?r = 0x81" "Request ?r = 6"
    using d by (auto simp: requested_desc_def Let_def split: if_splits)
  have u: "sending c (take (unat (rq_Length ?r)) d) u \<and> \<not> g_stall u \<and> ctrl_ep_log u = ctrl_ep_log s"
  proof (cases "RequestType ?r = 0x80")
    case True
    then show ?thesis using prepared_response [of c D ?s d] d ok(2) e ok_prepare [OF e(1) ok(2)] ty
      by (simp add: u_def sending_def) (simp add: usb_prepare_desc_data_def Let_def clip_response_def set_response_def)
  next
    case False
    then show ?thesis using intf_response [of c D ?s d] d ok(2) e ok_std_intf [OF e(1) ok(2)] ty
      by (simp add: u_def sending_def) (simp add: usb_handle_std_intf_req_def Let_def clip_response_def set_response_def)
  qed
  have rq: "usb_handle_request c D False (setup_entry s) = usb_send_response u"
  proof (cases "RequestType ?r = 0x80")
    case True
    then show ?thesis unfolding usb_handle_request_def Let_def e(2) by (simp only: ty(2) REQ_GetDescriptor_def if_True if_False refl u_def)
  next
    case False
    then have "RequestType ?r = 0x81" using ty(1) by simp
    then show ?thesis unfolding usb_handle_request_def Let_def e(2) u_def by (simp add: ty(2) REQ_GetDescriptor_def)
  qed
  obtain t where t: "usb_send_response u = Some t" "sending c (drop 8 (take (unat (rq_Length ?r)) d)) t" "\<not> g_stall t"
    "ctrl_ep_log t = ctrl_ep_log u" "take (reg_ctrl_ep_ptr t) (reg_ctrl_ep_dat t) = take 8 (take (unat (rq_Length ?r)) d)"
    using send_step [of c _ u] u by blast
  show ?thesis using t u by (simp add: setup_run [OF ok(1)] rq reply_log)
qed

text \<open>
  C4.  A request for a device, configuration, string, HID or report descriptor is answered with acknowledged packets of
  at most eight bytes: the setup stage sends the first one and each data stage the next, and their concatenation is
  the descriptor cut at the length the host asked for, followed by empty packets.
\<close>

theorem usb_get_descriptor_packets:
  assumes "usb_ok c s" "descs_ok D" "requested_desc c D (setup_req (reg_ctrl_ep_dat s)) = Some d"
  shows "\<exists>t. do { s1 \<leftarrow> usb_handle_ctl_ep_setup c D s; usb_data_stages c D n s1 } = Some t \<and>
     ctrl_ep_log t = ctrl_ep_log s @
       map (\<lambda>k. (FLD_EP_DAT_ACK, take 8 (drop (8 * k) (take (unat (rq_Length (setup_req (reg_ctrl_ep_dat s)))) d)))) [0..<Suc n]"
proof -
  let ?D = "take (unat (rq_Length (setup_req (reg_ctrl_ep_dat s)))) d"
  obtain s1 where s1: "usb_handle_ctl_ep_setup c D s = Some s1" "sending c (drop 8 ?D) s1" "ctrl_ep_log s1 = ctrl_ep_log s @ [(FLD_EP_DAT_ACK, take 8 ?D)]"
    using setup_sends [OF assms] by blast
  have m: "map (\<lambda>k. (FLD_EP_DAT_ACK, take 8 (drop (8 * k) ?D))) [0..<Suc n] =
    (FLD_EP_DAT_ACK, take 8 ?D) # map (\<lambda>k. (FLD_EP_DAT_ACK, take 8 (drop (8 * k) (drop 8 ?D)))) [0..<n]"
    by (simp add: upt_conv_Cons map_Suc_upt [symmetric] o_def add.commute del: upt_Suc)
  show ?thesis using stages_run [OF s1(2), of D n] s1(1,3) unfolding m by auto
qed

section \<open>A keyboard with a microphone\<close>

definition usb_demo_cfg :: usb_cfg where
  "usb_demo_cfg = \<lparr>USB_CDC_ENABLE = False, USB_PRINTER_ENABLE = False, USB_SPEAKER_ENABLE = True, USB_MIC_ENABLE = True,
     USB_KEYBOARD_ENABLE = True, USB_MOUSE_ENABLE = True, USB_CUSTOM_HID_REPORT = True, IRQ_USB_PWDN_ENABLE = True, MIC_SAMPLE_RATE = 16000\<rparr>"

definition usb_demo_descs :: usb_descs where
  "usb_demo_descs = \<lparr>device_desc = [0x12, 1, 0x10, 1, 0, 0, 0, 8, 0x8a, 0x24, 1, 2, 3, 4, 1, 2, 3, 1],
     configuration_desc = replicate 40 9, mouse_descriptor = 10, keyboard_descriptor = 20,
     keyboard_report_desc = replicate 20 5, mouse_report_desc = replicate 16 6,
     STRING_VENDOR = [0x54, 0x65], STRING_PRODUCT = [0x4b], STRING_SERIAL = [0x30]\<rparr>"

definition usb_dev_zero :: "nat \<Rightarrow> bytes \<Rightarrow> usb_dev" where
  "usb_dev_zero k pkt = \<lparr>reg_ctrl_ep_dat = pkt, reg_ctrl_ep_ptr = 0, reg_ctrl_ep_irq_mode = 0, reg_usb_sups_cyc_cali = 0, ctrl_ep_log = [],
      reg_usb_ep_dat = replicate 8 (replicate 64 0), reg_usb_ep_ptr = replicate 8 0, reg_usb_ep_ctrl = replicate 8 0, ep_log = [],
      core_reg = (\<lambda>_. 0), analog_reg = (\<lambda>_. 0),
      speaker_setting = \<lparr>vol_cur = 0, vol_step = 0, mute = 0\<rparr>, mic_setting = \<lparr>vol_cur = 0, vol_step = 0, mute = 0\<rparr>,
      g_usb_audio_status = \<lparr>speaker_vol = 0, mic_vol = 0, speaker_mute = 0, mic_mute = 0, change = 0\<rparr>, aaa_audio_intf_set = 0,
      usb_cdc_data = replicate 64 0, usb_cdc_data_len = 0, usb_cdc_tx_cnt = 0, LineCoding = [0, 0xC2, 1, 0, 0, 0, 8], g_stall = False,
      usb_g_feature = 0, host_keyboard_status = 0, host_cmd = replicate 8 0, host_cmd_paring_ok = 0,
      control_request = \<lparr>RequestType = 0, Request = 0, rq_Value = 0, rq_Index = 0, rq_Length = 0\<rparr>,
      g_response = [], g_response_len = 0, usb_mouse_report_proto = 0, g_rate = 0, g_usb_config = 0, g_usb_config_value = 0,
      usb_len_idx_0 = 0, usb_len_idx_s = 0, usb_len_idx_h = 0, g_usb_device_status = USB_DEVICE_IDLE,
      usb_alt_intf = replicate k 0, custom_read_dat = 0, custom_reg_cmd = False, usb_has_suspend_irq = 0, edp_toggle = replicate 8 0\<rparr>"

text \<open>The host hands over a setup packet, or the data of a data stage.\<close>

definition usb_setup :: "usb_cfg \<Rightarrow> usb_descs \<Rightarrow> bytes \<Rightarrow> usb_dev \<Rightarrow> usb_dev option" where
  "usb_setup c D pkt s = usb_handle_ctl_ep_setup c D (s\<lparr>reg_ctrl_ep_dat := pkt\<rparr>)"

definition usb_data :: "usb_cfg \<Rightarrow> usb_descs \<Rightarrow> bytes \<Rightarrow> usb_dev \<Rightarrow> usb_dev option" where
  "usb_data c D d s = usb_handle_ctl_ep_data c D (s\<lparr>reg_ctrl_ep_dat := d @ drop (length d) (reg_ctrl_ep_dat s)\<rparr>)"

lemma usb_dev_zero_fields [simp]: "reg_ctrl_ep_dat (usb_dev_zero k p) = p" "LineCoding (usb_dev_zero k p) = [0, 0xC2, 1, 0, 0, 0, 8]"
  "host_cmd (usb_dev_zero k p) = replicate 8 0" "g_response_len (usb_dev_zero k p) = 0" "usb_alt_intf (usb_dev_zero k p) = replicate k 0"
  "edp_toggle (usb_dev_zero k p) = replicate 8 0" "usb_cdc_data (usb_dev_zero k p) = replicate 64 0"
  "reg_usb_ep_dat (usb_dev_zero k p) = replicate 8 (replicate 64 0)" "reg_usb_ep_ptr (usb_dev_zero k p) = replicate 8 0"
  "reg_usb_ep_ctrl (usb_dev_zero k p) = replicate 8 0"
  by (simp_all add: usb_dev_zero_def)

lemma usb_dev_zero_ok: "length p = 8 \<Longrightarrow> usb_ok c (usb_dev_zero (USB_INTF_MAX c) p)"
  by (simp add: usb_ok_def ctrl_ep_ok_def cdc_ep_ok_def data_eps_ok_def USB_CTR_ENDPOINT_SIZE_def)

lemma usb_demo_intfs: "USB_INTF_MAX usb_demo_cfg = 5"
  by (simp add: USB_INTF_MAX_def usb_intfs_def usb_demo_cfg_def)

lemma usb_demo_ok: "usb_ok usb_demo_cfg (usb_dev_zero 5 [0x80, 6, 0, 1, 0, 0, 0x12, 0])" "descs_ok usb_demo_descs"
  using usb_dev_zero_ok [of _ usb_demo_cfg] unfolding usb_demo_intfs by (simp_all add: descs_ok_def usb_demo_descs_def)

lemma usb_demo_request:
  "requested_desc usb_demo_cfg usb_demo_descs (setup_req (reg_ctrl_ep_dat (usb_dev_zero 5 [0x80, 6, 0, 1, 0, 0, 0x12, 0]))) = Some (device_desc usb_demo_descs)"
  by code_simp

theorem usb_get_descriptor_packets_witness:
  "usb_ok usb_demo_cfg (usb_dev_zero 5 [0x80, 6, 0, 1, 0, 0, 0x12, 0]) \<and>
   (\<exists>t. do { s1 \<leftarrow> usb_handle_ctl_ep_setup usb_demo_cfg usb_demo_descs (usb_dev_zero 5 [0x80, 6, 0, 1, 0, 0, 0x12, 0]);
             usb_data_stages usb_demo_cfg usb_demo_descs 2 s1 } = Some t)"
  using usb_get_descriptor_packets [OF usb_demo_ok usb_demo_request, of 2] usb_demo_ok by blast

theorem usb_irq_safe_witness:
  "usb_ok usb_demo_cfg (usb_dev_zero 5 [1, 11, 1, 0, 2, 0, 0, 0]) \<and> descs_ok usb_demo_descs \<and>
   (\<exists>s'. usb_handle_irq usb_demo_cfg usb_demo_descs \<lparr>ctrl_ep_irq = 0x70, eps_irq = 0, irq_reset = True, irq_suspend = True, host_conn_status = True, wkup_feature = True\<rparr>
      (usb_dev_zero 5 [1, 11, 1, 0, 2, 0, 0, 0]) = Some s' \<and> usb_ok usb_demo_cfg s')"
proof -
  let ?q = "\<lparr>ctrl_ep_irq = 0x70, eps_irq = 0, irq_reset = True, irq_suspend = True, host_conn_status = True, wkup_feature = True\<rparr>"
  have ok: "usb_ok usb_demo_cfg (usb_dev_zero 5 [1, 11, 1, 0, 2, 0, 0, 0])" "descs_ok usb_demo_descs"
    using usb_dev_zero_ok [of _ usb_demo_cfg] usb_demo_ok(2) unfolding usb_demo_intfs by simp_all
  have r: "safe_req usb_demo_cfg (setup_req (reg_ctrl_ep_dat (usb_dev_zero 5 [1, 11, 1, 0, 2, 0, 0, 0])))"
    by (simp add: safe_req_def setup_req_def usb_demo_intfs)
  have b: "ctrl_ep_irq ?q AND FLD_CTRL_EP_IRQ_SETUP \<noteq> 0" by (simp add: FLD_CTRL_EP_IRQ_SETUP_def)
  show ?thesis using usb_irq_safe [OF ok, of ?q] r b ok by blast
qed

section \<open>Where the handlers go wrong\<close>

text \<open>
  A SET\_INTERFACE request for interface 7 writes the alternate setting outside \<^verbatim>\<open>usb_alt_intf\<close>, which has one entry
  per interface (five in this build): only the three low bits of the index are checked.
\<close>

theorem usb_set_interface_overrun:
  "Option.is_none (usb_setup usb_demo_cfg usb_demo_descs [1, 11, 1, 0, 7, 0, 0, 0] (usb_dev_zero 5 (replicate 8 0))) \<and>
   \<not> Option.is_none (usb_setup usb_demo_cfg usb_demo_descs [1, 11, 1, 0, 2, 0, 0, 0] (usb_dev_zero 5 (replicate 8 0)))"
  by code_simp

text \<open>
  The answer to the custom report 0x0305 fills the eight bytes of the control endpoint and then falls through to
  GET\_IDLE, whose byte is written behind the end.
\<close>

theorem custom_report_overrun:
  "Option.is_none (usb_setup usb_demo_cfg usb_demo_descs [0xa1, 1, 5, 3, 0, 0, 8, 0] (usb_dev_zero 5 (replicate 8 0)))"
  by code_simp

text \<open>
  A request for the HID descriptor of an interface without one is answered with what was left of the response before it
  (here the device descriptor, of which the host had read one packet), not with a stall.
\<close>

theorem stale_hid_descriptor:
  "map_option ctrl_ep_log
     (do { s1 \<leftarrow> usb_setup usb_demo_cfg usb_demo_descs [0x80, 6, 0, 1, 0, 0, 0x12, 0] (usb_dev_zero 5 (replicate 8 0));
           usb_setup usb_demo_cfg usb_demo_descs [0x81, 6, 0, 0x21, 1, 0, 9, 0] s1 }) =
   Some [(FLD_EP_DAT_ACK, take 8 (device_desc usb_demo_descs)), (FLD_EP_DAT_ACK, take 8 (drop 8 (device_desc usb_demo_descs)))]"
  by code_simp

text \<open>
  After SET\_CONFIGURATION 0 the device still reports that it is configured, and a suspend is never reported when
  its interrupt is enabled, as the flag is cleared before it is read.
\<close>

theorem deconfigured_still_configured:
  "map_option g_usb_device_status
     (do { s1 \<leftarrow> usb_setup usb_demo_cfg usb_demo_descs [0, 9, 1, 0, 0, 0, 0, 0] (usb_dev_zero 5 (replicate 8 0));
           s2 \<leftarrow> usb_setup usb_demo_cfg usb_demo_descs [0, 9, 0, 0, 0, 0, 0, 0] s1;
           usb_handle_irq usb_demo_cfg usb_demo_descs \<lparr>ctrl_ep_irq = 0, eps_irq = 0, irq_reset = False, irq_suspend = True,
             host_conn_status = True, wkup_feature = True\<rparr> s2 }) = Some USB_DEVICE_CONFIGURED"
  by code_simp

text \<open>
  The volume of an audio SET\_CUR request is taken from the setup packet itself in the setup stage (0x0121), and a
  feature the speaker does not have is acknowledged although the handler reports the error.
\<close>

theorem audio_volume_from_setup:
  "map_option (vol_cur \<circ> speaker_setting) (usb_setup usb_demo_cfg usb_demo_descs [0x21, 1, 0, 2, 0, 2, 2, 0] (usb_dev_zero 5 (replicate 8 0))) = Some 0x121 \<and>
   map_option ctrl_ep_log (usb_setup usb_demo_cfg usb_demo_descs [0x21, 1, 0, 7, 0, 2, 2, 0] (usb_dev_zero 5 (replicate 8 0))) =
     Some [(FLD_EP_DAT_ACK, [])]"
  by code_simp

section \<open>Settings survive a round trip\<close>

lemma setup_entered:
  assumes "usb_ok c s" "length pkt = 8"
  shows "usb_setup c D pkt s = map_option ctl_reply (usb_handle_request c D False (setup_entry (s\<lparr>reg_ctrl_ep_dat := pkt\<rparr>)))"
    and "usb_ok c (setup_entry (s\<lparr>reg_ctrl_ep_dat := pkt\<rparr>))"
proof -
  have "usb_ok c (s\<lparr>reg_ctrl_ep_dat := pkt\<rparr>)" using assms by (simp add: usb_ok_simps)
  from setup_run [OF this] this show "usb_setup c D pkt s = map_option ctl_reply (usb_handle_request c D False (setup_entry (s\<lparr>reg_ctrl_ep_dat := pkt\<rparr>)))"
    and "usb_ok c (setup_entry (s\<lparr>reg_ctrl_ep_dat := pkt\<rparr>))"
    by (simp_all add: usb_setup_def setup_entry_def)
qed

definition last_reply :: "usb_dev \<Rightarrow> u8 \<times> bytes" where
  "last_reply s = last (ctrl_ep_log s)"

lemma dispatch:
  "RequestType (control_request s) = 0x21 \<Longrightarrow> usb_handle_request c D dr s = usb_handle_out_class_intf_req c dr (usbhw_reset_ctrl_ep_ptr s)"
  "RequestType (control_request s) = 0xa1 \<Longrightarrow> usb_handle_request c D dr s = usb_handle_in_class_intf_req c (usbhw_reset_ctrl_ep_ptr s)"
  "RequestType (control_request s) = 1 \<Longrightarrow> Request (control_request s) = 11 \<Longrightarrow>
     usb_handle_request c D dr s = usb_handle_set_intf c (usbhw_reset_ctrl_ep_ptr s)"
  "RequestType (control_request s) = 0x81 \<Longrightarrow> Request (control_request s) = 10 \<Longrightarrow> audio_en c \<Longrightarrow>
     usb_handle_request c D dr s = usb_handle_get_intf (usbhw_reset_ctrl_ep_ptr s)"
  by (simp_all only: usb_handle_request_def Let_def ok_reset) (simp_all add: REQ_SetInterface_def REQ_GetInterface_def REQ_GetDescriptor_def)

lemma reset_reset [simp]: "usbhw_reset_ctrl_ep_ptr (usbhw_reset_ctrl_ep_ptr s) = usbhw_reset_ctrl_ep_ptr s"
  by (simp add: usbhw_reset_ctrl_ep_ptr_def)

lemmas class_consts = CDC_REQ_SetControlLine_State_def CDC_REQ_SetLine_Encoding_def CDC_REQ_GetLine_Encoding_def CDC_NOTIF_Serial_State_def
  HID_REQ_SetReport_def HID_REQ_SetIdle_def HID_REQ_SetProtocol_def HID_REQ_GetReport_def HID_REQ_GetIdle_def HID_REQ_GetProtocol_def
  USB_SPEAKER_FEATURE_UNIT_ID_def USB_MIC_FEATURE_UNIT_ID_def

lemma setup_entry_fields [simp]: "control_request (setup_entry s) = setup_req (reg_ctrl_ep_dat s)" "\<not> g_stall (setup_entry s)"
  "ctrl_ep_log (setup_entry s) = ctrl_ep_log s" "reg_ctrl_ep_dat (setup_entry s) = reg_ctrl_ep_dat s" "g_rate (setup_entry s) = g_rate s"
  "usb_mouse_report_proto (setup_entry s) = usb_mouse_report_proto s" "LineCoding (setup_entry s) = LineCoding s"
  "speaker_setting (setup_entry s) = speaker_setting s" "mic_setting (setup_entry s) = mic_setting s" "usb_alt_intf (setup_entry s) = usb_alt_intf s"
  by (simp_all add: setup_entry_def)

text \<open>The state after the request was received, at the start of its handler.\<close>

definition entered :: "bytes \<Rightarrow> usb_dev \<Rightarrow> usb_dev" where
  "entered pkt s = usbhw_reset_ctrl_ep_ptr (setup_entry (s\<lparr>reg_ctrl_ep_dat := pkt\<rparr>))"

lemma entered_fields [simp]: "control_request (entered p s) = setup_req p" "\<not> g_stall (entered p s)" "reg_ctrl_ep_ptr (entered p s) = 0"
  "ctrl_ep_log (entered p s) = ctrl_ep_log s" "reg_ctrl_ep_dat (entered p s) = p" "g_rate (entered p s) = g_rate s"
  "usb_mouse_report_proto (entered p s) = usb_mouse_report_proto s" "LineCoding (entered p s) = LineCoding s"
  "speaker_setting (entered p s) = speaker_setting s" "mic_setting (entered p s) = mic_setting s" "usb_alt_intf (entered p s) = usb_alt_intf s"
  by (simp_all add: entered_def usbhw_reset_ctrl_ep_ptr_def setup_entry_def)

lemma entered_ok [simp]: "usb_ok c s \<Longrightarrow> length p = 8 \<Longrightarrow> usb_ok c (entered p s)"
  using setup_entered(2) [of c s p] by (simp add: entered_def)

lemma setup_out_class:
  assumes "usb_ok c s" "length p = 8" "p ! 0 = 0x21"
  shows "usb_setup c D p s = map_option ctl_reply (usb_handle_out_class_intf_req c False (entered p s))"
  using assms by (simp add: setup_entered(1) dispatch(1) setup_req_def entered_def)

lemma setup_in_class:
  assumes "usb_ok c s" "length p = 8" "p ! 0 = 0xa1"
  shows "usb_setup c D p s = map_option ctl_reply (usb_handle_in_class_intf_req c (entered p s))"
  using assms by (simp add: setup_entered(1) dispatch(2) setup_req_def entered_def)

lemma writes_reply:
  assumes "usb_ok c s" "reg_ctrl_ep_ptr s = 0" "\<not> g_stall s" "length d \<le> 8"
  shows "\<exists>t. ctrl_ep_writes d s = Some t \<and> \<not> g_stall t \<and> last_reply (ctl_reply t) = (FLD_EP_DAT_ACK, d)"
  using ctrl_ep_writes_room [of s d] assms by (auto simp: usb_ok_simps last_reply_def reply_log)

lemma u16_of_bytes:
  fixes h l :: u8
  defines "w \<equiv> push_bit 8 (ucast h) OR ucast l :: u16"
  shows "(ucast (drop_bit 8 w AND 0xff) :: u8) = h" "(ucast (w AND 0xff) :: u8) = l"
proof -
  have m: "(0xff :: u16) = mask 8" by (simp add: mask_eq_exp_minus_1)
  show "(ucast (drop_bit 8 w AND 0xff) :: u8) = h" unfolding m w_def
    by (rule bit_word_eqI) (auto simp: bit_simps dest: bit_imp_le_length)
  show "(ucast (w AND 0xff) :: u8) = l" unfolding m w_def
    by (rule bit_word_eqI) (auto simp: bit_simps)
qed

lemma entered_value: "length p = 8 \<Longrightarrow> value_h (entered p s) = p ! 3" "length p = 8 \<Longrightarrow> value_l (entered p s) = p ! 2"
  "length p = 8 \<Longrightarrow> index_h (entered p s) = p ! 5" "length p = 8 \<Longrightarrow> index_l (entered p s) = p ! 4"
  by (simp_all only: value_h_def value_l_def index_h_def index_l_def entered_fields setup_req_def USB_Request_Hdr_t.simps u16_of_bytes)

lemma entered_request: "Request (setup_req p) = p ! 1"
  by (simp add: setup_req_def)

lemma writes_replied:
  assumes "usb_ok c s" "reg_ctrl_ep_ptr s = 0" "\<not> g_stall s" "length d \<le> 8"
  shows "\<exists>t. map_option ctl_reply (ctrl_ep_writes d s) = Some t \<and> last_reply t = (FLD_EP_DAT_ACK, d)"
  using writes_reply [OF assms] by auto

lemma get_idle:
  assumes "usb_ok c s"
  shows "\<exists>t. usb_setup c D [0xa1, 2, a, b, i, j, l, k] s = Some t \<and> last_reply t = (FLD_EP_DAT_ACK, [g_rate s])"
proof -
  let ?e = "entered [0xa1, 2, a, b, i, j, l, k] s"
  obtain t where t: "ctrl_ep_writes [g_rate s] ?e = Some t" "\<not> g_stall t" "last_reply (ctl_reply t) = (FLD_EP_DAT_ACK, [g_rate s])"
    using writes_reply [of c ?e "[g_rate s]"] assms by auto
  have "in_class_switch c ?e = Some t"
    using t(1) unfolding in_class_switch_def Let_def entered_fields entered_request ctrl_ep_writes_one by (simp add: class_consts)
  then show ?thesis using t by (simp add: setup_in_class [OF assms] usb_handle_in_class_intf_req_def)
qed

lemma get_protocol:
  assumes "usb_ok c s"
  shows "\<exists>t. usb_setup c D [0xa1, 3, a, b, i, j, l, k] s = Some t \<and> last_reply t = (FLD_EP_DAT_ACK, [usb_mouse_report_proto s])"
proof -
  let ?e = "entered [0xa1, 3, a, b, i, j, l, k] s"
  obtain t where t: "ctrl_ep_writes [usb_mouse_report_proto s] ?e = Some t" "\<not> g_stall t" "last_reply (ctl_reply t) = (FLD_EP_DAT_ACK, [usb_mouse_report_proto s])"
    using writes_reply [of c ?e "[usb_mouse_report_proto s]"] assms by auto
  have "in_class_switch c ?e = Some t"
    using t(1) unfolding in_class_switch_def Let_def entered_fields entered_request ctrl_ep_writes_one by (simp add: class_consts)
  then show ?thesis using t by (simp add: setup_in_class [OF assms] usb_handle_in_class_intf_req_def)
qed

lemma get_line_coding:
  assumes "usb_ok c s" "USB_CDC_ENABLE c"
  shows "\<exists>t. usb_setup c D [0xa1, 0x21, a, b, i, j, l, k] s = Some t \<and> last_reply t = (FLD_EP_DAT_ACK, LineCoding s)"
proof -
  let ?e = "entered [0xa1, 0x21, a, b, i, j, l, k] s"
  have l: "length (LineCoding s) = 7" using assms(1) by (simp add: usb_ok_def)
  obtain t where t: "ctrl_ep_writes (LineCoding s) ?e = Some t" "\<not> g_stall t" "last_reply (ctl_reply t) = (FLD_EP_DAT_ACK, LineCoding s)"
    using writes_reply [of c ?e "LineCoding s"] assms l by auto
  have "in_class_switch c ?e = Some t"
    using t(1) l assms(2) unfolding in_class_switch_def Let_def entered_fields entered_request by (simp add: class_consts rd_range_def)
  then show ?thesis using t by (simp add: setup_in_class [OF assms(1)] usb_handle_in_class_intf_req_def)
qed

lemma get_speaker_volume:
  assumes "usb_ok c s" "audio_en c" "vol_cur (speaker_setting s) = push_bit 8 (ucast h) OR ucast l"
  shows "\<exists>t. usb_setup c D [0xa1, 0x81, a, 2, i, 2, m, k] s = Some t \<and> last_reply t = (FLD_EP_DAT_ACK, [l, h])"
proof -
  let ?e = "entered [0xa1, 0x81, a, 2, i, 2, m, k] s"
  let ?f = "?e\<lparr>g_stall := False\<rparr>"
  have i: "in_class_switch c ?e = Some (?e\<lparr>g_stall := True\<rparr>)"
    unfolding in_class_switch_def Let_def entered_fields entered_request by (simp add: class_consts)
  have h: "(ucast (drop_bit 8 (push_bit 8 (ucast h) OR ucast l :: u16)) :: u8) = h"
    by (rule bit_word_eqI) (auto simp: bit_simps dest: bit_imp_le_length)
  have u: "usbaud_handle_get_speaker_cmd 0x81 2 ?f = map_option (Pair 0) (ctrl_ep_writes [l, h] ?f)"
    unfolding usbaud_handle_get_speaker_cmd_def write_u16 using assms(3) h u16_of_bytes [of h l]
    by (simp add: AUDIO_FEATURE_MUTE_def AUDIO_FEATURE_VOLUME_def AUDIO_REQ_GetCurrent_def del: ctrl_ep_writes.simps drop_bit_or)
  obtain t where t: "ctrl_ep_writes [l, h] ?f = Some t" "\<not> g_stall t" "last_reply (ctl_reply t) = (FLD_EP_DAT_ACK, [l, h])"
    using writes_reply [of c ?f "[l, h]"] assms(1) by auto
  have v: "index_h ?f = 2" "value_h ?f = 2" "Request (control_request ?f) = 0x81"
    using entered_value [of "[0xa1, 0x81, a, 2, i, 2, m, k]" s] entered_request by (simp_all add: index_h_def value_h_def)
  have "usb_handle_in_class_intf_req c ?e = Some t"
    unfolding usb_handle_in_class_intf_req_def i Let_def using assms(2) u t(1) v by (simp add: class_consts stall_if_def)
  then show ?thesis using t by (simp add: setup_in_class [OF assms(1)])
qed

lemma reply_frame [simp]: "g_rate (ctl_reply s) = g_rate s" "usb_mouse_report_proto (ctl_reply s) = usb_mouse_report_proto s"
  "LineCoding (ctl_reply s) = LineCoding s" "speaker_setting (ctl_reply s) = speaker_setting s"
  by (simp_all add: ctl_reply_def usbhw_write_ctrl_ep_ctrl_def)

lemma set_idle:
  assumes "usb_ok c s"
  shows "\<exists>t. usb_setup c D [0x21, 10, a, v, i, j, l, k] s = Some t \<and> usb_ok c t \<and> g_rate t = v"
proof -
  let ?e = "entered [0x21, 10, a, v, i, j, l, k] s"
  have o: "out_class_switch c False ?e = Some (?e\<lparr>g_rate := v\<rparr>)"
    unfolding out_class_switch_def Let_def entered_fields entered_request by (simp add: class_consts entered_value)
  show ?thesis using assms by (simp add: setup_out_class [OF assms] usb_handle_out_class_intf_req_def o)
qed

lemma set_protocol:
  assumes "usb_ok c s"
  shows "\<exists>t. usb_setup c D [0x21, 11, v, b, i, j, l, k] s = Some t \<and> usb_ok c t \<and> usb_mouse_report_proto t = v"
proof -
  let ?e = "entered [0x21, 11, v, b, i, j, l, k] s"
  have o: "out_class_switch c False ?e = Some (ep_ctrl_write USB_EDP_MOUSE_EP 0 (?e\<lparr>usb_mouse_report_proto := v\<rparr>))"
    unfolding out_class_switch_def Let_def entered_fields entered_request by (simp add: class_consts entered_value)
  have f: "\<not> g_stall (ep_ctrl_write p x (?e\<lparr>usb_mouse_report_proto := v\<rparr>))" "usb_mouse_report_proto (ep_ctrl_write p x (?e\<lparr>usb_mouse_report_proto := v\<rparr>)) = v"
    for p x by (simp_all add: ep_ctrl_write_def)
  show ?thesis using assms by (simp add: setup_out_class [OF assms] usb_handle_out_class_intf_req_def o f)
qed

text \<open>The state at the start of the handler of a data stage.\<close>

definition data_entered :: "bytes \<Rightarrow> usb_dev \<Rightarrow> usb_dev" where
  "data_entered d s = s\<lparr>reg_ctrl_ep_dat := d @ drop (length d) (reg_ctrl_ep_dat s), reg_usb_sups_cyc_cali := 0x38, g_stall := False, reg_ctrl_ep_ptr := 0\<rparr>"

lemma data_entered_fields [simp]: "control_request (data_entered d s) = control_request s" "\<not> g_stall (data_entered d s)"
  "reg_ctrl_ep_ptr (data_entered d s) = 0" "usb_ok c s \<Longrightarrow> length d \<le> 8 \<Longrightarrow> usb_ok c (data_entered d s)"
  "reg_ctrl_ep_dat (data_entered d s) = d @ drop (length d) (reg_ctrl_ep_dat s)"
  by (auto simp: data_entered_def usb_ok_simps)

lemma data_out_class:
  assumes "RequestType (control_request s) = 0x21" "usb_handle_out_class_intf_req c True (data_entered d s) = Some t"
  shows "\<exists>v. usb_data c D d s = Some (ctl_reply (t\<lparr>reg_usb_sups_cyc_cali := v\<rparr>))"
proof -
  let ?s = "(usbhw_reset_ctrl_ep_ptr (s\<lparr>reg_ctrl_ep_dat := d @ drop (length d) (reg_ctrl_ep_dat s), reg_usb_sups_cyc_cali := 0x38\<rparr>))\<lparr>g_stall := False\<rparr>"
  have e: "usbhw_reset_ctrl_ep_ptr ?s = data_entered d s" by (simp add: usbhw_reset_ctrl_ep_ptr_def data_entered_def)
  have "usb_handle_request c D True ?s = Some t" using dispatch(1) [of ?s c D True] assms by (simp add: e)
  moreover have "\<exists>v. ctl_reply (if b then t\<lparr>reg_usb_sups_cyc_cali := 0x18\<rparr> else t) = ctl_reply (t\<lparr>reg_usb_sups_cyc_cali := v\<rparr>)" for b
    by (rule exI [of _ "if b then 0x18 else reg_usb_sups_cyc_cali t"]) simp
  ultimately show ?thesis by (simp add: usb_data_def usb_handle_ctl_ep_data_def)
qed

lemma set_line_coding:
  assumes "usb_ok c s" "USB_CDC_ENABLE c" "length d = 7"
  shows "\<exists>t. do { s1 \<leftarrow> usb_setup c D [0x21, 0x20, a, b, i, j, l, k] s; usb_data c D d s1 } = Some t \<and> usb_ok c t \<and> LineCoding t = d"
proof -
  let ?p = "[0x21, 0x20, a, b, i, j, l, k]"
  have s1: "usb_setup c D ?p s = Some (ctl_reply (entered ?p s))"
  proof -
    have "out_class_switch c False (entered ?p s) = Some (entered ?p s)"
      using assms(2) unfolding out_class_switch_def Let_def entered_fields entered_request by (simp add: class_consts)
    then show ?thesis by (simp add: setup_out_class [OF assms(1)] usb_handle_out_class_intf_req_def)
  qed
  let ?s1 = "ctl_reply (entered ?p s)" and ?e = "data_entered d (ctl_reply (entered ?p s))"
  have ok: "usb_ok c ?s1" "usb_ok c ?e" using assms(1,3) by simp_all
  have r: "ctrl_ep_reads 7 ?e = Some (d, ?e\<lparr>reg_ctrl_ep_ptr := 7\<rparr>)"
    using ctrl_ep_reads_room [of ?e 7] assms(3) ok(2) by (simp add: usb_ok_def ctrl_ep_ok_def USB_CTR_ENDPOINT_SIZE_def)
  let ?t = "?e\<lparr>reg_ctrl_ep_ptr := 7, LineCoding := d\<rparr>"
  have z: "usbhw_reset_ctrl_ep_ptr ?e = ?e" by (simp add: usbhw_reset_ctrl_ep_ptr_def data_entered_def)
  have "out_class_switch c True ?e = Some ?t"
    using assms(2) r unfolding out_class_switch_def Let_def z data_entered_fields ok_reply(2) entered_fields entered_request by (simp add: class_consts)
  then have "usb_handle_out_class_intf_req c True ?e = Some ?t" by (simp add: usb_handle_out_class_intf_req_def)
  then obtain v where v: "usb_data c D d ?s1 = Some (ctl_reply (?t\<lparr>reg_usb_sups_cyc_cali := v\<rparr>))"
    using data_out_class [of ?s1 c d ?t D] by (auto simp: setup_req_def)
  have "usb_ok c ?t" using ok(2) assms(3) by (simp add: usb_ok_simps)
  then show ?thesis using v by (simp add: s1)
qed

lemma set_speaker_volume:
  assumes "usb_ok c s" "descs_ok D" "audio_en c"
  shows "\<exists>t. do { s1 \<leftarrow> usb_setup c D [0x21, 1, a, 2, i, 2, m, k] s; usb_data c D [l, h] s1 } = Some t \<and> usb_ok c t \<and>
    vol_cur (speaker_setting t) = push_bit 8 (ucast h) OR ucast l"
proof -
  let ?p = "[0x21, 1, a, 2, i, 2, m, k]"
  have "usb_ok c (s\<lparr>reg_ctrl_ep_dat := ?p\<rparr>)" using assms(1) by (simp add: usb_ok_simps)
  from usb_setup_kept [OF this assms(2)] obtain s1 where s1: "usb_setup c D ?p s = Some s1" "usb_ok c s1" "control_request s1 = setup_req ?p"
    by (auto simp: usb_setup_def safe_req_def setup_req_def)
  let ?e = "data_entered [l, h] s1"
  let ?f = "?e\<lparr>g_stall := False\<rparr>"
  have ok: "usb_ok c ?f" using s1(2) by simp
  have o: "out_class_switch c True ?e = Some (?e\<lparr>g_stall := True\<rparr>)"
    unfolding out_class_switch_def Let_def data_entered_fields s1(3) entered_request by (simp add: class_consts)
  have v: "index_h ?f = 2" "value_h ?f = 2"
    using entered_value [of ?p s] s1(3) by (simp_all add: index_h_def value_h_def)
  let ?t = "usbaud_set_speaker_vol (push_bit 8 (ucast h) OR ucast l) (?f\<lparr>reg_ctrl_ep_ptr := 2\<rparr>)"
  have u: "usbaud_handle_set_speaker_cmd 2 ?f = Some (0, ?t)"
    using read_u16 [OF ok] by (simp add: usbaud_handle_set_speaker_cmd_def AUDIO_FEATURE_MUTE_def AUDIO_FEATURE_VOLUME_def numeral_2_eq_2)
  have "usb_handle_out_class_intf_req c True ?e = Some ?t"
    unfolding usb_handle_out_class_intf_req_def o Let_def using assms(3) u v by (simp add: class_consts)
  then obtain x where x: "usb_data c D [l, h] s1 = Some (ctl_reply (?t\<lparr>reg_usb_sups_cyc_cali := x\<rparr>))"
    using data_out_class [of s1 c "[l, h]" ?t D] s1(3) by (auto simp: setup_req_def)
  have "usb_ok c ?t" using ok by simp
  then show ?thesis using x s1(1) by (simp add: usbaud_set_speaker_vol_def)
qed

text \<open>The host sets several values one after the other.\<close>

fun set_each :: "('v \<Rightarrow> usb_dev \<Rightarrow> usb_dev option) \<Rightarrow> 'v list \<Rightarrow> usb_dev \<Rightarrow> usb_dev option" where
  "set_each put [] s = Some s"
| "set_each put (v # vs) s = do { t \<leftarrow> put v s; set_each put vs t }"

text \<open>
  The contract of a setting that a host writes and reads over the control endpoint: a legal value is stored, whatever
  the device did before, and a read is acknowledged with the stored value.
\<close>

locale host_setting =
  fixes valid :: "usb_dev \<Rightarrow> bool" and legal :: "'v \<Rightarrow> bool"
    and put :: "'v \<Rightarrow> usb_dev \<Rightarrow> usb_dev option" and get :: "usb_dev \<Rightarrow> usb_dev option"
    and holds :: "'v \<Rightarrow> usb_dev \<Rightarrow> bool" and enc :: "'v \<Rightarrow> bytes"
  assumes put_ok: "valid s \<Longrightarrow> legal v \<Longrightarrow> \<exists>t. put v s = Some t \<and> valid t \<and> holds v t"
    and get_ok: "valid s \<Longrightarrow> holds v s \<Longrightarrow> \<exists>t. get s = Some t \<and> last_reply t = (FLD_EP_DAT_ACK, enc v)"
begin

lemma put_get:
  assumes "valid s" "legal v"
  shows "\<exists>s1 t. put v s = Some s1 \<and> get s1 = Some t \<and> last_reply t = (FLD_EP_DAT_ACK, enc v)"
  using put_ok [OF assms] get_ok by blast

lemma last_put_wins:
  assumes "valid s" "\<forall>v \<in> set vs. legal v" "legal w"
  shows "\<exists>s1 t. set_each put (vs @ [w]) s = Some s1 \<and> get s1 = Some t \<and> last_reply t = (FLD_EP_DAT_ACK, enc w)"
  using assms
proof (induction vs arbitrary: s)
  case Nil
  then show ?case using put_get [of s w] by (auto split: option.splits)
next
  case (Cons v vs)
  obtain t where t: "put v s = Some t" "valid t" using put_ok [of s v] Cons.prems by auto
  then show ?case using Cons.IH [OF t(2)] Cons.prems by auto
qed

end

interpretation idle_rate: host_setting "usb_ok c" "\<lambda>_. True" "\<lambda>v. usb_setup c D [0x21, 10, a, v, i, j, 0, 0]"
  "usb_setup c D [0xa1, 2, a, b, i, j, 1, 0]" "\<lambda>v s. g_rate s = v" "\<lambda>v. [v]" for c D a b i j
  using set_idle get_idle by unfold_locales blast+

interpretation hid_protocol: host_setting "usb_ok c" "\<lambda>_. True" "\<lambda>v. usb_setup c D [0x21, 11, v, b, i, j, 0, 0]"
  "usb_setup c D [0xa1, 3, a, b, i, j, 1, 0]" "\<lambda>v s. usb_mouse_report_proto s = v" "\<lambda>v. [v]" for c D a b i j
  using set_protocol get_protocol by unfold_locales blast+

interpretation line_coding: host_setting "\<lambda>s. usb_ok c s \<and> USB_CDC_ENABLE c" "\<lambda>d. length d = 7"
  "\<lambda>d s. do { s1 \<leftarrow> usb_setup c D [0x21, 0x20, a, b, i, j, 7, 0] s; usb_data c D d s1 }"
  "usb_setup c D [0xa1, 0x21, a, b, i, j, 7, 0]" "\<lambda>d s. LineCoding s = d" "\<lambda>d. d" for c D a b i j
  using set_line_coding get_line_coding by unfold_locales blast+

interpretation speaker_volume: host_setting "\<lambda>s. usb_ok c s \<and> descs_ok D \<and> audio_en c" "\<lambda>_. True"
  "\<lambda>(l, h) s. do { s1 \<leftarrow> usb_setup c D [0x21, 1, a, 2, i, 2, 2, 0] s; usb_data c D [l, h] s1 }"
  "usb_setup c D [0xa1, 0x81, a, 2, i, 2, 2, 0]" "\<lambda>(l, h) s. vol_cur (speaker_setting s) = push_bit 8 (ucast h) OR ucast l"
  "\<lambda>(l, h). [l, h]" for c D a i
proof unfold_locales
  show "\<exists>t. (case v of (l, h) \<Rightarrow> \<lambda>s. do { s1 \<leftarrow> usb_setup c D [0x21, 1, a, 2, i, 2, 2, 0] s; usb_data c D [l, h] s1 }) s = Some t \<and>
      (usb_ok c t \<and> descs_ok D \<and> audio_en c) \<and> (case v of (l, h) \<Rightarrow> \<lambda>s. vol_cur (speaker_setting s) = push_bit 8 (ucast h) OR ucast l) t"
    if "usb_ok c s \<and> descs_ok D \<and> audio_en c" for s v
    using that set_speaker_volume [of c s D a i 2 0 "fst v" "snd v"] by (auto split: prod.splits)
  show "\<exists>t. usb_setup c D [0xa1, 0x81, a, 2, i, 2, 2, 0] s = Some t \<and> last_reply t = (FLD_EP_DAT_ACK, case v of (l, h) \<Rightarrow> [l, h])"
    if "usb_ok c s \<and> descs_ok D \<and> audio_en c" "(case v of (l, h) \<Rightarrow> \<lambda>s. vol_cur (speaker_setting s) = push_bit 8 (ucast h) OR ucast l) s" for s v
    using that get_speaker_volume [of c s "snd v" "fst v" D a i 2 0] by (auto split: prod.splits)
qed

text \<open>What the host set last, it reads back: the setting \<open>put\<close> with the values \<open>vs\<close> in turn, then the request \<open>pkt\<close>.\<close>

definition reads_back :: "usb_cfg \<Rightarrow> usb_descs \<Rightarrow> ('v \<Rightarrow> usb_dev \<Rightarrow> usb_dev option) \<Rightarrow> 'v list \<Rightarrow> bytes \<Rightarrow> bytes \<Rightarrow> usb_dev \<Rightarrow> bool" where
  "reads_back c D put vs pkt v s \<longleftrightarrow>
     (case do { s1 \<leftarrow> set_each put vs s; usb_setup c D pkt s1 } of
        None \<Rightarrow> False | Some t \<Rightarrow> last_reply t = (FLD_EP_DAT_ACK, v))"

lemma reads_backI:
  "\<exists>s1 t. set_each put vs s = Some s1 \<and> usb_setup c D pkt s1 = Some t \<and> last_reply t = (FLD_EP_DAT_ACK, v) \<Longrightarrow> reads_back c D put vs pkt v s"
  by (auto simp: reads_back_def)

text \<open>
  C14.  What a host sets over the control endpoint it reads back, however often it set it before: the idle rate and the
  protocol of a HID interface, the line coding of the serial port and the volume of the speaker.
\<close>

theorem usb_class_settings_roundtrip:
  assumes "usb_ok c s" "descs_ok D"
  shows "reads_back c D (\<lambda>v. usb_setup c D [0x21, 10, a, v, i, j, 0, 0]) (vs @ [v]) [0xa1, 2, a, b, i, j, 1, 0] [v] s \<and>
    reads_back c D (\<lambda>v. usb_setup c D [0x21, 11, v, b, i, j, 0, 0]) (vs @ [v]) [0xa1, 3, a, b, i, j, 1, 0] [v] s \<and>
    (USB_CDC_ENABLE c \<and> length d = 7 \<and> (\<forall>x \<in> set ds. length x = 7) \<longrightarrow>
      reads_back c D (\<lambda>d s. do { s1 \<leftarrow> usb_setup c D [0x21, 0x20, a, b, i, j, 7, 0] s; usb_data c D d s1 }) (ds @ [d])
        [0xa1, 0x21, a, b, i, j, 7, 0] d s) \<and>
    (audio_en c \<longrightarrow>
      reads_back c D (\<lambda>(l, h) s. do { s1 \<leftarrow> usb_setup c D [0x21, 1, a, 2, i, 2, 2, 0] s; usb_data c D [l, h] s1 }) (ps @ [(l, h)])
        [0xa1, 0x81, a, 2, i, 2, 2, 0] [l, h] s)"
  using assms idle_rate.last_put_wins [where c = c and D = D and s = s and vs = vs and w = v and a = a and b = b and i = i and j = j]
    hid_protocol.last_put_wins [where c = c and D = D and s = s and vs = vs and w = v and a = a and b = b and i = i and j = j]
    line_coding.last_put_wins [where c = c and D = D and s = s and vs = ds and w = d and a = a and b = b and i = i and j = j]
    speaker_volume.last_put_wins [where c = c and D = D and s = s and vs = ps and w = "(l, h)" and a = a and i = i]
  by (auto intro!: reads_backI)

theorem usb_class_settings_roundtrip_witness:
  "reads_back usb_demo_cfg usb_demo_descs
     (\<lambda>(l, h) s. do { s1 \<leftarrow> usb_setup usb_demo_cfg usb_demo_descs [0x21, 1, 0, 2, 0, 2, 2, 0] s; usb_data usb_demo_cfg usb_demo_descs [l, h] s1 })
     ([(9, 8)] @ [(0x34, 0x12)]) [0xa1, 0x81, 0, 2, 0, 2, 2, 0] [0x34, 0x12] (usb_dev_zero 5 [0x80, 6, 0, 1, 0, 0, 0x12, 0])"
proof -
  have "audio_en usb_demo_cfg" by (simp add: audio_en_def usb_demo_cfg_def)
  then show ?thesis
    using usb_class_settings_roundtrip [OF usb_demo_ok, where a = 0 and i = 0 and l = "0x34" and h = "0x12" and ps = "[(9, 8)]"] by blast
qed

section \<open>The unsafe requests\<close>

lemma custom_report_faults:
  assumes "usb_ok c s" "reg_ctrl_ep_ptr s = 0" "USB_CUSTOM_HID_REPORT c" "Request (control_request s) = 1" "rq_Value (control_request s) = 0x0305"
  shows "usb_handle_in_class_intf_req c s = None"
proof -
  have over: "do { s1 \<leftarrow> ctrl_ep_writes d s; usbhw_write_ctrl_ep_data (g_rate s1) s1 } = None" if "length d = 8" for d
    using ctrl_ep_writes_room [of s d] that assms(1,2) by (simp add: usb_ok_def ctrl_ep_ok_def USB_CTR_ENDPOINT_SIZE_def usbhw_write_ctrl_ep_data_def wr8_def)
  have "hid_get_report c s = None"
    using over [of "UINT32_TO_BSTREAM (custom_read_dat s) @ [0x10, 0x20, 0x40, 0x80]"]
      over [of "[4, 0x58, 0, if host_cmd_paring_ok s \<noteq> 0 then 0xa1 else 0, 0, 0, 8, 0]"] assms(3,5)
    unfolding hid_get_report_def by (simp add: UINT32_TO_BSTREAM_def del: ctrl_ep_writes.simps)
  then show ?thesis using assms(4) unfolding usb_handle_in_class_intf_req_def in_class_switch_def Let_def by (simp add: class_consts)
qed

lemma low_bits_u8: "unat (ucast (x AND 7 :: u16) :: u8) = unat (x AND 7)"
  using word_and_le1 [of x 7] by (simp add: unsigned_ucast_eq take_bit_nat_eq_self word_le_nat_alt)

text \<open>
  C37.  On a well-formed device the setup stage of a request leaves its buffers and tables exactly when the request is the
  custom report 0x0305 or, in a build with audio, addresses an interface (of the eight the index can name) that
  the build does not have; every other setup packet is served.
\<close>

theorem usb_setup_faults_exactly:
  assumes "usb_ok c s" "descs_ok D"
  shows "usb_handle_ctl_ep_setup c D s = None \<longleftrightarrow> \<not> safe_req c (setup_req (reg_ctrl_ep_dat s))"
proof
  assume "usb_handle_ctl_ep_setup c D s = None"
  then show "\<not> safe_req c (setup_req (reg_ctrl_ep_dat s))" using usb_setup_kept [OF assms] by auto
next
  let ?r = "setup_req (reg_ctrl_ep_dat s)" and ?e = "setup_entry s"
  let ?z = "usbhw_reset_ctrl_ep_ptr (setup_entry s)"
  have ok: "usb_ok c ?e" using assms(1) by (simp add: setup_entry_def)
  have len: "length (usb_alt_intf ?z) = USB_INTF_MAX c" using ok by (simp add: usb_ok_def usbhw_reset_ctrl_ep_ptr_def)
  assume "\<not> safe_req c ?r"
  then consider (set) "audio_en c" "RequestType ?r = 1" "Request ?r = 11" "\<not> unat (rq_Index ?r AND 7) < USB_INTF_MAX c"
    | (get) "audio_en c" "RequestType ?r = 0x81" "Request ?r = 10" "\<not> unat (rq_Index ?r AND 7) < USB_INTF_MAX c"
    | (custom) "USB_CUSTOM_HID_REPORT c" "RequestType ?r = 0xa1" "Request ?r = 1" "rq_Value ?r = 0x0305"
    by (auto simp: safe_req_def REQ_SetInterface_def REQ_GetInterface_def HID_REQ_GetReport_def)
  then have "usb_handle_request c D False ?e = None"
  proof cases
    case set
    then show ?thesis using len by (simp add: dispatch(3) usb_handle_set_intf_def Let_def wr8_def low_bits_u8)
  next
    case get
    then show ?thesis using len by (simp add: dispatch(4) usb_handle_get_intf_def rd8_def)
  next
    case custom
    then show ?thesis using custom_report_faults [of c ?z] ok by (simp add: dispatch(2))
  qed
  then show "usb_handle_ctl_ep_setup c D s = None" by (simp add: setup_run [OF assms(1)])
qed

theorem usb_setup_faults_exactly_witness:
  "usb_ok usb_demo_cfg (usb_dev_zero 5 [1, 11, 1, 0, 7, 0, 0, 0]) \<and>
   usb_handle_ctl_ep_setup usb_demo_cfg usb_demo_descs (usb_dev_zero 5 [1, 11, 1, 0, 7, 0, 0, 0]) = None"
proof -
  have ok: "usb_ok usb_demo_cfg (usb_dev_zero 5 [1, 11, 1, 0, 7, 0, 0, 0])"
    using usb_dev_zero_ok [of _ usb_demo_cfg] unfolding usb_demo_intfs by simp
  have "\<not> safe_req usb_demo_cfg (setup_req (reg_ctrl_ep_dat (usb_dev_zero 5 [1, 11, 1, 0, 7, 0, 0, 0])))"
    by (simp add: safe_req_def setup_req_def usb_demo_intfs audio_en_def REQ_SetInterface_def) (simp add: usb_demo_cfg_def)
  then show ?thesis using usb_setup_faults_exactly [OF ok usb_demo_ok(2)] ok by blast
qed

text \<open>
  C38.  A request for the HID descriptor of an interface without one is answered with what was left of the response before
  it: the handler neither clears the response nor stalls.
\<close>

theorem unknown_hid_descriptor_sends_rest:
  assumes "usb_ok c s" "setup_req (reg_ctrl_ep_dat s) = \<lparr>RequestType = 0x81, Request = 6, rq_Value = 0x2100, rq_Index = i, rq_Length = l\<rparr>"
    and "USB_MOUSE_ENABLE c \<longrightarrow> ucast (i AND 0xff) \<noteq> intf_no c USB_INTF_MOUSE" "USB_KEYBOARD_ENABLE c \<longrightarrow> ucast (i AND 0xff) \<noteq> intf_no c USB_INTF_KEYBOARD"
  shows "\<exists>t. usb_handle_ctl_ep_setup c D s = Some t \<and>
     last_reply t = (FLD_EP_DAT_ACK, take 8 (take (unat l) (take (unat (g_response_len s)) (g_response s))))"
proof -
  let ?e = "usbhw_reset_ctrl_ep_ptr (setup_entry s)"
  have v: "value_h ?e = 0x21" "index_l ?e = ucast (i AND 0xff)" using assms(2) by (simp_all add: value_h_def index_l_def)
  have f: "g_response ?e = g_response s" "g_response_len ?e = g_response_len s" "\<not> g_stall ?e" "ctrl_ep_log ?e = ctrl_ep_log s"
    by (simp_all add: usbhw_reset_ctrl_ep_ptr_def setup_entry_def)
  have u: "usb_handle_std_intf_req c D ?e = clip_response ?e"
    unfolding usb_handle_std_intf_req_def v Let_def using assms(3,4) by (auto simp: HID_DTYPE_HID_def v)
  have ok: "usb_ok c ?e" using assms(1) by (simp add: setup_entry_def)
  have "usb_ok c (clip_response ?e)" by (rule clip_ok) (use ok in \<open>auto simp: usb_ok_simps\<close>)
  then have "sending c (take (unat l) (take (unat (g_response_len s)) (g_response s))) (clip_response ?e)"
    using clip_rest [of ?e] assms(2) f by (simp add: sending_def)
  from send_step [OF this] obtain t where t: "usb_send_response (clip_response ?e) = Some t" "\<not> g_stall t"
    "take (reg_ctrl_ep_ptr t) (reg_ctrl_ep_dat t) = take 8 (take (unat l) (take (unat (g_response_len s)) (g_response s)))"
    using f(3) by auto
  have "usb_handle_request c D False (setup_entry s) = Some t"
    unfolding usb_handle_request_def Let_def ok_reset(2) setup_entry_fields(1) assms(2) using t(1) u by (simp add: REQ_GetDescriptor_def)
  then show ?thesis using t(2,3) by (simp add: setup_run [OF assms(1)] last_reply_def reply_log)
qed

theorem unknown_hid_descriptor_sends_rest_witness:
  "\<exists>t. usb_handle_ctl_ep_setup usb_demo_cfg usb_demo_descs
       ((usb_dev_zero 5 [0x81, 6, 0, 0x21, 1, 0, 9, 0])\<lparr>g_response := [1, 2, 3], g_response_len := 3\<rparr>) = Some t \<and>
     last_reply t = (FLD_EP_DAT_ACK, [1, 2, 3])"
proof -
  let ?s = "(usb_dev_zero 5 [0x81, 6, 0, 0x21, 1, 0, 9, 0])\<lparr>g_response := [1, 2, 3], g_response_len := 3\<rparr>"
  have "usb_ok usb_demo_cfg (usb_dev_zero 5 [0x81, 6, 0, 0x21, 1, 0, 9, 0])"
    using usb_dev_zero_ok [of _ usb_demo_cfg] unfolding usb_demo_intfs by simp
  then have ok: "usb_ok usb_demo_cfg ?s" by (simp add: usb_ok_simps)
  have r: "setup_req (reg_ctrl_ep_dat ?s) = \<lparr>RequestType = 0x81, Request = 6, rq_Value = 0x2100, rq_Index = 1, rq_Length = 9\<rparr>"
    by (simp add: setup_req_def)
  have i: "intf_no usb_demo_cfg USB_INTF_MOUSE = 4" "intf_no usb_demo_cfg USB_INTF_KEYBOARD = 3"
    by (simp_all add: intf_no_def usb_intfs_def usb_demo_cfg_def)
  show ?thesis using unknown_hid_descriptor_sends_rest [OF ok r, of usb_demo_descs] i by simp
qed

end
