(* ===== verification/Spec2Isabelle.thy ===== *)
theory Spec2Isabelle
  imports Byte_Utils Ring_Buffer My_Fifo Item_Queue Soft_Timer Device_Manage Hci_H5 Hci_Dfu Hci_Tr Tl_String
    Simple_Sdp Usb_Requests Usb_Kb Usb_Std
begin

text \<open>
  \<^bold>\<open>A verification development for the Telink BLE SDK.\<close>

  The SDK (directory \<^verbatim>\<open>src/tl_ble_sdk\<close>) is the C source that surrounds a precompiled Bluetooth Low Energy
  controller and host.  The code that decides something in source form is the subject of this development:
  the containers of \<^verbatim>\<open>common/\<close>, the application services of \<^verbatim>\<open>vendor/common/\<close>, the HCI transport of
  \<^verbatim>\<open>vendor/common/hci_transport/\<close> with the firmware download that runs over it, the two USB device stacks
  (\<^verbatim>\<open>common/tl_usb\<close> and \<^verbatim>\<open>application/usbstd\<close> with its classes) and the keyboard scan.

  \<^bold>\<open>How the parts interact.\<close>
  Bytes arrive from a host on a UART.  The driver interrupt stores them chunk by chunk in the slots of a
  receive FIFO (\<^verbatim>\<open>hci_tr_h4.c\<close> or \<^verbatim>\<open>hci_tr_h5.c\<close>, depending on \<^verbatim>\<open>HCI_TR_MODE\<close>).  The H4 receiver cuts the
  chunks into HCI packets; the H5 receiver cuts them into SLIP frames, which \<^verbatim>\<open>hci_slip.c\<close> decodes and
  \<^verbatim>\<open>hci_h5.c\<close> checks, acknowledges and orders.  Both append HCI packets to the FIFO \<^verbatim>\<open>bltHci_rxfifo\<close>, from
  which \<^verbatim>\<open>hci_tr.c\<close> feeds the controller (\<^verbatim>\<open>blc_hci_handler\<close>).  The controller answers through
  \<^verbatim>\<open>bltHci_txfifo\<close>, which \<^verbatim>\<open>hci_tr.c\<close> (H4) or \<^verbatim>\<open>hci_h5.c\<close> (H5) empties into the UART.  Vendor commands reach
  \<^verbatim>\<open>hci_dfu.c\<close>, which writes a new firmware image into the flash through \<^verbatim>\<open>hci_dfu_port.c\<close> and the flash
  driver, and switches the boot flag after the image has been verified.
  A USB device built from \<^verbatim>\<open>application/\<close> scans its key matrix (\<^verbatim>\<open>keyboard.c\<close>), turns the codes into reports for the
  host (\<^verbatim>\<open>usbkb.c\<close>, \<^verbatim>\<open>usbmouse.c\<close>) and answers the requests of the host on the control endpoint (\<^verbatim>\<open>usb.c\<close>), which
  hands audio requests to \<^verbatim>\<open>usbaud.c\<close> and serial data to \<^verbatim>\<open>usbcdc.c\<close>.  The newer stack of \<^verbatim>\<open>common/tl_usb\<close> has its own
  core, port and class handlers.

  \<^bold>\<open>Conventions.\<close>
  A C object is a list of bytes of its allocated size and every access is checked: the outer \<open>None\<close> of an
  operation is an access outside the object, so that a theorem with \<open>Some\<close> on the right is a memory
  safety theorem.  Integers keep their width (\<open>u8\<close>, \<open>u16\<close>, \<open>u32\<close>, \<open>u64\<close>), and their wrap-around is the
  one of C; in particular the 8-bit FIFO indices and the 32-bit system timer run freely.  A structure is a
  record with the fields of the source and an enumeration is a datatype.  The tick returned by
  \<^verbatim>\<open>clock_time()\<close> is an argument \<open>now\<close>.  What the precompiled library and the hardware do is an argument too:
  the UART (\<open>uart_env\<close>, one answer per send call), the controller's packet handler, the callbacks of an
  application, the answers of \<^verbatim>\<open>hci_get_revision\<close> and \<^verbatim>\<open>blc_ota_getNextFirmwareStartAddress\<close>.  Calls into the
  library that return nothing are recorded in the state where the code relies on their order.

  \<^bold>\<open>Theories.\<close>

  \<^item> \<open>Telink_Prelude\<close>: the fixed-width types, the checked buffer accesses \<open>rd8\<close>, \<open>wr8\<close>, \<open>rd_range\<close>, \<open>wr_range\<close>,
    the stream macros, \<^verbatim>\<open>clock_time_exceed\<close>, ring indices as lists (\<open>ring_list\<close>) and the word lemmas that the
    components share.
  \<^item> \<open>Byte_Utils\<close> (\<^verbatim>\<open>common/utility.c\<close>, \<^verbatim>\<open>utility.h\<close>): byte reversal, address and hexadecimal rendering,
    little-endian stores and loads; round trips at every width.
  \<^item> \<open>Tl_String\<close> (\<^verbatim>\<open>common/tl_string.c\<close>): the word-optimised memory routines over one memory, with alignment
    checked.  \<^verbatim>\<open>tmemcpy\<close> equals the byte loop and the copy of the whole range; comparison and filling are exact.
  \<^item> \<open>Ring_Buffer\<close> (\<^verbatim>\<open>my_ring_buffer_*\<close> of \<^verbatim>\<open>utility.c\<close>): interprets the locale \<open>byte_queue\<close>, which carries
    the bulk operations.
  \<^item> \<open>Packet_Fifo\<close>: the locale \<open>packet_fifo\<close>, the contract of a FIFO of slots (what \<open>front\<close> returns after
    \<open>put\<close> and \<open>pop\<close>, what each keeps of the invariant).  \<open>My_Fifo\<close> (\<^verbatim>\<open>my_fifo_*\<close> of \<^verbatim>\<open>utility.c\<close>) and \<open>Hci_Fifo\<close>
    (\<^verbatim>\<open>hci_fifo_t\<close> and the event senders of \<^verbatim>\<open>hci_dfu_port.c\<close>) interpret it.
  \<^item> \<open>Item_Queue\<close> (\<^verbatim>\<open>common/tl_queue.c\<close>): the linked queue over an explicit store of items.  The locale
    \<open>item_queue\<close> is interpreted twice, as a FIFO and as a stable priority queue.
  \<^item> \<open>Soft_Timer\<close> (\<^verbatim>\<open>vendor/common/blt_soft_timer.c\<close>): the timer table, its bubble sort and the processing of
    expired timers with callbacks that may call the timer interface.
  \<^item> \<open>Device_Manage\<close> (\<^verbatim>\<open>vendor/common/device_manage.c\<close>): the table of connections refines a map from
    connection handles to devices; the locale \<open>conn_table\<close> is its contract.
  \<^item> \<open>Crc\<close>: the CRC-16 of \<^verbatim>\<open>hci_h5.c\<close> and the CRC-32 of \<^verbatim>\<open>hci_dfu.c\<close>, both interpretations of
    \<open>reflected_crc\<close>, which shows that one wrong byte is always detected.
  \<^item> \<open>Hci_Slip\<close> (\<^verbatim>\<open>hci_slip.c\<close>): encoder, decoder and sender over the static buffers; the locale
    \<open>byte_stuffing\<close> gives the round trip and keeps the delimiter out of a frame.
  \<^item> \<open>Hci_H5\<close> (\<^verbatim>\<open>hci_h5.c\<close>): packet headers, link establishment (\<open>h5_link_step\<close> is the abstract state machine,
    \<open>h5_link_outcome\<close> adds the replies on the wire, the restart and the agreed configuration; the handler of link packets
    implements them), sequence numbers, resending and the main loop.
  \<^item> \<open>Hci_Tr_H4\<close> (\<^verbatim>\<open>hci_tr_h4.c\<close>) and \<open>Hci_Tr_H5\<close> (\<^verbatim>\<open>hci_tr_h5.c\<close>): the two UART receivers.  \<open>h4_run\<close> is the
    interleaving of arriving chunks, calls of the handler that use up their chunk and reads by the controller; whatever
    it is, the packets delivered are those of the byte stream.  A call that fills the FIFO inside a chunk repeats packets.
  \<^item> \<open>Hci_Tr\<close> (\<^verbatim>\<open>hci_tr.c\<close>): initialization, main loop, dispatch and transmission for both transports.
  \<^item> \<open>Nor_Flash\<close> (\<^verbatim>\<open>drivers/B91/flash.c\<close>): page-splitting write, read and erase on a model of the chip, in which
    programming only clears bits and wraps inside a 256-byte page.  The locale \<open>nor_flash\<close> is what the download
    relies on.
  \<^item> \<open>Hci_Dfu\<close> (\<^verbatim>\<open>hci_dfu.c\<close>): the command handlers, the dispatcher and the task.  A complete download leaves
    exactly the image in the flash; the boot flags change only after the whole image has been verified;
    nothing is written outside the download area.
  \<^item> \<open>Flash_Area\<close>: one sector area of the flash seen as a byte list, for the components that keep tables in it, and
    \<open>Simple_Sdp\<close> (\<^verbatim>\<open>vendor/common/simple_sdp.c\<close>): the table of peer handles in the flash, which refines a map from
    peers to handles, and the search for attribute handles by UUID.
  \<^item> \<open>Usb_Port\<close>, \<open>Usbd_Class\<close>, \<open>Usbd_Core\<close>, \<open>Usb_Requests\<close> (\<^verbatim>\<open>common/tl_usb\<close>): the TL322X port and its interrupt
    handlers, the HID, CDC and audio class handlers, the core with its control requests, and their properties: memory
    safety of well-addressed requests, the abstract device state machine, the endpoints a configuration opens.
  \<^item> \<open>Usb_Hw\<close> (\<^verbatim>\<open>drivers/B91/usbhw.h\<close>, \<^verbatim>\<open>usbhw.c\<close>): endpoint buffers with their pointer, data and control registers.
    \<open>Usb_Aud\<close> (\<^verbatim>\<open>app/usbaud.c\<close>), \<open>Usb_Cdc\<close> (\<^verbatim>\<open>app/usbcdc.c\<close>) and \<open>Usb_Std\<close> (\<^verbatim>\<open>usbstd/usb.c\<close>, strings of \<^verbatim>\<open>usbdesc.c\<close>)
    extend its record by their state.  \<open>usb_ok\<close> is the invariant of the device, \<open>requested_desc\<close> the descriptor a
    request names and \<open>sending\<close> the rest of a response; the locale \<open>host_setting\<close> is the contract of a setting that a
    host writes and reads, interpreted on idle rate, protocol, line coding and speaker volume; the framing of serial data is stated with the host's view
    (\<open>host_transfer\<close>).
  \<^item> \<open>Kb_Scan\<close> (\<^verbatim>\<open>application/keyboard/keyboard.c\<close>): the scan of the key matrix, ghost removal, debouncing, key maps,
    repeat and the buffer of matrices.
  \<^item> \<open>Usb_Kb\<close> (\<^verbatim>\<open>app/usbkb.c\<close>, \<^verbatim>\<open>app/usbmouse.c\<close>): keyboard and mouse reports, the queue for a busy endpoint (\<open>waiting\<close>
    is its abstraction to a list of reports of both kinds) and the release of keys.

  \<^bold>\<open>Properties.\<close>
  Each theorem that states a property of the program carries its number \<open>C\<close>\<open>n\<close> in the text before it and, where
  it has hypotheses, is followed by a theorem with the suffix \<open>_witness\<close> that applies it to a concrete state.
  This theory holds what spans the components: a packet that one H5 endpoint sends is appended to the HCI
  receive FIFO of the other one, through sender, SLIP, UART chunks of any size, receiver and protocol.
  A group of properties states how the code behaves where it does less than it means to: H5 integrity checks, H4
  packets whose length field wraps, chunks that fill the FIFO, an end-of-download command without a download, USB
  requests that reach outside a table or the endpoint, and keys that are never released.  Theorems of the same
  sort without a number state a free length of the ring buffer that is one too large, FIFO checks that accept one
  byte or one slot too many and H5 payloads above 255 bytes.

  \<^bold>\<open>Bounds and termination.\<close>
  No definition has a fuel argument.  Loops that end are recursive functions with a termination proof.  The
  two walks of the linked queue and the three receive loops, which end only on well-formed states, are partial
  functions into \<open>option\<close>; the properties about them prove that they return.  The one state on which the H4 loop
  does not return is a property of its own.  The sizes are those of the repository's default configuration:
  HCI buffers of 300 bytes (\<^verbatim>\<open>HCI_TR_RX_BUF_SIZE\<close>, \<^verbatim>\<open>HCI_TR_TX_BUF_SIZE\<close>), a SLIP decode buffer of 308 and an
  encode buffer of 620 bytes, four timers, eight connections, a USB control endpoint of eight bytes (B91) and
  serial packets of 64 bytes.  The build options of the USB application and of the keyboard are records, so that
  their properties hold for every combination of the options that the record has.

  \<^bold>\<open>Not modelled.\<close>
  The controller and host stack is a library without source; its headers (\<^verbatim>\<open>stack/ble\<close>) give the types of
  the parameters above.  The chip drivers (\<^verbatim>\<open>drivers\<close>) other than the flash driver and the USB endpoint registers
  set registers, and what they compute is in the hardware.  FreeRTOS (\<^verbatim>\<open>3rd-party\<close>) is vendored.  The
  demonstrations under \<^verbatim>\<open>vendor\<close> configure the stack.  Debug output (\<^verbatim>\<open>common/usb_dbg\<close> included), EMI tests, battery
  measurement and board tables have no state that the modelled parts depend on.  Register setup in the
  initializers of the UART receivers and of the USB ports is left out, as are the USB descriptor tables (a
  parameter of \<open>Usb_Std\<close>), mass storage, the somatic sensor and the Microsoft OS descriptors, whose options are off.
  Flash protection and the firmware check at start-up depend on vendor tables and the AES engine.
\<close>

section \<open>From one H5 endpoint to the other\<close>

text \<open>What \<open>HCI_H5_Send\<close> puts on the wire for a short packet is a frame the receiver accepts.\<close>

lemma h5_wire_frame:
  assumes "h5_wf a" "uart_takes env a" "dataIntgrtChkType (h5_config a) = 0" "length payload \<le> 122"
    and "HCI_H5_Send env ty payload a = Some (res, a')" "wire a' = wire a @ [fr]"
  shows "h5t_frame fr"
proof -
  let ?p = "h5_packet ty payload a"
  have fr: "fr = SLIP_DELIMITER # stuff (slip_esc (oofEnable (slip a))) ?p @ [SLIP_DELIMITER]"
    using HCI_H5_Send_wf [OF assms(1), of payload env ty] assms(2,4-6) by (auto simp: slip_frame_def)
  have "length ?p = 4 + length payload"
    using HCI_H5_PackHeader_valid by (simp add: h5_packet_no_crc [OF assms(3)])
  then show ?thesis using assms(4) slip.stuff_length [of ?p "oofEnable (slip a)"] slip.stuff_no_delim [of "oofEnable (slip a)" ?p]
    unfolding fr by (simp add: h5t_frame_def)
qed

text \<open>
  C7.  The whole path of the H5 transport, without integrity check: one endpoint sends a command, data or event
  packet (a reliable type) of up to 122 payload bytes with the number the other one expects; the bytes its UART puts on
  the line arrive at the other, active side cut into chunks in any way; when these wait there alone and the HCI receive FIFO
  has room, a call of the receive handler appends the packet to that FIFO, unchanged.
\<close>

theorem h5_packet_over_uart:
  assumes a: "h5_wf a" "uart_takes env a" "dataIntgrtChkType (h5_config a) = 0"
    and b: "h5_wf b" "linkState b = HCI_H5_LINK_STATE_ACTIVE" "slidWinSize (h5_config b) = 1" "h5PktHandler (slip b) \<noteq> None"
    and ty: "HCI_H5_IsReliablePacket ty" and len: "length payload \<le> 122" and seq: "txSeq a = txAck b"
    and rx: "hf_ok (pHciRxFifo b)" "length (hf_view (pHciRxFifo b)) < unat (hf_num (pHciRxFifo b))"
      "1 + length payload \<le> unat (hf_size (pHciRxFifo b))"
    and line: "HCI_H5_Send env ty payload a = Some (True, a')" "wire a' = wire a @ [concat cs]"
    and t: "h5t_inv t [] cs" "h5t_handler t = h5_slip_handler env'" "h5t_up t = (now, b)" "h5t_flushTimer t = 0"
  shows "\<exists>t' b' rest. HCI_Tr_H5RxHandler now t = Some t' \<and> h5t_inv t' [] [] \<and> h5t_up t' = (now, b')
     \<and> hf_view (pHciRxFifo b') = hf_view (pHciRxFifo b) @ [(ty # payload) @ rest]"
proof -
  have l: "length payload < 256" using len by simp
  obtain b' rest where b': "h5_receive env' now (concat cs) b = Some b'"
      "hf_view (pHciRxFifo b') = hf_view (pHciRxFifo b) @ [(ty # payload) @ rest]"
    using h5_deliver [OF a b ty l seq rx, of env' now] line by auto
  have fr: "h5t_frame (concat cs)" by (rule h5_wire_frame [OF a len line])
  have "h5t_feed (h5t_handler t) [concat cs] (h5t_up t) = Some (now, b')"
    using b'(1) t(2,3) by (simp add: h5_slip_handler_def)
  moreover have "h5t_frame ([] @ concat cs)" "concat cs \<noteq> []" using fr h5t_frame_nonempty(1) by (simp, blast)
  ultimately obtain t' where "h5t_rx_all now t = Some t'" "h5t_inv t' [] []" "h5t_up t' = (now, b')"
    using h5t_rx_all_ok [OF t(1), of "[concat cs]" "[]" "concat cs" "(now, b')" now] fr by auto
  then show ?thesis using b'(2) t(4) by (auto simp: HCI_Tr_H5RxHandler_def HCI_Tr_H5FlushHandler_def)
qed


theorem h5_packet_over_uart_witness:
  "\<exists>a' cs (t :: (u32 \<times> h5_state) HciH5TrCb_t) t' b' rest. HCI_H5_Send uart_ready 1 [3, 0x0C, 0] (h5_example HCI_H5_LINK_STATE_ACTIVE) = Some (True, a')
     \<and> wire a' = [concat cs] \<and> h5t_inv t [] cs \<and> HCI_Tr_H5RxHandler 9 t = Some t' \<and> h5t_up t' = (9, b')
     \<and> hf_view (pHciRxFifo b') = [[1, 3, 0x0C, 0] @ rest]"
proof -
  let ?a = "h5_example HCI_H5_LINK_STATE_ACTIVE"
  have ty: "HCI_H5_IsReliablePacket 1" by (simp add: reliable_types)
  obtain a' fr where a': "HCI_H5_Send uart_ready 1 [3, 0x0C, 0] ?a = Some (True, a')" "wire a' = wire ?a @ [fr]"
    using h5_deliver [of ?a uart_ready ?a 1 "[3, 0x0C, 0]" uart_ready 9] ty by (auto simp: h5_example_ok)
  have fr: "h5t_frame fr" by (rule h5_wire_frame [OF _ _ _ _ a']) (simp_all add: h5_example_ok)
  then have "fr \<noteq> []" "length fr \<le> 1244" using h5t_frame_nonempty [OF fr] by simp_all
  then obtain t where t: "h5t_inv t [] [fr]" "h5t_up t = (9, ?a)" "h5t_handler t = h5_slip_handler uart_ready" "h5t_flushTimer t = 0"
    using h5t_fresh_chunk by metis
  have "wire a' = wire ?a @ [concat [fr]]" using a'(2) by simp
  from h5_packet_over_uart [OF _ _ _ _ _ _ _ ty _ _ _ _ _ a'(1) this t(1,3,2,4)] obtain t' b' rest where
    "HCI_Tr_H5RxHandler 9 t = Some t'" "h5t_up t' = (9, b')" "hf_view (pHciRxFifo b') = [[1, 3, 0x0C, 0] @ rest]"
    by (auto simp: h5_example_ok)
  with a' t(1) show ?thesis by (intro exI [of _ a'] exI [of _ "[fr]"] exI [of _ t] exI [of _ t'] exI [of _ b'] exI [of _ rest]) (simp add: h5_example_ok)
qed

end
